(* ===== verification/Prelude.thy ===== *)
theory Prelude
  imports Main "HOL-Library.Word"
begin

text \<open>
  Shared material of the ONX development: the machine types of the Rust sources, results of
  fallible functions, Rust's checked, saturating and profile-dependent arithmetic, byte slices,
  big-endian encodings, ordered maps, and the interface of a canonical fixed-width codec.
\<close>

section \<open>Collections and types\<close>

named_theorems codec_simps \<open>lengths and decodings of the canonical encodings\<close>
named_theorems result_simps \<open>unfolding of results of fallible functions\<close>

type_synonym byte = "8 word"
type_synonym bytes = "byte list"
type_synonym u8 = "8 word"
type_synonym u16 = "16 word"
type_synonym u32 = "32 word"
type_synonym u64 = "64 word"
type_synonym u128 = "128 word"
type_synonym u256 = "256 word"
type_synonym hash32 = "256 word"

section \<open>Results\<close>

text \<open>
  A Rust \<open>Result\<close> is a sum with the error on the left. The \<open>?\<close> operator is
  \<^term>\<open>bindR\<close>; \<open>map_err\<close> is \<^term>\<open>map_err\<close>; \<open>ok_or\<close> is \<^term>\<open>ok_or\<close>.
\<close>

definition bindR :: "'e + 'a \<Rightarrow> ('a \<Rightarrow> 'e + 'b) \<Rightarrow> 'e + 'b" where
  "bindR r f = (case r of Inl e \<Rightarrow> Inl e | Inr x \<Rightarrow> f x)"

definition map_err :: "('e \<Rightarrow> 'f) \<Rightarrow> 'e + 'a \<Rightarrow> 'f + 'a" where
  "map_err g r = (case r of Inl e \<Rightarrow> Inl (g e) | Inr x \<Rightarrow> Inr x)"

definition ok_or :: "'a option \<Rightarrow> 'e \<Rightarrow> 'e + 'a" where
  "ok_or m e = (case m of None \<Rightarrow> Inl e | Some x \<Rightarrow> Inr x)"

definition is_ok :: "'e + 'a \<Rightarrow> bool" where
  "is_ok r = (case r of Inl _ \<Rightarrow> False | Inr _ \<Rightarrow> True)"

lemma bindR_simps [simp, result_simps]:
  "bindR (Inl e) f = Inl e" "bindR (Inr x) f = f x"
  by (simp_all add: bindR_def)

lemma bindR_cong [fundef_cong]:
  "r = r' \<Longrightarrow> (\<And>x. r' = Inr x \<Longrightarrow> f x = f' x) \<Longrightarrow> bindR r f = bindR r' f'"
  by (cases r') auto

lemma bindR_Inr [result_simps]: "bindR r f = Inr y \<longleftrightarrow> (\<exists>x. r = Inr x \<and> f x = Inr y)"
  by (cases r) auto

lemma bindR_assoc: "bindR (bindR r f) g = bindR r (\<lambda>x. bindR (f x) g)"
  by (cases r) simp_all

lemma map_err_simps [simp, result_simps]:
  "map_err g (Inl e) = Inl (g e)" "map_err g (Inr x) = Inr x"
  by (simp_all add: map_err_def)

lemma map_err_Inr [simp, result_simps]: "map_err g r = Inr x \<longleftrightarrow> r = Inr x"
  by (cases r) auto

lemma ok_or_simps [simp, result_simps]:
  "ok_or None e = Inl e" "ok_or (Some x) e = Inr x"
  by (simp_all add: ok_or_def)

lemma ok_or_Inr [result_simps]: "ok_or m e = Inr x \<longleftrightarrow> m = Some x"
  by (cases m) auto

lemma is_ok_simps [simp]: "is_ok (Inl e) = False" "is_ok (Inr x) = True"
  by (simp_all add: is_ok_def)

lemma is_ok_iff: "is_ok r \<longleftrightarrow> (\<exists>x. r = Inr x)"
  by (cases r) auto

section \<open>Rust arithmetic\<close>

text \<open>
  \<open>checked_*\<close> return \<open>None\<close> on overflow and \<open>saturating_*\<close> clamp. A plain
  \<open>+\<close>, \<open>-\<close> or \<open>*\<close> panics on overflow in a build with overflow checks (the dev profile) and
  wraps in one without (the release profile); the workspace sets neither, so the model takes
  the profile as an argument where it matters.
\<close>

datatype profile = Dev | Release

definition checked_add :: "'a::len word \<Rightarrow> 'a word \<Rightarrow> 'a word option" where
  "checked_add a b = (if unat a + unat b < 2 ^ LENGTH('a) then Some (a + b) else None)"

definition checked_sub :: "'a::len word \<Rightarrow> 'a word \<Rightarrow> 'a word option" where
  "checked_sub a b = (if b \<le> a then Some (a - b) else None)"

definition checked_mul :: "'a::len word \<Rightarrow> 'a word \<Rightarrow> 'a word option" where
  "checked_mul a b = (if unat a * unat b < 2 ^ LENGTH('a) then Some (a * b) else None)"

definition saturating_add :: "'a::len word \<Rightarrow> 'a word \<Rightarrow> 'a word" where
  "saturating_add a b = (if unat a + unat b < 2 ^ LENGTH('a) then a + b else - 1)"

definition saturating_sub :: "'a::len word \<Rightarrow> 'a word \<Rightarrow> 'a word" where
  "saturating_sub a b = (if b \<le> a then a - b else 0)"

definition saturating_mul :: "'a::len word \<Rightarrow> 'a word \<Rightarrow> 'a word" where
  "saturating_mul a b = (if unat a * unat b < 2 ^ LENGTH('a) then a * b else - 1)"

text \<open>Plain operators: \<open>None\<close> is the panic of the dev profile.\<close>

definition plain_mul :: "profile \<Rightarrow> 'a::len word \<Rightarrow> 'a word \<Rightarrow> 'a word option" where
  "plain_mul p a b =
     (if unat a * unat b < 2 ^ LENGTH('a) then Some (a * b)
      else case p of Dev \<Rightarrow> None | Release \<Rightarrow> Some (a * b))"

definition plain_add :: "profile \<Rightarrow> 'a::len word \<Rightarrow> 'a word \<Rightarrow> 'a word option" where
  "plain_add p a b =
     (if unat a + unat b < 2 ^ LENGTH('a) then Some (a + b)
      else case p of Dev \<Rightarrow> None | Release \<Rightarrow> Some (a + b))"

definition plain_sub :: "profile \<Rightarrow> 'a::len word \<Rightarrow> 'a word \<Rightarrow> 'a word option" where
  "plain_sub p a b = (if b \<le> a then Some (a - b) else case p of Dev \<Rightarrow> None | Release \<Rightarrow> Some (a - b))"

definition checked_mul_usize :: "nat \<Rightarrow> nat \<Rightarrow> nat option" where
  "checked_mul_usize a b = (if a * b < 2 ^ 64 then Some (a * b) else None)"

definition checked_add_usize :: "nat \<Rightarrow> nat \<Rightarrow> nat option" where
  "checked_add_usize a b = (if a + b < 2 ^ 64 then Some (a + b) else None)"

abbreviation usize_max :: nat where
  "usize_max \<equiv> 2 ^ 64 - 1"

definition div_ceil :: "nat \<Rightarrow> nat \<Rightarrow> nat" where
  "div_ceil a b = (a + b - 1) div b"

lemma checked_add_Some:
  "checked_add a b = Some c \<longleftrightarrow> unat a + unat b < 2 ^ LENGTH('a) \<and> c = (a :: 'a::len word) + b"
  by (auto simp: checked_add_def)

lemma unat_add_no_overflow:
  "unat a + unat b < 2 ^ LENGTH('a) \<Longrightarrow> unat (a + b :: 'a::len word) = unat a + unat b"
  by (simp add: unat_word_ariths)

lemma unat_mult_no_overflow:
  "unat a * unat b < 2 ^ LENGTH('a) \<Longrightarrow> unat (a * b :: 'a::len word) = unat a * unat b"
  by (simp add: unat_word_ariths)

lemma unat_max_word: "unat (- 1 :: 'a::len word) = 2 ^ LENGTH('a) - 1"
  by (simp add: unsigned_minus_1_eq_mask mask_eq_exp_minus_1)

lemma unat_byte_less: "unat (b :: byte) < 256"
  using unsigned_less [where ?'a = nat and w = b] by simp

lemma min_less_exp: "min n ((2::nat) ^ k - 1) = (if n < 2 ^ k then n else 2 ^ k - 1)"
  using zero_less_power [of "2::nat" k] by (auto simp: min_def simp del: zero_less_power)

lemma unat_saturating_add:
  "unat (saturating_add a (b :: 'a::len word)) = min (unat a + unat b) (2 ^ LENGTH('a) - 1)"
  by (simp add: saturating_add_def unat_add_no_overflow unat_max_word min_less_exp)

lemma unat_saturating_sub:
  "unat (saturating_sub a (b :: 'a::len word)) = unat a - unat b"
  by (auto simp: saturating_sub_def unat_sub word_le_nat_alt)

lemma unat_saturating_mul:
  "unat (saturating_mul a (b :: 'a::len word)) = min (unat a * unat b) (2 ^ LENGTH('a) - 1)"
  by (simp add: saturating_mul_def unat_mult_no_overflow unat_max_word min_less_exp)

section \<open>Slices\<close>

text \<open>\<open>&xs[a..b]\<close> for indices the caller has checked.\<close>

definition subslice :: "nat \<Rightarrow> nat \<Rightarrow> 'a list \<Rightarrow> 'a list" where
  "subslice a b xs = take (b - a) (drop a xs)"

lemma length_subslice [simp]: "length (subslice a b xs) = min (b - a) (length xs - a)"
  by (auto simp: subslice_def)

lemma subslice_skip:
  "length xs \<le> a \<Longrightarrow> subslice a b (xs @ ys) = subslice (a - length xs) (b - length xs) ys"
  by (auto simp: subslice_def)

lemma subslice_Cons: "0 < a \<Longrightarrow> subslice a b (x # xs) = subslice (a - 1) (b - 1) xs"
  by (cases a) (simp_all add: subslice_def)

lemma subslice_here: "length xs = b \<Longrightarrow> subslice 0 b (xs @ ys) = xs"
  by (simp add: subslice_def)

lemma subslice_all: "length xs \<le> b \<Longrightarrow> subslice 0 b xs = xs"
  by (simp add: subslice_def)

lemma subslice_join: "a \<le> b \<Longrightarrow> b \<le> c \<Longrightarrow> subslice a b xs @ subslice b c xs = subslice a c xs"
proof -
  assume ab: "a \<le> b" and bc: "b \<le> c"
  then have "take (c - a) (drop a xs) = take (b - a) (drop a xs) @ take (c - b) (drop (b - a) (drop a xs))"
    by (metis Nat.add_diff_assoc2 add.commute diff_add_inverse2 le_add_diff_inverse take_add)
  with ab show ?thesis by (simp add: subslice_def)
qed

lemma subslice_first: "xs \<noteq> [] \<Longrightarrow> subslice 0 1 xs = [xs ! 0]"
  by (cases xs) (simp_all add: subslice_def)

lemmas subslice_simps = subslice_skip subslice_Cons subslice_here subslice_all

section \<open>Big-endian encodings\<close>

fun be_val :: "bytes \<Rightarrow> nat" where
  "be_val [] = 0"
| "be_val (b # bs) = unat b * 256 ^ length bs + be_val bs"

fun nat_be :: "nat \<Rightarrow> nat \<Rightarrow> bytes" where
  "nat_be 0 x = []"
| "nat_be (Suc n) x = word_of_nat (x div 256 ^ n) # nat_be n x"

text \<open>\<open>to_be_bytes\<close> and \<open>from_be_bytes\<close> of the integer type whose width is that of the word type.\<close>

definition to_be :: "'a::len word \<Rightarrow> bytes" where
  "to_be w = nat_be (LENGTH('a) div 8) (unat w)"

definition from_be :: "bytes \<Rightarrow> 'a::len word" where
  "from_be bs = word_of_nat (be_val bs)"

lemma length_nat_be [simp]: "length (nat_be n x) = n"
  by (induction n) auto

lemma be_val_less: "be_val bs < 256 ^ length bs"
proof (induction bs)
  case (Cons b bs)
  have "unat b < 256"
    by (rule unat_byte_less)
  then have "unat b * 256 ^ length bs + 256 ^ length bs \<le> 256 * 256 ^ length bs"
    by (metis Suc_leI add.commute mult_Suc mult_le_mono1)
  with Cons.IH show ?case
    by (simp only: be_val.simps list.size power_Suc add_0_right add_Suc_right)
qed simp

lemma be_val_nat_be: "be_val (nat_be n x) = x mod 256 ^ n"
proof (induction n)
  case (Suc n)
  have "unat (word_of_nat (x div 256 ^ n) :: byte) = x div 256 ^ n mod 256"
    by (simp add: unat_word_ariths unsigned_of_nat take_bit_eq_mod)
  moreover have "x mod 256 ^ Suc n = 256 ^ n * (x div 256 ^ n mod 256) + x mod 256 ^ n"
    by (metis mod_mult2_eq power_Suc2)
  ultimately show ?case using Suc by (simp add: mult.commute)
qed simp

lemma nat_be_mod: "k \<le> n \<Longrightarrow> nat_be k (x mod 256 ^ n) = nat_be k x"
proof (induction k)
  case (Suc k)
  have "(word_of_nat (x mod 256 ^ n div 256 ^ k) :: byte) = word_of_nat (x div 256 ^ k)"
  proof -
    have "x mod 256 ^ n div 256 ^ k mod 256 = x div 256 ^ k mod 256"
    proof -
      have "(256::nat) ^ n = 256 ^ k * (256 * 256 ^ (n - Suc k))"
        using Suc.prems by (metis le_add_diff_inverse power_Suc power_add mult.assoc power_Suc2)
      then have "x mod 256 ^ n div 256 ^ k = x div 256 ^ k mod (256 * 256 ^ (n - Suc k))"
        by (simp add: mod_mult2_eq)
      then show ?thesis by (simp add: mod_mult2_eq)
    qed
    then show ?thesis
      by (simp add: word_of_nat_eq_iff take_bit_eq_mod)
  qed
  with Suc show ?case by simp
qed simp

lemma nat_be_be_val: "nat_be (length bs) (be_val bs) = bs"
proof (induction bs)
  case (Cons b bs)
  have less: "be_val bs < 256 ^ length bs" by (rule be_val_less)
  then have "(unat b * 256 ^ length bs + be_val bs) div 256 ^ length bs = unat b"
    by simp
  moreover have "nat_be (length bs) (unat b * 256 ^ length bs + be_val bs) = nat_be (length bs) (be_val bs)"
    using nat_be_mod [of "length bs" "length bs" "unat b * 256 ^ length bs + be_val bs"] less
    by simp
  ultimately show ?case using Cons by simp
qed simp

lemma length_to_be [simp]: "length (to_be (w :: 'a::len word)) = LENGTH('a) div 8"
  by (simp add: to_be_def)

lemma exp_256: "8 dvd LENGTH('a::len) \<Longrightarrow> (256::nat) ^ (LENGTH('a) div 8) = 2 ^ LENGTH('a)"
  by (auto elim!: dvdE simp: power_mult)

lemma from_be_to_be: "8 dvd LENGTH('a) \<Longrightarrow> from_be (to_be w) = (w :: 'a::len word)"
  using unsigned_less [where ?'a = nat and w = w]
  by (simp add: from_be_def to_be_def be_val_nat_be exp_256)

lemma to_be_from_be:
  "8 dvd LENGTH('a) \<Longrightarrow> length bs = LENGTH('a) div 8 \<Longrightarrow> to_be (from_be bs :: 'a::len word) = bs"
  using be_val_less [of bs] nat_be_be_val [of bs]
  by (simp add: from_be_def to_be_def exp_256 unsigned_of_nat take_bit_eq_mod)

end
