(* ===== verification/Codecs.thy ===== *)
theory Codecs
  imports Prelude
begin

text \<open>
  The two interfaces the wire formats of ONX are built on. A \<open>fixed_codec\<close> is a canonical
  fixed-width encoding with a strict decoder (\<open>decode_exact\<close>, \<open>from_bytes\<close> of the fixed
  layouts): the decoder accepts exactly the encodings of valid values. A \<open>stream_codec\<close> is a
  self-delimiting encoding whose decoder reports the bytes it consumed (\<open>Cell::from_bytes\<close>,
  \<open>AccountState::from_bytes\<close>). Both are interpreted on the model's own encoders.
\<close>

section \<open>Loops over fixed-width entries\<close>

text \<open>
  The loop \<open>for _ in 0..count { push(dec(&bytes[offset..offset + w])?); offset += w }\<close> on the
  bytes that follow the count prefix.
\<close>

fun decode_entries :: "(bytes \<Rightarrow> 'e + 'a) \<Rightarrow> nat \<Rightarrow> nat \<Rightarrow> bytes \<Rightarrow> 'e + 'a list" where
  "decode_entries dec w 0 bs = Inr []"
| "decode_entries dec w (Suc n) bs =
     bindR (dec (take w bs)) (\<lambda>x.
     bindR (decode_entries dec w n (drop w bs)) (\<lambda>xs. Inr (x # xs)))"

section \<open>Fixed-width codecs\<close>

locale fixed_codec =
  fixes enc :: "'a \<Rightarrow> bytes"
    and dec :: "bytes \<Rightarrow> 'e + 'a"
    and width :: nat
    and valid :: "'a \<Rightarrow> bool"
  assumes enc_length: "length (enc x) = width"
    and dec_enc: "valid x \<Longrightarrow> dec (enc x) = Inr x"
    and dec_sound: "dec bs = Inr x \<Longrightarrow> valid x \<and> bs = enc x"
begin

lemma dec_iff: "dec bs = Inr x \<longleftrightarrow> valid x \<and> bs = enc x"
  using dec_enc dec_sound by blast

lemma dec_length: "dec bs = Inr x \<Longrightarrow> length bs = width"
  using dec_sound enc_length by metis

lemma enc_inj: "valid x \<Longrightarrow> valid y \<Longrightarrow> enc x = enc y \<Longrightarrow> x = y"
  by (metis Inr_inject dec_enc)

lemma length_concat_enc: "length (concat (map enc xs)) = width * length xs"
  by (induction xs) (auto simp: enc_length)

lemma decode_entries_concat:
  "list_all valid xs \<Longrightarrow>
     decode_entries dec width (length xs) (concat (map enc xs) @ rest) = Inr xs"
  by (induction xs) (auto simp: enc_length dec_enc)

lemma decode_entries_sound:
  "decode_entries dec width n bs = Inr xs \<Longrightarrow>
     length xs = n \<and> list_all valid xs \<and> take (width * n) bs = concat (map enc xs)"
proof (induction n arbitrary: bs xs)
  case (Suc n)
  then obtain x ys where x: "dec (take width bs) = Inr x"
    and ys: "decode_entries dec width n (drop width bs) = Inr ys" and xs: "xs = x # ys"
    by (auto simp: bindR_Inr)
  have "take (width * Suc n) bs = take width bs @ take (width * n) (drop width bs)"
    by (metis add.commute mult_Suc_right take_add)
  with Suc.IH [OF ys] dec_sound [OF x] xs show ?case by auto
qed simp

end

section \<open>Self-delimiting codecs\<close>

locale stream_codec =
  fixes senc :: "'a \<Rightarrow> bytes"
    and sdec :: "bytes \<Rightarrow> 'e + 'a \<times> nat"
    and svalid :: "'a \<Rightarrow> bool"
  assumes sdec_senc: "svalid x \<Longrightarrow> sdec (senc x @ rest) = Inr (x, length (senc x))"
begin

text \<open>No valid encoding is a proper prefix of another, so a concatenation reads back uniquely.\<close>

lemma senc_append_inj:
  assumes "svalid x" "svalid y" "senc x @ r = senc y @ s"
  shows "x = y \<and> r = s"
proof -
  have "Inr (x, length (senc x)) = (Inr (y, length (senc y)) :: 'e + 'a \<times> nat)"
    using sdec_senc [OF assms(1), of r] sdec_senc [OF assms(2), of s] assms(3) by simp
  then have "x = y" by simp
  with assms(3) show ?thesis by simp
qed

lemma senc_inj: "svalid x \<Longrightarrow> svalid y \<Longrightarrow> senc x = senc y \<Longrightarrow> x = y"
  using senc_append_inj [of x y "[]" "[]"] by simp

end

end
