(* ===== verification/Primitives.thy ===== *)
theory Primitives
  imports Codecs
begin

text \<open>
  \<open>crates/protocol/onx-primitives\<close>: canonical fixed-width integers (\<open>integers.rs\<close>), byte strings
  (\<open>bytes.rs\<close>), domain-separated hashing (\<open>hash.rs\<close>) and Ed25519 keys and signatures
  (\<open>signature.rs\<close>). An integer type of the macros is the word type of its width; a signed one is
  the same word read by \<^const>\<open>sint\<close>; \<open>[u8; 32]\<close> and the 32-byte newtypes are 256-bit words,
  whose big-endian bytes are the array. SHA-256 and Ed25519 are packages outside the repository
  and enter as the fields of the record \<open>crypto\<close>.
\<close>

section \<open>Errors\<close>

datatype primitive_error =
    Truncated nat nat
  | TrailingBytes nat nat
  | LengthOutOfRange nat nat
  | NonCanonicalEncoding
  | InvalidDomainTag
  | SignatureVerificationFailed

section \<open>Fixed-width integers\<close>

definition byte_len :: "'a::len itself \<Rightarrow> nat" where
  "byte_len _ = LENGTH('a) div 8"

definition encode :: "'a::len word \<Rightarrow> bytes" where
  "encode w = to_be w"

definition decode_exact :: "bytes \<Rightarrow> primitive_error + 'a::len word" where
  "decode_exact bs =
     (let n = byte_len TYPE('a) in
      if length bs < n then Inl (Truncated n (length bs))
      else if length bs > n then Inl (TrailingBytes n (length bs))
      else Inr (from_be bs))"

text \<open>\<open>read\<close> advances the cursor: the rest of the input is part of the result.\<close>

definition read_int :: "bytes \<Rightarrow> primitive_error + 'a::len word \<times> bytes" where
  "read_int cursor =
     (let n = byte_len TYPE('a) in
      if length cursor < n then Inl (Truncated n (length cursor))
      else Inr (from_be (take n cursor), drop n cursor))"

text \<open>
  \<open>Uint256\<close> and \<open>Int256\<close> have a macro of their own: their value is the array of 32 bytes itself, a
  256-bit word here. They decode and read like the other integers.
\<close>

definition wide_decode_exact :: "bytes \<Rightarrow> primitive_error + 256 word" where
  "wide_decode_exact bs =
     (if length bs < 32 then Inl (Truncated 32 (length bs))
      else if length bs > 32 then Inl (TrailingBytes 32 (length bs))
      else Inr (from_be bs))"

definition wide_read :: "bytes \<Rightarrow> primitive_error + 256 word \<times> bytes" where
  "wide_read cursor =
     (if length cursor < 32 then Inl (Truncated 32 (length cursor))
      else Inr (from_be (take 32 cursor), drop 32 cursor))"

definition UINT256_MIN :: "256 word" where
  "UINT256_MIN = from_be (replicate 32 0)"

definition UINT256_MAX :: "256 word" where
  "UINT256_MAX = from_be (replicate 32 0xff)"

definition INT256_MIN :: "256 word" where
  "INT256_MIN = from_be ((replicate 32 0)[0 := 0x80])"

definition INT256_MAX :: "256 word" where
  "INT256_MAX = from_be ((replicate 32 0xff)[0 := 0x7f])"

lemma wide_codec: "wide_decode_exact = decode_exact" "wide_read = read_int"
  by (auto simp: fun_eq_iff wide_decode_exact_def decode_exact_def wide_read_def read_int_def byte_len_def Let_def)

text \<open>The constants are the ends of the range of each type.\<close>

lemma wide_ranges:
  "UINT256_MIN = 0" "UINT256_MAX = - 1" "sint INT256_MIN = - (2 ^ 255)" "sint INT256_MAX = 2 ^ 255 - 1"
proof -
  have array: "replicate 32 b = [b, b, b, b, b, b, b, b, b, b, b, b, b, b, b, b, b, b, b, b, b, b, b, b, b, b, b, b, b, b, b, b]" for b :: byte
    by (simp add: numeral_eq_Suc)
  show "UINT256_MIN = 0" "UINT256_MAX = - 1" "sint INT256_MIN = - (2 ^ 255)" "sint INT256_MAX = 2 ^ 255 - 1"
    by (simp_all add: UINT256_MIN_def UINT256_MAX_def INT256_MIN_def INT256_MAX_def from_be_def array)
qed

section \<open>Byte strings\<close>

definition fixed_decode_exact :: "nat \<Rightarrow> bytes \<Rightarrow> primitive_error + bytes" where
  "fixed_decode_exact n bs =
     (if length bs < n then Inl (Truncated n (length bs))
      else if length bs > n then Inl (TrailingBytes n (length bs))
      else Inr bs)"

definition fixed_read :: "nat \<Rightarrow> bytes \<Rightarrow> primitive_error + bytes \<times> bytes" where
  "fixed_read n cursor =
     (if length cursor < n then Inl (Truncated n (length cursor))
      else Inr (take n cursor, drop n cursor))"

record bounded_bytes =
  payload :: bytes
  max_len :: nat

definition bounded_new :: "bytes \<Rightarrow> nat \<Rightarrow> primitive_error + bounded_bytes" where
  "bounded_new p m =
     (if length p > m then Inl (LengthOutOfRange (length p) m)
      else Inr \<lparr>payload = p, max_len = m\<rparr>)"

text \<open>The prefix type of the macro is the first argument: \<open>u16\<close> or \<open>u32\<close>.\<close>

definition bounded_encode :: "'p::len itself \<Rightarrow> bounded_bytes \<Rightarrow> bytes" where
  "bounded_encode _ b = to_be (word_of_nat (length (payload b)) :: 'p word) @ payload b"

definition bounded_read ::
  "'p::len itself \<Rightarrow> bytes \<Rightarrow> nat \<Rightarrow> primitive_error + bounded_bytes \<times> bytes" where
  "bounded_read t cursor m =
     (let pre = byte_len t in
      if length cursor < pre then Inl (Truncated pre (length cursor))
      else
        let rest = drop pre cursor;
            declared = unat (from_be (take pre cursor) :: 'p word)
        in if declared > m then Inl (LengthOutOfRange declared m)
           else if length rest < declared then Inl (Truncated declared (length rest))
           else Inr (\<lparr>payload = take declared rest, max_len = m\<rparr>, drop declared rest))"

definition bounded_decode_exact ::
  "'p::len itself \<Rightarrow> bytes \<Rightarrow> nat \<Rightarrow> primitive_error + bounded_bytes" where
  "bounded_decode_exact t bs m =
     bindR (bounded_read t bs m) (\<lambda>(v, cursor).
       if cursor \<noteq> [] then Inl (TrailingBytes (length bs - length cursor) (length bs))
       else Inr v)"

section \<open>Domain tags and hashing\<close>

text \<open>A tag is its 32 bytes; \<open>from_ascii\<close> is \<open>None\<close> where its assertion fails.\<close>

type_synonym domain_tag = bytes

definition ascii :: "string \<Rightarrow> bytes" where
  "ascii s = map (\<lambda>c. word_of_nat (of_char c)) s"

definition from_ascii :: "string \<Rightarrow> domain_tag option" where
  "from_ascii s =
     (if length s \<le> 32 then Some (ascii s @ replicate (32 - length s) 0) else None)"

definition tag_decode_exact :: "bytes \<Rightarrow> primitive_error + domain_tag" where
  "tag_decode_exact bs = (if length bs \<noteq> 32 then Inl InvalidDomainTag else Inr bs)"

text \<open>A tag of a literal that satisfies the assertion.\<close>

definition tag_of :: "string \<Rightarrow> domain_tag" where
  "tag_of s = ascii s @ replicate (32 - length s) 0"

definition BLOCK_HEADER_V1 :: domain_tag where
  "BLOCK_HEADER_V1 = tag_of ''ONX_BLK_HDR_V1''"

definition TX_BODY_V1 :: domain_tag where
  "TX_BODY_V1 = tag_of ''ONX_TX_BODY_V1''"

definition VALIDATOR_SIGN_V1 :: domain_tag where
  "VALIDATOR_SIGN_V1 = tag_of ''ONX_VALIDATOR_SIGN_V1''"

type_synonym public_key = "256 word"
type_synonym signature = "512 word"

text \<open>
  The packages \<open>sha2\<close> and \<open>ed25519-dalek\<close>: the digest of a byte string, the acceptance of a
  32-byte public-key encoding, strict verification of a 64-byte signature, and the public key and
  the signatures of a 32-byte secret seed. A key or signature
  object is represented by its encoding, which is what the packages compare and return.
\<close>

record crypto =
  sha256_digest :: "bytes \<Rightarrow> hash32"
  vk_from_bytes :: "256 word \<Rightarrow> bool"
  verify_strict :: "public_key \<Rightarrow> bytes \<Rightarrow> signature \<Rightarrow> bool"
  sk_verifying_key :: "256 word \<Rightarrow> public_key"
  sk_sign :: "256 word \<Rightarrow> bytes \<Rightarrow> signature"

definition sha256 :: "crypto \<Rightarrow> bytes \<Rightarrow> hash32" where
  "sha256 cr data = sha256_digest cr data"

definition domain_hash :: "crypto \<Rightarrow> domain_tag \<Rightarrow> bytes \<Rightarrow> hash32" where
  "domain_hash cr tag data = sha256_digest cr (tag @ data)"

section \<open>Keys and signatures\<close>

definition domain_separated_message :: "domain_tag \<Rightarrow> bytes \<Rightarrow> bytes" where
  "domain_separated_message tag message = tag @ message"

definition pk_decode_exact :: "crypto \<Rightarrow> bytes \<Rightarrow> primitive_error + public_key" where
  "pk_decode_exact cr bs =
     (if length bs < 32 then Inl (Truncated 32 (length bs))
      else if length bs > 32 then Inl (TrailingBytes 32 (length bs))
      else if vk_from_bytes cr (from_be bs) then Inr (from_be bs)
      else Inl NonCanonicalEncoding)"

definition sig_decode_exact :: "bytes \<Rightarrow> primitive_error + signature" where
  "sig_decode_exact bs =
     (if length bs < 64 then Inl (Truncated 64 (length bs))
      else if length bs > 64 then Inl (TrailingBytes 64 (length bs))
      else Inr (from_be bs))"

definition verify ::
  "crypto \<Rightarrow> public_key \<Rightarrow> domain_tag \<Rightarrow> bytes \<Rightarrow> signature \<Rightarrow> primitive_error + unit" where
  "verify cr pk tag message sg =
     (if verify_strict cr pk (domain_separated_message tag message) sg then Inr ()
      else Inl SignatureVerificationFailed)"

definition sk_from_seed :: "bytes \<Rightarrow> primitive_error + 256 word" where
  "sk_from_seed bs =
     (if length bs < 32 then Inl (Truncated 32 (length bs))
      else if length bs > 32 then Inl (TrailingBytes 32 (length bs))
      else Inr (from_be bs))"

definition sk_public_key :: "crypto \<Rightarrow> 256 word \<Rightarrow> public_key" where
  "sk_public_key cr sk = sk_verifying_key cr sk"

definition sign :: "crypto \<Rightarrow> 256 word \<Rightarrow> domain_tag \<Rightarrow> bytes \<Rightarrow> signature" where
  "sign cr sk tag message = sk_sign cr sk (domain_separated_message tag message)"

text \<open>What the signature package documents: a signature verifies under the key it was made for.\<close>

definition signs_correctly :: "crypto \<Rightarrow> bool" where
  "signs_correctly cr \<longleftrightarrow> (\<forall>sk m. verify_strict cr (sk_verifying_key cr sk) m (sk_sign cr sk m))"

text \<open>Packages for concrete instances: the digest of a byte string is its length.\<close>

definition toy_crypto :: crypto where
  "toy_crypto = \<lparr>sha256_digest = (\<lambda>bs. word_of_nat (length bs)), vk_from_bytes = (\<lambda>_. True),
     verify_strict = (\<lambda>_ _ _. True), sk_verifying_key = (\<lambda>sk. sk), sk_sign = (\<lambda>_ _. 0)\<rparr>"

section \<open>Canonical integers\<close>

text \<open>The widths the macros instantiate are whole numbers of bytes.\<close>

lemma length_encode [simp, codec_simps]: "length (encode (w :: 'a::len word)) = LENGTH('a) div 8"
  by (simp add: encode_def)

lemma from_be_encode [simp]: "8 dvd LENGTH('a) \<Longrightarrow> from_be (encode w) = (w :: 'a::len word)"
  by (simp add: encode_def from_be_to_be)

lemma encode_from_be:
  "8 dvd LENGTH('a) \<Longrightarrow> length bs = LENGTH('a) div 8 \<Longrightarrow> encode (from_be bs :: 'a::len word) = bs"
  by (simp add: encode_def to_be_from_be)

lemma decode_exact_iff:
  "8 dvd LENGTH('a) \<Longrightarrow> decode_exact bs = Inr (w :: 'a::len word) \<longleftrightarrow> bs = encode w"
  by (auto simp: decode_exact_def byte_len_def encode_def from_be_to_be to_be_from_be Let_def)

lemma decode_exact_encode [simp]:
  "8 dvd LENGTH('a) \<Longrightarrow> decode_exact (encode (w :: 'a::len word)) = Inr w"
  by (simp add: decode_exact_iff)

lemma read_int_encode [simp]:
  "8 dvd LENGTH('a) \<Longrightarrow> read_int (encode (w :: 'a::len word) @ rest) = Inr (w, rest)"
  by (simp add: read_int_def byte_len_def encode_def from_be_to_be Let_def)

lemma read_int_Inr:
  "8 dvd LENGTH('a) \<Longrightarrow> read_int bs = Inr (w :: 'a::len word, rest) \<longleftrightarrow> bs = encode w @ rest"
  by (auto simp: read_int_def byte_len_def encode_def Let_def to_be_from_be from_be_to_be)

interpretation u8c: fixed_codec "encode :: u8 \<Rightarrow> bytes" decode_exact 1 "\<lambda>_. True"
  by unfold_locales (auto simp: decode_exact_iff)
interpretation u16c: fixed_codec "encode :: u16 \<Rightarrow> bytes" decode_exact 2 "\<lambda>_. True"
  by unfold_locales (auto simp: decode_exact_iff)
interpretation u32c: fixed_codec "encode :: u32 \<Rightarrow> bytes" decode_exact 4 "\<lambda>_. True"
  by unfold_locales (auto simp: decode_exact_iff)
interpretation u64c: fixed_codec "encode :: u64 \<Rightarrow> bytes" decode_exact 8 "\<lambda>_. True"
  by unfold_locales (auto simp: decode_exact_iff)
interpretation u128c: fixed_codec "encode :: u128 \<Rightarrow> bytes" decode_exact 16 "\<lambda>_. True"
  by unfold_locales (auto simp: decode_exact_iff)
interpretation u256c: fixed_codec "encode :: u256 \<Rightarrow> bytes" decode_exact 32 "\<lambda>_. True"
  by unfold_locales (auto simp: decode_exact_iff)

end
