(* ===== verification/Cells.thy ===== *)
theory Cells
  imports Primitives
begin

unbundle bit_operations_syntax

text \<open>
  \<open>crates/protocol/onx-state-model\<close>: the error type (\<open>error.rs\<close>) and cells (\<open>cell.rs\<close>), the nodes
  of every tree the node hashes or ships: at most 128 data bytes and four child hashes behind a
  two-byte descriptor. A cell's encoding is self-delimiting, and its hash binds its content.
  Texts the code formats are kept as values of \<open>sm_text\<close>.
\<close>

datatype account_type = Uninitialized_t | Active_t | Frozen_t | Destroyed_t

datatype sm_text =
    Text string
  | PrimitiveText primitive_error
  | TruncatedCellText nat nat
  | TransitionText account_type account_type
  | BalanceText u128 u128
  | MagicText u32 u32
  | RootText hash32 hash32

datatype state_model_error =
    InvalidDescriptor
  | DataTooLarge nat nat
  | TooManyReferences nat nat
  | DeserializationError sm_text
  | CellTrailingBytes nat
  | InvalidStateType u8
  | InvalidStateTransition sm_text
  | LogicalTimeRegression u64 u64
  | BalanceUnderflow
  | CyclicCellReference
  | StateRootMismatch hash32 hash32
  | InvalidMerkleProof sm_text

section \<open>Cells\<close>

definition ONX_CELL_HASH_V1_TAG :: domain_tag where
  "ONX_CELL_HASH_V1_TAG = tag_of ''ONX_CELL_HASH_V1''"

definition MAX_CELL_DATA_BYTES :: nat where
  "MAX_CELL_DATA_BYTES = 128"

definition MAX_CELL_REFS :: nat where
  "MAX_CELL_REFS = 4"

record cell =
  data_bytes :: bytes
  cell_refs :: "hash32 list"
  is_special :: bool

definition new_with_special :: "bytes \<Rightarrow> hash32 list \<Rightarrow> bool \<Rightarrow> state_model_error + cell" where
  "new_with_special d r s =
     (if length d > MAX_CELL_DATA_BYTES then Inl (DataTooLarge (length d) MAX_CELL_DATA_BYTES)
      else if length r > MAX_CELL_REFS then Inl (TooManyReferences (length r) MAX_CELL_REFS)
      else Inr \<lparr>data_bytes = d, cell_refs = r, is_special = s\<rparr>)"

definition cell_new :: "bytes \<Rightarrow> hash32 list \<Rightarrow> state_model_error + cell" where
  "cell_new d r = new_with_special d r False"

definition descriptor_bytes :: "cell \<Rightarrow> u8 \<times> u8" where
  "descriptor_bytes c =
     (let d1 = word_of_nat (length (cell_refs c));
          d1 = (if is_special c then d1 OR 0x08 else d1);
          d2 = word_of_nat (length (data_bytes c))
      in (d1, d2))"

definition cell_payload :: "cell \<Rightarrow> bytes" where
  "cell_payload c =
     (let (d1, d2) = descriptor_bytes c
      in [d1, d2] @ data_bytes c @ concat (map encode (cell_refs c)))"

definition cell_hash :: "crypto \<Rightarrow> cell \<Rightarrow> hash32" where
  "cell_hash cr c = domain_hash cr ONX_CELL_HASH_V1_TAG (cell_payload c)"

definition cell_to_bytes :: "cell \<Rightarrow> bytes" where
  "cell_to_bytes c =
     (let (d1, d2) = descriptor_bytes c;
          descriptor = (push_bit 8 (ucast d1) OR ucast d2 :: u16)
      in encode descriptor @ data_bytes c @ concat (map encode (cell_refs c)))"

definition cell_from_bytes :: "bytes \<Rightarrow> state_model_error + cell \<times> nat" where
  "cell_from_bytes sl =
     (if length sl < 2
      then Inl (DeserializationError (Text ''Slice too short for cell descriptor''))
      else
        bindR (map_err (\<lambda>e. DeserializationError (PrimitiveText e)) (read_int sl)) (\<lambda>(v, cursor).
        let d1 = ucast (drop_bit 8 (v :: u16)) :: u8;
            d2 = ucast (v AND 0xFF) :: u8;
            ref_count = unat (d1 AND 0x07);
            special = (d1 AND 0x08 \<noteq> 0);
            data_len = unat d2
        in if ref_count > MAX_CELL_REFS then Inl (TooManyReferences ref_count MAX_CELL_REFS)
        else if data_len > MAX_CELL_DATA_BYTES then Inl (DataTooLarge data_len MAX_CELL_DATA_BYTES)
        else
          let required_len = 2 + data_len + ref_count * 32
          in if length sl < required_len
             then Inl (DeserializationError (TruncatedCellText required_len (length sl)))
          else
            let d = subslice 2 (2 + data_len) sl in
            bindR (decode_entries (\<lambda>bs. Inr (from_be bs)) 32 ref_count (drop (2 + data_len) sl)) (\<lambda>refs.
            bindR (new_with_special d refs special) (\<lambda>c.
            Inr (c, 2 + data_len + 32 * ref_count)))))"

section \<open>Well-formed cells\<close>

text \<open>The cells the constructors return; the fields are private, so every cell is one of them.\<close>

definition cell_ok :: "cell \<Rightarrow> bool" where
  "cell_ok c \<longleftrightarrow> length (data_bytes c) \<le> 128 \<and> length (cell_refs c) \<le> 4"

lemma new_with_special_Inr:
  "new_with_special d r s = Inr c \<longleftrightarrow>
     c = \<lparr>data_bytes = d, cell_refs = r, is_special = s\<rparr> \<and> cell_ok c"
  by (auto simp: new_with_special_def cell_ok_def MAX_CELL_DATA_BYTES_def MAX_CELL_REFS_def)

lemma cell_new_Inr:
  "cell_new d r = Inr c \<longleftrightarrow>
     c = \<lparr>data_bytes = d, cell_refs = r, is_special = False\<rparr> \<and> cell_ok c"
  by (simp add: cell_new_def new_with_special_Inr)

section \<open>The cell encoding\<close>

lemma concat_encode_length: "length (concat (map encode (hs :: hash32 list))) = 32 * length hs"
  using u256c.length_concat_enc [of hs] by simp

text \<open>The two descriptor bytes are the big-endian \<open>u16\<close> of \<open>to_bytes\<close>.\<close>

lemma encode_u16_pair: "encode (push_bit 8 (ucast (a :: u8)) OR ucast (b :: u8) :: u16) = [a, b]"
proof -
  have "from_be [a, b] = (push_bit 8 (ucast a) OR ucast b :: u16)"
  proof (rule bit_word_eqI)
    fix i assume i: "i < LENGTH(16)"
    have b: "unat b < 2 ^ 8" using unat_byte_less [of b] by simp
    have "(word_of_nat (unat a * 256 + unat b) :: u16) = push_bit 8 (ucast a) + ucast b"
      by (simp add: push_bit_eq_mult mult.commute)
    also have "\<dots> = push_bit 8 (ucast a) OR ucast b"
      by (rule disjunctive_add) (auto simp: bit_simps dest: bit_imp_le_length)
    finally show "bit (from_be [a, b] :: u16) i = bit (push_bit 8 (ucast a) OR ucast b :: u16) i"
      by (simp add: from_be_def)
  qed
  moreover have "encode (from_be [a, b] :: u16) = [a, b]"
    by (rule encode_from_be) simp_all
  ultimately show ?thesis by simp
qed

lemma cell_to_bytes_payload: "cell_to_bytes c = cell_payload c"
  by (simp add: cell_to_bytes_def cell_payload_def encode_u16_pair split: prod.splits)

lemma length_cell_to_bytes:
  "length (cell_to_bytes c) = 2 + length (data_bytes c) + 32 * length (cell_refs c)"
  by (simp add: cell_to_bytes_payload cell_payload_def concat_encode_length split: prod.splits)

lemma read_u16_pair: "read_int (a # b # rest) = Inr (push_bit 8 (ucast (a :: u8)) OR ucast (b :: u8) :: u16, rest)"
  using read_int_encode [of "push_bit 8 (ucast a) OR ucast b :: u16" rest] by (simp add: encode_u16_pair)

lemma descriptor_halves:
  "ucast (drop_bit 8 (push_bit 8 (ucast a) OR ucast b :: u16)) = (a :: u8)"
  "ucast ((push_bit 8 (ucast a) OR ucast b :: u16) AND 0xFF) = (b :: u8)"
proof -
  show "ucast (drop_bit 8 (push_bit 8 (ucast a) OR ucast b :: u16)) = (a :: u8)"
    by (rule bit_word_eqI) (auto simp: bit_simps dest: bit_imp_le_length)
  have "(0xFF :: u16) = mask 8" by (simp add: mask_eq_exp_minus_1)
  then have "ucast ((push_bit 8 (ucast a) OR ucast b :: u16) AND 0xFF) =
      (ucast (take_bit 8 (push_bit 8 (ucast a) OR ucast b :: u16)) :: u8)"
    by (simp only: take_bit_eq_mask)
  also have "\<dots> = b"
    by (rule bit_word_eqI) (auto simp: bit_simps)
  finally show "ucast ((push_bit 8 (ucast a) OR ucast b :: u16) AND 0xFF) = (b :: u8)" .
qed

lemma ref_count_cases:
  assumes "(n::nat) \<le> 4"
  shows "n = 0 \<or> n = 1 \<or> n = 2 \<or> n = 3 \<or> n = 4"
  using assms by linarith

lemma descriptor_fields:
  assumes "n \<le> 4"
  shows "unat ((if s then word_of_nat n OR 0x08 else word_of_nat n :: u8) AND 0x07) = n"
    "((if s then word_of_nat n OR 0x08 else word_of_nat n :: u8) AND 0x08 \<noteq> 0) = s"
  using ref_count_cases [OF assms] by auto

lemma decode_refs:
  "decode_entries (\<lambda>bs. Inr (from_be bs)) 32 (length hs) (concat (map encode (hs :: hash32 list)) @ rest)
     = (Inr hs :: 'e + hash32 list)"
  by (induction hs) auto

lemma cell_from_to:
  assumes "cell_ok c"
  shows "cell_from_bytes (cell_to_bytes c @ rest) = Inr (c, length (cell_to_bytes c))"
proof -
  let ?n = "length (cell_refs c)" and ?d = "length (data_bytes c)"
  let ?d1 = "if is_special c then word_of_nat ?n OR 0x08 else word_of_nat ?n :: u8"
  have n: "?n \<le> 4" and d: "?d \<le> 128" using assms by (auto simp: cell_ok_def)
  have ud: "unat (word_of_nat ?d :: u8) = ?d" using d by (simp add: unsigned_of_nat take_bit_eq_mod)
  have pay: "cell_to_bytes c @ rest =
      ?d1 # word_of_nat ?d # data_bytes c @ concat (map encode (cell_refs c)) @ rest"
    by (simp add: cell_to_bytes_payload cell_payload_def descriptor_bytes_def)
  have data: "subslice 2 (2 + ?d) (cell_to_bytes c @ rest) = data_bytes c"
    by (simp add: pay subslice_Cons subslice_here)
  have tail: "drop (2 + ?d) (cell_to_bytes c @ rest) = concat (map encode (cell_refs c)) @ rest"
    by (simp add: pay)
  have new: "new_with_special (data_bytes c) (cell_refs c) (is_special c) = Inr c"
    using assms by (simp add: new_with_special_Inr)
  have len: "length (cell_to_bytes c @ rest) = 2 + ?d + 32 * ?n + length rest"
    by (simp add: length_cell_to_bytes)
  have rd: "read_int (cell_to_bytes c @ rest) = Inr (push_bit 8 (ucast ?d1) OR ucast (word_of_nat ?d :: u8) :: u16,
      data_bytes c @ concat (map encode (cell_refs c)) @ rest)"
    by (simp only: pay read_u16_pair)
  show ?thesis
    unfolding cell_from_bytes_def rd
    using n d
    by (simp only: len bindR_simps map_err_simps prod.case Let_def descriptor_halves
        descriptor_fields [OF n] ud data tail decode_refs new)
      (simp add: MAX_CELL_DATA_BYTES_def MAX_CELL_REFS_def length_cell_to_bytes mult.commute)
qed

interpretation cellc: stream_codec cell_to_bytes cell_from_bytes cell_ok
  by unfold_locales (rule cell_from_to)

text \<open>A decoded cell is well-formed and the decoder stays within its input.\<close>

lemma decode_refs_Inr:
  "decode_entries (\<lambda>bs. Inr (from_be bs)) 32 n bs = (Inr hs :: 'e + hash32 list) \<Longrightarrow>
     length hs = n \<and> (32 * n \<le> length bs \<longrightarrow> take (32 * n) bs = concat (map encode hs))"
proof (induction n arbitrary: bs hs)
  case (Suc n)
  then obtain ys where ys: "decode_entries (\<lambda>bs. Inr (from_be bs)) 32 n (drop 32 bs) = (Inr ys :: 'e + hash32 list)"
    and hs: "hs = from_be (take 32 bs) # ys"
    by (auto simp: bindR_Inr)
  have "take (32 * Suc n) bs = take 32 bs @ take (32 * n) (drop 32 bs)"
    by (metis add.commute mult_Suc_right take_add)
  with Suc.IH [OF ys] hs show ?case
    by (auto simp: encode_from_be min_def)
qed simp

lemma cell_from_bytes_Inr:
  assumes "cell_from_bytes bs = Inr (c, n)"
  shows "cell_ok c" "n \<le> length bs" "n = length (cell_to_bytes c)"
    "drop 2 (take n bs) = drop 2 (cell_to_bytes c)"
proof -
  from assms obtain v cursor where v: "read_int bs = Inr (v :: u16, cursor)"
    and l2: "2 \<le> length bs"
    by (auto simp: cell_from_bytes_def bindR_Inr split: if_splits)
  let ?d1 = "ucast (drop_bit 8 v) :: u8" and ?d2 = "ucast (v AND 0xFF) :: u8"
  from assms v obtain refs where
    rc: "unat (?d1 AND 7) \<le> 4" and dl: "unat ?d2 \<le> 128"
    and len: "2 + unat ?d2 + unat (?d1 AND 7) * 32 \<le> length bs"
    and refs: "decode_entries (\<lambda>bs. Inr (from_be bs)) 32 (unat (?d1 AND 7)) (drop (2 + unat ?d2) bs)
        = (Inr refs :: state_model_error + hash32 list)"
    and c: "new_with_special (subslice 2 (2 + unat ?d2) bs) refs (?d1 AND 8 \<noteq> 0) = Inr c"
    and n: "n = 2 + unat ?d2 + 32 * unat (?d1 AND 7)"
    by (auto simp: cell_from_bytes_def bindR_Inr Let_def MAX_CELL_DATA_BYTES_def MAX_CELL_REFS_def
        split: if_splits)
  show "cell_ok c" using c unfolding new_with_special_Inr by blast
  show "n \<le> length bs" using len n by simp
  have cf: "data_bytes c = subslice 2 (2 + unat ?d2) bs" "cell_refs c = refs"
    using c by (auto simp: new_with_special_Inr)
  have r: "length refs = unat (?d1 AND 7)"
    "take (32 * unat (?d1 AND 7)) (drop (2 + unat ?d2) bs) = concat (map encode refs)"
    using decode_refs_Inr [OF refs] len by auto
  show "n = length (cell_to_bytes c)"
    using len by (simp add: length_cell_to_bytes cf r n)
  have "drop 2 (take n bs) = take (unat ?d2 + 32 * unat (?d1 AND 7)) (drop 2 bs)"
    by (simp add: n drop_take)
  also have "\<dots> = data_bytes c @ concat (map encode refs)"
    using len r(2) by (simp add: take_add cf subslice_def add.commute)
  also have "\<dots> = drop 2 (cell_to_bytes c)"
    by (simp add: cell_to_bytes_payload cell_payload_def cf split: prod.splits)
  finally show "drop 2 (take n bs) = drop 2 (cell_to_bytes c)" .
qed

section \<open>Properties\<close>

text \<open>
  Cells round-trip and their encodings are self-delimiting: a well-formed cell followed by any
  bytes decodes to the cell and the number of bytes it occupies.
\<close>

theorem cell_roundtrip:
  assumes "length (data_bytes c) \<le> MAX_CELL_DATA_BYTES" "length (cell_refs c) \<le> MAX_CELL_REFS"
  shows "cell_from_bytes (cell_to_bytes c @ rest) = Inr (c, length (cell_to_bytes c))"
  using assms by (intro cell_from_to) (simp add: cell_ok_def MAX_CELL_DATA_BYTES_def MAX_CELL_REFS_def)

theorem cell_roundtrip_witness:
  "cell_from_bytes (cell_to_bytes \<lparr>data_bytes = [1, 2, 3], cell_refs = [7], is_special = True\<rparr> @ [9])
     = Inr (\<lparr>data_bytes = [1, 2, 3], cell_refs = [7], is_special = True\<rparr>, 37)"
  using cell_roundtrip [of "\<lparr>data_bytes = [1, 2, 3], cell_refs = [7], is_special = True\<rparr>" "[9]"]
  by (simp add: MAX_CELL_DATA_BYTES_def MAX_CELL_REFS_def length_cell_to_bytes)

end
