(* ===== verification/Accounts.thy ===== *)
theory Accounts
  imports Cells
begin

text \<open>
  \<open>crates/protocol/onx-state-model/src/account.rs\<close>: account states, their self-delimiting records
  and the lifecycle and balance checks of a proposed transition.
\<close>

section \<open>Account states\<close>

definition account_type_from_u8 :: "u8 \<Rightarrow> state_model_error + account_type" where
  "account_type_from_u8 v =
     (if v = 0x00 then Inr Uninitialized_t
      else if v = 0x01 then Inr Active_t
      else if v = 0x02 then Inr Frozen_t
      else if v = 0x03 then Inr Destroyed_t
      else Inl (InvalidStateType v))"

fun account_type_to_u8 :: "account_type \<Rightarrow> u8" where
  "account_type_to_u8 Uninitialized_t = 0x00"
| "account_type_to_u8 Active_t = 0x01"
| "account_type_to_u8 Frozen_t = 0x02"
| "account_type_to_u8 Destroyed_t = 0x03"

record storage_stat =
  cell_count :: u32
  byte_count :: u64

datatype account_state =
    Uninitialized
  | Active (act_balance: u128) (act_lt: u64) (code_hash: hash32) (data_hash: hash32)
      (acc_storage_stat: storage_stat)
  | Frozen (frz_balance: u128) (frz_lt: u64) (storage_hash: hash32)
  | Destroyed

fun account_type_of :: "account_state \<Rightarrow> account_type" where
  "account_type_of Uninitialized = Uninitialized_t"
| "account_type_of (Active _ _ _ _ _) = Active_t"
| "account_type_of (Frozen _ _ _) = Frozen_t"
| "account_type_of Destroyed = Destroyed_t"

fun balance_nanos :: "account_state \<Rightarrow> u128" where
  "balance_nanos (Active b _ _ _ _) = b"
| "balance_nanos (Frozen b _ _) = b"
| "balance_nanos Uninitialized = 0"
| "balance_nanos Destroyed = 0"

section \<open>Records\<close>

fun account_to_bytes :: "account_state \<Rightarrow> bytes" where
  "account_to_bytes Uninitialized = [account_type_to_u8 Uninitialized_t]"
| "account_to_bytes (Active b lt ch dh st) =
     [account_type_to_u8 Active_t] @ encode b @ encode lt @ encode ch @ encode dh
     @ encode (cell_count st) @ encode (byte_count st)"
| "account_to_bytes (Frozen b lt sh) =
     [account_type_to_u8 Frozen_t] @ encode b @ encode lt @ encode sh"
| "account_to_bytes Destroyed = [account_type_to_u8 Destroyed_t]"

abbreviation read_field :: "bytes \<Rightarrow> state_model_error + 'a::len word \<times> bytes" where
  "read_field cursor \<equiv> map_err (\<lambda>e. DeserializationError (PrimitiveText e)) (read_int cursor)"

definition account_from_bytes :: "bytes \<Rightarrow> state_model_error + account_state \<times> nat" where
  "account_from_bytes bs =
     (if bs = [] then Inl (DeserializationError (Text ''Empty byte slice for AccountState''))
      else
        bindR (read_field bs) (\<lambda>(tag, cursor).
        bindR (account_type_from_u8 tag) (\<lambda>t.
        case t of
          Uninitialized_t \<Rightarrow> Inr (Uninitialized, 1)
        | Destroyed_t \<Rightarrow> Inr (Destroyed, 1)
        | Frozen_t \<Rightarrow>
            bindR (read_field cursor) (\<lambda>(b, cursor).
            bindR (read_field cursor) (\<lambda>(lt, cursor).
            if length cursor < 32
            then Inl (DeserializationError (Text ''Truncated Frozen AccountState storage hash''))
            else Inr (Frozen b lt (from_be (take 32 cursor)), 1 + 16 + 8 + 32)))
        | Active_t \<Rightarrow>
            bindR (read_field cursor) (\<lambda>(b, cursor).
            bindR (read_field cursor) (\<lambda>(lt, cursor).
            if length cursor < 64
            then Inl (DeserializationError (Text ''Truncated Active AccountState hashes''))
            else
              let ch = from_be (take 32 cursor); cursor = drop 32 cursor;
                  dh = from_be (take 32 cursor); cursor = drop 32 cursor in
              bindR (read_field cursor) (\<lambda>(cc, cursor).
              bindR (read_field cursor) (\<lambda>(bc, cursor).
              Inr (Active b lt ch dh \<lparr>cell_count = cc, byte_count = bc\<rparr>,
                   1 + 16 + 8 + 32 + 32 + 4 + 8))))))))"

section \<open>Transitions\<close>

fun validate_transition ::
  "account_state \<Rightarrow> account_state \<Rightarrow> u64 \<Rightarrow> state_model_error + unit" where
  "validate_transition Destroyed nxt new_lt =
     Inl (InvalidStateTransition (Text ''Cannot perform transition on a Destroyed account''))"
| "validate_transition Uninitialized (Active _ lt _ _ _) new_lt =
     (if lt \<noteq> new_lt then Inl (LogicalTimeRegression lt new_lt) else Inr ())"
| "validate_transition Uninitialized Uninitialized new_lt = Inr ()"
| "validate_transition Uninitialized nxt new_lt =
     Inl (InvalidStateTransition
       (Text ''Uninitialized account can only transition to Active or remain Uninitialized''))"
| "validate_transition (Active _ cur_lt _ _ _) (Active _ next_lt _ _ _) new_lt =
     (if new_lt \<le> cur_lt \<or> next_lt \<noteq> new_lt then Inl (LogicalTimeRegression cur_lt new_lt) else Inr ())"
| "validate_transition (Active _ cur_lt _ _ _) (Frozen _ next_lt _) new_lt =
     (if new_lt \<le> cur_lt \<or> next_lt \<noteq> new_lt then Inl (LogicalTimeRegression cur_lt new_lt) else Inr ())"
| "validate_transition (Active _ _ _ _ _) Destroyed new_lt = Inr ()"
| "validate_transition (Frozen _ cur_lt _) (Active _ next_lt _ _ _) new_lt =
     (if new_lt \<le> cur_lt \<or> next_lt \<noteq> new_lt then Inl (LogicalTimeRegression cur_lt new_lt) else Inr ())"
| "validate_transition (Frozen _ cur_lt _) (Frozen _ next_lt _) new_lt =
     (if new_lt \<le> cur_lt \<or> next_lt \<noteq> new_lt then Inl (LogicalTimeRegression cur_lt new_lt) else Inr ())"
| "validate_transition (Frozen _ _ _) Destroyed new_lt = Inr ()"
| "validate_transition cur nxt new_lt =
     Inl (InvalidStateTransition (TransitionText (account_type_of cur) (account_type_of nxt)))"

text \<open>\<open>i128::unsigned_abs\<close>; a signed integer is the word read by \<^const>\<open>sint\<close>.\<close>

definition unsigned_abs :: "u128 \<Rightarrow> u128" where
  "unsigned_abs d = (if sint d < 0 then - d else d)"

definition validate_transition_with_delta ::
  "account_state \<Rightarrow> account_state \<Rightarrow> u64 \<Rightarrow> u128 \<Rightarrow> state_model_error + unit" where
  "validate_transition_with_delta cur nxt new_lt delta =
     bindR (validate_transition cur nxt new_lt) (\<lambda>_.
       let cur_balance = balance_nanos cur in
       if sint delta < 0 \<and> unsigned_abs delta > cur_balance then Inl BalanceUnderflow
       else
         let expected = (if 0 \<le> sint delta then saturating_add cur_balance delta
                         else cur_balance - unsigned_abs delta)
         in case nxt of
              Active b _ _ _ _ \<Rightarrow>
                if b \<noteq> expected then Inl (InvalidStateTransition (BalanceText expected b)) else Inr ()
            | Frozen b _ _ \<Rightarrow>
                if b \<noteq> expected then Inl (InvalidStateTransition (BalanceText expected b)) else Inr ()
            | _ \<Rightarrow> Inr ())"

section \<open>The record codec\<close>

lemma account_type_u8_inv [simp]: "account_type_from_u8 (account_type_to_u8 t) = Inr t"
  by (cases t) (simp_all add: account_type_from_u8_def)

lemma account_type_from_u8_Inr: "account_type_from_u8 v = Inr t \<longleftrightarrow> v = account_type_to_u8 t"
  by (auto simp: account_type_from_u8_def split: if_splits) (cases t; simp)+

lemma encode_u8: "encode (b :: u8) = [b]"
  by (simp add: encode_def to_be_def)

lemma read_u8 [simp]: "read_int (b # rest) = Inr (b :: u8, rest)"
  using read_int_encode [of b rest] by (simp add: encode_u8)

lemma account_from_to:
  "account_from_bytes (account_to_bytes a @ rest) = Inr (a, length (account_to_bytes a))"
  by (cases a) (simp_all add: account_from_bytes_def Let_def account_type_from_u8_def)

interpretation acctc: stream_codec account_to_bytes account_from_bytes "\<lambda>_. True"
  by unfold_locales (rule account_from_to)

lemma read_field_Inr: 
  "8 dvd LENGTH('a) \<Longrightarrow> read_field bs = Inr (w :: 'a::len word, rest) \<longleftrightarrow> bs = encode w @ rest"
  by (simp add: read_int_Inr)

lemma take_32_encode: "32 \<le> length bs \<Longrightarrow> encode (from_be (take 32 bs) :: hash32) = take 32 bs"
  by (rule encode_from_be) simp_all

text \<open>What the decoder accepts is the encoding of what it returns followed by unread input.\<close>

lemma account_from_bytes_sound:
  assumes "account_from_bytes bs = Inr (a, n)"
  shows "n = length (account_to_bytes a) \<and> take n bs = account_to_bytes a"
proof -
  from assms obtain t cursor where bs: "bs = account_type_to_u8 t # cursor"
    by (auto simp: account_from_bytes_def bindR_Inr account_type_from_u8_Inr read_field_Inr encode_u8
        simp del: map_err_Inr split: if_splits)
  show ?thesis
  proof (cases t)
    case Active_t
    with assms bs obtain b lt cu cu2 cc bc r where a: "a = Active b lt (from_be (take 32 cu)) (from_be (take 32 cu2))
        \<lparr>cell_count = cc, byte_count = bc\<rparr>" "n = 101"
      and cu: "cursor = encode b @ encode lt @ cu" "64 \<le> length cu" "cu2 = drop 32 cu"
      and cu2: "drop 32 cu2 = encode cc @ encode bc @ r"
      by (auto simp: account_from_bytes_def account_type_from_u8_def bindR_Inr read_int_Inr Let_def
          split: if_splits)
    have "cu2 = encode (from_be (take 32 cu2) :: hash32) @ encode cc @ encode bc @ r"
      using cu append_take_drop_id [of 32 cu2] by (simp add: take_32_encode del: append_take_drop_id flip: cu2)
    moreover have "cu = encode (from_be (take 32 cu) :: hash32) @ cu2"
      using cu by (simp add: take_32_encode)
    ultimately have "cursor = (encode b @ encode lt @ encode (from_be (take 32 cu) :: hash32)
        @ encode (from_be (take 32 cu2) :: hash32) @ encode cc @ encode bc) @ r"
      using cu(1) by simp
    then show ?thesis using a bs Active_t by simp
  next
    case Frozen_t
    with assms bs obtain b lt cu where a: "a = Frozen b lt (from_be (take 32 cu))" "n = 57"
      and cu: "cursor = encode b @ encode lt @ cu" "32 \<le> length cu"
      by (auto simp: account_from_bytes_def account_type_from_u8_def bindR_Inr read_int_Inr
          split: if_splits)
    then show ?thesis using bs Frozen_t by (simp add: take_32_encode)
  qed (use assms bs in \<open>auto simp: account_from_bytes_def account_type_from_u8_def\<close>)
qed

section \<open>Lifecycle\<close>

fun account_lt :: "account_state \<Rightarrow> u64 option" where
  "account_lt (Active _ lt _ _ _) = Some lt"
| "account_lt (Frozen _ lt _) = Some lt"
| "account_lt _ = None"

text \<open>The lifecycle the specification draws, with what each edge asks of logical time.\<close>

inductive lifecycle :: "account_state \<Rightarrow> u64 \<Rightarrow> account_state \<Rightarrow> bool" where
  stay: "lifecycle Uninitialized lt Uninitialized"
| deploy: "lifecycle Uninitialized lt (Active b lt c d s)"
| update: "cur_lt < lt \<Longrightarrow> lifecycle (Active b0 cur_lt c0 d0 s0) lt (Active b lt c d s)"
| freeze: "cur_lt < lt \<Longrightarrow> lifecycle (Active b0 cur_lt c0 d0 s0) lt (Frozen b lt h)"
| unfreeze: "cur_lt < lt \<Longrightarrow> lifecycle (Frozen b0 cur_lt h0) lt (Active b lt c d s)"
| refreeze: "cur_lt < lt \<Longrightarrow> lifecycle (Frozen b0 cur_lt h0) lt (Frozen b lt h)"
| destroy_active: "lifecycle (Active b0 cur_lt c0 d0 s0) lt Destroyed"
| destroy_frozen: "lifecycle (Frozen b0 cur_lt h0) lt Destroyed"

inductive_simps lifecycle_simps [simp]:
  "lifecycle Uninitialized lt a"
  "lifecycle (Active b cur_lt c d s) lt a"
  "lifecycle (Frozen b cur_lt h) lt a"
  "lifecycle Destroyed lt a"

lemma validate_transition_lifecycle: "validate_transition cur nxt lt = Inr () \<longleftrightarrow> lifecycle cur lt nxt"
  by (cases cur; cases nxt) (auto simp: not_le)

text \<open>A history of accepted transitions, newest last.\<close>

fun accepted_history :: "account_state \<Rightarrow> (u64 \<times> account_state) list \<Rightarrow> bool" where
  "accepted_history cur [] \<longleftrightarrow> True"
| "accepted_history cur ((lt, nxt) # hist) \<longleftrightarrow>
     validate_transition cur nxt lt = Inr () \<and> accepted_history nxt hist"

lemma accepted_from_destroyed: "accepted_history Destroyed hist \<longleftrightarrow> hist = []"
  by (cases hist) auto

lemma lifecycle_lt_mono:
  "lifecycle cur lt nxt \<Longrightarrow> account_lt cur = Some a \<Longrightarrow> account_lt nxt = Some b \<Longrightarrow> a < b \<and> b = lt"
  by (auto elim: lifecycle.cases)

lemma lifecycle_lt_Some:
  "lifecycle cur lt nxt \<Longrightarrow> account_lt cur = Some a \<Longrightarrow> account_lt nxt = None \<Longrightarrow> nxt = Destroyed"
  by (auto elim: lifecycle.cases)

text \<open>The logical times recorded in a history strictly increase from the current one on.\<close>

lemma accepted_history_lts:
  "accepted_history cur hist \<Longrightarrow> account_lt cur = Some a \<Longrightarrow>
     sorted_wrt (<) (a # map the (filter (\<lambda>x. x \<noteq> None) (map (account_lt \<circ> snd) hist)))"
proof (induction hist arbitrary: cur a)
  case (Cons p hist)
  obtain lt nxt where p: "p = (lt, nxt)" by (cases p)
  have l: "lifecycle cur lt nxt" and h: "accepted_history nxt hist"
    using Cons.prems by (simp_all add: p validate_transition_lifecycle)
  show ?case
  proof (cases "account_lt nxt")
    case None
    then have "hist = []"
      using lifecycle_lt_Some [OF l] Cons.prems(2) h accepted_from_destroyed by auto
    then show ?thesis using None p by simp
  next
    case (Some b)
    then show ?thesis
      using lifecycle_lt_mono [OF l Cons.prems(2) Some] Cons.IH [OF h Some] p by auto
  qed
qed simp

section \<open>Balances\<close>

lemma unat_unsigned_abs: "int (unat (unsigned_abs d)) = \<bar>sint d\<bar>"
proof (cases "sint d < 0")
  case True
  have ge: "- (2 ^ 127) \<le> sint d" using sint_ge [of d] by simp
  have "- d = word_of_int (- sint d)" by simp
  then have "uint (- d) = (- sint d) mod 2 ^ LENGTH(128)" by (simp only: uint_word_of_int)
  also have "\<dots> = - sint d" using ge True by (intro mod_pos_pos_trivial) simp_all
  finally show ?thesis using True by (simp add: unsigned_abs_def)
next
  case False
  have "uint d = sint d mod 2 ^ LENGTH(128)" using uint_sint [of d] by (simp only: take_bit_eq_mod)
  also have "\<dots> = sint d" using False sint_lt [of d] by (intro mod_pos_pos_trivial) simp_all
  finally show ?thesis using False by (simp add: unsigned_abs_def)
qed

section \<open>Properties\<close>

text \<open>
  The account record codec is canonical and self-delimiting: the decoder returns \<open>a\<close> and a
  length exactly when the input starts with the encoding of \<open>a\<close>, which has that length.
\<close>

theorem account_codec_canonical:
  "account_from_bytes bs = Inr (a, n) \<longleftrightarrow>
     (\<exists>rest. bs = account_to_bytes a @ rest) \<and> n = length (account_to_bytes a)"
proof
  assume "account_from_bytes bs = Inr (a, n)"
  then have "n = length (account_to_bytes a)" "take n bs = account_to_bytes a"
    using account_from_bytes_sound by blast+
  then show "(\<exists>rest. bs = account_to_bytes a @ rest) \<and> n = length (account_to_bytes a)"
    by (metis append_take_drop_id)
next
  assume "(\<exists>rest. bs = account_to_bytes a @ rest) \<and> n = length (account_to_bytes a)"
  then show "account_from_bytes bs = Inr (a, n)" using account_from_to by auto
qed

text \<open>
  The transition check admits exactly the account lifecycle: an account stays uninitialised or
  is deployed, an active or frozen account is updated, frozen or thawed at a strictly later logical
  time which it records, or is destroyed; a destroyed account admits nothing.
\<close>

theorem transition_is_lifecycle:
  "validate_transition cur nxt lt = Inr () \<longleftrightarrow> lifecycle cur lt nxt"
  by (rule validate_transition_lifecycle)

lemma delta_accepted:
  "validate_transition_with_delta cur nxt lt delta = Inr () \<longleftrightarrow> lifecycle cur lt nxt \<and>
     \<not> (sint delta < 0 \<and> unsigned_abs delta > balance_nanos cur) \<and>
     (account_lt nxt \<noteq> None \<longrightarrow> balance_nanos nxt =
        (if 0 \<le> sint delta then saturating_add (balance_nanos cur) delta else balance_nanos cur - unsigned_abs delta))"
  by (cases nxt) (auto simp: validate_transition_with_delta_def bindR_Inr Let_def validate_transition_lifecycle)

lemma delta_covered:
  "\<not> (sint delta < 0 \<and> unsigned_abs delta > (c :: u128)) \<longleftrightarrow> 0 \<le> int (unat c) + sint delta"
  using unat_unsigned_abs [of delta] unsigned_greater_eq [of c] by (auto simp: not_less word_le_def)

lemma expected_balance:
  assumes "0 \<le> int (unat c) + sint delta"
  shows "int (unat (if 0 \<le> sint delta then saturating_add c delta else c - unsigned_abs delta)) =
    min (int (unat c) + sint delta) (2 ^ 128 - 1)"
proof -
  have u: "int (unat (unsigned_abs delta)) = \<bar>sint delta\<bar>" by (rule unat_unsigned_abs)
  have lt: "uint c < 2 ^ 128" using unsigned_less [where ?'a = int and w = c] by simp
  show ?thesis
  proof (cases "sint delta < 0")
    case True
    then have le: "unsigned_abs delta \<le> c" using assms delta_covered [of delta c] by auto
    then have "unat (c - unsigned_abs delta) = unat c - unat (unsigned_abs delta)"
      by (rule unat_sub)
    moreover have "unat (unsigned_abs delta) \<le> unat c" using le by (simp add: word_le_nat_alt)
    ultimately show ?thesis using True u lt by (simp add: of_nat_diff min_def)
  next
    case False
    then have d: "int (unat delta) = sint delta" using u by (simp add: unsigned_abs_def)
    have "int (unat (saturating_add c delta)) = min (int (unat c + unat delta)) (int (2 ^ 128 - 1))"
      by (simp only: unat_saturating_add of_nat_min) simp
    then show ?thesis using d False by (simp add: min_def)
  qed
qed

text \<open>
  C40. The check with a balance delta admits exactly the transitions of the lifecycle whose old balance
  covers the delta, as integers, and which leave an active or frozen account with the old balance plus the
  delta, clamped only at the top of \<open>u128\<close>. So no accepted transition makes a balance negative. Of an account that is
  destroyed, or stays uninitialised, no balance is recorded, and the check does not ask where the old
  one went.
\<close>

theorem delta_conserves_balance:
  "validate_transition_with_delta cur nxt lt delta = Inr () \<longleftrightarrow>
     lifecycle cur lt nxt \<and> 0 \<le> int (unat (balance_nanos cur)) + sint delta \<and>
     (account_type_of nxt \<in> {Active_t, Frozen_t} \<longrightarrow>
        int (unat (balance_nanos nxt)) = min (int (unat (balance_nanos cur)) + sint delta) (2 ^ 128 - 1))"
proof -
  have kind: "account_type_of nxt \<in> {Active_t, Frozen_t} \<longleftrightarrow> account_lt nxt \<noteq> None" by (cases nxt) simp_all
  have "balance_nanos nxt = (if 0 \<le> sint delta then saturating_add (balance_nanos cur) delta else balance_nanos cur - unsigned_abs delta) \<longleftrightarrow>
      int (unat (balance_nanos nxt)) = min (int (unat (balance_nanos cur)) + sint delta) (2 ^ 128 - 1)"
    if "0 \<le> int (unat (balance_nanos cur)) + sint delta"
    unfolding expected_balance [OF that, symmetric] by (simp only: of_nat_eq_iff word_unat_eq_iff)
  then show ?thesis unfolding delta_accepted delta_covered kind by blast
qed

theorem delta_conserves_balance_witness:
  "validate_transition_with_delta (Frozen 100 1 0) (Frozen 60 2 0) 2 (- 40) = Inr () \<and>
   validate_transition_with_delta (Frozen 100 1 0) (Frozen 61 2 0) 2 (- 40) \<noteq> Inr () \<and>
   validate_transition_with_delta (Frozen 100 1 0) Destroyed 2 (- 40) = Inr () \<and>
   validate_transition_with_delta (Frozen 100 1 0) Destroyed 2 (- 101) \<noteq> Inr ()"
proof -
  have s: "sint (- 40 :: u128) = - 40" "sint (- 101 :: u128) = - 101" by simp_all
  show ?thesis unfolding delta_conserves_balance s by simp
qed

end
