(* ===== verification/Boc.thy ===== *)
theory Boc
  imports Accounts
begin

text \<open>
  \<open>crates/protocol/onx-state-model/src/boc.rs\<close>: a bag of cells is a map from hashes to cells with a
  root. The depth-first search of \<open>verify_dag\<close> is modelled with the two sets it mutates, and proved
  to accept exactly the bags with no cycle reachable from the root; the wire format round-trips.
  The iteration order of the \<open>HashMap\<close> is an argument: the list of entries its iterator yields.
\<close>

record bag_of_cells =
  boc_root :: hash32
  boc_cells :: "hash32 \<rightharpoonup> cell"

section \<open>The cycle check\<close>

function (sequential) dfs ::
    "(hash32 \<rightharpoonup> cell) \<Rightarrow> hash32 \<Rightarrow> hash32 set \<Rightarrow> hash32 set \<Rightarrow>
       state_model_error + hash32 set \<times> hash32 set"
  and dfs_refs ::
    "(hash32 \<rightharpoonup> cell) \<Rightarrow> hash32 list \<Rightarrow> hash32 set \<Rightarrow> hash32 set \<Rightarrow>
       state_model_error + hash32 set \<times> hash32 set" where
  "dfs cells node visiting visited =
     (if node \<in> visiting then Inl CyclicCellReference
      else if node \<in> visited then Inr (visiting, visited)
      else
        bindR (case cells node of
                 Some c \<Rightarrow> dfs_refs cells (cell_refs c) (insert node visiting) visited
               | None \<Rightarrow> Inr (insert node visiting, visited))
          (\<lambda>(visiting, visited). Inr (visiting - {node}, insert node visited)))"
| "dfs_refs cells [] visiting visited = Inr (visiting, visited)"
| "dfs_refs cells (r # rs) visiting visited =
     bindR (dfs cells r visiting visited) (\<lambda>(visiting, visited).
       dfs_refs cells rs visiting visited)"
  by pat_completeness auto

text \<open>A search that returns restores the set of open nodes, so every call opens a new node of the
  finite set of hashes or shortens a list of references.\<close>

lemma dfs_visiting:
  "dfs_dfs_refs_dom (Inl (cells, node, vi, vd)) \<Longrightarrow> dfs cells node vi vd = Inr (vi', vd') \<Longrightarrow> vi' = vi"
  "dfs_dfs_refs_dom (Inr (cells, rs, vi, vd)) \<Longrightarrow> dfs_refs cells rs vi vd = Inr (vi', vd') \<Longrightarrow> vi' = vi"
proof (induction arbitrary: vi' vd' and vi' vd' rule: dfs_dfs_refs.pinduct)
  case (1 cells node visiting visited)
  then show ?case
    by (auto simp: dfs.psimps bindR_Inr split: if_splits option.splits)
next
  case (2 cells visiting visited)
  then show ?case by (simp add: dfs_refs.psimps)
next
  case (3 cells r rs visiting visited)
  from 3(1,4) obtain v1 d1 where d: "dfs cells r visiting visited = Inr (v1, d1)"
    and e: "dfs_refs cells rs v1 d1 = Inr (vi', vd')"
    by (auto simp: dfs_refs.psimps bindR_Inr)
  show ?case using 3(2) [OF d] 3(3) [OF d refl e] by simp
qed

termination dfs
proof (relation "measures [\<lambda>x. case x of Inl (_, _, vi, _) \<Rightarrow> card (- vi) | Inr (_, _, vi, _) \<Rightarrow> card (- vi),
    \<lambda>x. case x of Inl _ \<Rightarrow> 0 | Inr (_, rs, _, _) \<Rightarrow> Suc (length rs)]", goal_cases)
  case (2 cells node visiting visited c)
  then have "card (- insert node visiting) < card (- visiting)"
    by (intro psubset_card_mono) auto
  then show ?case by simp
next
  case 4
  then show ?case using dfs_visiting(1) by fastforce
qed auto

declare dfs.simps [simp del]

lemma dfs_restores: "dfs cells node vi vd = Inr (vi', vd') \<Longrightarrow> vi' = vi"
  and dfs_refs_restores: "dfs_refs cells rs vi vd = Inr (vi', vd') \<Longrightarrow> vi' = vi"
proof (induction cells node vi vd and cells rs vi vd arbitrary: vi' vd' and vi' vd'
    rule: dfs_dfs_refs.induct)
  case (1 cells node visiting visited)
  then show ?case
    by (auto simp: dfs.simps bindR_Inr split: if_splits option.splits)
next
  case (3 cells r rs visiting visited)
  from 3(3) obtain v1 d1 where d: "dfs cells r visiting visited = Inr (v1, d1)"
    and e: "dfs_refs cells rs v1 d1 = Inr (vi', vd')"
    by (auto simp: bindR_Inr)
  show ?case using 3(1) [OF d] 3(2) [OF d refl e] by simp
qed simp

definition verify_dag :: "bag_of_cells \<Rightarrow> state_model_error + unit" where
  "verify_dag boc = bindR (dfs (boc_cells boc) (boc_root boc) {} {}) (\<lambda>_. Inr ())"

definition boc_new :: "hash32 \<Rightarrow> (hash32 \<rightharpoonup> cell) \<Rightarrow> state_model_error + bag_of_cells" where
  "boc_new root cells =
     (if cells root = None
      then Inl (DeserializationError (Text ''Root cell hash not found in cell map''))
      else
        let boc = \<lparr>boc_root = root, boc_cells = cells\<rparr>
        in bindR (verify_dag boc) (\<lambda>_. Inr boc))"

definition boc_from_root :: "crypto \<Rightarrow> cell \<Rightarrow> state_model_error + bag_of_cells" where
  "boc_from_root cr root =
     (let h = cell_hash cr root in Inr \<lparr>boc_root = h, boc_cells = [h \<mapsto> root]\<rparr>)"

text \<open>The insertion stays in place when the check fails.\<close>

definition add_cell :: "crypto \<Rightarrow> bag_of_cells \<Rightarrow> cell \<Rightarrow> bag_of_cells \<times> (state_model_error + hash32)" where
  "add_cell cr boc c =
     (let h = cell_hash cr c;
          boc = boc\<lparr>boc_cells := (boc_cells boc)(h \<mapsto> c)\<rparr>
      in (boc, bindR (verify_dag boc) (\<lambda>_. Inr h)))"

definition get_cell :: "bag_of_cells \<Rightarrow> hash32 \<Rightarrow> cell option" where
  "get_cell boc h = boc_cells boc h"

section \<open>The wire format\<close>

definition boc_entry_to_bytes :: "hash32 \<times> cell \<Rightarrow> bytes" where
  "boc_entry_to_bytes e =
     (let cell_bytes = cell_to_bytes (snd e)
      in encode (fst e) @ encode (word_of_nat (length cell_bytes) :: u32) @ cell_bytes)"

definition boc_to_bytes :: "bag_of_cells \<Rightarrow> (hash32 \<times> cell) list \<Rightarrow> bytes" where
  "boc_to_bytes boc entries =
     encode (boc_root boc) @ encode (word_of_nat (length entries) :: u32)
     @ concat (map boc_entry_to_bytes entries)"

text \<open>The loop of \<open>from_bytes\<close>: \<open>rest\<close> is \<open>&slice[offset..]\<close>.\<close>

fun boc_read_cells ::
  "crypto \<Rightarrow> nat \<Rightarrow> bytes \<Rightarrow> nat \<Rightarrow> (hash32 \<rightharpoonup> cell) \<Rightarrow> state_model_error + (hash32 \<rightharpoonup> cell) \<times> nat" where
  "boc_read_cells cr 0 rest offset cells = Inr (cells, offset)"
| "boc_read_cells cr (Suc n) rest offset cells =
     (if length rest < 36
      then Inl (DeserializationError (Text ''Truncated BoC cell entry header''))
      else
        let h = from_be (take 32 rest) in
        bindR (read_field (drop 32 rest)) (\<lambda>(len_val, cell_cursor).
        let len = unat (len_val :: u32) in
        if length rest < 36 + len
        then Inl (DeserializationError (Text ''Truncated BoC cell content''))
        else
          bindR (cell_from_bytes (take len cell_cursor)) (\<lambda>(c, cell_consumed).
          if cell_consumed \<noteq> len then Inl (CellTrailingBytes (len - cell_consumed))
          else if cell_hash cr c \<noteq> h
          then Inl (DeserializationError (Text ''Cell hash mismatch in BoC entry''))
          else boc_read_cells cr n (drop (36 + len) rest) (offset + 36 + len) (cells(h \<mapsto> c)))))"

definition boc_from_bytes :: "crypto \<Rightarrow> bytes \<Rightarrow> state_model_error + bag_of_cells \<times> nat" where
  "boc_from_bytes cr bs =
     (if length bs < 36
      then Inl (DeserializationError (Text ''Slice too short for BoC root hash and count''))
      else
        let root = from_be (take 32 bs) in
        bindR (read_field (drop 32 bs)) (\<lambda>(count_val, cursor).
        let offset = 36;
            count = unat (count_val :: u32);
            remaining = length bs - offset
        in if count > remaining div 36
           then Inl (DeserializationError (Text ''BoC cell count exceeds remaining input capacity''))
           else
             bindR (boc_read_cells cr count cursor offset Map.empty) (\<lambda>(cells, offset).
             bindR (boc_new root cells) (\<lambda>boc. Inr (boc, offset)))))"

section \<open>Correctness of the cycle check\<close>

definition edges :: "(hash32 \<rightharpoonup> cell) \<Rightarrow> (hash32 \<times> hash32) set" where
  "edges cells = {(h, r). \<exists>c. cells h = Some c \<and> r \<in> set (cell_refs c)}"

text \<open>The finished nodes are closed under references, lie on no cycle, and are not open.\<close>

definition dfs_inv :: "(hash32 \<rightharpoonup> cell) \<Rightarrow> hash32 set \<Rightarrow> hash32 set \<Rightarrow> bool" where
  "dfs_inv cells vi vd \<longleftrightarrow> vd \<inter> vi = {} \<and>
     (\<forall>v\<in>vd. \<forall>w. (v, w) \<in> edges cells \<longrightarrow> w \<in> vd) \<and> (\<forall>v\<in>vd. (v, v) \<notin> (edges cells)\<^sup>+)"

lemma dfs_inv_reach:
  assumes "dfs_inv cells vi vd" "v \<in> vd" "(v, w) \<in> (edges cells)\<^sup>*"
  shows "w \<in> vd"
  using assms(3,2) by (induction) (use assms(1) in \<open>auto simp: dfs_inv_def\<close>)

text \<open>A node whose references are all visited joins the visited nodes.\<close>

lemma dfs_inv_insert:
  assumes inv: "dfs_inv cells (insert node vi) vd" and "node \<notin> vi" and succ: "\<And>w. (node, w) \<in> edges cells \<Longrightarrow> w \<in> vd"
  shows "dfs_inv cells vi (insert node vd)"
proof -
  have acyc: "(node, node) \<notin> (edges cells)\<^sup>+"
  proof
    assume "(node, node) \<in> (edges cells)\<^sup>+"
    then obtain w where w: "(node, w) \<in> edges cells" "(w, node) \<in> (edges cells)\<^sup>*"
      by (meson tranclD)
    then have "node \<in> vd" using dfs_inv_reach [OF inv] succ by blast
    then show False using inv by (auto simp: dfs_inv_def)
  qed
  show ?thesis
    unfolding dfs_inv_def
  proof (intro conjI ballI allI impI)
    show "insert node vd \<inter> vi = {}" using inv \<open>node \<notin> vi\<close> by (auto simp: dfs_inv_def)
    show "w \<in> insert node vd" if "v \<in> insert node vd" "(v, w) \<in> edges cells" for v w
      using that succ inv by (auto simp: dfs_inv_def)
    show "(v, v) \<notin> (edges cells)\<^sup>+" if "v \<in> insert node vd" for v
      using that acyc inv by (auto simp: dfs_inv_def)
  qed
qed

lemma dfs_sound:
  "dfs cells node vi vd = Inr (vi', vd') \<Longrightarrow> dfs_inv cells vi vd \<Longrightarrow>
     vi' = vi \<and> vd \<subseteq> vd' \<and> node \<in> vd' \<and> dfs_inv cells vi vd'"
  "dfs_refs cells rs vi vd = Inr (vi', vd') \<Longrightarrow> dfs_inv cells vi vd \<Longrightarrow>
     vi' = vi \<and> vd \<subseteq> vd' \<and> set rs \<subseteq> vd' \<and> dfs_inv cells vi vd'"
proof (induction cells node vi vd and cells rs vi vd arbitrary: vi' vd' and vi' vd' rule: dfs_dfs_refs.induct)
  case (1 cells node vi vd)
  show ?case
  proof (cases "node \<in> vd")
    case True
    then show ?thesis using 1 by (auto simp: dfs.simps split: if_splits)
  next
    case False
    then have nvi: "node \<notin> vi" using "1.prems" by (auto simp: dfs.simps split: if_splits)
    define rs where "rs = (case cells node of Some c \<Rightarrow> cell_refs c | None \<Rightarrow> [])"
    have "dfs_inv cells (insert node vi) vd" using "1.prems"(2) False by (auto simp: dfs_inv_def)
    moreover obtain vd0 where vd0: "vd' = insert node vd0" "vi' = vi" 
      "dfs_refs cells rs (insert node vi) vd = Inr (insert node vi, vd0)"
      "vd \<subseteq> vd0" "set rs \<subseteq> vd0" "dfs_inv cells (insert node vi) vd0"
    proof (cases "cells node")
      case None
      then show ?thesis
        using "1.prems" False nvi calculation that [of vd] by (auto simp: rs_def dfs.simps)
    next
      case (Some c)
      then obtain vi0 vd0 where r: "dfs_refs cells (cell_refs c) (insert node vi) vd = Inr (vi0, vd0)"
        and v: "vi' = vi0 - {node}" "vd' = insert node vd0"
        using "1.prems"(1) False nvi by (auto simp: bindR_Inr dfs.simps)
      then show ?thesis
        using "1.IH" [OF nvi False Some r calculation] nvi Some that [of vd0] by (simp add: rs_def)
    qed
    have "w \<in> vd0" if "(node, w) \<in> edges cells" for w
      using that vd0(5) by (cases "cells node") (auto simp: edges_def rs_def)
    then show ?thesis using dfs_inv_insert [OF vd0(6) nvi] vd0(1,2,4) by auto
  qed
next
  case (3 cells r rs vi vd)
  from "3.prems"(1) obtain vi1 vd1 where d: "dfs cells r vi vd = Inr (vi1, vd1)"
    and e: "dfs_refs cells rs vi1 vd1 = Inr (vi', vd')"
    by (auto simp: bindR_Inr)
  have 1: "vi1 = vi \<and> vd \<subseteq> vd1 \<and> r \<in> vd1 \<and> dfs_inv cells vi vd1"
    using "3.IH"(1) [OF d "3.prems"(2)] .
  then have "vi' = vi \<and> vd1 \<subseteq> vd' \<and> set rs \<subseteq> vd' \<and> dfs_inv cells vi vd'"
    using "3.IH"(2) [OF d refl e] by simp
  with 1 show ?case by auto
qed auto

text \<open>An error is always the cycle error, and names a cycle that is there.\<close>

definition cycle_from :: "(hash32 \<rightharpoonup> cell) \<Rightarrow> hash32 \<Rightarrow> bool" where
  "cycle_from cells h \<longleftrightarrow> (\<exists>g. (h, g) \<in> (edges cells)\<^sup>* \<and> (g, g) \<in> (edges cells)\<^sup>+)"

lemma cycle_from_step: "(h, r) \<in> edges cells \<Longrightarrow> cycle_from cells r \<Longrightarrow> cycle_from cells h"
  unfolding cycle_from_def by (meson converse_rtrancl_into_rtrancl)

lemma dfs_error:
  "dfs cells node vi vd = Inl e \<Longrightarrow> (\<forall>v\<in>vi. (v, node) \<in> (edges cells)\<^sup>+) \<Longrightarrow>
     e = CyclicCellReference \<and> cycle_from cells node"
  "dfs_refs cells rs vi vd = Inl e \<Longrightarrow> (\<forall>v\<in>vi. \<forall>r\<in>set rs. (v, r) \<in> (edges cells)\<^sup>+) \<Longrightarrow>
     e = CyclicCellReference \<and> (\<exists>r\<in>set rs. cycle_from cells r)"
proof (induction cells node vi vd and cells rs vi vd arbitrary: e and e rule: dfs_dfs_refs.induct)
  case (1 cells node vi vd)
  show ?case
  proof (cases "node \<in> vi")
    case True
    then show ?thesis using 1 by (auto simp: cycle_from_def dfs.simps)
  next
    case False
    then obtain c where nvd: "node \<notin> vd" and c: "cells node = Some c"
      and r: "dfs_refs cells (cell_refs c) (insert node vi) vd = Inl e"
      using "1.prems"(1)
      by (cases "cells node"; cases "dfs_refs cells (cell_refs (the (cells node))) (insert node vi) vd")
        (auto simp: dfs.simps split: if_splits)
    have succ: "(node, r) \<in> edges cells" if "r \<in> set (cell_refs c)" for r
      using that c by (auto simp: edges_def)
    have "\<forall>v\<in>insert node vi. \<forall>r\<in>set (cell_refs c). (v, r) \<in> (edges cells)\<^sup>+"
      using "1.prems"(2) succ by (auto intro: trancl_into_trancl)
    then show ?thesis
      using "1.IH" [OF False nvd c r] succ cycle_from_step by blast
  qed
next
  case (3 cells r rs vi vd)
  show ?case
  proof (cases "dfs cells r vi vd")
    case (Inl e')
    then show ?thesis using "3.IH"(1) [OF Inl] "3.prems" by auto
  next
    case (Inr p)
    obtain vi1 vd1 where p: "p = (vi1, vd1)" by (cases p)
    have "vi1 = vi" using dfs_restores Inr p by simp
    then show ?thesis using "3.IH"(2) [OF Inr p [symmetric]] "3.prems" Inr p by auto
  qed
qed auto

lemma verify_dag_iff: "verify_dag boc = Inr () \<longleftrightarrow> \<not> cycle_from (boc_cells boc) (boc_root boc)"
proof (cases "dfs (boc_cells boc) (boc_root boc) {} {}")
  case (Inl e)
  then show ?thesis using dfs_error(1) [OF Inl] by (simp add: verify_dag_def)
next
  case (Inr p)
  obtain vi vd where p: "p = (vi, vd)" by (cases p)
  have d: "boc_root boc \<in> vd \<and> dfs_inv (boc_cells boc) {} vd"
    using dfs_sound(1) [OF Inr [unfolded p]] by (simp add: dfs_inv_def)
  then have "g \<in> vd" if "(boc_root boc, g) \<in> (edges (boc_cells boc))\<^sup>*" for g
    using that dfs_inv_reach by blast
  with d have "\<not> cycle_from (boc_cells boc) (boc_root boc)"
    unfolding cycle_from_def dfs_inv_def by blast
  then show ?thesis using Inr by (simp add: verify_dag_def)
qed

lemma verify_dag_Inl: "verify_dag boc = Inl e \<Longrightarrow> e = CyclicCellReference"
  using dfs_error(1) [of "boc_cells boc" "boc_root boc" "{}" "{}"]
  by (cases "dfs (boc_cells boc) (boc_root boc) {} {}") (auto simp: verify_dag_def)

section \<open>Round trip and integrity of the wire format\<close>

text \<open>Every cell is stored under its own hash, and the iterator's entries enumerate the map.\<close>

definition boc_wf :: "crypto \<Rightarrow> (hash32 \<rightharpoonup> cell) \<Rightarrow> bool" where
  "boc_wf cr cells \<longleftrightarrow> (\<forall>h c. cells h = Some c \<longrightarrow> cell_ok c \<and> cell_hash cr c = h)"

definition iterates :: "('k \<times> 'v) list \<Rightarrow> ('k \<rightharpoonup> 'v) \<Rightarrow> bool" where
  "iterates es m \<longleftrightarrow> distinct (map fst es) \<and> map_of es = m"

lemma iterates_mem: "iterates es m \<Longrightarrow> (h, c) \<in> set es \<longleftrightarrow> m h = Some c"
  by (auto simp: iterates_def)

lemma length_cell_bytes_bound: "cell_ok c \<Longrightarrow> length (cell_to_bytes c) \<le> 258"
  by (simp add: length_cell_to_bytes cell_ok_def)

lemma unat_of_length_u32: "n < 2 ^ 32 \<Longrightarrow> unat (word_of_nat n :: u32) = n"
  by (simp add: unsigned_of_nat take_bit_eq_mod)

lemma boc_read_cells_entries:
  assumes "list_all (\<lambda>(h, c). cell_ok c \<and> cell_hash cr c = h) es"
  shows "boc_read_cells cr (length es) (concat (map boc_entry_to_bytes es) @ rest) offset m
    = Inr (m ++ map_of (rev es), offset + length (concat (map boc_entry_to_bytes es)))"
  using assms
proof (induction es arbitrary: offset m)
  case (Cons e es)
  obtain h c where e: "e = (h, c)" by (cases e)
  let ?cb = "cell_to_bytes c" and ?tl = "concat (map boc_entry_to_bytes es) @ rest"
  have ok: "cell_ok c" "cell_hash cr c = h" using Cons.prems e by auto
  have u: "unat (word_of_nat (length ?cb) :: u32) = length ?cb"
    using length_cell_bytes_bound [OF ok(1)] by (intro unat_of_length_u32) simp
  have split: "concat (map boc_entry_to_bytes (e # es)) @ rest =
      encode h @ encode (word_of_nat (length ?cb) :: u32) @ ?cb @ ?tl"
    by (simp add: e boc_entry_to_bytes_def Let_def)
  have "boc_read_cells cr (length (e # es)) (concat (map boc_entry_to_bytes (e # es)) @ rest) offset m
      = boc_read_cells cr (length es) ?tl (offset + 36 + length ?cb) (m(h \<mapsto> c))"
    unfolding split using cell_from_to [OF ok(1), of "[]"] ok(2) u by simp
  also have "\<dots> = Inr (m ++ map_of (rev (e # es)), offset + length (concat (map boc_entry_to_bytes (e # es))))"
  proof -
    have "length (boc_entry_to_bytes e) = 36 + length ?cb"
      by (simp add: e boc_entry_to_bytes_def Let_def)
    moreover have "m ++ map_of (rev (e # es)) = m(h \<mapsto> c) ++ map_of (rev es)"
      by (simp add: e map_add_assoc)
    moreover have "list_all (\<lambda>(h, c). cell_ok c \<and> cell_hash cr c = h) es"
      using Cons.prems by simp
    ultimately show ?thesis
      by (simp only: Cons.IH list.map concat.simps length_append add.assoc)
  qed
  finally show ?case .
qed simp

lemma length_boc_entries:
  "36 * length es \<le> length (concat (map boc_entry_to_bytes es))"
  by (induction es) (auto simp: boc_entry_to_bytes_def Let_def)

lemma map_of_rev_distinct: "distinct (map fst es) \<Longrightarrow> map_of (rev es) = map_of es"
  by (rule map_of_eqI) (auto simp: rev_map [symmetric])

lemma boc_from_to:
  assumes "iterates es (boc_cells boc)" "boc_wf cr (boc_cells boc)" "length es < 2 ^ 32"
    and "boc_new (boc_root boc) (boc_cells boc) = Inr boc"
  shows "boc_from_bytes cr (boc_to_bytes boc es @ rest) = Inr (boc, length (boc_to_bytes boc es))"
proof -
  have es: "list_all (\<lambda>(h, c). cell_ok c \<and> cell_hash cr c = h) es"
    using assms(1,2) by (auto simp: list_all_iff boc_wf_def iterates_mem)
  have u: "unat (word_of_nat (length es) :: u32) = length es"
    using assms(3) by (rule unat_of_length_u32)
  have m: "map_of (rev es) = boc_cells boc"
    using assms(1) by (simp add: iterates_def map_of_rev_distinct)
  have cap: "length es \<le> (length (concat (map boc_entry_to_bytes es)) + length rest) div 36"
    using length_boc_entries [of es] by simp
  show ?thesis
    unfolding boc_from_bytes_def boc_to_bytes_def
    using cap boc_read_cells_entries [OF es, of rest 36 Map.empty] assms(4)
    by (simp add: Let_def u m not_less)
qed

lemma boc_read_cells_wf:
  "boc_read_cells cr n rest offset m = Inr (cells, off') \<Longrightarrow> boc_wf cr m \<Longrightarrow> boc_wf cr cells"
proof (induction n arbitrary: rest offset m)
  case (Suc n)
  then obtain c k len where "cell_from_bytes (take len (drop 36 rest)) = Inr (c, k)"
    and rec: "boc_read_cells cr n (drop (36 + len) rest) (offset + 36 + len)
        (m(cell_hash cr c \<mapsto> c)) = Inr (cells, off')"
    by (auto simp: bindR_Inr Let_def read_int_def byte_len_def split: if_splits)
  then have "boc_wf cr (m(cell_hash cr c \<mapsto> c))"
    using Suc.prems(2) cell_from_bytes_Inr(1) by (auto simp: boc_wf_def)
  then show ?case by (rule Suc.IH [OF rec])
qed simp

lemma boc_new_Inr:
  "boc_new root cells = Inr boc \<longleftrightarrow>
     boc = \<lparr>boc_root = root, boc_cells = cells\<rparr> \<and> cells root \<noteq> None \<and> \<not> cycle_from cells root"
proof -
  have "verify_dag \<lparr>boc_root = root, boc_cells = cells\<rparr> = Inr u \<longleftrightarrow> \<not> cycle_from cells root" for u
    using verify_dag_iff [of "\<lparr>boc_root = root, boc_cells = cells\<rparr>"] by simp
  then show ?thesis by (auto simp: boc_new_def Let_def bindR_Inr)
qed

lemma boc_from_bytes_wf:
  assumes "boc_from_bytes cr bs = Inr (boc, n)"
  shows "boc_wf cr (boc_cells boc)" "boc_cells boc (boc_root boc) \<noteq> None"
    "\<not> cycle_from (boc_cells boc) (boc_root boc)"
proof -
  from assms obtain root cells k cur where
    "boc_read_cells cr k cur 36 Map.empty = Inr (cells, n)" and new: "boc_new root cells = Inr boc"
    by (auto simp: boc_from_bytes_def bindR_Inr Let_def split: if_splits)
  then show "boc_wf cr (boc_cells boc)"
    using boc_read_cells_wf by (fastforce simp: boc_wf_def boc_new_Inr)
  show "boc_cells boc (boc_root boc) \<noteq> None" "\<not> cycle_from (boc_cells boc) (boc_root boc)"
    using new by (auto simp: boc_new_Inr)
qed

section \<open>Properties\<close>

text \<open>
  C23. The cycle check is exact: \<open>verify_dag\<close> accepts a bag of cells if and only if no cycle of
  references can be reached from its root.
\<close>

theorem verify_dag_exact:
  "verify_dag boc = Inr () \<longleftrightarrow> \<not> cycle_from (boc_cells boc) (boc_root boc)"
  by (rule verify_dag_iff)

text \<open>
  C24. Bags of cells round-trip in every iteration order of the map: encoding the entries of a bag
  the constructor accepts, whose cells are well-formed and stored under their own hashes, and
  decoding gives the bag and the number of bytes read.
\<close>

theorem boc_roundtrip:
  assumes "iterates es (boc_cells boc)" "boc_wf cr (boc_cells boc)" "length es < 2 ^ 32"
    and "boc_new (boc_root boc) (boc_cells boc) = Inr boc"
  shows "boc_from_bytes cr (boc_to_bytes boc es @ rest) = Inr (boc, length (boc_to_bytes boc es))"
  using assms by (rule boc_from_to)

theorem boc_roundtrip_witness:
  "boc_from_bytes toy_crypto (boc_to_bytes \<lparr>boc_root = 35, boc_cells = [35 \<mapsto>
      \<lparr>data_bytes = [5], cell_refs = [], is_special = False\<rparr>]\<rparr>
      [(35, \<lparr>data_bytes = [5], cell_refs = [], is_special = False\<rparr>)] @ [1, 2]) =
   Inr (\<lparr>boc_root = 35, boc_cells = [35 \<mapsto> \<lparr>data_bytes = [5], cell_refs = [], is_special = False\<rparr>]\<rparr>, 75)"
proof -
  let ?c = "\<lparr>data_bytes = [5], cell_refs = [], is_special = False\<rparr> :: cell"
  let ?b = "\<lparr>boc_root = 35, boc_cells = [35 \<mapsto> ?c]\<rparr> :: bag_of_cells"
  have 1: "iterates [(35, ?c)] (boc_cells ?b)" by (simp add: iterates_def)
  have 2: "boc_wf toy_crypto (boc_cells ?b)"
    by (simp add: boc_wf_def cell_ok_def cell_hash_def domain_hash_def toy_crypto_def cell_payload_def
        descriptor_bytes_def ONX_CELL_HASH_V1_TAG_def tag_of_def ascii_def)
  have 3: "boc_new (boc_root ?b) (boc_cells ?b) = Inr ?b"
    by (simp add: boc_new_def verify_dag_def dfs.simps)
  have 4: "length (boc_to_bytes ?b [(35, ?c)]) = 75"
    by (simp add: boc_to_bytes_def boc_entry_to_bytes_def length_cell_to_bytes)
  show ?thesis using boc_roundtrip [OF 1 2 _ 3, of "[1, 2]"] 4 by simp
qed

end
