(* ===== verification/Ordered_Maps.thy ===== *)
theory Ordered_Maps
  imports Main
begin

text \<open>
  Rust's \<open>BTreeMap\<close> as an association list with strictly increasing keys, the list its iterator
  yields, and the contract every map of the program fulfils: what a lookup returns after an
  insertion or a removal. The contract is interpreted here on the ordered map and, in the theory
  of the virtual machine's dictionary, on the prefix trie.
\<close>

section \<open>The contract of a map\<close>

locale map_ops =
  fixes minv :: "'m \<Rightarrow> bool"
    and mempty :: 'm
    and mget :: "'m \<Rightarrow> 'k \<Rightarrow> 'v option"
    and mset :: "'m \<Rightarrow> 'k \<Rightarrow> 'v \<Rightarrow> 'm"
    and mdel :: "'m \<Rightarrow> 'k \<Rightarrow> 'm"
    and mkey :: "'k \<Rightarrow> bool"
  assumes minv_empty: "minv mempty"
    and mget_empty: "mkey k \<Longrightarrow> mget mempty k = None"
    and minv_set: "minv m \<Longrightarrow> mkey k \<Longrightarrow> minv (mset m k v)"
    and mget_set: "minv m \<Longrightarrow> mkey k \<Longrightarrow> mkey j \<Longrightarrow>
      mget (mset m k v) j = (if j = k then Some v else mget m j)"
    and minv_del: "minv m \<Longrightarrow> mkey k \<Longrightarrow> minv (mdel m k)"
    and mget_del: "minv m \<Longrightarrow> mkey k \<Longrightarrow> mkey j \<Longrightarrow>
      mget (mdel m k) j = (if j = k then None else mget m j)"
begin

text \<open>A sequence of insertions reads back as the finite map it lists, the last one winning.\<close>

lemma minv_sets:
  "minv m \<Longrightarrow> list_all (\<lambda>p. mkey (fst p)) ps \<Longrightarrow> minv (fold (\<lambda>(k, v) m. mset m k v) ps m)"
  by (induction ps arbitrary: m) (auto simp: minv_set)

lemma mget_sets:
  assumes "minv m" "list_all (\<lambda>p. mkey (fst p)) ps" "mkey k"
  shows "mget (fold (\<lambda>(k, v) m. mset m k v) ps m) k = (mget m ++ map_of (rev ps)) k"
  using assms
proof (induction ps arbitrary: m)
  case (Cons p ps)
  obtain j v where p: "p = (j, v)" by (cases p)
  have "mget (fold (\<lambda>(k, v) m. mset m k v) ps (mset m j v)) k
      = (mget (mset m j v) ++ map_of (rev ps)) k"
    using Cons.prems by (intro Cons.IH) (auto simp: p minv_set)
  also have "\<dots> = (mget m ++ map_of (rev (p # ps))) k"
    using Cons.prems by (auto simp: p map_add_def mget_set split: option.splits)
  finally show ?case by (simp add: p)
qed simp

lemma mget_del_set:
  "minv m \<Longrightarrow> mkey k \<Longrightarrow> mkey j \<Longrightarrow>
     mget (mdel (mset m k v) k) j = (if j = k then None else mget m j)"
  by (simp add: mget_del mget_set minv_set)

end

section \<open>Ordered maps\<close>

type_synonym ('k, 'v) btree = "('k \<times> 'v) list"

definition bt_inv :: "('k::linorder, 'v) btree \<Rightarrow> bool" where
  "bt_inv m \<longleftrightarrow> sorted_wrt (<) (map fst m)"

abbreviation bt_get :: "('k::linorder, 'v) btree \<Rightarrow> 'k \<Rightarrow> 'v option" where
  "bt_get \<equiv> map_of"

fun bt_insert :: "('k::linorder, 'v) btree \<Rightarrow> 'k \<Rightarrow> 'v \<Rightarrow> ('k, 'v) btree" where
  "bt_insert [] k v = [(k, v)]"
| "bt_insert ((j, w) # m) k v =
     (if k < j then (k, v) # (j, w) # m
      else if k = j then (k, v) # m
      else (j, w) # bt_insert m k v)"

definition bt_remove :: "('k::linorder, 'v) btree \<Rightarrow> 'k \<Rightarrow> ('k, 'v) btree" where
  "bt_remove m k = filter (\<lambda>(j, w). j \<noteq> k) m"

lemma bt_inv_Nil [simp]: "bt_inv []"
  by (simp add: bt_inv_def)

lemma bt_inv_Cons:
  "bt_inv ((k, v) # m) \<longleftrightarrow> bt_inv m \<and> (\<forall>j \<in> fst ` set m. k < j)"
  by (auto simp: bt_inv_def)

lemma fst_set_bt_insert: "fst ` set (bt_insert m k v) = insert k (fst ` set m)"
  by (induction m k v rule: bt_insert.induct) auto

lemma bt_inv_insert [simp]: "bt_inv m \<Longrightarrow> bt_inv (bt_insert m k v)"
  by (induction m k v rule: bt_insert.induct) (auto simp: bt_inv_Cons fst_set_bt_insert)

lemma bt_get_insert [simp]:
  "bt_get (bt_insert m k v) j = (if j = k then Some v else bt_get m j)"
  by (induction m k v rule: bt_insert.induct) auto

lemma bt_inv_remove [simp]: "bt_inv m \<Longrightarrow> bt_inv (bt_remove m k)"
  by (induction m) (auto simp: bt_remove_def bt_inv_Cons)

lemma bt_get_remove [simp]: "bt_get (bt_remove m k) j = (if j = k then None else bt_get m j)"
  by (induction m) (auto simp: bt_remove_def)

interpretation bt: map_ops bt_inv "[]" bt_get bt_insert bt_remove "\<lambda>_. True"
  by unfold_locales auto

lemma bt_distinct: "bt_inv m \<Longrightarrow> distinct (map fst m)"
  by (simp add: bt_inv_def strict_sorted_iff)

text \<open>An ordered map is determined by its lookups.\<close>

lemma bt_eqI:
  assumes "bt_inv m" "bt_inv m'" "\<And>k. bt_get m k = bt_get m' k"
  shows "m = m'"
proof -
  have "map_of m = map_of m'" using assms(3) by (rule ext)
  then have s: "set m = set m'"
    using bt_distinct [OF assms(1)] bt_distinct [OF assms(2)] by (metis map_of_inject_set)
  have "sorted (map fst m)" "sorted (map fst m')"
    using assms(1,2) strict_sorted_imp_sorted unfolding bt_inv_def by auto
  then show ?thesis
    using bt_distinct [OF assms(1)] bt_distinct [OF assms(2)] s
    by (intro map_sorted_distinct_set_unique [of fst m m']) (auto simp: distinct_map)
qed

lemma bt_get_mem: "bt_inv m \<Longrightarrow> bt_get m k = Some v \<longleftrightarrow> (k, v) \<in> set m"
  using bt_distinct [of m] by simp

lemma bt_keys_insert: "dom (bt_get (bt_insert m k v)) = insert k (dom (bt_get m))"
  by auto

end
