(* ===== verification/Bits.thy ===== *)
theory Bits
  imports Prelude
begin

unbundle bit_operations_syntax

text \<open>
  Bit counting of the Rust integer types (\<open>trailing_zeros\<close>, \<open>leading_zeros\<close>, \<open>count_ones\<close>) and
  the bit-level facts the shard identifiers and the hypercube routes share.
\<close>

definition trailing_zeros :: "'a::len word \<Rightarrow> nat" where
  "trailing_zeros w = length (takeWhile (\<lambda>i. \<not> bit w i) [0..<LENGTH('a)])"

definition leading_zeros :: "'a::len word \<Rightarrow> nat" where
  "leading_zeros w = length (takeWhile (\<lambda>i. \<not> bit w i) (rev [0..<LENGTH('a)]))"

definition count_ones :: "'a::len word \<Rightarrow> nat" where
  "count_ones w = length (filter (bit w) [0..<LENGTH('a)])"

lemma takeWhile_upt_length:
  "n < m \<Longrightarrow> P n \<Longrightarrow> \<forall>i<n. \<not> P i \<Longrightarrow> length (takeWhile (\<lambda>i. \<not> P i) [0..<m]) = n"
proof -
  assume nm: "n < m" and Pn: "P n" and min: "\<forall>i<n. \<not> P i"
  have "[0..<m] = [0..<n] @ n # [Suc n..<m]"
    using nm upt_add_eq_append [of 0 n "m - n"] upt_conv_Cons [of n m] by simp
  moreover have "takeWhile (\<lambda>i. \<not> P i) ([0..<n] @ n # [Suc n..<m]) = [0..<n]"
    using Pn min by (subst takeWhile_append2) auto
  ultimately show ?thesis by simp
qed

lemma trailing_zeros_eq:
  "bit w n \<Longrightarrow> \<forall>i<n. \<not> bit w i \<Longrightarrow> trailing_zeros (w :: 'a::len word) = n"
  unfolding trailing_zeros_def by (rule takeWhile_upt_length) (auto dest: bit_imp_le_length)

lemma nonzero_least_bit:
  assumes "w \<noteq> (0 :: 'a::len word)"
  obtains n where "bit w n" "\<forall>i<n. \<not> bit w i"
proof -
  from assms obtain k where "bit w k"
    using bit_word_eqI [of w 0] by auto
  then have "bit w (LEAST i. bit w i)" "\<forall>i<(LEAST i. bit w i). \<not> bit w i"
    by (auto intro: LeastI dest: not_less_Least)
  then show thesis by (rule that)
qed

lemma trailing_zeros_bit:
  assumes "w \<noteq> (0 :: 'a::len word)"
  shows "bit w (trailing_zeros w)" "i < trailing_zeros w \<Longrightarrow> \<not> bit w i"
proof -
  obtain n where n: "bit w n" "\<forall>i<n. \<not> bit w i"
    using nonzero_least_bit [OF assms] by blast
  then have "trailing_zeros w = n" by (rule trailing_zeros_eq)
  with n show "bit w (trailing_zeros w)" "i < trailing_zeros w \<Longrightarrow> \<not> bit w i" by auto
qed

lemma count_ones_card: "count_ones (w :: 'a::len word) = card {i. bit w i}"
proof -
  have "{i. bit w i} = set (filter (bit w) [0..<LENGTH('a)])"
    by (auto dest: bit_imp_le_length)
  then show ?thesis
    using distinct_card [of "filter (bit w) [0..<LENGTH('a)]"]
    by (simp only: count_ones_def distinct_filter distinct_upt)
qed

lemma count_ones_eq_1: "count_ones (w :: 'a::len word) = 1 \<longleftrightarrow> (\<exists>n. {i. bit w i} = {n})"
  by (simp add: count_ones_card card_1_singleton_iff)

lemma count_ones_eq_0: "count_ones (w :: 'a::len word) = 0 \<longleftrightarrow> w = 0"
proof -
  have "finite {i. bit w i}"
    by (rule finite_subset [of _ "{..<LENGTH('a)}"]) (auto dest: bit_imp_le_length)
  then show ?thesis by (auto simp: count_ones_card intro: bit_word_eqI)
qed

text \<open>The mask \<open>(!0) << (64 - len)\<close> of the top \<open>len\<close> bits, \<open>0\<close> for the empty prefix.\<close>

definition top_mask :: "nat \<Rightarrow> u64" where
  "top_mask len = (if len = 0 then 0 else push_bit (64 - len) (NOT 0))"

lemma bit_top_mask: "len \<le> 64 \<Longrightarrow> bit (top_mask len) i \<longleftrightarrow> 64 - len \<le> i \<and> i < 64"
  by (auto simp: top_mask_def bit_simps)

lemma bit_u64_less: "bit (w :: u64) i \<Longrightarrow> i < 64"
  using bit_imp_le_length [of w i] by simp

lemma be_val_take_nat_be:
  "k \<le> n \<Longrightarrow> be_val (take k (nat_be n x)) = x div 256 ^ (n - k) mod 256 ^ k"
proof (induction n arbitrary: k)
  case (Suc n)
  show ?case
  proof (cases k)
    case (Suc j)
    with Suc.prems have j: "j \<le> n" by simp
    have pow: "(256::nat) ^ n = 256 ^ (n - j) * 256 ^ j"
      using j by (metis le_add_diff_inverse2 power_add)
    have "unat (word_of_nat (x div 256 ^ n) :: byte) = x div 256 ^ n mod 256"
      by (simp add: unsigned_of_nat take_bit_eq_mod)
    moreover have "x div 256 ^ (n - j) mod 256 ^ Suc j
        = 256 ^ j * (x div 256 ^ n mod 256) + x div 256 ^ (n - j) mod 256 ^ j"
      by (simp add: pow power_Suc2 mod_mult2_eq div_mult2_eq del: power_Suc)
    ultimately show ?thesis
      using Suc.IH [OF j] Suc j by (simp add: min_absorb2)
  qed simp
qed simp

text \<open>The eight leading bytes of a 256-bit identifier are its top 64 bits.\<close>

lemma from_be_take_8: "(from_be (take 8 (to_be (w :: 256 word))) :: u64) = ucast (drop_bit 192 w)"
proof -
  have "be_val (take 8 (nat_be 32 (unat w))) = unat w div 2 ^ 192 mod 2 ^ 64"
    by (simp add: be_val_take_nat_be)
  moreover have "unat (ucast (drop_bit 192 w) :: u64) = unat w div 2 ^ 192 mod 2 ^ 64"
    by (simp only: unsigned_ucast_eq unat_drop_bit_eq take_bit_eq_mod) (simp add: drop_bit_eq_div)
  ultimately show ?thesis
    by (simp only: word_unat_eq_iff) (simp add: from_be_def to_be_def unsigned_of_nat take_bit_eq_mod)
qed

lemma bit_from_be_take_8:
  "bit (from_be (take 8 (to_be (w :: 256 word))) :: u64) i \<longleftrightarrow> i < 64 \<and> bit w (192 + i)"
  by (auto simp: from_be_take_8 bit_simps)

end
