(* ===== verification/Addresses.thy ===== *)
theory Addresses
  imports Primitives Bits
begin

unbundle bit_operations_syntax

text \<open>
  \<open>crates/protocol/onx-data-structures\<close>: the error type (\<open>error.rs\<close>), workchain, account and full
  addresses (\<open>address.rs\<close>) and shard identifiers (\<open>shard.rs\<close>). A shard identifier is a prefix of
  account bits followed by a marker bit in one \<open>u64\<close>; the lemmas give its meaning bit by bit and
  its canonical encoding.
\<close>

section \<open>Errors\<close>

datatype data_structure_error =
    Primitive primitive_error
  | InvalidShardMarker
  | ShardPrefixLengthExceeded nat
  | AddressShardMismatch
  | InvalidMessageType u8
  | HeaderMagicMismatch u32
  | MergeParentReferenceInconsistency
  | TruncatedInput nat nat
  | TrailingInput nat

section \<open>Workchains and addresses\<close>

text \<open>A workchain identifier is a signed 32-bit integer, an account identifier 32 bytes.\<close>

type_synonym workchain_ident = u32
type_synonym account_id = u256

definition MASTERCHAIN :: workchain_ident where
  "MASTERCHAIN = - 1"

definition BASIC :: workchain_ident where
  "BASIC = 0"

definition is_masterchain :: "workchain_ident \<Rightarrow> bool" where
  "is_masterchain wc \<longleftrightarrow> sint wc = - 1"

definition workchain_to_bytes :: "workchain_ident \<Rightarrow> bytes" where
  "workchain_to_bytes wc = encode wc"

definition workchain_from_bytes :: "bytes \<Rightarrow> workchain_ident" where
  "workchain_from_bytes bs = from_be bs"

datatype full_address = FullAddress (addr_workchain: workchain_ident) (addr_account: account_id)

text \<open>The derived order: the workchain as a signed integer, then the account bytes.\<close>

instantiation full_address :: linorder
begin

definition less_eq_full_address :: "full_address \<Rightarrow> full_address \<Rightarrow> bool" where
  "less_eq_full_address a b \<longleftrightarrow>
     sint (addr_workchain a) < sint (addr_workchain b) \<or>
     addr_workchain a = addr_workchain b \<and> addr_account a \<le> addr_account b"

definition less_full_address :: "full_address \<Rightarrow> full_address \<Rightarrow> bool" where
  "less_full_address a b \<longleftrightarrow>
     sint (addr_workchain a) < sint (addr_workchain b) \<or>
     addr_workchain a = addr_workchain b \<and> addr_account a < addr_account b"

instance
proof
  fix x y z :: full_address
  show "(x < y) = (x \<le> y \<and> \<not> y \<le> x)"
    by (auto simp: less_eq_full_address_def less_full_address_def)
  show "x \<le> x"
    by (simp add: less_eq_full_address_def)
  show "x \<le> y \<Longrightarrow> y \<le> z \<Longrightarrow> x \<le> z"
    by (auto simp: less_eq_full_address_def)
  show "x \<le> y \<Longrightarrow> y \<le> x \<Longrightarrow> x = y"
    by (auto simp: less_eq_full_address_def intro: full_address.expand)
  show "x \<le> y \<or> y \<le> x"
    by (cases "sint (addr_workchain x)" "sint (addr_workchain y)" rule: linorder_cases)
      (auto simp: less_eq_full_address_def dest: signed_word_eqI)
qed

end

definition address_to_bytes :: "full_address \<Rightarrow> bytes" where
  "address_to_bytes a = workchain_to_bytes (addr_workchain a) @ encode (addr_account a)"

definition address_from_bytes :: "bytes \<Rightarrow> data_structure_error + full_address" where
  "address_from_bytes bs =
     (if length bs < 36 then Inl (TruncatedInput 36 (length bs))
      else if length bs > 36 then Inl (TrailingInput (length bs - 36))
      else Inr (FullAddress (workchain_from_bytes (subslice 0 4 bs)) (from_be (subslice 4 36 bs))))"

section \<open>Shard identifiers\<close>

record shard_ident =
  shard_workchain :: workchain_ident
  shard_prefix_ident :: u64

lemma shard_ident_eta [simp]:
  "\<lparr>shard_workchain = shard_workchain s, shard_prefix_ident = shard_prefix_ident s\<rparr> = s"
  by simp

definition ROOT_PREFIX :: u64 where
  "ROOT_PREFIX = 0x8000000000000000"

definition shard_root :: "workchain_ident \<Rightarrow> shard_ident" where
  "shard_root wc = \<lparr>shard_workchain = wc, shard_prefix_ident = ROOT_PREFIX\<rparr>"

definition from_prefix_bits ::
  "workchain_ident \<Rightarrow> u64 \<Rightarrow> nat \<Rightarrow> data_structure_error + shard_ident" where
  "from_prefix_bits wc bits len =
     (if len > 60 then Inl (ShardPrefixLengthExceeded len)
      else
        let marker_bit = push_bit (63 - len) 1;
            mask = (if len = 0 then 0 else push_bit (64 - len) (NOT 0))
        in Inr \<lparr>shard_workchain = wc, shard_prefix_ident = (bits AND mask) OR marker_bit\<rparr>)"

definition prefix_len :: "shard_ident \<Rightarrow> data_structure_error + nat" where
  "prefix_len s =
     (let v = shard_prefix_ident s in
      if v = 0 then Inl InvalidShardMarker
      else
        let len = 63 - trailing_zeros v
        in if len > 60 then Inl (ShardPrefixLengthExceeded len) else Inr len)"

definition shard_validate :: "shard_ident \<Rightarrow> data_structure_error + unit" where
  "shard_validate s = bindR (prefix_len s) (\<lambda>_. Inr ())"

definition shard_new :: "workchain_ident \<Rightarrow> u64 \<Rightarrow> data_structure_error + shard_ident" where
  "shard_new wc p =
     (let s = \<lparr>shard_workchain = wc, shard_prefix_ident = p\<rparr>
      in bindR (shard_validate s) (\<lambda>_. Inr s))"

definition contains_account :: "shard_ident \<Rightarrow> account_id \<Rightarrow> data_structure_error + bool" where
  "contains_account s a =
     bindR (prefix_len s) (\<lambda>len.
       if len = 0 then Inr True
       else
         let acct_msb = (from_be (subslice 0 8 (encode a)) :: u64);
             mask = push_bit (64 - len) (NOT 0);
             shard_bits = shard_prefix_ident s AND mask;
             acct_bits = acct_msb AND mask
         in Inr (shard_bits = acct_bits))"

definition validate_account_id :: "shard_ident \<Rightarrow> account_id \<Rightarrow> data_structure_error + unit" where
  "validate_account_id s a =
     bindR (contains_account s a) (\<lambda>b. if b then Inr () else Inl AddressShardMismatch)"

definition validate_full_address :: "shard_ident \<Rightarrow> full_address \<Rightarrow> data_structure_error + unit" where
  "validate_full_address s a =
     (if shard_workchain s \<noteq> addr_workchain a then Inl AddressShardMismatch
      else validate_account_id s (addr_account a))"

definition address_validate_against_shard ::
  "full_address \<Rightarrow> shard_ident \<Rightarrow> data_structure_error + unit" where
  "address_validate_against_shard a s = validate_full_address s a"

definition shard_to_bytes :: "shard_ident \<Rightarrow> bytes" where
  "shard_to_bytes s = workchain_to_bytes (shard_workchain s) @ encode (shard_prefix_ident s)"

definition shard_from_bytes :: "bytes \<Rightarrow> data_structure_error + shard_ident" where
  "shard_from_bytes bs =
     (if length bs < 12 then Inl (TruncatedInput 12 (length bs))
      else if length bs > 12 then Inl (TrailingInput (length bs - 12))
      else
        let wc = workchain_from_bytes (subslice 0 4 bs) in
        bindR (map_err Primitive (decode_exact (subslice 4 12 bs))) (\<lambda>p.
          let s = \<lparr>shard_workchain = wc, shard_prefix_ident = p\<rparr>
          in bindR (shard_validate s) (\<lambda>_. Inr s)))"

section \<open>Codecs of addresses and shards\<close>

lemma length_address_to_bytes [simp, codec_simps]: "length (address_to_bytes a) = 36"
  by (simp add: address_to_bytes_def workchain_to_bytes_def)

lemma length_shard_to_bytes [simp, codec_simps]: "length (shard_to_bytes s) = 12"
  by (simp add: shard_to_bytes_def workchain_to_bytes_def)

lemma address_from_bytes_sound:
  assumes "address_from_bytes bs = Inr a"
  shows "bs = address_to_bytes a"
proof -
  from assms have len: "length bs = 36"
    and a: "a = FullAddress (workchain_from_bytes (subslice 0 4 bs)) (from_be (subslice 4 36 bs))"
    by (auto simp: address_from_bytes_def split: if_splits)
  have "address_to_bytes a = subslice 0 4 bs @ subslice 4 36 bs"
    by (simp add: a address_to_bytes_def workchain_to_bytes_def workchain_from_bytes_def
        encode_from_be len)
  then show ?thesis by (simp add: subslice_join subslice_all len)
qed

lemma address_from_to: "address_from_bytes (address_to_bytes a) = Inr a"
  by (simp add: address_from_bytes_def address_to_bytes_def workchain_to_bytes_def
      workchain_from_bytes_def subslice_simps)

interpretation addrc: fixed_codec address_to_bytes address_from_bytes 36 "\<lambda>_. True"
  by unfold_locales (auto simp: address_from_to dest: address_from_bytes_sound)

abbreviation shard_ok :: "shard_ident \<Rightarrow> bool" where
  "shard_ok s \<equiv> shard_validate s = Inr ()"

lemma shard_from_bytes_sound:
  assumes "shard_from_bytes bs = Inr s"
  shows "shard_ok s \<and> bs = shard_to_bytes s"
proof -
  from assms obtain p where len: "length bs = 12"
    and p: "decode_exact (subslice 4 12 bs) = Inr p"
    and s: "s = \<lparr>shard_workchain = workchain_from_bytes (subslice 0 4 bs), shard_prefix_ident = p\<rparr>"
    and ok: "shard_ok s"
    by (auto simp: shard_from_bytes_def Let_def bindR_Inr split: if_splits)
  from p have "subslice 4 12 bs = encode p" by (simp add: decode_exact_iff)
  then have "shard_to_bytes s = subslice 0 4 bs @ subslice 4 12 bs"
    by (simp add: s shard_to_bytes_def workchain_to_bytes_def workchain_from_bytes_def
        encode_from_be len)
  then show ?thesis using ok by (simp add: subslice_join subslice_all len)
qed

lemma shard_from_to: "shard_ok s \<Longrightarrow> shard_from_bytes (shard_to_bytes s) = Inr s"
  by (simp add: shard_from_bytes_def shard_to_bytes_def workchain_to_bytes_def
      workchain_from_bytes_def subslice_simps Let_def)

interpretation shardc: fixed_codec shard_to_bytes shard_from_bytes 12 shard_ok
  by unfold_locales (auto simp: shard_from_to dest: shard_from_bytes_sound)

section \<open>Shard prefixes\<close>

text \<open>
  \<^term>\<open>has_prefix_len s n\<close>: the marker bit of \<open>s\<close> is bit \<open>63 - n\<close>, all lower bits are zero.
\<close>

definition has_prefix_len :: "shard_ident \<Rightarrow> nat \<Rightarrow> bool" where
  "has_prefix_len s n \<longleftrightarrow> n \<le> 60 \<and> bit (shard_prefix_ident s) (63 - n) \<and>
     (\<forall>i<63 - n. \<not> bit (shard_prefix_ident s) i)"

lemma prefix_len_Inr: "prefix_len s = Inr n \<longleftrightarrow> has_prefix_len s n"
proof
  assume "prefix_len s = Inr n"
  then have nz: "shard_prefix_ident s \<noteq> 0" and n: "n = 63 - trailing_zeros (shard_prefix_ident s)"
    and le: "n \<le> 60"
    by (auto simp: prefix_len_def Let_def split: if_splits)
  have "trailing_zeros (shard_prefix_ident s) \<le> 63"
    using trailing_zeros_bit(1) [OF nz] bit_u64_less by fastforce
  then have "trailing_zeros (shard_prefix_ident s) = 63 - n" using n by simp
  then show "has_prefix_len s n"
    using trailing_zeros_bit [OF nz] le by (auto simp: has_prefix_len_def)
next
  assume h: "has_prefix_len s n"
  then have "trailing_zeros (shard_prefix_ident s) = 63 - n"
    by (intro trailing_zeros_eq) (auto simp: has_prefix_len_def)
  moreover have "shard_prefix_ident s \<noteq> 0" using h by (auto simp: has_prefix_len_def)
  ultimately show "prefix_len s = Inr n" using h by (simp add: prefix_len_def has_prefix_len_def)
qed

lemma has_prefix_len_le: "has_prefix_len s n \<Longrightarrow> n \<le> 60"
  by (simp add: has_prefix_len_def)

lemma root_prefix_len: "has_prefix_len (shard_root wc) 0"
proof -
  have r: "ROOT_PREFIX = push_bit 63 1" by (simp add: ROOT_PREFIX_def)
  have "bit ROOT_PREFIX i \<longleftrightarrow> i = 63" for i unfolding r by (auto simp: bit_push_bit_iff bit_1_iff simp del: push_bit_of_1)
  then show ?thesis by (simp add: has_prefix_len_def shard_root_def)
qed

lemma shard_ok_iff: "shard_ok s \<longleftrightarrow> (\<exists>n. has_prefix_len s n)"
  by (auto simp: shard_validate_def bindR_Inr prefix_len_Inr)

lemma prefix_len_unique: "has_prefix_len s n \<Longrightarrow> has_prefix_len s m \<Longrightarrow> n = m"
  using prefix_len_Inr by (metis Inr_inject)

text \<open>The account bits a prefix is compared with: bit \<open>63 - i\<close> of the identifier is account bit
  \<open>255 - i\<close>.\<close>

definition in_shard_prefix :: "shard_ident \<Rightarrow> nat \<Rightarrow> account_id \<Rightarrow> bool" where
  "in_shard_prefix s n a \<longleftrightarrow> (\<forall>i<n. bit (shard_prefix_ident s) (63 - i) = bit a (255 - i))"

lemma masked_eq_iff:
  assumes "n \<le> 60"
  shows "v AND push_bit (64 - n) (NOT 0) = (w :: u64) AND push_bit (64 - n) (NOT 0) \<longleftrightarrow>
    (\<forall>i<n. bit v (63 - i) = bit w (63 - i))"
proof -
  have "v AND push_bit (64 - n) (NOT 0) = w AND push_bit (64 - n) (NOT 0) \<longleftrightarrow>
      (\<forall>j. 64 - n \<le> j \<and> j < 64 \<longrightarrow> bit v j = bit w j)"
    by (auto simp: bit_eq_iff bit_simps)
  also have "\<dots> \<longleftrightarrow> (\<forall>i<n. bit v (63 - i) = bit w (63 - i))"
  proof (rule iffI; intro allI impI)
    fix i assume h: "\<forall>j. 64 - n \<le> j \<and> j < 64 \<longrightarrow> bit v j = bit w j" and i: "i < n"
    have "64 - n \<le> 63 - i \<and> 63 - i < 64" using i by linarith
    with h show "bit v (63 - i) = bit w (63 - i)" by blast
  next
    fix j assume h: "\<forall>i<n. bit v (63 - i) = bit w (63 - i)" and j: "64 - n \<le> j \<and> j < 64"
    have "63 - j < n" using j assms by linarith
    with h have "bit v (63 - (63 - j)) = bit w (63 - (63 - j))" by blast
    with j show "bit v j = bit w j" by simp
  qed
  finally show ?thesis .
qed

lemma contains_account_eq:
  assumes "has_prefix_len s n"
  shows "contains_account s a = Inr (in_shard_prefix s n a)"
proof -
  have le: "n \<le> 60" using assms by (simp add: has_prefix_len_def)
  have "bit (from_be (subslice 0 8 (encode a)) :: u64) (63 - i) = bit a (255 - i)" if "i < n" for i
    using that le by (auto simp: subslice_def encode_def bit_from_be_take_8)
  then have "(\<forall>i<n. bit (shard_prefix_ident s) (63 - i) =
        bit (from_be (subslice 0 8 (encode a)) :: u64) (63 - i)) \<longleftrightarrow> in_shard_prefix s n a"
    by (auto simp: in_shard_prefix_def)
  then show ?thesis
    using assms prefix_len_Inr [of s n] masked_eq_iff [OF le]
    by (cases "n = 0") (simp_all add: contains_account_def Let_def in_shard_prefix_def)
qed

lemma from_prefix_bits_props:
  assumes "from_prefix_bits wc bits n = Inr s"
  shows "shard_workchain s = wc" "has_prefix_len s n"
    "i < n \<Longrightarrow> bit (shard_prefix_ident s) (63 - i) = bit bits (63 - i)"
proof -
  from assms have n: "n \<le> 60" and s: "s = \<lparr>shard_workchain = wc,
      shard_prefix_ident = (bits AND top_mask n) OR push_bit (63 - n) 1\<rparr>"
    by (auto simp: from_prefix_bits_def Let_def top_mask_def split: if_splits)
  show "shard_workchain s = wc" by (simp add: s)
  show "has_prefix_len s n"
    using n by (auto simp: s has_prefix_len_def bit_simps bit_top_mask)
  show "i < n \<Longrightarrow> bit (shard_prefix_ident s) (63 - i) = bit bits (63 - i)"
    using n by (auto simp: s bit_simps bit_top_mask)
qed

text \<open>Two identifiers with the same workchain, depth and prefix bits are equal.\<close>

lemma shard_ident_eqI:
  assumes "shard_workchain s = shard_workchain t" "has_prefix_len s n" "has_prefix_len t n"
    and "\<And>i. i < n \<Longrightarrow> bit (shard_prefix_ident s) (63 - i) = bit (shard_prefix_ident t) (63 - i)"
  shows "s = (t :: shard_ident)"
proof -
  have "shard_prefix_ident s = shard_prefix_ident t"
  proof (rule bit_word_eqI)
    fix j assume "j < LENGTH(64)"
    then have j: "j \<le> 63" by simp
    consider "j < 63 - n" | "j = 63 - n" | "63 - n < j" by linarith
    then show "bit (shard_prefix_ident s) j = bit (shard_prefix_ident t) j"
    proof cases
      case 3
      then show ?thesis using assms(4) [of "63 - j"] j by simp
    qed (use assms(2,3) in \<open>auto simp: has_prefix_len_def\<close>)
  qed
  with assms(1) show ?thesis by simp
qed

section \<open>Properties\<close>

text \<open>
  Shard membership is agreement on the prefix bits: \<open>contains_account\<close> answers \<open>b\<close> exactly when
  the identifier is well-formed with a prefix of some length \<open>n\<close>, at most 60, and \<open>b\<close> tells
  whether the top \<open>n\<close> bits of the account agree with those of the identifier.
\<close>

theorem contains_account_prefix:
  "contains_account s a = Inr b \<longleftrightarrow> (\<exists>n. has_prefix_len s n \<and> b = in_shard_prefix s n a)"
proof
  assume "contains_account s a = Inr b"
  then obtain n where n: "has_prefix_len s n"
    by (auto simp: contains_account_def bindR_Inr prefix_len_Inr)
  with \<open>contains_account s a = Inr b\<close> show "\<exists>n. has_prefix_len s n \<and> b = in_shard_prefix s n a"
    using contains_account_eq [OF n] by auto
next
  assume "\<exists>n. has_prefix_len s n \<and> b = in_shard_prefix s n a"
  then show "contains_account s a = Inr b" using contains_account_eq by auto
qed

text \<open>
  The twelve-byte shard codec is canonical: decoding succeeds exactly on the encodings of the
  identifiers that have a marker bit leaving at most 60 prefix bits.
\<close>

theorem shard_codec_canonical:
  "shard_from_bytes bs = Inr s \<longleftrightarrow> bs = shard_to_bytes s \<and> (\<exists>n. has_prefix_len s n)"
  using shardc.dec_iff [of bs s] by (auto simp: shard_ok_iff)

end
