(* ===== verification/State_Tree.thy ===== *)
theory State_Tree
  imports Boc Ordered_Maps Addresses
begin

unbundle bit_operations_syntax

text \<open>
  \<open>crates/protocol/onx-state-model/src/tree.rs\<close>: the shard state tree, a binary trie of cells over
  the accounts of a shard, its root hash, and Merkle proofs. The lemmas show that the root commits
  to the accounts: two trees with the same root hold the same accounts unless two different cells
  of the tries collide.
\<close>

definition ONX_TRIE_NODE_TAG :: domain_tag where
  "ONX_TRIE_NODE_TAG = tag_of ''ONX_TRIE_NODE_V1''"

definition MERKLE_PROOF_MAGIC :: u32 where
  "MERKLE_PROOF_MAGIC = 0x4D505246"

record shard_state_tree =
  accounts :: "(account_id, account_state) btree"

definition tree_new :: shard_state_tree where
  "tree_new = \<lparr>accounts = []\<rparr>"

definition tree_insert :: "shard_state_tree \<Rightarrow> account_id \<Rightarrow> account_state \<Rightarrow> shard_state_tree" where
  "tree_insert t a st = t\<lparr>accounts := bt_insert (accounts t) a st\<rparr>"

definition tree_get :: "shard_state_tree \<Rightarrow> account_id \<Rightarrow> account_state option" where
  "tree_get t a = bt_get (accounts t) a"

section \<open>Trie cells\<close>

fun chunks :: "nat \<Rightarrow> 'a list \<Rightarrow> 'a list list" where
  "chunks n xs = (if xs = [] \<or> n = 0 then [] else take n xs # chunks n (drop n xs))"

declare chunks.simps [simp del]

fun chunk_cells ::
  "crypto \<Rightarrow> bytes list \<Rightarrow> (hash32 \<rightharpoonup> cell) \<Rightarrow> hash32 list \<Rightarrow>
     state_model_error + hash32 list \<times> (hash32 \<rightharpoonup> cell)" where
  "chunk_cells cr [] cell_map val_chunks = Inr (val_chunks, cell_map)"
| "chunk_cells cr (c # cs) cell_map val_chunks =
     bindR (cell_new c []) (\<lambda>chunk_cell.
       let h = cell_hash cr chunk_cell
       in chunk_cells cr cs (cell_map(h \<mapsto> chunk_cell)) (val_chunks @ [h]))"

text \<open>The test of the partition: bit \<open>7 - depth % 8\<close> of byte \<open>depth / 8\<close> of the key is clear.\<close>

definition goes_left :: "nat \<Rightarrow> hash32 \<Rightarrow> bool" where
  "goes_left bit_depth key \<longleftrightarrow>
     (encode key ! (bit_depth div 8)) AND push_bit (7 - bit_depth mod 8) 1 = 0"

function build_trie_cells ::
  "crypto \<Rightarrow> (hash32 \<times> bytes) list \<Rightarrow> nat \<Rightarrow> (hash32 \<rightharpoonup> cell) \<Rightarrow>
     state_model_error + cell \<times> (hash32 \<rightharpoonup> cell)" where
  "build_trie_cells cr items bit_depth cell_map =
     (if items = [] then
        bindR (cell_new (ascii ''EMPTY_SUBTREE'') []) (\<lambda>c.
          Inr (c, cell_map(cell_hash cr c \<mapsto> c)))
      else if length items = 1 \<or> bit_depth \<ge> 256 then
        let (key, val) = items ! 0 in
        bindR (chunk_cells cr (chunks 128 val) cell_map []) (\<lambda>(val_chunks, cell_map).
        bindR (cell_new (encode key) val_chunks) (\<lambda>c.
          Inr (c, cell_map(cell_hash cr c \<mapsto> c))))
      else
        let left = filter (\<lambda>(key, _). goes_left bit_depth key) items;
            right = filter (\<lambda>(key, _). \<not> goes_left bit_depth key) items in
        bindR (build_trie_cells cr left (bit_depth + 1) cell_map) (\<lambda>(left_cell, cell_map).
        bindR (build_trie_cells cr right (bit_depth + 1) cell_map) (\<lambda>(right_cell, cell_map).
        bindR (cell_new [] [cell_hash cr left_cell, cell_hash cr right_cell]) (\<lambda>c.
          Inr (c, cell_map(cell_hash cr c \<mapsto> c))))))"
  by pat_completeness auto
termination
  by (relation "measure (\<lambda>(_, _, d, _). 256 - d)") auto

declare build_trie_cells.simps [simp del]

definition tree_items :: "shard_state_tree \<Rightarrow> (hash32 \<times> bytes) list" where
  "tree_items t = map (\<lambda>(a, st). (a, account_to_bytes st)) (accounts t)"

definition tree_state_root_hash :: "crypto \<Rightarrow> shard_state_tree \<Rightarrow> hash32" where
  "tree_state_root_hash cr t =
     (case build_trie_cells cr (tree_items t) 0 Map.empty of
        Inr (root_cell, _) \<Rightarrow> cell_hash cr root_cell
      | Inl _ \<Rightarrow> domain_hash cr ONX_TRIE_NODE_TAG (ascii ''EMPTY_TREE''))"

section \<open>Merkle proofs\<close>

record merkle_proof =
  magic_bytes :: u32
  target_key :: hash32
  proof_root_hash :: hash32
  proof_boc :: bag_of_cells

lemma merkle_proof_eta [simp]:
  "\<lparr>magic_bytes = magic_bytes p, target_key = target_key p, proof_root_hash = proof_root_hash p,
    proof_boc = proof_boc p\<rparr> = p"
  by simp

definition generate_proof ::
  "crypto \<Rightarrow> shard_state_tree \<Rightarrow> account_id \<Rightarrow> state_model_error + merkle_proof" where
  "generate_proof cr t target =
     bindR (build_trie_cells cr (tree_items t) 0 Map.empty) (\<lambda>(root_cell, proof_cells).
     let root = cell_hash cr root_cell in
     bindR (boc_new root proof_cells) (\<lambda>boc.
     Inr \<lparr>magic_bytes = MERKLE_PROOF_MAGIC, target_key = target, proof_root_hash = root,
          proof_boc = boc\<rparr>))"

definition proof_verify :: "merkle_proof \<Rightarrow> state_model_error + unit" where
  "proof_verify p =
     (if magic_bytes p \<noteq> MERKLE_PROOF_MAGIC
      then Inl (InvalidMerkleProof (MagicText MERKLE_PROOF_MAGIC (magic_bytes p)))
      else
        bindR (verify_dag (proof_boc p)) (\<lambda>_.
          if boc_root (proof_boc p) \<noteq> proof_root_hash p
          then Inl (InvalidMerkleProof (RootText (boc_root (proof_boc p)) (proof_root_hash p)))
          else Inr ()))"

definition proof_to_bytes :: "merkle_proof \<Rightarrow> (hash32 \<times> cell) list \<Rightarrow> bytes" where
  "proof_to_bytes p entries =
     encode (magic_bytes p) @ encode (target_key p) @ encode (proof_root_hash p)
     @ boc_to_bytes (proof_boc p) entries"

definition proof_from_bytes :: "crypto \<Rightarrow> bytes \<Rightarrow> state_model_error + merkle_proof \<times> nat" where
  "proof_from_bytes cr bs =
     (if length bs < 4 + 32 + 32
      then Inl (DeserializationError (Text ''Slice too short for MerkleProof header''))
      else
        bindR (read_field bs) (\<lambda>(magic, cursor).
        let target = from_be (take 32 cursor); cursor = drop 32 cursor;
            root = from_be (take 32 cursor); cursor = drop 32 cursor in
        bindR (boc_from_bytes cr cursor) (\<lambda>(boc, consumed).
        let p = \<lparr>magic_bytes = magic, target_key = target, proof_root_hash = root, proof_boc = boc\<rparr>
        in bindR (proof_verify p) (\<lambda>_. Inr (p, 4 + 32 + 32 + consumed)))))"

section \<open>The trie as a pure function\<close>

text \<open>Account records fit one chunk, so the construction never fails; its root cell is the
  following function of the items, and the cells it may store are \<open>trie_cells\<close>.\<close>

abbreviation plain_cell :: "bytes \<Rightarrow> hash32 list \<Rightarrow> cell" where
  "plain_cell d r \<equiv> \<lparr>data_bytes = d, cell_refs = r, is_special = False\<rparr>"

abbreviation left_items :: "nat \<Rightarrow> (hash32 \<times> 'a) list \<Rightarrow> (hash32 \<times> 'a) list" where
  "left_items d items \<equiv> filter (\<lambda>(key, _). goes_left d key) items"

abbreviation right_items :: "nat \<Rightarrow> (hash32 \<times> 'a) list \<Rightarrow> (hash32 \<times> 'a) list" where
  "right_items d items \<equiv> filter (\<lambda>(key, _). \<not> goes_left d key) items"

function trie_root :: "crypto \<Rightarrow> (hash32 \<times> bytes) list \<Rightarrow> nat \<Rightarrow> cell" where
  "trie_root cr items d =
     (if items = [] then plain_cell (ascii ''EMPTY_SUBTREE'') []
      else if length items = 1 \<or> d \<ge> 256 then
        plain_cell (encode (fst (hd items))) [cell_hash cr (plain_cell (snd (hd items)) [])]
      else plain_cell [] [cell_hash cr (trie_root cr (left_items d items) (d + 1)),
                          cell_hash cr (trie_root cr (right_items d items) (d + 1))])"
  by pat_completeness auto
termination
  by (relation "measure (\<lambda>(_, _, d). 256 - d)") auto

function trie_cells :: "crypto \<Rightarrow> (hash32 \<times> bytes) list \<Rightarrow> nat \<Rightarrow> cell set" where
  "trie_cells cr items d = insert (trie_root cr items d)
     (if items = [] then {}
      else if length items = 1 \<or> d \<ge> 256 then {plain_cell (snd (hd items)) []}
      else trie_cells cr (left_items d items) (d + 1) \<union> trie_cells cr (right_items d items) (d + 1))"
  by pat_completeness auto
termination
  by (relation "measure (\<lambda>(_, _, d). 256 - d)") auto

declare trie_root.simps [simp del] trie_cells.simps [simp del]

definition fits_chunk :: "(hash32 \<times> bytes) list \<Rightarrow> bool" where
  "fits_chunk items \<longleftrightarrow> (\<forall>(k, v) \<in> set items. v \<noteq> [] \<and> length v \<le> 128)"

lemma fits_chunk_filter: "fits_chunk items \<Longrightarrow> fits_chunk (filter P items)"
  by (auto simp: fits_chunk_def)

lemma chunks_single: "v \<noteq> [] \<Longrightarrow> length v \<le> n \<Longrightarrow> chunks n v = [v]"
  by (cases "n = 0") (simp_all add: chunks.simps [of n v] chunks.simps [of n "[]"])

lemma cell_new_plain: "length d \<le> 128 \<Longrightarrow> length r \<le> 4 \<Longrightarrow> cell_new d r = Inr (plain_cell d r)"
  by (simp add: cell_new_Inr cell_ok_def)

lemma build_trie_root:
  "fits_chunk items \<Longrightarrow> \<exists>cell_map'. build_trie_cells cr items d cell_map =
      Inr (trie_root cr items d, cell_map') \<and>
      cell_map' (cell_hash cr (trie_root cr items d)) = Some (trie_root cr items d)"
proof (induction cr items d cell_map rule: build_trie_cells.induct)
  case (1 cr items d cell_map)
  consider "items = []" | "items \<noteq> []" "length items = 1 \<or> d \<ge> 256"
    | "items \<noteq> []" "\<not> (length items = 1 \<or> d \<ge> 256)" by blast
  then show ?case
  proof cases
    case 1
    then show ?thesis
      by (simp add: build_trie_cells.simps trie_root.simps cell_new_plain ascii_def)
  next
    case 2
    obtain k v rest where i: "items = (k, v) # rest" using 2(1) by (cases items) auto
    then have "v \<noteq> []" "length v \<le> 128" using "1.prems" by (auto simp: fits_chunk_def)
    then show ?thesis
      using 2 by (simp add: build_trie_cells.simps trie_root.simps i cell_new_plain chunks_single Let_def)
  next
    case 3
    obtain m1 where m1: "build_trie_cells cr (left_items d items) (d + 1) cell_map =
        Inr (trie_root cr (left_items d items) (d + 1), m1)"
      using "1.IH"(1) 3 "1.prems" fits_chunk_filter by blast
    obtain m2 where m2: "build_trie_cells cr (right_items d items) (d + 1) m1 =
        Inr (trie_root cr (right_items d items) (d + 1), m2)"
      using "1.IH"(2) [OF _ _ refl refl m1 refl] 3 "1.prems" fits_chunk_filter by blast
    show ?thesis
      using 3 m1 m2 by (subst (1 2 3) trie_root.simps, subst build_trie_cells.simps)
        (simp add: cell_new_plain Let_def)
  qed
qed

section \<open>The root commits to the accounts\<close>

text \<open>The partition splits on account bit \<open>255 - depth\<close>.\<close>

lemma nth_nat_be: "i < n \<Longrightarrow> nat_be n x ! i = word_of_nat (x div 256 ^ (n - 1 - i))"
  by (induction n arbitrary: i) (auto simp: nth_Cons split: nat.splits)

lemma goes_left_bit:
  assumes "d < 256"
  shows "goes_left d k \<longleftrightarrow> \<not> bit k (255 - d)"
proof -
  let ?b = "encode k ! (d div 8)" and ?j = "7 - d mod 8"
  have "?b = word_of_nat (unat k div 256 ^ (31 - d div 8))"
    using assms by (simp add: encode_def to_be_def nth_nat_be)
  moreover have "(256::nat) ^ (31 - d div 8) = 2 ^ (8 * (31 - d div 8))" by (simp add: power_mult)
  moreover have "7 - d mod 8 < 8" by simp
  ultimately have "bit ?b ?j \<longleftrightarrow> bit (unat k) (8 * (31 - d div 8) + ?j)"
    by (simp add: bit_simps del: diff_less flip: drop_bit_eq_div)
  also have "8 * (31 - d div 8) + ?j = 255 - d"
  proof -
    have "8 * (d div 8) + d mod 8 = d" "d div 8 < 32" "d mod 8 < 8" using assms by simp_all
    then show ?thesis by linarith
  qed
  finally have "bit ?b ?j \<longleftrightarrow> bit k (255 - d)" by (simp add: bit_unsigned_iff)
  moreover have "?b AND push_bit ?j 1 = 0 \<longleftrightarrow> \<not> bit ?b ?j"
    by (simp add: push_bit_of_1 and_exp_eq_0_iff_not_bit)
  ultimately show ?thesis by (simp add: goes_left_def)
qed

text \<open>The items that reach depth \<open>d\<close> have distinct keys that agree on the bits above.\<close>

definition at_depth :: "nat \<Rightarrow> (hash32 \<times> bytes) list \<Rightarrow> bool" where
  "at_depth d items \<longleftrightarrow> distinct (map fst items) \<and>
     (\<forall>k \<in> fst ` set items. \<forall>j \<in> fst ` set items. \<forall>i<d. bit k (255 - i) = bit j (255 - i))"

lemma at_depthD:
  "at_depth d items \<Longrightarrow> k \<in> fst ` set items \<Longrightarrow> j \<in> fst ` set items \<Longrightarrow> i < d \<Longrightarrow>
     bit k (255 - i) = bit j (255 - i)"
  unfolding at_depth_def by blast

lemma at_depth_filter:
  assumes "at_depth d items"
  shows "at_depth d (filter P items)"
  unfolding at_depth_def
proof (intro conjI ballI allI impI)
  show "distinct (map fst (filter P items))"
    using assms by (simp add: at_depth_def distinct_map_filter)
  have sub: "fst ` set (filter P items) \<subseteq> fst ` set items" by auto
  fix k j i assume "k \<in> fst ` set (filter P items)" "j \<in> fst ` set (filter P items)" "i < d"
  then show "bit k (255 - i) = bit j (255 - i)"
    using at_depthD [OF assms subsetD [OF sub] subsetD [OF sub]] by blast
qed

lemma at_depth_Suc:
  assumes "at_depth d items" "\<And>k. k \<in> fst ` set items \<Longrightarrow> bit k (255 - d) = b"
  shows "at_depth (d + 1) items"
  unfolding at_depth_def
proof (intro conjI ballI allI impI)
  show "distinct (map fst items)" using assms(1) by (simp add: at_depth_def)
  fix k j i assume kj: "k \<in> fst ` set items" "j \<in> fst ` set items" and i: "i < d + 1"
  show "bit k (255 - i) = bit j (255 - i)"
    using assms(2) [OF kj(1)] assms(2) [OF kj(2)] at_depthD [OF assms(1) kj, of i] i
    by (cases "i = d") simp_all
qed

lemma at_depth_split:
  assumes "at_depth d items" "d < 256"
  shows "at_depth (d + 1) (left_items d items)" "at_depth (d + 1) (right_items d items)"
proof -
  show "at_depth (d + 1) (left_items d items)"
    by (rule at_depth_Suc [OF at_depth_filter [OF assms(1)], of _ False])
      (auto simp: goes_left_bit [OF assms(2)])
  show "at_depth (d + 1) (right_items d items)"
    by (rule at_depth_Suc [OF at_depth_filter [OF assms(1)], of _ True])
      (auto simp: goes_left_bit [OF assms(2)])
qed

lemma at_depth_256: "at_depth d items \<Longrightarrow> d \<ge> 256 \<Longrightarrow> length items \<le> 1"
proof (rule ccontr)
  assume a: "at_depth d items" "d \<ge> 256" and "\<not> length items \<le> 1"
  then obtain x y zs where i: "items = x # y # zs"
    by (cases items; cases "tl items") auto
  have "fst x = fst y"
  proof (rule bit_word_eqI)
    fix n assume "n < LENGTH(256)"
    then have "255 - n < d" "255 - (255 - n) = n" using a(2) by auto
    then show "bit (fst x) n = bit (fst y) n" using a(1) i unfolding at_depth_def by force
  qed
  then show False using a(1) i by (simp add: at_depth_def)
qed

lemma ascii_length [simp]: "length (ascii s) = length s"
  by (simp add: ascii_def)

lemma trie_root_cases:
  assumes "at_depth d items"
  obtains "items = []" "trie_root cr items d = plain_cell (ascii ''EMPTY_SUBTREE'') []"
  | k v where "items = [(k, v)]" "plain_cell v [] \<in> trie_cells cr items d"
      "trie_root cr items d = plain_cell (encode k) [cell_hash cr (plain_cell v [])]"
  | "items \<noteq> []" "d < 256"
      "trie_root cr items d = plain_cell [] [cell_hash cr (trie_root cr (left_items d items) (d + 1)),
         cell_hash cr (trie_root cr (right_items d items) (d + 1))]"
      "trie_cells cr (left_items d items) (d + 1) \<subseteq> trie_cells cr items d"
      "trie_cells cr (right_items d items) (d + 1) \<subseteq> trie_cells cr items d"
proof -
  consider (e) "items = []" | (l) k v where "items = [(k, v)]" | (b) "length items > 1"
    by (cases items; cases "tl items") auto
  then show thesis
  proof cases
    case e
    then show ?thesis by (intro that(1)) (simp_all add: trie_root.simps)
  next
    case l
    then show ?thesis by (intro that(2)) (simp_all add: trie_root.simps trie_cells.simps)
  next
    case b
    have "d < 256" using at_depth_256 [OF assms] b by (meson not_le)
    then show ?thesis using b
      by (intro that(3)) (auto simp: trie_root.simps [of cr items] trie_cells.simps [of cr items])
  qed
qed

lemma trie_root_mem: "trie_root cr items d \<in> trie_cells cr items d"
  by (simp add: trie_cells.simps)

definition collision_free :: "crypto \<Rightarrow> cell set \<Rightarrow> bool" where
  "collision_free cr S \<longleftrightarrow> (\<forall>c\<in>S. \<forall>c'\<in>S. cell_hash cr c = cell_hash cr c' \<longrightarrow> c = c')"

lemma collision_freeD:
  "collision_free cr S \<Longrightarrow> c \<in> S \<Longrightarrow> c' \<in> S \<Longrightarrow> cell_hash cr c = cell_hash cr c' \<Longrightarrow> c = c'"
  by (simp add: collision_free_def)

lemma set_partition: "set (left_items d items) \<union> set (right_items d items) = set items"
  by auto

lemma trie_root_binding:
  assumes "collision_free cr S"
  shows "at_depth d items \<Longrightarrow> at_depth d items' \<Longrightarrow>
    trie_cells cr items d \<subseteq> S \<Longrightarrow> trie_cells cr items' d \<subseteq> S \<Longrightarrow>
    cell_hash cr (trie_root cr items d) = cell_hash cr (trie_root cr items' d) \<Longrightarrow>
    set items = set items'"
proof (induction "256 - d" arbitrary: d items items' rule: less_induct)
  case less
  have eq: "trie_root cr items d = trie_root cr items' d"
    using collision_freeD [OF assms _ _ less.prems(5)] less.prems(3,4) trie_root_mem by blast
  show ?case
  proof (cases cr rule: trie_root_cases [OF less.prems(1)])
    case 1
    then show ?thesis
      by (cases cr rule: trie_root_cases [OF less.prems(2)]) (use eq 1 in \<open>auto dest: arg_cong [of _ _ length]\<close>)
  next
    case (2 k v)
    show ?thesis
    proof (cases cr rule: trie_root_cases [OF less.prems(2)])
      case 1
      then show ?thesis using eq 2 by (auto dest: arg_cong [of _ _ length])
    next
      case t: (2 k' v')
      have "encode k = encode k'" "cell_hash cr (plain_cell v []) = cell_hash cr (plain_cell v' [])"
        using eq 2 t by auto
      moreover from this have "plain_cell v [] = plain_cell v' []"
        using collision_freeD [OF assms] 2(2) t(2) less.prems(3,4) by blast
      ultimately show ?thesis using 2 t u256c.enc_inj by auto
    next
      case 3
      then have "encode k = []" using eq 2 by auto
      then show ?thesis by (auto dest: arg_cong [of _ _ length])
    qed
  next
    case 3
    show ?thesis
    proof (cases cr rule: trie_root_cases [OF less.prems(2)])
      case 1
      then show ?thesis using eq 3 by auto
    next
      case (2 k v)
      then have "encode k = []" using eq 3 by auto
      then show ?thesis by (auto dest: arg_cong [of _ _ length])
    next
      case t: 3
      have h: "cell_hash cr (trie_root cr (left_items d items) (d + 1)) =
          cell_hash cr (trie_root cr (left_items d items') (d + 1))"
        "cell_hash cr (trie_root cr (right_items d items) (d + 1)) =
          cell_hash cr (trie_root cr (right_items d items') (d + 1))"
        using eq 3(3) t(3) by auto
      have m: "256 - (d + 1) < 256 - d" using 3(2) by simp
      have "set (left_items d items) = set (left_items d items')"
        using 3(4) t(4) less.prems(3,4)
        by (intro less.hyps [OF m at_depth_split(1) at_depth_split(1) _ _ h(1)] less.prems 3(2)) auto
      moreover have "set (right_items d items) = set (right_items d items')"
        using 3(5) t(5) less.prems(3,4)
        by (intro less.hyps [OF m at_depth_split(2) at_depth_split(2) _ _ h(2)] less.prems 3(2)) auto
      ultimately show ?thesis using set_partition by metis
    qed
  qed
qed

lemma account_bytes_bounds: "account_to_bytes a \<noteq> [] \<and> length (account_to_bytes a) \<le> 128"
  by (cases a) simp_all

lemma fits_chunk_items: "fits_chunk (tree_items t)"
  using account_bytes_bounds by (auto simp: fits_chunk_def tree_items_def)

lemma tree_root_eq: "tree_state_root_hash cr t = cell_hash cr (trie_root cr (tree_items t) 0)"
  using build_trie_root [OF fits_chunk_items, of cr t 0 Map.empty]
  by (auto simp: tree_state_root_hash_def)

lemma tree_items_distinct: "bt_inv (accounts t) \<Longrightarrow> at_depth 0 (tree_items t)"
proof -
  have "map fst (tree_items t) = map fst (accounts t)"
    by (induction "accounts t" arbitrary: t) (auto simp: tree_items_def)
  then show "bt_inv (accounts t) \<Longrightarrow> at_depth 0 (tree_items t)"
    by (simp add: at_depth_def bt_distinct)
qed

lemma tree_items_inj: "set (tree_items t) = set (tree_items t') \<Longrightarrow> set (accounts t) = set (accounts t')"
proof -
  have "inj (\<lambda>(a :: account_id, st). (a, account_to_bytes st))"
    by (rule injI) (auto intro: acctc.senc_inj)
  then show "set (tree_items t) = set (tree_items t') \<Longrightarrow> set (accounts t) = set (accounts t')"
    by (simp add: tree_items_def inj_image_eq_iff)
qed

lemma tree_eqI:
  assumes "bt_inv (accounts t)" "bt_inv (accounts t')" "set (accounts t) = set (accounts t')"
  shows "t = (t' :: shard_state_tree)"
proof -
  have "accounts t = accounts t'"
    using assms map_of_inject_set [OF bt_distinct bt_distinct, of "accounts t" "accounts t'"]
    by (intro bt_eqI) simp_all
  then show ?thesis by simp
qed

lemma tree_root_binding:
  assumes "bt_inv (accounts t)" "bt_inv (accounts t')"
    and "collision_free cr (trie_cells cr (tree_items t) 0 \<union> trie_cells cr (tree_items t') 0)"
    and "tree_state_root_hash cr t = tree_state_root_hash cr t'"
  shows "t = t'"
  using assms trie_root_binding [OF assms(3) tree_items_distinct tree_items_distinct, of t t']
  by (intro tree_eqI tree_items_inj) (auto simp: tree_root_eq)

section \<open>Merkle proofs\<close>

lemma proof_verify_Inr:
  "proof_verify p = Inr () \<longleftrightarrow> magic_bytes p = MERKLE_PROOF_MAGIC \<and>
     \<not> cycle_from (boc_cells (proof_boc p)) (boc_root (proof_boc p)) \<and>
     boc_root (proof_boc p) = proof_root_hash p"
  by (auto simp: proof_verify_def bindR_Inr simp flip: verify_dag_iff)

lemma generate_proof_verifies:
  "generate_proof cr t a = Inr p \<Longrightarrow>
     proof_verify p = Inr () \<and> proof_root_hash p = tree_state_root_hash cr t \<and> target_key p = a"
  by (auto simp: generate_proof_def bindR_Inr Let_def boc_new_Inr proof_verify_Inr
      tree_state_root_hash_def)

lemma proof_from_to:
  assumes "proof_verify p = Inr ()" "iterates es (boc_cells (proof_boc p))"
    and "boc_wf cr (boc_cells (proof_boc p))" "length es < 2 ^ 32"
    and "boc_cells (proof_boc p) (boc_root (proof_boc p)) \<noteq> None"
  shows "proof_from_bytes cr (proof_to_bytes p es @ rest) = Inr (p, length (proof_to_bytes p es))"
proof -
  have "boc_new (boc_root (proof_boc p)) (boc_cells (proof_boc p)) = Inr (proof_boc p)"
    using assms(1,5) by (auto simp: boc_new_Inr proof_verify_Inr)
  then have "boc_from_bytes cr (boc_to_bytes (proof_boc p) es @ rest) =
      Inr (proof_boc p, length (boc_to_bytes (proof_boc p) es))"
    by (intro boc_from_to assms)
  then show ?thesis
    using assms(1) by (simp add: proof_from_bytes_def proof_to_bytes_def Let_def)
qed

section \<open>Properties\<close>

definition one_account_tree :: shard_state_tree where
  "one_account_tree = tree_insert tree_new 7 Uninitialized"

text \<open>
  C22. The state root commits to the accounts of a shard: two state trees with the same root hash
  are equal, unless two different cells of their tries have the same hash.
\<close>

theorem state_root_commits:
  assumes "bt_inv (accounts t)" "bt_inv (accounts t')"
    and "collision_free cr (trie_cells cr (tree_items t) 0 \<union> trie_cells cr (tree_items t') 0)"
    and "tree_state_root_hash cr t = tree_state_root_hash cr t'"
  shows "t = t'"
  using assms by (rule tree_root_binding)

lemma one_account_cells:
  "trie_cells toy_crypto (tree_items one_account_tree) 0 =
     {plain_cell (encode (7 :: hash32)) [35], plain_cell [0] []}"
  by (simp add: one_account_tree_def tree_insert_def tree_new_def tree_items_def trie_cells.simps
      trie_root.simps cell_hash_def domain_hash_def toy_crypto_def cell_payload_def
      descriptor_bytes_def ONX_CELL_HASH_V1_TAG_def tag_of_def ascii_def)

lemma one_account_collision_free:
  "collision_free toy_crypto (trie_cells toy_crypto (tree_items one_account_tree) 0)"
  unfolding one_account_cells
  by (simp add: collision_free_def cell_hash_def domain_hash_def toy_crypto_def cell_payload_def
      descriptor_bytes_def ONX_CELL_HASH_V1_TAG_def tag_of_def ascii_def)

theorem state_root_commits_witness:
  "bt_inv (accounts one_account_tree) \<and> tree_get one_account_tree 7 = Some Uninitialized \<and>
   one_account_tree = tree_insert (tree_insert tree_new 7 Destroyed) 7 Uninitialized"
proof -
  let ?t = "tree_insert (tree_insert tree_new 7 Destroyed) 7 Uninitialized"
  have a: "accounts ?t = accounts one_account_tree" "bt_inv (accounts one_account_tree)"
    "tree_get one_account_tree 7 = Some Uninitialized"
    by (simp_all add: one_account_tree_def tree_insert_def tree_new_def tree_get_def bt_inv_Cons)
  have i: "tree_items ?t = tree_items one_account_tree" by (simp add: tree_items_def a)
  have "one_account_tree = ?t"
    by (rule state_root_commits [of _ _ toy_crypto])
      (simp_all add: a i one_account_collision_free tree_root_eq)
  with a show ?thesis by simp
qed

text \<open>
  Proof generation is complete for its own verifier: a proof generated for a tree verifies,
  carries the requested account as its target and the tree's state root as its root.
\<close>

theorem generated_proof_verifies:
  assumes "generate_proof cr t a = Inr p"
  shows "proof_verify p = Inr () \<and> proof_root_hash p = tree_state_root_hash cr t \<and> target_key p = a"
  using assms by (rule generate_proof_verifies)

theorem generated_proof_verifies_witness:
  "\<exists>p. generate_proof toy_crypto tree_new 7 = Inr p \<and> proof_verify p = Inr ()"
proof -
  obtain p where p: "generate_proof toy_crypto tree_new 7 = Inr p"
    by (simp add: generate_proof_def tree_items_def tree_new_def build_trie_cells.simps cell_new_plain
        ascii_def boc_new_def verify_dag_def dfs.simps Let_def)
  then show ?thesis using generated_proof_verifies by blast
qed

text \<open>
  The verifier does not look at the target: a proof verifies for every account identifier.
\<close>

lemma proof_verify_ignores_target: "proof_verify (p\<lparr>target_key := k\<rparr>) = proof_verify p"
  by (simp add: proof_verify_def)

end
