(* ===== verification/Messages.thy ===== *)
theory Messages
  imports Addresses
begin

text \<open>
  \<open>crates/protocol/onx-data-structures/src/message.rs\<close>: messages, their count-prefixed binary
  layout, the domain-separated message hash, and the shard alignment checks. The lemmas show the
  layout canonical: the strict decoder accepts exactly the encodings.
\<close>

datatype message_type = Internal | ExternalInbound | ExternalOutbound

definition message_type_from_tag :: "u8 \<Rightarrow> data_structure_error + message_type" where
  "message_type_from_tag t =
     (if t = 0x01 then Inr Internal
      else if t = 0x02 then Inr ExternalInbound
      else if t = 0x03 then Inr ExternalOutbound
      else Inl (InvalidMessageType t))"

fun message_type_tag :: "message_type \<Rightarrow> u8" where
  "message_type_tag Internal = 0x01"
| "message_type_tag ExternalInbound = 0x02"
| "message_type_tag ExternalOutbound = 0x03"

record message =
  msg_type :: message_type
  src_address :: full_address
  dest_address :: full_address
  amount_nanos :: u128
  extra_currencies :: "(u32 \<times> u128) list"
  created_lt :: u64
  body_cell_hash :: hash32

definition MSG_DOMAIN_TAG :: domain_tag where
  "MSG_DOMAIN_TAG = tag_of ''ONX_MSG_HASH_V1''"

definition FIXED_BYTE_LENGTH :: nat where
  "FIXED_BYTE_LENGTH = 1 + 36 + 36 + 16 + 4 + 8 + 32"

definition currency_to_bytes :: "u32 \<times> u128 \<Rightarrow> bytes" where
  "currency_to_bytes c = encode (fst c) @ encode (snd c)"

definition currency_from_bytes :: "bytes \<Rightarrow> data_structure_error + u32 \<times> u128" where
  "currency_from_bytes bs =
     bindR (map_err Primitive (decode_exact (subslice 0 4 bs))) (\<lambda>cid.
     bindR (map_err Primitive (decode_exact (subslice 4 20 bs))) (\<lambda>v. Inr (cid, v)))"

definition message_to_bytes :: "message \<Rightarrow> bytes" where
  "message_to_bytes m =
     [message_type_tag (msg_type m)]
     @ address_to_bytes (src_address m)
     @ address_to_bytes (dest_address m)
     @ encode (amount_nanos m)
     @ encode (word_of_nat (length (extra_currencies m)) :: u32)
     @ concat (map currency_to_bytes (extra_currencies m))
     @ encode (created_lt m)
     @ encode (body_cell_hash m)"

definition message_hash :: "crypto \<Rightarrow> message \<Rightarrow> hash32" where
  "message_hash cr m = domain_hash cr MSG_DOMAIN_TAG (message_to_bytes m)"

definition message_from_bytes :: "bytes \<Rightarrow> data_structure_error + message" where
  "message_from_bytes bs =
     (if length bs < FIXED_BYTE_LENGTH then Inl (TruncatedInput FIXED_BYTE_LENGTH (length bs))
      else
        bindR (message_type_from_tag (bs ! 0)) (\<lambda>mt.
        bindR (address_from_bytes (subslice 1 37 bs)) (\<lambda>src.
        bindR (address_from_bytes (subslice 37 73 bs)) (\<lambda>dst.
        bindR (map_err Primitive (decode_exact (subslice 73 89 bs))) (\<lambda>amount.
        bindR (map_err Primitive (decode_exact (subslice 89 93 bs))) (\<lambda>cw.
        let count = unat (cw :: u32) in
        bindR (ok_or (checked_mul_usize count 20) (TruncatedInput usize_max (length bs))) (\<lambda>pairs_len.
        bindR (ok_or (checked_add_usize FIXED_BYTE_LENGTH pairs_len)
                 (TruncatedInput usize_max (length bs))) (\<lambda>expected.
        if length bs < expected then Inl (TruncatedInput expected (length bs))
        else if length bs > expected then Inl (TrailingInput (length bs - expected))
        else
          bindR (decode_entries currency_from_bytes 20 count (drop 93 bs)) (\<lambda>extra.
          let offset = 93 + 20 * count in
          bindR (map_err Primitive (decode_exact (subslice offset (offset + 8) bs))) (\<lambda>lt.
          bindR (map_err Primitive (decode_exact (subslice (offset + 8) (offset + 40) bs))) (\<lambda>body.
          Inr \<lparr>msg_type = mt, src_address = src, dest_address = dst, amount_nanos = amount,
               extra_currencies = extra, created_lt = lt, body_cell_hash = body\<rparr>)))))))))))"

definition validate_source_shard :: "message \<Rightarrow> shard_ident \<Rightarrow> data_structure_error + unit" where
  "validate_source_shard m s = address_validate_against_shard (src_address m) s"

definition validate_dest_shard :: "message \<Rightarrow> shard_ident \<Rightarrow> data_structure_error + unit" where
  "validate_dest_shard m s = address_validate_against_shard (dest_address m) s"

definition message_validate_against_shard ::
  "message \<Rightarrow> shard_ident \<Rightarrow> data_structure_error + unit" where
  "message_validate_against_shard m s =
     (case msg_type m of
        Internal \<Rightarrow>
          let src_ok = is_ok (validate_source_shard m s);
              dest_ok = is_ok (validate_dest_shard m s)
          in if src_ok \<or> dest_ok then Inr () else Inl AddressShardMismatch
      | ExternalInbound \<Rightarrow> validate_dest_shard m s
      | ExternalOutbound \<Rightarrow> validate_source_shard m s)"

section \<open>The layout is canonical\<close>

lemma currency_from_to: "currency_from_bytes (currency_to_bytes c) = Inr c"
  by (cases c) (simp add: currency_from_bytes_def currency_to_bytes_def subslice_simps)

lemma length_currency_to_bytes [simp, codec_simps]: "length (currency_to_bytes c) = 20"
  by (simp add: currency_to_bytes_def)

lemma currency_from_bytes_sound:
  assumes "currency_from_bytes bs = Inr c"
  shows "take 20 bs = currency_to_bytes c"
proof -
  from assms have "subslice 0 4 bs = encode (fst c)" "subslice 4 20 bs = encode (snd c)"
    by (auto simp: currency_from_bytes_def bindR_Inr decode_exact_iff)
  then have "currency_to_bytes c = subslice 0 20 bs"
    by (simp add: currency_to_bytes_def subslice_join flip: subslice_join [of 0 4 20])
  then show ?thesis by (simp add: subslice_def)
qed

text \<open>The loop of \<open>from_bytes\<close> hands the entry decoder exactly 20 bytes.\<close>

definition currency_dec20 :: "bytes \<Rightarrow> data_structure_error + u32 \<times> u128" where
  "currency_dec20 bs =
     (if length bs = 20 then currency_from_bytes bs else Inl (TruncatedInput 20 (length bs)))"

interpretation currc: fixed_codec currency_to_bytes currency_dec20 20 "\<lambda>_. True"
  by unfold_locales
    (auto simp: currency_dec20_def currency_from_to dest: currency_from_bytes_sound split: if_splits)

lemma decode_entries_dec20:
  "20 * n \<le> length bs \<Longrightarrow>
     decode_entries currency_dec20 20 n bs = decode_entries currency_from_bytes 20 n bs"
  by (induction n arbitrary: bs) (auto simp: currency_dec20_def min_def)

lemma message_type_tag_inv [simp]: "message_type_from_tag (message_type_tag t) = Inr t"
  by (cases t) (simp_all add: message_type_from_tag_def)

lemma message_type_from_tag_Inr: "message_type_from_tag b = Inr t \<longleftrightarrow> b = message_type_tag t"
  by (auto simp: message_type_from_tag_def split: if_splits) (cases t; simp)+

lemma length_message_to_bytes:
  "length (message_to_bytes m) = FIXED_BYTE_LENGTH + 20 * length (extra_currencies m)"
  by (simp add: message_to_bytes_def FIXED_BYTE_LENGTH_def currc.length_concat_enc)

text \<open>The count prefix is a \<open>u32\<close>, so a message is encodable when it has fewer than
  \<open>2 ^ 32\<close> extra currencies.\<close>

definition message_ok :: "message \<Rightarrow> bool" where
  "message_ok m \<longleftrightarrow> length (extra_currencies m) < 2 ^ 32"

lemma usize_count_ok: "n < 2 ^ 32 \<Longrightarrow> checked_mul_usize n 20 = Some (n * 20)"
  by (simp add: checked_mul_usize_def)

lemma usize_count_add_ok:
  "n < 2 ^ 32 \<Longrightarrow> checked_add_usize FIXED_BYTE_LENGTH (n * 20) = Some (FIXED_BYTE_LENGTH + n * 20)"
  by (simp add: checked_add_usize_def FIXED_BYTE_LENGTH_def)

lemma message_from_to:
  assumes "message_ok m"
  shows "message_from_bytes (message_to_bytes m) = Inr m"
proof -
  let ?n = "length (extra_currencies m)"
  let ?cur = "concat (map currency_to_bytes (extra_currencies m))"
  have n: "?n < 2 ^ 32" and un: "unat (word_of_nat ?n :: u32) = ?n"
    using assms by (simp_all add: message_ok_def unsigned_of_nat take_bit_eq_mod)
  have lc: "length ?cur = 20 * ?n" by (rule currc.length_concat_enc)
  have entries: "decode_entries currency_from_bytes 20 ?n (?cur @ rest) = Inr (extra_currencies m)" for rest
    using currc.decode_entries_concat [of "extra_currencies m" rest]
      decode_entries_dec20 [of ?n "?cur @ rest"] by (simp add: lc list_all_iff)
  have head: "message_to_bytes m ! 0 = message_type_tag (msg_type m)"
    "subslice 1 37 (message_to_bytes m) = address_to_bytes (src_address m)"
    "subslice 37 73 (message_to_bytes m) = address_to_bytes (dest_address m)"
    "subslice 73 89 (message_to_bytes m) = encode (amount_nanos m)"
    "subslice 89 93 (message_to_bytes m) = encode (word_of_nat ?n :: u32)"
    by (simp_all add: message_to_bytes_def subslice_simps)
  have tail: "subslice (93 + 20 * ?n) (101 + 20 * ?n) (message_to_bytes m) = encode (created_lt m)"
    "subslice (101 + 20 * ?n) (133 + 20 * ?n) (message_to_bytes m) = encode (body_cell_hash m)"
    "drop 93 (message_to_bytes m) = ?cur @ encode (created_lt m) @ encode (body_cell_hash m)"
    by (simp_all add: message_to_bytes_def subslice_simps lc)
  have usize: "checked_mul_usize ?n 20 = Some (?n * 20)"
    "checked_add_usize FIXED_BYTE_LENGTH (?n * 20) = Some (FIXED_BYTE_LENGTH + ?n * 20)"
    by (rule usize_count_ok [OF n], rule usize_count_add_ok [OF n])
  show ?thesis
    unfolding message_from_bytes_def
    by (simp add: length_message_to_bytes head un Let_def usize address_from_to del: One_nat_def)
      (simp add: FIXED_BYTE_LENGTH_def tail entries add.commute [of 8] add.commute [of 40])
qed

lemma message_from_bytes_sound:
  assumes "message_from_bytes bs = Inr m"
  shows "message_ok m \<and> bs = message_to_bytes m"
proof -
  from assms obtain cw where
    mt: "message_type_from_tag (bs ! 0) = Inr (msg_type m)"
    and src: "address_from_bytes (subslice 1 37 bs) = Inr (src_address m)"
    and dst: "address_from_bytes (subslice 37 73 bs) = Inr (dest_address m)"
    and am: "decode_exact (subslice 73 89 bs) = Inr (amount_nanos m)"
    and cw: "decode_exact (subslice 89 93 bs) = Inr (cw :: u32)"
    and len: "length bs = 133 + 20 * unat cw"
    and ex: "decode_entries currency_from_bytes 20 (unat cw) (drop 93 bs) = Inr (extra_currencies m)"
    and lt: "decode_exact (subslice (93 + 20 * unat cw) (101 + 20 * unat cw) bs) = Inr (created_lt m)"
    and bd: "decode_exact (subslice (101 + 20 * unat cw) (133 + 20 * unat cw) bs) = Inr (body_cell_hash m)"
    by (auto simp: message_from_bytes_def bindR_Inr Let_def ok_or_Inr checked_mul_usize_def
        checked_add_usize_def FIXED_BYTE_LENGTH_def add.commute mult.commute split: if_splits)
  have ex20: "decode_entries currency_dec20 20 (unat cw) (drop 93 bs) = Inr (extra_currencies m)"
    using ex decode_entries_dec20 [of "unat cw" "drop 93 bs"] len by simp
  have n: "length (extra_currencies m) = unat cw"
    and cur: "concat (map currency_to_bytes (extra_currencies m)) = subslice 93 (93 + 20 * unat cw) bs"
    using currc.decode_entries_sound [OF ex20] by (auto simp: subslice_def)
  have "unat cw < 2 ^ 32" using unsigned_less [where ?'a = nat and w = cw] by simp
  then have ok: "message_ok m" by (simp add: message_ok_def n)
  have "message_to_bytes m = subslice 0 1 bs @ subslice 1 37 bs @ subslice 37 73 bs
      @ subslice 73 89 bs @ subslice 89 93 bs @ subslice 93 (93 + 20 * unat cw) bs
      @ subslice (93 + 20 * unat cw) (101 + 20 * unat cw) bs
      @ subslice (101 + 20 * unat cw) (133 + 20 * unat cw) bs"
  proof -
    have "[message_type_tag (msg_type m)] = subslice 0 1 bs"
      using mt len subslice_first [of bs] by (cases bs) (auto simp: message_type_from_tag_Inr)
    with src dst am cw lt bd cur show ?thesis
      by (simp add: message_to_bytes_def n decode_exact_iff addrc.dec_iff)
  qed
  also have "\<dots> = bs" by (simp add: subslice_join subslice_all len)
  finally show ?thesis using ok by simp
qed

text \<open>Distinct messages hash to distinct digests unless SHA-256 collides on their encodings.\<close>

lemma message_to_bytes_inj:
  "message_ok m \<Longrightarrow> message_ok m' \<Longrightarrow> message_to_bytes m = message_to_bytes m' \<Longrightarrow> m = m'"
  by (metis Inr_inject message_from_to)

section \<open>Properties\<close>

text \<open>
  The message decoder accepts exactly the encodings: a byte string decodes to \<open>m\<close> if and only
  if it is the encoding of \<open>m\<close> and the number of extra currencies of \<open>m\<close> fits its \<open>u32\<close> prefix.
\<close>

theorem message_codec_canonical:
  "message_from_bytes bs = Inr m \<longleftrightarrow>
     bs = message_to_bytes m \<and> length (extra_currencies m) < 2 ^ 32"
  using message_from_to message_from_bytes_sound by (auto simp: message_ok_def)

end
