(* ===== verification/Block_Headers.thy ===== *)
theory Block_Headers
  imports Addresses
begin

unbundle bit_operations_syntax

text \<open>
  \<open>crates/protocol/onx-data-structures/src/block.rs\<close>: the fixed-width block header (238 bytes), its
  canonical encoding, the consistency check between the merge flag and the second parent
  reference, and the domain-separated block hash.
\<close>

definition BLOCK_HEADER_MAGIC :: u32 where
  "BLOCK_HEADER_MAGIC = 0x1F2E3D4C"

definition MERGE_RESULT_FLAG :: u16 where
  "MERGE_RESULT_FLAG = 0x0010"

record block_header =
  magic_constructor :: u32
  shard :: shard_ident
  seq_no :: u32
  flags :: u16
  gen_utime :: u32
  start_lt :: u64
  end_lt :: u64
  prev_key_block :: u32
  prev_ref_hash :: hash32
  prev_ref_hash_2 :: hash32
  master_ref_hash :: hash32
  state_root_hash :: hash32
  in_msg_root_hash :: hash32
  out_msg_root_hash :: hash32

definition HEADER_LENGTH :: nat where
  "HEADER_LENGTH = 4 + 12 + 4 + 2 + 4 + 8 + 8 + 4 + 32 + 32 + 32 + 32 + 32 + 32"

definition header_to_bytes :: "block_header \<Rightarrow> bytes" where
  "header_to_bytes h =
     encode (magic_constructor h) @ shard_to_bytes (shard h) @ encode (seq_no h)
     @ encode (flags h) @ encode (gen_utime h) @ encode (start_lt h) @ encode (end_lt h)
     @ encode (prev_key_block h) @ encode (prev_ref_hash h) @ encode (prev_ref_hash_2 h)
     @ encode (master_ref_hash h) @ encode (state_root_hash h) @ encode (in_msg_root_hash h)
     @ encode (out_msg_root_hash h)"

definition header_from_bytes :: "bytes \<Rightarrow> data_structure_error + block_header" where
  "header_from_bytes bs =
     (if length bs < HEADER_LENGTH then Inl (TruncatedInput HEADER_LENGTH (length bs))
      else if length bs > HEADER_LENGTH then Inl (TrailingInput (length bs - HEADER_LENGTH))
      else
        bindR (map_err Primitive (decode_exact (subslice 0 4 bs))) (\<lambda>magic.
        if magic \<noteq> BLOCK_HEADER_MAGIC then Inl (HeaderMagicMismatch magic)
        else
        bindR (shard_from_bytes (subslice 4 16 bs)) (\<lambda>sh.
        bindR (map_err Primitive (decode_exact (subslice 16 20 bs))) (\<lambda>sn.
        bindR (map_err Primitive (decode_exact (subslice 20 22 bs))) (\<lambda>fl.
        bindR (map_err Primitive (decode_exact (subslice 22 26 bs))) (\<lambda>ut.
        bindR (map_err Primitive (decode_exact (subslice 26 34 bs))) (\<lambda>slt.
        bindR (map_err Primitive (decode_exact (subslice 34 42 bs))) (\<lambda>elt.
        bindR (map_err Primitive (decode_exact (subslice 42 46 bs))) (\<lambda>pk.
        bindR (map_err Primitive (decode_exact (subslice 46 78 bs))) (\<lambda>p1.
        bindR (map_err Primitive (decode_exact (subslice 78 110 bs))) (\<lambda>p2.
        let is_merge_result = (fl AND MERGE_RESULT_FLAG \<noteq> 0);
            is_prev_2_zero = (p2 = 0)
        in if \<not> is_merge_result \<and> \<not> is_prev_2_zero then Inl MergeParentReferenceInconsistency
        else if is_merge_result \<and> is_prev_2_zero then Inl MergeParentReferenceInconsistency
        else
        bindR (map_err Primitive (decode_exact (subslice 110 142 bs))) (\<lambda>mr.
        bindR (map_err Primitive (decode_exact (subslice 142 174 bs))) (\<lambda>sr.
        bindR (map_err Primitive (decode_exact (subslice 174 206 bs))) (\<lambda>im.
        bindR (map_err Primitive (decode_exact (subslice 206 238 bs))) (\<lambda>om.
        Inr \<lparr>magic_constructor = magic, shard = sh, seq_no = sn, flags = fl, gen_utime = ut,
             start_lt = slt, end_lt = elt, prev_key_block = pk, prev_ref_hash = p1,
             prev_ref_hash_2 = p2, master_ref_hash = mr, state_root_hash = sr,
             in_msg_root_hash = im, out_msg_root_hash = om\<rparr>)))))))))))))))"

definition block_hash :: "crypto \<Rightarrow> block_header \<Rightarrow> hash32" where
  "block_hash cr h = domain_hash cr BLOCK_HEADER_V1 (header_to_bytes h)"

section \<open>The header layout is canonical\<close>

text \<open>The headers \<open>from_bytes\<close> accepts: magic, valid shard, merge flag iff second parent.\<close>

definition header_ok :: "block_header \<Rightarrow> bool" where
  "header_ok h \<longleftrightarrow> magic_constructor h = BLOCK_HEADER_MAGIC \<and> shard_ok (shard h) \<and>
     (flags h AND MERGE_RESULT_FLAG \<noteq> 0 \<longleftrightarrow> prev_ref_hash_2 h \<noteq> 0)"

lemma length_header_to_bytes [simp, codec_simps]: "length (header_to_bytes h) = HEADER_LENGTH"
  by (simp add: header_to_bytes_def HEADER_LENGTH_def)

lemma HEADER_LENGTH_eq: "HEADER_LENGTH = 238"
  by (simp add: HEADER_LENGTH_def)

lemma header_fields:
  "subslice 0 4 (header_to_bytes h) = encode (magic_constructor h)"
  "subslice 4 16 (header_to_bytes h) = shard_to_bytes (shard h)"
  "subslice 16 20 (header_to_bytes h) = encode (seq_no h)"
  "subslice 20 22 (header_to_bytes h) = encode (flags h)"
  "subslice 22 26 (header_to_bytes h) = encode (gen_utime h)"
  "subslice 26 34 (header_to_bytes h) = encode (start_lt h)"
  "subslice 34 42 (header_to_bytes h) = encode (end_lt h)"
  "subslice 42 46 (header_to_bytes h) = encode (prev_key_block h)"
  "subslice 46 78 (header_to_bytes h) = encode (prev_ref_hash h)"
  "subslice 78 110 (header_to_bytes h) = encode (prev_ref_hash_2 h)"
  "subslice 110 142 (header_to_bytes h) = encode (master_ref_hash h)"
  "subslice 142 174 (header_to_bytes h) = encode (state_root_hash h)"
  "subslice 174 206 (header_to_bytes h) = encode (in_msg_root_hash h)"
  "subslice 206 238 (header_to_bytes h) = encode (out_msg_root_hash h)"
  by (simp_all add: header_to_bytes_def subslice_simps)

lemma header_from_to: "header_ok h \<Longrightarrow> header_from_bytes (header_to_bytes h) = Inr h"
  by (auto simp: header_from_bytes_def header_fields header_ok_def shard_from_to Let_def)

lemma header_from_bytes_sound:
  assumes "header_from_bytes bs = Inr h"
  shows "header_ok h \<and> bs = header_to_bytes h"
proof -
  from assms have len: "length bs = 238"
    by (auto simp: header_from_bytes_def HEADER_LENGTH_eq split: if_splits)
  from assms have ok: "header_ok h"
    by (auto simp: header_from_bytes_def bindR_Inr Let_def header_ok_def shardc.dec_iff split: if_splits)
  from assms have
    "encode (magic_constructor h) = subslice 0 4 bs" "shard_to_bytes (shard h) = subslice 4 16 bs"
    "encode (seq_no h) = subslice 16 20 bs" "encode (flags h) = subslice 20 22 bs"
    "encode (gen_utime h) = subslice 22 26 bs" "encode (start_lt h) = subslice 26 34 bs"
    "encode (end_lt h) = subslice 34 42 bs" "encode (prev_key_block h) = subslice 42 46 bs"
    "encode (prev_ref_hash h) = subslice 46 78 bs" "encode (prev_ref_hash_2 h) = subslice 78 110 bs"
    "encode (master_ref_hash h) = subslice 110 142 bs" "encode (state_root_hash h) = subslice 142 174 bs"
    "encode (in_msg_root_hash h) = subslice 174 206 bs" "encode (out_msg_root_hash h) = subslice 206 238 bs"
    by (auto simp: header_from_bytes_def bindR_Inr Let_def decode_exact_iff shardc.dec_iff split: if_splits)
  then have "header_to_bytes h = subslice 0 238 bs"
    by (simp only: header_to_bytes_def) (simp add: subslice_join)
  then show ?thesis using ok by (simp add: subslice_all len)
qed

interpretation headerc: fixed_codec header_to_bytes header_from_bytes HEADER_LENGTH header_ok
  by unfold_locales (auto simp: header_from_to dest: header_from_bytes_sound)

section \<open>Properties\<close>

text \<open>
  The header decoder accepts exactly the encodings of consistent headers: a byte string decodes
  to \<open>h\<close> if and only if it is the encoding of \<open>h\<close>, the magic and the shard of \<open>h\<close> are valid, and
  \<open>h\<close> names a second parent exactly when it carries the merge-result flag.
\<close>

theorem header_codec_canonical:
  "header_from_bytes bs = Inr h \<longleftrightarrow>
     bs = header_to_bytes h \<and> magic_constructor h = BLOCK_HEADER_MAGIC \<and>
     shard_validate (shard h) = Inr () \<and>
     (flags h AND MERGE_RESULT_FLAG \<noteq> 0 \<longleftrightarrow> prev_ref_hash_2 h \<noteq> 0)"
  using headerc.dec_iff [of bs h] by (auto simp: header_ok_def)

end
