(* ===== verification/Machines.thy ===== *)
theory Machines
  imports Main
begin

text \<open>
  Stateful components as step systems: a component has initial states and an operation that takes
  a request and returns the next state with a response. The contract below is what every component
  with an invariant proves of its operation; what follows from it holds along every sequence of
  requests. A second contract is that of a journal: transactions made of small operations that a crash
  may interrupt, and a recovery that completes or drops them. Also the first minimum of an
  iterator, which several components select by.
\<close>

section \<open>Runs of a component\<close>

fun run_ops :: "('s \<Rightarrow> 'q \<Rightarrow> 's \<times> 'r) \<Rightarrow> 's \<Rightarrow> 'q list \<Rightarrow> 's \<times> 'r list" where
  "run_ops step s [] = (s, [])"
| "run_ops step s (q # qs) =
     (let (s', r) = step s q; (s'', rs) = run_ops step s' qs in (s'', r # rs))"

locale component =
  fixes step :: "'s \<Rightarrow> 'q \<Rightarrow> 's \<times> 'r"
    and cinv :: "'s \<Rightarrow> bool"
    and cok :: "'q \<Rightarrow> bool"
  assumes step_inv: "cinv s \<Longrightarrow> cok q \<Longrightarrow> cinv (fst (step s q))"
begin

lemma run_inv: "cinv s \<Longrightarrow> list_all cok qs \<Longrightarrow> cinv (fst (run_ops step s qs))"
proof (induction qs arbitrary: s)
  case (Cons q qs)
  then show ?case using step_inv [of s q] by (simp add: case_prod_unfold Let_def)
qed simp

lemma run_responses:
  assumes "\<And>s q. cinv s \<Longrightarrow> cok q \<Longrightarrow> P (snd (step s q))"
  shows "cinv s \<Longrightarrow> list_all cok qs \<Longrightarrow> list_all P (snd (run_ops step s qs))"
proof (induction qs arbitrary: s)
  case (Cons q qs)
  then show ?case using assms [of s q] step_inv [of s q] by (simp add: case_prod_unfold Let_def)
qed simp

lemma run_append:
  "run_ops step s (qs @ ps) =
     (let (s', rs) = run_ops step s qs; (s'', us) = run_ops step s' ps in (s'', rs @ us))"
  by (induction qs arbitrary: s) (simp_all add: case_prod_unfold Let_def)

text \<open>A relation between the states before and after a step that is reflexive and transitive
  relates the ends of every run.\<close>

lemma run_rel:
  assumes refl: "\<And>s. R s s" and trans: "\<And>a b c. R a b \<Longrightarrow> R b c \<Longrightarrow> R a c"
    and step: "\<And>s q. cinv s \<Longrightarrow> cok q \<Longrightarrow> R s (fst (step s q))"
  shows "cinv s \<Longrightarrow> list_all cok qs \<Longrightarrow> R s (fst (run_ops step s qs))"
proof (induction qs arbitrary: s)
  case Nil
  then show ?case by (simp add: refl)
next
  case (Cons q qs)
  then have "R s (fst (step s q))" "cinv (fst (step s q))" using step step_inv by auto
  then show ?case
    using Cons trans by (auto simp: case_prod_unfold Let_def)
qed

end

section \<open>Transactions and crashes\<close>

text \<open>
  A transaction is a list of operations on a state. The contract: from a clean state, a crash
  within one transaction is recovered to the state before or after it, and the end of a
  transaction is clean again.
\<close>

locale journaled =
  fixes perform :: "'o \<Rightarrow> 's \<Rightarrow> 's"
    and operations :: "'b \<Rightarrow> 'o list"
    and recovered :: "'s \<Rightarrow> 's"
    and clean :: "'s \<Rightarrow> bool"
    and admissible :: "'b \<Rightarrow> bool"
  assumes recovered_clean: "clean s \<Longrightarrow> recovered s = s"
    and recovered_within: "admissible b \<Longrightarrow> clean s \<Longrightarrow> 0 < k \<Longrightarrow>
      recovered (fold perform (take k (operations b)) s) = fold perform (operations b) s"
    and clean_after: "admissible b \<Longrightarrow> clean s \<Longrightarrow> clean (fold perform (operations b) s)"
    and operations_nonempty: "operations b \<noteq> []"
begin

text \<open>The operations of a sequence of transactions.\<close>

definition history :: "'b list \<Rightarrow> 'o list" where
  "history bs = concat (map operations bs)"

lemma history_simps [simp]:
  "history [] = []" "history (b # bs) = operations b @ history bs"
  by (simp_all add: history_def)

lemma history_short: "length (history (take i bs)) = 0 \<Longrightarrow> i \<le> length bs \<Longrightarrow> i = 0"
  by (cases bs; cases i) (simp_all add: operations_nonempty)

text \<open>
  A crash anywhere in a sequence is recovered to the state after its first \<open>j\<close> transactions, and
  these include every transaction that was completed.
\<close>

lemma recovered_prefix:
  "list_all admissible bs \<Longrightarrow> clean s \<Longrightarrow>
     \<exists>j \<le> length bs. recovered (fold perform (take k (history bs)) s) = fold perform (history (take j bs)) s \<and>
       (\<forall>i \<le> length bs. length (history (take i bs)) \<le> k \<longrightarrow> i \<le> j)"
proof (induction bs arbitrary: s k)
  case Nil
  then show ?case by (simp add: recovered_clean)
next
  case (Cons b bs)
  show ?case
  proof (cases "k \<le> length (operations b)")
    case True
    then have cut: "take k (history (b # bs)) = take k (operations b)" by simp
    show ?thesis
    proof (cases "k = 0")
      case True
      have "recovered (fold perform (take k (history (b # bs))) s) = fold perform (history (take 0 (b # bs))) s"
        using True Cons.prems(2) by (simp add: recovered_clean)
      moreover have "i \<le> 0" if "i \<le> length (b # bs)" "length (history (take i (b # bs))) \<le> k" for i
        using history_short [of i "b # bs"] that True by simp
      ultimately show ?thesis by blast
    next
      case False
      have "i \<le> 1" if i: "i \<le> length (b # bs)" "length (history (take i (b # bs))) \<le> k" for i
      proof (cases i)
        case (Suc i')
        have "length (history (take i' bs)) = 0"
          using i(2) True unfolding Suc take_Suc_Cons history_simps length_append by linarith
        then show ?thesis using history_short [of i' bs] i(1) Suc by simp
      qed simp
      moreover have "recovered (fold perform (take k (history (b # bs))) s) = fold perform (history (take 1 (b # bs))) s"
        unfolding cut using recovered_within [of b s k] False Cons.prems by simp
      ultimately show ?thesis by (intro exI [of _ 1]) simp
    qed
  next
    case False
    have "clean (fold perform (operations b) s)" using clean_after Cons.prems by simp
    then obtain j where j: "j \<le> length bs"
      "recovered (fold perform (take (k - length (operations b)) (history bs)) (fold perform (operations b) s)) =
         fold perform (history (take j bs)) (fold perform (operations b) s)"
      "\<And>i. i \<le> length bs \<Longrightarrow> length (history (take i bs)) \<le> k - length (operations b) \<Longrightarrow> i \<le> j"
      using Cons.IH [of "fold perform (operations b) s" "k - length (operations b)"] Cons.prems(1) by auto
    have "i \<le> Suc j" if "i \<le> length (b # bs)" "length (history (take i (b # bs))) \<le> k" for i
      using j(3) [of "i - 1"] that by (cases i) auto
    then show ?thesis using False j(1,2) by (intro exI [of _ "Suc j"]) simp
  qed
qed

end

section \<open>The first minimum\<close>

text \<open>\<open>Iterator::min_by_key\<close>: of several minima it returns the first.\<close>

definition min_by_key :: "('a \<Rightarrow> 'b::linorder) \<Rightarrow> 'a list \<Rightarrow> 'a option" where
  "min_by_key f xs =
     (case xs of [] \<Rightarrow> None
      | x # ys \<Rightarrow> Some (fold (\<lambda>y m. if f y < f m then y else m) ys x))"

lemma min_by_key_fold:
  "fold (\<lambda>y m. if f y < f m then y else m) ys x \<in> set (x # ys) \<and>
   (\<forall>y\<in>set (x # ys). f (fold (\<lambda>y m. if f y < f m then y else m) ys x) \<le> (f y :: 'b::linorder))"
proof (induction ys arbitrary: x)
  case (Cons y ys)
  show ?case using Cons [of "if f y < f x then y else x"] by (auto split: if_splits)
qed simp

lemma min_by_key_None [simp]: "min_by_key f xs = None \<longleftrightarrow> xs = []"
  by (simp add: min_by_key_def split: list.splits)

lemma min_by_key_Some:
  assumes "min_by_key f xs = Some x"
  shows "x \<in> set xs" "y \<in> set xs \<Longrightarrow> f x \<le> (f y :: 'b::linorder)"
  using assms min_by_key_fold [of f "tl xs" "hd xs"]
  by (auto simp: min_by_key_def split: list.splits)

end
