(* ===== verification/Admission.thy ===== *)
theory Admission
  imports Messages Accounts Machines
begin

text \<open>
  \<open>crates/protocol/onx-transactions\<close>: the error type (\<open>error.rs\<close>), the admission rules of the three
  kinds of messages (\<open>admission.rs\<close>) and the tracker that prevents double delivery
  (\<open>processed.rs\<close>).
\<close>

datatype transactions_error =
    WrongMessageType message_type message_type
  | NonZeroExternalValue
  | UnsortedExtraCurrencies
  | DuplicateCurrencyId u32
  | TentativeSignatureInvalid
  | TentativeGasLimitExceeded u64 u64
  | InternalSourceNotActive
  | DuplicateDelivery
  | FifoOrderViolation u64 u64
  | LaneTimeRegression u64 u64
  | IncompatibleRoute
  | RouteEndpointMismatch
  | InvalidHypercubeHop
  | InsufficientTransitFee u128 u128
  | ExpiryOverflow

section \<open>Admission\<close>

definition MAX_TENTATIVE_GAS :: u64 where
  "MAX_TENTATIVE_GAS = 10000"

record tentative_execution_outcome =
  signature_valid :: bool
  tentative_gas_used :: u64

fun validate_extra_currencies_sorted :: "(u32 \<times> u128) list \<Rightarrow> transactions_error + unit" where
  "validate_extra_currencies_sorted (p # q # ps) =
     (if fst p = fst q then Inl (DuplicateCurrencyId (fst p))
      else if fst p > fst q then Inl UnsortedExtraCurrencies
      else validate_extra_currencies_sorted (q # ps))"
| "validate_extra_currencies_sorted ps = Inr ()"

definition validate_message_shape :: "message \<Rightarrow> transactions_error + unit" where
  "validate_message_shape m =
     bindR (validate_extra_currencies_sorted (extra_currencies m)) (\<lambda>_.
       if msg_type m = ExternalInbound \<and> (amount_nanos m \<noteq> 0 \<or> extra_currencies m \<noteq> [])
       then Inl NonZeroExternalValue else Inr ())"

definition admit_internal :: "message \<Rightarrow> account_type \<Rightarrow> transactions_error + unit" where
  "admit_internal m source_type =
     (if msg_type m \<noteq> Internal then Inl (WrongMessageType Internal (msg_type m))
      else
        bindR (validate_message_shape m) (\<lambda>_.
          if source_type \<noteq> Active_t then Inl InternalSourceNotActive else Inr ()))"

definition admit_external_inbound ::
  "message \<Rightarrow> tentative_execution_outcome \<Rightarrow> transactions_error + unit" where
  "admit_external_inbound m outcome =
     (if msg_type m \<noteq> ExternalInbound then Inl (WrongMessageType ExternalInbound (msg_type m))
      else
        bindR (validate_message_shape m) (\<lambda>_.
          if \<not> signature_valid outcome then Inl TentativeSignatureInvalid
          else if tentative_gas_used outcome > MAX_TENTATIVE_GAS
          then Inl (TentativeGasLimitExceeded (tentative_gas_used outcome) MAX_TENTATIVE_GAS)
          else Inr ()))"

definition admit_external_outbound :: "message \<Rightarrow> transactions_error + unit" where
  "admit_external_outbound m =
     (if msg_type m \<noteq> ExternalOutbound then Inl (WrongMessageType ExternalOutbound (msg_type m))
      else validate_message_shape m)"

lemma extra_currencies_sorted_iff:
  "validate_extra_currencies_sorted ps = Inr () \<longleftrightarrow> sorted_wrt (<) (map fst ps)"
proof (induction ps rule: validate_extra_currencies_sorted.induct)
  case (1 p q ps)
  then show ?case by (auto simp: not_less less_le)
qed auto

lemma shape_Inr:
  "validate_message_shape m = Inr () \<longleftrightarrow> sorted_wrt (<) (map fst (extra_currencies m)) \<and>
     (msg_type m = ExternalInbound \<longrightarrow> amount_nanos m = 0 \<and> extra_currencies m = [])"
  by (auto simp: validate_message_shape_def bindR_Inr extra_currencies_sorted_iff)

section \<open>Double delivery\<close>

text \<open>The tracked hashes are a \<open>BTreeSet\<close>, of which only membership matters.\<close>

record processed_message_tracker =
  hashes :: "hash32 set"

definition tracker_new :: processed_message_tracker where
  "tracker_new = \<lparr>hashes = {}\<rparr>"

definition tracker_admit ::
  "processed_message_tracker \<Rightarrow> hash32 \<Rightarrow> processed_message_tracker \<times> (transactions_error + unit)" where
  "tracker_admit t h =
     (if h \<in> hashes t then (t, Inl DuplicateDelivery)
      else (t\<lparr>hashes := insert h (hashes t)\<rparr>, Inr ()))"

definition admit_message ::
  "crypto \<Rightarrow> processed_message_tracker \<Rightarrow> message \<Rightarrow>
     processed_message_tracker \<times> (transactions_error + unit)" where
  "admit_message cr t m = tracker_admit t (message_hash cr m)"

definition tracker_contains :: "processed_message_tracker \<Rightarrow> hash32 \<Rightarrow> bool" where
  "tracker_contains t h \<longleftrightarrow> h \<in> hashes t"

definition tracker_prune :: "processed_message_tracker \<Rightarrow> hash32 \<Rightarrow> processed_message_tracker" where
  "tracker_prune t h = t\<lparr>hashes := hashes t - {h}\<rparr>"

text \<open>The requests a tracker serves, as a component.\<close>

datatype tracker_request = Deliver hash32 | Prune hash32

fun tracker_step ::
  "processed_message_tracker \<Rightarrow> tracker_request \<Rightarrow>
     processed_message_tracker \<times> (transactions_error + unit)" where
  "tracker_step t (Deliver h) = tracker_admit t h"
| "tracker_step t (Prune h) = (tracker_prune t h, Inr ())"

text \<open>
  The hashes a run delivers: those whose admission succeeded.
\<close>

definition delivered :: "tracker_request list \<Rightarrow> (transactions_error + unit) list \<Rightarrow> hash32 list" where
  "delivered qs rs = concat (map (\<lambda>(q, r). case q of Deliver h \<Rightarrow> if is_ok r then [h] else [] | Prune _ \<Rightarrow> [])
     (zip qs rs))"

lemma delivered_Nil [simp]: "delivered [] rs = []"
  by (simp add: delivered_def)

lemma delivered_Cons [simp]:
  "delivered (q # qs) (r # rs) =
     (case q of Deliver h \<Rightarrow> if is_ok r then [h] else [] | Prune _ \<Rightarrow> []) @ delivered qs rs"
  by (simp add: delivered_def)

abbreviation no_prune :: "tracker_request \<Rightarrow> bool" where
  "no_prune q \<equiv> (\<forall>h. q \<noteq> Prune h)"

interpretation tracker: component tracker_step "\<lambda>t. True" no_prune
  by unfold_locales simp

lemma tracker_grows:
  "list_all no_prune qs \<Longrightarrow> hashes t \<subseteq> hashes (fst (run_ops tracker_step t qs))"
proof (rule tracker.run_rel [where R = "\<lambda>s t. hashes s \<subseteq> hashes t"])
  show "hashes t \<subseteq> hashes (fst (tracker_step t q))" if "no_prune q" for t q
    using that by (cases q) (auto simp: tracker_admit_def)
qed auto

text \<open>Without pruning, no hash is delivered twice, and none that was tracked before.\<close>

lemma delivered_once:
  "list_all no_prune qs \<Longrightarrow>
     distinct (delivered qs (snd (run_ops tracker_step t qs))) \<and>
     set (delivered qs (snd (run_ops tracker_step t qs))) \<inter> hashes t = {} \<and>
     hashes (fst (run_ops tracker_step t qs)) =
       hashes t \<union> set (delivered qs (snd (run_ops tracker_step t qs)))"
proof (induction qs arbitrary: t)
  case (Cons q qs)
  then obtain h where q: "q = Deliver h" by (cases q) auto
  have "list_all no_prune qs" using Cons.prems by simp
  note IH = Cons.IH [OF this, of "fst (tracker_admit t h)"]
  show ?case
    using IH by (auto simp: q tracker_admit_def case_prod_unfold Let_def)
qed simp

section \<open>Properties\<close>

text \<open>
  Admission of an external inbound message is exact: it is admitted if and only if it is of
  that type, carries no value of any currency, its tentative execution verified the signature, and
  used at most the tentative gas limit.
\<close>

theorem external_inbound_admission:
  "admit_external_inbound m outcome = Inr () \<longleftrightarrow>
     msg_type m = ExternalInbound \<and> amount_nanos m = 0 \<and> extra_currencies m = [] \<and>
     signature_valid outcome \<and> tentative_gas_used outcome \<le> MAX_TENTATIVE_GAS"
  by (auto simp: admit_external_inbound_def bindR_Inr shape_Inr)

text \<open>
  C30. Delivery is exactly-once between prunings: along any sequence of admissions without pruning,
  no message hash is admitted twice and none that was tracked at the start is admitted, and
  afterwards the tracker holds exactly the old hashes and the admitted ones.
\<close>

theorem exactly_once_delivery:
  assumes "list_all no_prune qs"
  shows "distinct (delivered qs (snd (run_ops tracker_step t qs))) \<and>
    set (delivered qs (snd (run_ops tracker_step t qs))) \<inter> hashes t = {} \<and>
    hashes (fst (run_ops tracker_step t qs)) =
      hashes t \<union> set (delivered qs (snd (run_ops tracker_step t qs)))"
  using assms by (rule delivered_once)

theorem exactly_once_delivery_witness:
  "distinct (delivered [Deliver 1, Deliver 2, Deliver 1]
     (snd (run_ops tracker_step tracker_new [Deliver 1, Deliver 2, Deliver 1]))) \<and>
   delivered [Deliver 1, Deliver 2, Deliver 1]
     (snd (run_ops tracker_step tracker_new [Deliver 1, Deliver 2, Deliver 1])) = [1, 2]"
proof -
  have l: "list_all no_prune [Deliver 1, Deliver 2, Deliver 1]" by simp
  show ?thesis using exactly_once_delivery [OF l, of tracker_new]
    by (simp add: tracker_new_def tracker_admit_def)
qed

end
