(* ===== verification/Output_Queue.thy ===== *)
theory Output_Queue
  imports Admission Ordered_Maps "HOL-Library.Product_Lexorder" "HOL-Library.Multiset"
begin

text \<open>
  \<open>crates/protocol/onx-transactions/src/output_queue.rs\<close>: the output queue of a shard, one FIFO lane
  per sender and recipient in an ordered map, and the check of a proposed delivery order.
\<close>

type_synonym lane_key = "full_address \<times> full_address"

record output_queue =
  lanes :: "(lane_key, message list) btree"

definition oq_new :: output_queue where
  "oq_new = \<lparr>lanes = []\<rparr>"

definition lane_key :: "message \<Rightarrow> lane_key" where
  "lane_key m = (src_address m, dest_address m)"

text \<open>\<open>entry(key).or_default()\<close>; the early return leaves the entry in place.\<close>

definition enqueue :: "output_queue \<Rightarrow> message \<Rightarrow> output_queue \<times> (transactions_error + unit)" where
  "enqueue q m =
     (let key = lane_key m;
          lane = (case bt_get (lanes q) key of Some l \<Rightarrow> l | None \<Rightarrow> [])
      in if lane \<noteq> [] \<and> created_lt m \<le> created_lt (last lane)
         then (q\<lparr>lanes := bt_insert (lanes q) key lane\<rparr>,
               Inl (LaneTimeRegression (created_lt (last lane)) (created_lt m)))
         else (q\<lparr>lanes := bt_insert (lanes q) key (lane @ [m])\<rparr>, Inr ()))"

definition lane_heads :: "output_queue \<Rightarrow> (lane_key \<times> message) list" where
  "lane_heads q = concat (map (\<lambda>(k, l). case l of [] \<Rightarrow> [] | m # _ \<Rightarrow> [(k, m)]) (lanes q))"

definition peek_next :: "output_queue \<Rightarrow> message option" where
  "peek_next q = min_by_key created_lt (map snd (lane_heads q))"

definition pop_next :: "output_queue \<Rightarrow> output_queue \<times> message option" where
  "pop_next q =
     (case map_option fst (min_by_key snd (map (\<lambda>(k, m). (k, created_lt m)) (lane_heads q))) of
        None \<Rightarrow> (q, None)
      | Some key \<Rightarrow>
          (case bt_get (lanes q) key of
             None \<Rightarrow> (q, None)
           | Some [] \<Rightarrow> (q\<lparr>lanes := bt_remove (lanes q) key\<rparr>, None)
           | Some (m # lane) \<Rightarrow>
               (q\<lparr>lanes := (if lane = [] then bt_remove (lanes q) key
                           else bt_insert (lanes q) key lane)\<rparr>, Some m)))"

fun check_delivery_order :: "(lane_key, u64) btree \<Rightarrow> message list \<Rightarrow> transactions_error + unit" where
  "check_delivery_order last_lt [] = Inr ()"
| "check_delivery_order last_lt (m # ms) =
     (case bt_get last_lt (lane_key m) of
        Some previous_lt \<Rightarrow>
          if created_lt m \<le> previous_lt
          then Inl (FifoOrderViolation previous_lt (created_lt m))
          else check_delivery_order (bt_insert last_lt (lane_key m) (created_lt m)) ms
      | None \<Rightarrow> check_delivery_order (bt_insert last_lt (lane_key m) (created_lt m)) ms)"

definition validate_delivery_order :: "message list \<Rightarrow> transactions_error + unit" where
  "validate_delivery_order ms = check_delivery_order [] ms"

definition oq_is_empty :: "output_queue \<Rightarrow> bool" where
  "oq_is_empty q \<longleftrightarrow> lanes q = []"

definition oq_len :: "output_queue \<Rightarrow> nat" where
  "oq_len q = sum_list (map (\<lambda>(k, l). length l) (lanes q))"

section \<open>Lanes\<close>

declare split_paired_All [simp del] split_paired_Ex [simp del]

definition lane_ok :: "lane_key \<Rightarrow> message list \<Rightarrow> bool" where
  "lane_ok k l \<longleftrightarrow> l \<noteq> [] \<and> sorted_wrt (<) (map created_lt l) \<and> (\<forall>m\<in>set l. lane_key m = k)"

definition oq_inv :: "output_queue \<Rightarrow> bool" where
  "oq_inv q \<longleftrightarrow> bt_inv (lanes q) \<and> (\<forall>k l. bt_get (lanes q) k = Some l \<longrightarrow> lane_ok k l)"

definition lane_of :: "output_queue \<Rightarrow> lane_key \<Rightarrow> message list" where
  "lane_of q k = (case bt_get (lanes q) k of Some l \<Rightarrow> l | None \<Rightarrow> [])"

lemma oq_inv_lane: "oq_inv q \<Longrightarrow> lane_of q k = [] \<or> lane_ok k (lane_of q k)"
  by (auto simp: oq_inv_def lane_of_def split: option.splits)

lemma oq_inv_new [simp]: "oq_inv oq_new"
  by (simp add: oq_inv_def oq_new_def)

lemma sorted_snoc:
  "sorted_wrt (<) (map f l) \<Longrightarrow> (l = [] \<or> f (last l) < (f m :: 'a::linorder)) \<Longrightarrow>
     sorted_wrt (<) (map f (l @ [m]))"
  by (cases l rule: rev_cases) (auto simp: sorted_wrt_append intro: less_trans)

lemma enqueue_Inr:
  assumes "enqueue q m = (q', Inr ())" "oq_inv q"
  shows "oq_inv q'" "lane_of q' k = (if k = lane_key m then lane_of q k @ [m] else lane_of q k)"
proof -
  let ?l = "lane_of q (lane_key m)"
  from assms(1) have ok: "?l = [] \<or> created_lt (last ?l) < created_lt m"
    and q': "q' = q\<lparr>lanes := bt_insert (lanes q) (lane_key m) (?l @ [m])\<rparr>"
    by (auto simp: enqueue_def Let_def lane_of_def not_le split: if_splits)
  show "lane_of q' k = (if k = lane_key m then lane_of q k @ [m] else lane_of q k)"
    by (simp add: q' lane_of_def)
  have "lane_ok (lane_key m) (?l @ [m])"
    using oq_inv_lane [OF assms(2), of "lane_key m"] ok sorted_snoc [of created_lt ?l m]
    by (auto simp: lane_ok_def)
  then show "oq_inv q'" using assms(2) by (auto simp: oq_inv_def q')
qed

lemma enqueue_Inl:
  assumes "enqueue q m = (q', Inl e)" "oq_inv q"
  shows "oq_inv q'" "lane_of q' k = lane_of q k"
proof -
  let ?l = "lane_of q (lane_key m)"
  from assms(1) have l: "?l \<noteq> []" and q': "q' = q\<lparr>lanes := bt_insert (lanes q) (lane_key m) ?l\<rparr>"
    by (auto simp: enqueue_def Let_def lane_of_def split: if_splits)
  have "bt_get (lanes q) (lane_key m) = Some ?l"
    using l by (auto simp: lane_of_def split: option.splits)
  then show "oq_inv q'" "lane_of q' k = lane_of q k"
    using assms(2) by (auto simp: oq_inv_def q' lane_of_def)
qed

section \<open>Taking the next message\<close>

lemma lane_heads_mem:
  assumes "oq_inv q"
  shows "(k, m) \<in> set (lane_heads q) \<longleftrightarrow> (\<exists>l. bt_get (lanes q) k = Some (m # l))"
proof -
  have "bt_inv (lanes q)" using assms by (simp add: oq_inv_def)
  then show ?thesis
    by (force simp: lane_heads_def bt_get_mem split: list.splits)
qed

lemma lane_heads_Nil:
  assumes "oq_inv q"
  shows "lane_heads q = [] \<longleftrightarrow> lanes q = []"
proof
  assume h: "lane_heads q = []"
  show "lanes q = []"
  proof (rule ccontr)
    assume "lanes q \<noteq> []"
    then obtain k l where kl: "(k, l) \<in> set (lanes q)" by (cases "lanes q") auto
    then have "bt_get (lanes q) k = Some l" using assms by (simp add: oq_inv_def bt_get_mem)
    then obtain m l' where "bt_get (lanes q) k = Some (m # l')"
      using assms by (cases l) (auto simp: oq_inv_def lane_ok_def)
    then show False using lane_heads_mem [OF assms] h by fastforce
  qed
qed (simp add: lane_heads_def)

definition queued :: "output_queue \<Rightarrow> message list" where
  "queued q = concat (map snd (lanes q))"

lemma queued_mem: "oq_inv q \<Longrightarrow> m \<in> set (queued q) \<longleftrightarrow> m \<in> set (lane_of q (lane_key m))"
proof
  assume i: "oq_inv q" and "m \<in> set (queued q)"
  then obtain k l where "(k, l) \<in> set (lanes q)" "m \<in> set l" by (auto simp: queued_def)
  then have "bt_get (lanes q) k = Some l" using i by (simp add: oq_inv_def bt_get_mem)
  then show "m \<in> set (lane_of q (lane_key m))"
    using i \<open>m \<in> set l\<close> by (auto simp: oq_inv_def lane_ok_def lane_of_def)
next
  assume "oq_inv q" "m \<in> set (lane_of q (lane_key m))"
  then show "m \<in> set (queued q)"
    by (cases "bt_get (lanes q) (lane_key m)") (force simp: queued_def lane_of_def dest: map_of_SomeD)+
qed

text \<open>The head of a lane is its earliest message, so the least head is the least message.\<close>

lemma lane_head_least: "lane_ok k (m # l) \<Longrightarrow> x \<in> set (m # l) \<Longrightarrow> created_lt m \<le> created_lt x"
  by (auto simp: lane_ok_def intro: less_imp_le)

lemma pop_next_Some:
  assumes "pop_next q = (q', Some m)" "oq_inv q"
  shows "oq_inv q'" "lane_of q k = (if k = lane_key m then m # lane_of q' k else lane_of q' k)"
    "x \<in> set (queued q) \<Longrightarrow> created_lt m \<le> created_lt x"
proof -
  from assms(1) obtain key lt lane where
    mk: "min_by_key snd (map (\<lambda>(k, m). (k, created_lt m)) (lane_heads q)) = Some (key, lt)"
    and g: "bt_get (lanes q) key = Some (m # lane)"
    and q': "q' = q\<lparr>lanes := (if lane = [] then bt_remove (lanes q) key
                           else bt_insert (lanes q) key lane)\<rparr>"
    by (auto simp: pop_next_def split: option.splits list.splits)
  have ok: "lane_ok key (m # lane)" using g assms(2) by (simp add: oq_inv_def)
  then have key: "key = lane_key m" by (simp add: lane_ok_def)
  show "lane_of q k = (if k = lane_key m then m # lane_of q' k else lane_of q' k)"
    using g by (auto simp: q' lane_of_def key)
  have "lane_ok key lane" if "lane \<noteq> []" using ok that by (simp add: lane_ok_def)
  then show "oq_inv q'" using assms(2) by (auto simp: oq_inv_def q')
  show "created_lt m \<le> created_lt x" if x: "x \<in> set (queued q)"
  proof -
    have lt: "lt = created_lt m"
      using min_by_key_Some(1) [OF mk] lane_heads_mem [OF assms(2), of key] g by auto
    obtain h l where hl: "bt_get (lanes q) (lane_key x) = Some (h # l)" "x \<in> set (h # l)"
    proof -
      have "x \<in> set (lane_of q (lane_key x))" using x queued_mem [OF assms(2)] by simp
      then show thesis
        by (cases "lane_of q (lane_key x)"; cases "bt_get (lanes q) (lane_key x)")
          (auto simp: lane_of_def intro: that)
    qed
    then have "(lane_key x, h) \<in> set (lane_heads q)"
      using lane_heads_mem [OF assms(2)] by blast
    then have "(lane_key x, created_lt h) \<in> set (map (\<lambda>(k, m). (k, created_lt m)) (lane_heads q))"
      by (metis (no_types, lifting) case_prod_conv image_eqI list.set_map)
    then have "created_lt m \<le> created_lt h" using min_by_key_Some(2) [OF mk] lt by fastforce
    also have "\<dots> \<le> created_lt x"
      using lane_head_least [of "lane_key x" h l x] hl assms(2) unfolding oq_inv_def by blast
    finally show ?thesis .
  qed
qed

lemma pop_next_None:
  assumes "pop_next q = (q', None)" "oq_inv q"
  shows "q' = q \<and> queued q = []"
proof -
  have "lane_heads q = []"
  proof (rule ccontr)
    assume "lane_heads q \<noteq> []"
    then obtain key lt where mk: "min_by_key snd (map (\<lambda>(k, m). (k, created_lt m)) (lane_heads q)) = Some (key, lt)"
      by (metis (no_types, lifting) min_by_key_None map_is_Nil_conv option.exhaust surj_pair)
    then obtain m l where "bt_get (lanes q) key = Some (m # l)"
      using min_by_key_Some(1) [OF mk] lane_heads_mem [OF assms(2)] by auto
    then show False using assms(1) mk by (auto simp: pop_next_def)
  qed
  then show ?thesis using assms lane_heads_Nil [OF assms(2)]
    by (auto simp: pop_next_def min_by_key_def queued_def)
qed

section \<open>The queue as a component\<close>

datatype oq_request = Enqueue message | Pop
datatype oq_response = Enqueued "transactions_error + unit" | Popped "message option"

fun oq_step :: "output_queue \<Rightarrow> oq_request \<Rightarrow> output_queue \<times> oq_response" where
  "oq_step q (Enqueue m) = (let (q', r) = enqueue q m in (q', Enqueued r))"
| "oq_step q Pop = (let (q', m) = pop_next q in (q', Popped m))"

lemma oq_step_inv: "oq_inv q \<Longrightarrow> oq_inv (fst (oq_step q req))"
proof (cases req)
  case (Enqueue m)
  obtain q' r where e: "enqueue q m = (q', r)" by (cases "enqueue q m")
  assume "oq_inv q"
  then show ?thesis
    using Enqueue e enqueue_Inr(1) [of q m q'] enqueue_Inl(1) [of q m q'] by (cases r) auto
next
  case Pop
  obtain q' r where e: "pop_next q = (q', r)" by (cases "pop_next q")
  assume "oq_inv q"
  then show ?thesis
    using Pop e pop_next_Some(1) [of q q'] pop_next_None [of q q'] by (cases r) auto
qed

interpretation oq: component oq_step oq_inv "\<lambda>_. True"
  by unfold_locales (rule oq_step_inv)

text \<open>The messages a run accepts and the messages it hands out, in order.\<close>

definition accepted :: "oq_request list \<Rightarrow> oq_response list \<Rightarrow> message list" where
  "accepted qs rs = concat (map (\<lambda>(q, r). case q of
      Enqueue m \<Rightarrow> (case r of Enqueued (Inr _) \<Rightarrow> [m] | _ \<Rightarrow> []) | Pop \<Rightarrow> []) (zip qs rs))"

definition popped :: "oq_response list \<Rightarrow> message list" where
  "popped rs = concat (map (\<lambda>r. case r of Popped (Some m) \<Rightarrow> [m] | _ \<Rightarrow> []) rs)"

abbreviation on_lane :: "lane_key \<Rightarrow> message list \<Rightarrow> message list" where
  "on_lane k ms \<equiv> filter (\<lambda>m. lane_key m = k) ms"

lemma accepted_simps [simp]:
  "accepted [] rs = []"
  "accepted (q # qs) (r # rs) = (case q of
      Enqueue m \<Rightarrow> (case r of Enqueued (Inr _) \<Rightarrow> [m] | _ \<Rightarrow> []) | Pop \<Rightarrow> []) @ accepted qs rs"
  by (simp_all add: accepted_def)

lemma popped_simps [simp]:
  "popped [] = []"
  "popped (r # rs) = (case r of Popped (Some m) \<Rightarrow> [m] | _ \<Rightarrow> []) @ popped rs"
  by (simp_all add: popped_def)

lemma oq_step_lane:
  assumes "oq_inv q" "oq_step q req = (q', r)"
  shows "lane_of q k @ on_lane k (accepted [req] [r]) = on_lane k (popped [r]) @ lane_of q' k"
proof (cases req)
  case (Enqueue m)
  with assms(2) obtain r' where e: "enqueue q m = (q', r')" and r: "r = Enqueued r'"
    by (auto split: prod.splits)
  show ?thesis
  proof (cases r')
    case (Inl e')
    then show ?thesis using enqueue_Inl(2) [of q m q' e'] e assms(1) Enqueue r by simp
  next
    case (Inr u)
    then show ?thesis using enqueue_Inr(2) [of q m q'] e assms(1) Enqueue r by simp
  qed
next
  case Pop
  with assms(2) obtain r' where e: "pop_next q = (q', r')" and r: "r = Popped r'"
    by (auto split: prod.splits)
  show ?thesis
  proof (cases r')
    case None
    then show ?thesis using pop_next_None [of q q'] e assms(1) Pop r by simp
  next
    case (Some m)
    then show ?thesis using pop_next_Some(2) [of q q' m k] e assms(1) Pop r by simp
  qed
qed

lemma oq_run_lane:
  "oq_inv q \<Longrightarrow> run_ops oq_step q qs = (q', rs) \<Longrightarrow>
     lane_of q k @ on_lane k (accepted qs rs) = on_lane k (popped rs) @ lane_of q' k"
proof (induction qs arbitrary: q rs)
  case (Cons req qs)
  obtain q1 r where s: "oq_step q req = (q1, r)" by (cases "oq_step q req")
  obtain rs' where rs: "rs = r # rs'" and run: "run_ops oq_step q1 qs = (q', rs')"
    using Cons.prems(2) s by (auto simp: Let_def split: prod.splits)
  have "oq_inv q1" using oq_step_inv [OF Cons.prems(1), of req] s by simp
  from Cons.IH [OF this run] oq_step_lane [OF Cons.prems(1) s, of k] show ?case
    by (simp add: rs) (metis append.assoc)
qed simp

section \<open>Delivery orders\<close>

definition fifo_ordered :: "message list \<Rightarrow> bool" where
  "fifo_ordered ms \<longleftrightarrow>
     sorted_wrt (\<lambda>a b. lane_key a = lane_key b \<longrightarrow> created_lt a < created_lt b) ms"

lemma check_delivery_order_iff:
  "check_delivery_order last_lt ms = Inr () \<longleftrightarrow>
     fifo_ordered ms \<and> (\<forall>m\<in>set ms. \<forall>p. bt_get last_lt (lane_key m) = Some p \<longrightarrow> p < created_lt m)"
proof (induction last_lt ms rule: check_delivery_order.induct)
  case (2 last_lt m ms)
  show ?case
  proof (cases "bt_get last_lt (lane_key m)")
    case None
    show ?thesis using "2.IH"(1) [OF None] None by (auto simp: fifo_ordered_def)
  next
    case (Some p)
    show ?thesis
    proof (cases "created_lt m \<le> p")
      case True
      then show ?thesis using Some by auto
    next
      case False
      then have "(\<forall>p'. bt_get (bt_insert last_lt (lane_key m) (created_lt m)) (lane_key x) = Some p' \<longrightarrow>
            p' < created_lt x) \<longleftrightarrow> (lane_key m = lane_key x \<longrightarrow> created_lt m < created_lt x) \<and>
          (\<forall>p'. bt_get last_lt (lane_key x) = Some p' \<longrightarrow> p' < created_lt x)" for x
        using Some by (cases "lane_key x = lane_key m") (auto simp: not_le intro: less_trans)
      then have "check_delivery_order last_lt (m # ms) = Inr () \<longleftrightarrow> fifo_ordered ms \<and>
          (\<forall>x\<in>set ms. (lane_key m = lane_key x \<longrightarrow> created_lt m < created_lt x) \<and>
            (\<forall>p'. bt_get last_lt (lane_key x) = Some p' \<longrightarrow> p' < created_lt x))"
        using "2.IH"(2) [OF Some False] Some False by simp
      then show ?thesis using Some False by (auto simp: fifo_ordered_def)
    qed
  qed
qed (simp add: fifo_ordered_def)

section \<open>Properties\<close>

text \<open>
  C27. Every lane is a lossless FIFO queue: along any sequence of enqueue and pop requests to an
  empty queue, the accepted messages of a sender and recipient pair are, in order, those popped for
  the pair followed by those still queued for it.
\<close>

theorem lanes_are_fifo:
  "on_lane k (accepted qs (snd (run_ops oq_step oq_new qs))) =
     on_lane k (popped (snd (run_ops oq_step oq_new qs))) @ lane_of (fst (run_ops oq_step oq_new qs)) k"
  using oq_run_lane [OF oq_inv_new, of qs "fst (run_ops oq_step oq_new qs)"
      "snd (run_ops oq_step oq_new qs)" k]
  by (simp add: lane_of_def oq_new_def)

text \<open>
  In every state a sequence of requests can reach, \<open>pop_next\<close> hands out a message whose logical
  time is least among all queued messages, and fails only when none is queued.
\<close>

theorem pop_is_global_minimum:
  "case pop_next (fst (run_ops oq_step oq_new qs)) of
     (q', Some m) \<Rightarrow> m \<in> set (queued (fst (run_ops oq_step oq_new qs))) \<and>
       created_lt m = Min (created_lt ` set (queued (fst (run_ops oq_step oq_new qs))))
   | (q', None) \<Rightarrow> queued (fst (run_ops oq_step oq_new qs)) = []"
proof -
  let ?q = "fst (run_ops oq_step oq_new qs)"
  have inv: "oq_inv ?q" by (rule oq.run_inv) (simp_all add: list_all_iff)
  obtain q' r where p: "pop_next ?q = (q', r)" by (cases "pop_next ?q")
  show ?thesis
  proof (cases r)
    case None
    then show ?thesis using pop_next_None [of ?q q'] inv p by simp
  next
    case (Some m)
    then have p': "pop_next ?q = (q', Some m)" using p by simp
    have "m \<in> set (queued ?q)"
      using pop_next_Some(2) [OF p' inv, of "lane_key m"] by (simp add: queued_mem [OF inv])
    moreover have "created_lt m = Min (created_lt ` set (queued ?q))"
      using pop_next_Some(3) [OF p' inv] calculation by (intro Min_eqI [symmetric]) auto
    ultimately show ?thesis using p' by simp
  qed
qed

text \<open>
  The check of a proposed delivery order is exact: it accepts a sequence of messages if and
  only if logical times strictly increase along the messages of every sender and recipient pair.
\<close>

theorem delivery_order_exact: "validate_delivery_order ms = Inr () \<longleftrightarrow> fifo_ordered ms"
  by (simp add: validate_delivery_order_def check_delivery_order_iff)

section \<open>A drained lane forgets its logical time\<close>

text \<open>
  The lane check compares with the last message still queued. Once a lane is drained an earlier
  message is accepted again, and the order in which the queue then delivers fails its own check.
\<close>

definition msg_at :: "u64 \<Rightarrow> message" where
  "msg_at lt = \<lparr>msg_type = Internal, src_address = FullAddress 0 1, dest_address = FullAddress 0 2,
     amount_nanos = 0, extra_currencies = [], created_lt = lt, body_cell_hash = 0\<rparr>"

lemma drained_lane_regresses:
  "popped (snd (run_ops oq_step oq_new [Enqueue (msg_at 5), Pop, Enqueue (msg_at 3), Pop])) =
     [msg_at 5, msg_at 3] \<and>
   validate_delivery_order [msg_at 5, msg_at 3] = Inl (FifoOrderViolation 5 3)"
  by (simp add: oq_new_def enqueue_def pop_next_def lane_heads_def lane_key_def msg_at_def
      min_by_key_def bt_remove_def validate_delivery_order_def Let_def word_le_nat_alt)

end
