(* ===== verification/Router.thy ===== *)
theory Router
  imports Admission
begin

unbundle bit_operations_syntax

text \<open>
  \<open>crates/protocol/onx-transactions/src/router.rs\<close>: hypercube routes between shards of equal depth,
  changing differing prefix bits from the most significant down, their validation, and message
  expiry. The lemmas show that the planned route is valid, ends at the destination, and is as short
  as any valid route.
\<close>

definition MAX_CROSS_WORKCHAIN_LT_WINDOW :: u64 where
  "MAX_CROSS_WORKCHAIN_LT_WINDOW = 1000000"

record route_hop =
  hop_from :: shard_ident
  hop_to :: shard_ident

record route_plan =
  plan_hops :: "route_hop list"
  transit_fee :: u128
  remaining_value :: u128

text \<open>The loop over the bit indices; it returns the last shard, which the code asserts to be the
  destination, and the hops.\<close>

fun route_loop ::
  "workchain_ident \<Rightarrow> nat \<Rightarrow> u64 \<Rightarrow> nat list \<Rightarrow> u64 \<Rightarrow> shard_ident \<Rightarrow> route_hop list \<Rightarrow>
     transactions_error + shard_ident \<times> route_hop list" where
  "route_loop wc len target_bits [] current_bits current hops = Inr (current, hops)"
| "route_loop wc len target_bits (bit_index # idxs) current_bits current hops =
     (let b = 63 - bit_index in
      if (drop_bit b current_bits AND 1) \<noteq> (drop_bit b target_bits AND 1) then
        let current_bits = current_bits XOR push_bit b 1 in
        bindR (map_err (\<lambda>_. IncompatibleRoute) (from_prefix_bits wc current_bits len)) (\<lambda>nxt.
          route_loop wc len target_bits idxs current_bits nxt
            (hops @ [\<lparr>hop_from = current, hop_to = nxt\<rparr>]))
      else route_loop wc len target_bits idxs current_bits current hops)"

definition plan_hypercube_route ::
  "message \<Rightarrow> shard_ident \<Rightarrow> shard_ident \<Rightarrow> u128 \<Rightarrow> transactions_error + route_plan" where
  "plan_hypercube_route m source destination fee_per_hop =
     (if msg_type m \<noteq> Internal \<or> \<not> is_ok (validate_source_shard m source)
         \<or> \<not> is_ok (validate_dest_shard m destination)
      then Inl RouteEndpointMismatch
      else
        bindR (map_err (\<lambda>_. IncompatibleRoute) (prefix_len source)) (\<lambda>len.
        bindR (if shard_workchain source \<noteq> shard_workchain destination then Inl IncompatibleRoute
               else bindR (map_err (\<lambda>_. IncompatibleRoute) (prefix_len destination)) (\<lambda>dlen.
                 if dlen \<noteq> len then Inl IncompatibleRoute else Inr ())) (\<lambda>_.
        let mask = (if len = 0 then 0 else push_bit (64 - len) (NOT 0));
            target_bits = shard_prefix_ident destination AND mask;
            current_bits = shard_prefix_ident source AND mask in
        bindR (route_loop (shard_workchain source) len target_bits [0..<len] current_bits source [])
          (\<lambda>(current, hops).
        bindR (ok_or (checked_mul fee_per_hop (word_of_nat (length hops)))
                 (InsufficientTransitFee (amount_nanos m) (- 1))) (\<lambda>fee.
        bindR (ok_or (checked_sub (amount_nanos m) fee)
                 (InsufficientTransitFee (amount_nanos m) fee)) (\<lambda>rest.
        Inr \<lparr>plan_hops = hops, transit_fee = fee, remaining_value = rest\<rparr>))))))"

definition are_neighbors :: "shard_ident \<Rightarrow> shard_ident \<Rightarrow> bool" where
  "are_neighbors left right =
     (case prefix_len left of
        Inl _ \<Rightarrow> False
      | Inr len \<Rightarrow>
          if shard_workchain left \<noteq> shard_workchain right \<or> prefix_len right \<noteq> Inr len then False
          else
            let mask = (if len = 0 then 0 else push_bit (64 - len) (NOT 0))
            in count_ones ((shard_prefix_ident left XOR shard_prefix_ident right) AND mask) = 1)"

fun validate_hops :: "route_hop list \<Rightarrow> shard_ident \<Rightarrow> transactions_error + shard_ident" where
  "validate_hops [] current = Inr current"
| "validate_hops (hop # hops) current =
     (if hop_from hop \<noteq> current \<or> \<not> are_neighbors (hop_from hop) (hop_to hop)
      then Inl InvalidHypercubeHop else validate_hops hops (hop_to hop))"

definition validate_hypercube_route ::
  "route_hop list \<Rightarrow> shard_ident \<Rightarrow> shard_ident \<Rightarrow> transactions_error + unit" where
  "validate_hypercube_route hops source destination =
     bindR (validate_hops hops source) (\<lambda>current.
       if current = destination then Inr () else Inl InvalidHypercubeHop)"

definition cross_workchain_expiry :: "message \<Rightarrow> transactions_error + u64" where
  "cross_workchain_expiry m =
     ok_or (checked_add (created_lt m) MAX_CROSS_WORKCHAIN_LT_WINDOW) ExpiryOverflow"

definition is_cross_workchain_expired :: "message \<Rightarrow> u64 \<Rightarrow> transactions_error + bool" where
  "is_cross_workchain_expired m current_lt =
     bindR (cross_workchain_expiry m) (\<lambda>expiry. Inr (current_lt > expiry))"

section \<open>Distances\<close>

definition prefix_bit :: "shard_ident \<Rightarrow> nat \<Rightarrow> bool" where
  "prefix_bit s j = bit (shard_prefix_ident s) (63 - j)"

definition hamming :: "nat \<Rightarrow> shard_ident \<Rightarrow> shard_ident \<Rightarrow> nat" where
  "hamming n s t = card {j. j < n \<and> prefix_bit s j \<noteq> prefix_bit t j}"

text \<open>Shards that a route may connect: same workchain, same depth \<open>n\<close>.\<close>

definition same_depth :: "nat \<Rightarrow> shard_ident \<Rightarrow> shard_ident \<Rightarrow> bool" where
  "same_depth n s t \<longleftrightarrow> has_prefix_len s n \<and> has_prefix_len t n \<and> shard_workchain s = shard_workchain t"

lemma count_ones_prefix:
  assumes "n \<le> 60"
  shows "count_ones ((shard_prefix_ident s XOR shard_prefix_ident t) AND
      (if n = 0 then 0 else push_bit (64 - n) (NOT 0))) = hamming n s t"
proof -
  let ?D = "{j. j < n \<and> prefix_bit s j \<noteq> prefix_bit t j}"
  have "{i. bit ((shard_prefix_ident s XOR shard_prefix_ident t) AND top_mask n) i} = (\<lambda>j. 63 - j) ` ?D"
  proof (intro equalityI subsetI)
    fix i assume "i \<in> {i. bit ((shard_prefix_ident s XOR shard_prefix_ident t) AND top_mask n) i}"
    then have i: "64 - n \<le> i" "i < 64" "bit (shard_prefix_ident s) i \<noteq> bit (shard_prefix_ident t) i"
      using assms by (auto simp: bit_simps bit_top_mask)
    then have "63 - i \<in> ?D" "i = 63 - (63 - i)" using assms by (auto simp: prefix_bit_def)
    then show "i \<in> (\<lambda>j. 63 - j) ` ?D" by blast
  qed (use assms in \<open>auto simp: bit_simps bit_top_mask prefix_bit_def\<close>)
  moreover have "inj_on (\<lambda>j. 63 - j) ?D" using assms by (intro inj_onI) auto
  ultimately show ?thesis
    by (simp add: count_ones_card hamming_def card_image flip: top_mask_def)
qed

lemma are_neighbors_iff: "are_neighbors s t \<longleftrightarrow> (\<exists>n. same_depth n s t \<and> hamming n s t = 1)"
proof (cases "prefix_len s")
  case (Inl e)
  then have "\<not> has_prefix_len s n" for n using prefix_len_Inr [of s n] by simp
  then show ?thesis using Inl by (simp add: are_neighbors_def same_depth_def)
next
  case (Inr n)
  then have n: "has_prefix_len s n" by (simp add: prefix_len_Inr)
  then have "n \<le> 60" by (rule has_prefix_len_le)
  then have "are_neighbors s t \<longleftrightarrow> same_depth n s t \<and> hamming n s t = 1"
    using n unfolding are_neighbors_def Inr
    by (simp only: sum.case Let_def count_ones_prefix [of n s t])
      (auto simp: same_depth_def prefix_len_Inr)
  then show ?thesis using n prefix_len_unique by (auto simp: same_depth_def)
qed

lemma finite_diff [simp]: "finite {j. j < (n::nat) \<and> P j}"
  by simp

lemma hamming_triangle: "hamming n s u \<le> hamming n s t + hamming n t u"
proof -
  have "{j. j < n \<and> prefix_bit s j \<noteq> prefix_bit u j} \<subseteq>
      {j. j < n \<and> prefix_bit s j \<noteq> prefix_bit t j} \<union> {j. j < n \<and> prefix_bit t j \<noteq> prefix_bit u j}"
    by auto
  then have "hamming n s u \<le> card ({j. j < n \<and> prefix_bit s j \<noteq> prefix_bit t j} \<union>
      {j. j < n \<and> prefix_bit t j \<noteq> prefix_bit u j})"
    unfolding hamming_def by (intro card_mono) auto
  also have "\<dots> \<le> hamming n s t + hamming n t u"
    unfolding hamming_def by (rule card_Un_le)
  finally show ?thesis .
qed

lemma hamming_refl [simp]: "hamming n s s = 0"
  by (simp add: hamming_def)

lemma validate_hops_distance:
  "validate_hops hops s = Inr t \<Longrightarrow> has_prefix_len s n \<Longrightarrow>
     same_depth n s t \<and> hamming n s t \<le> length hops"
proof (induction hops arbitrary: s)
  case (Cons hop hops)
  then have nb: "are_neighbors s (hop_to hop)" and rest: "validate_hops hops (hop_to hop) = Inr t"
    by (auto split: if_splits)
  then obtain k where k: "same_depth k s (hop_to hop)" "hamming k s (hop_to hop) = 1"
    by (auto simp: are_neighbors_iff)
  then have [simp]: "k = n" using Cons.prems(2) prefix_len_unique by (auto simp: same_depth_def)
  have "same_depth n (hop_to hop) t \<and> hamming n (hop_to hop) t \<le> length hops"
    using Cons.IH [OF rest] k by (simp add: same_depth_def)
  then show ?case
    using k hamming_triangle [of n s t "hop_to hop"] by (auto simp: same_depth_def)
qed (simp add: same_depth_def)

section \<open>The planned route\<close>

text \<open>A shard of depth \<open>n\<close> whose prefix bits are those of \<open>bits\<close>.\<close>

definition at_bits :: "workchain_ident \<Rightarrow> nat \<Rightarrow> u64 \<Rightarrow> shard_ident \<Rightarrow> bool" where
  "at_bits wc n bits s \<longleftrightarrow> shard_workchain s = wc \<and> has_prefix_len s n \<and>
     (\<forall>j<n. prefix_bit s j = bit bits (63 - j))"

lemma from_prefix_bits_at:
  assumes "n \<le> 60"
  obtains s where "from_prefix_bits wc bits n = Inr s" "at_bits wc n bits s"
proof -
  obtain s where s: "from_prefix_bits wc bits n = Inr s"
    using assms by (auto simp: from_prefix_bits_def Let_def)
  then have "at_bits wc n bits s"
    using from_prefix_bits_props [OF s] by (auto simp: at_bits_def prefix_bit_def)
  then show thesis using s that by blast
qed

lemma low_bit_eq: "(drop_bit b x AND 1 \<noteq> drop_bit b (y :: u64) AND 1) \<longleftrightarrow> bit x b \<noteq> bit y b"
proof -
  have "drop_bit b z AND 1 = (if bit z b then 1 else 0)" for z :: u64
    by (simp add: and_one_eq mod_2_eq_odd bit_iff_odd_drop_bit)
  then show ?thesis by simp
qed

lemma flip_hop:
  assumes "n \<le> 60" "i < n" "at_bits wc n bits s" "at_bits wc n (bits XOR push_bit (63 - i) 1) t"
  shows "are_neighbors s t"
proof -
  have "prefix_bit t j = (if j = i then \<not> prefix_bit s j else prefix_bit s j)" if "j < n" for j
  proof -
    have "63 - j = 63 - i \<longleftrightarrow> j = i" using that assms(1,2) by auto
    then show ?thesis using that assms by (auto simp: at_bits_def bit_simps)
  qed
  then have "{j. j < n \<and> prefix_bit s j \<noteq> prefix_bit t j} = {i}"
    using assms(2) by (auto split: if_splits)
  then have "hamming n s t = 1" by (simp add: hamming_def)
  then show ?thesis using assms(3,4) by (auto simp: are_neighbors_iff same_depth_def at_bits_def)
qed

lemma route_loop_spec:
  assumes "n \<le> 60"
  shows "i \<le> n \<Longrightarrow> at_bits wc n cb s \<Longrightarrow>
    \<exists>t hops'. route_loop wc n target [i..<n] cb s hops = Inr (t, hops @ hops') \<and>
      validate_hops hops' s = Inr t \<and> shard_workchain t = wc \<and> has_prefix_len t n \<and>
      (\<forall>j<n. prefix_bit t j = bit (if j < i then cb else target) (63 - j)) \<and>
      length hops' = card {j. i \<le> j \<and> j < n \<and> bit cb (63 - j) \<noteq> bit target (63 - j)}"
proof (induction "n - i" arbitrary: i cb s hops)
  case 0
  then have "i = n" by simp
  then show ?case using 0 by (auto simp: at_bits_def)
next
  case (Suc m)
  then have i: "i < n" and upt: "[i..<n] = i # [Suc i..<n]" by (auto simp: upt_conv_Cons)
  have m: "m = n - Suc i" "Suc i \<le> n" using Suc.hyps(2) i by auto
  let ?D = "\<lambda>i cb. {j. i \<le> j \<and> j < n \<and> bit cb (63 - j) \<noteq> bit target (63 - j)}"
  show ?case
  proof (cases "bit cb (63 - i) = bit target (63 - i)")
    case True
    then have "?D i cb = ?D (Suc i) cb" by (auto simp: Suc_le_eq order_le_less)
    moreover obtain t hops' where "route_loop wc n target [Suc i..<n] cb s hops = Inr (t, hops @ hops')"
      "validate_hops hops' s = Inr t" "shard_workchain t = wc" "has_prefix_len t n"
      "\<forall>j<n. prefix_bit t j = bit (if j < Suc i then cb else target) (63 - j)"
      "length hops' = card (?D (Suc i) cb)"
      using Suc.hyps(1) [OF m Suc.prems(2)] by blast
    ultimately show ?thesis using True
      by (intro exI [of _ t] exI [of _ hops']) (auto simp: upt low_bit_eq Let_def less_Suc_eq)
  next
    case False
    let ?cb = "cb XOR push_bit (63 - i) 1"
    obtain s' where s': "from_prefix_bits wc ?cb n = Inr s'" "at_bits wc n ?cb s'"
      using from_prefix_bits_at [OF assms] by blast
    have nb: "are_neighbors s s'" using flip_hop [OF assms i Suc.prems(2) s'(2)] .
    have flip: "bit ?cb (63 - j) = (if j = i then \<not> bit cb (63 - j) else bit cb (63 - j))" if "j < n" for j
      using that i assms by (auto simp: bit_simps)
    have D: "?D i cb = insert i (?D (Suc i) ?cb)"
    proof (rule set_eqI)
      fix j
      show "j \<in> ?D i cb \<longleftrightarrow> j \<in> insert i (?D (Suc i) ?cb)"
        using False i flip [of j] by (cases "j = i"; cases "j < n") (auto simp: Suc_le_eq le_less)
    qed
    obtain t hops' where r: "route_loop wc n target [Suc i..<n] ?cb s'
          (hops @ [\<lparr>hop_from = s, hop_to = s'\<rparr>]) = Inr (t, (hops @ [\<lparr>hop_from = s, hop_to = s'\<rparr>]) @ hops')"
      "validate_hops hops' s' = Inr t" "shard_workchain t = wc" "has_prefix_len t n"
      "\<forall>j<n. prefix_bit t j = bit (if j < Suc i then ?cb else target) (63 - j)"
      "length hops' = card (?D (Suc i) ?cb)"
      using Suc.hyps(1) [OF m s'(2)] by blast
    have "route_loop wc n target [i..<n] cb s hops = Inr (t, hops @ \<lparr>hop_from = s, hop_to = s'\<rparr> # hops')"
      using r(1) s'(1) False by (simp add: upt low_bit_eq Let_def)
    moreover have "length (\<lparr>hop_from = s, hop_to = s'\<rparr> # hops') = card (?D i cb)"
      unfolding D using r(6) by simp
    moreover have "\<forall>j<n. prefix_bit t j = bit (if j < i then cb else target) (63 - j)"
      using r(5) flip False by (auto simp: less_Suc_eq)
    ultimately show ?thesis
      using r nb by (intro exI [of _ t] exI [of _ "\<lparr>hop_from = s, hop_to = s'\<rparr> # hops'"]) simp
  qed
qed

lemma at_bits_masked:
  assumes "has_prefix_len s n"
  shows "at_bits (shard_workchain s) n
    (shard_prefix_ident s AND top_mask n) s"
proof -
  have n: "n \<le> 60" using assms by (rule has_prefix_len_le)
  have "bit (shard_prefix_ident s AND top_mask n) (63 - j) = bit (shard_prefix_ident s) (63 - j)"
    if "j < n" for j
  proof -
    have "64 - n \<le> 63 - j" "63 - j < 64" using that n by linarith+
    then show ?thesis using n by (simp add: bit_and_iff bit_top_mask)
  qed
  then show ?thesis using assms by (simp add: at_bits_def prefix_bit_def)
qed

lemma route_loop_plan:
  assumes "same_depth n s d"
  obtains hops where
    "route_loop (shard_workchain s) n
       (shard_prefix_ident d AND top_mask n) [0..<n]
       (shard_prefix_ident s AND top_mask n) s [] = Inr (d, hops)"
    "validate_hops hops s = Inr d" "length hops = hamming n s d"
proof -
  let ?m = "top_mask n"
  have n: "n \<le> 60" using assms has_prefix_len_le by (auto simp: same_depth_def)
  have sb: "at_bits (shard_workchain s) n (shard_prefix_ident s AND ?m) s"
    and db: "at_bits (shard_workchain d) n (shard_prefix_ident d AND ?m) d"
    using assms at_bits_masked [of s n] at_bits_masked [of d n] by (simp_all only: same_depth_def)
  obtain t hops where t: "route_loop (shard_workchain s) n (shard_prefix_ident d AND ?m) [0..<n]
        (shard_prefix_ident s AND ?m) s [] = Inr (t, hops)" "validate_hops hops s = Inr t"
      "shard_workchain t = shard_workchain s" "has_prefix_len t n"
      "\<forall>j<n. prefix_bit t j = bit (shard_prefix_ident d AND ?m) (63 - j)"
      "length hops = card {j. j < n \<and> bit (shard_prefix_ident s AND ?m) (63 - j) \<noteq>
        bit (shard_prefix_ident d AND ?m) (63 - j)}"
    using route_loop_spec [OF n _ sb, of 0 "shard_prefix_ident d AND ?m" "[]"] by auto
  have "t = d"
    using assms t(3,4,5) db
    by (intro shard_ident_eqI [of _ _ n]) (auto simp: same_depth_def at_bits_def prefix_bit_def)
  moreover have "length hops = hamming n s d"
  proof -
    have "{j. j < n \<and> bit (shard_prefix_ident s AND ?m) (63 - j) \<noteq> bit (shard_prefix_ident d AND ?m) (63 - j)}
        = {j. j < n \<and> prefix_bit s j \<noteq> prefix_bit d j}"
      using sb db by (auto simp: at_bits_def)
    then show ?thesis using t(6) by (simp add: hamming_def)
  qed
  ultimately show thesis using t that by blast
qed

lemma plan_Inr:
  assumes "plan_hypercube_route m s d fee = Inr plan"
  obtains n where "same_depth n s d" "validate_hops (plan_hops plan) s = Inr d"
    "length (plan_hops plan) = hamming n s d"
    "checked_mul fee (word_of_nat (length (plan_hops plan))) = Some (transit_fee plan)"
    "checked_sub (amount_nanos m) (transit_fee plan) = Some (remaining_value plan)"
proof -
  obtain n where n: "same_depth n s d"
    using assms by (auto simp: plan_hypercube_route_def bindR_Inr prefix_len_Inr same_depth_def split: if_splits)
  then have pl: "prefix_len s = Inr n" "prefix_len d = Inr n" "shard_workchain s = shard_workchain d"
    by (auto simp: same_depth_def prefix_len_Inr)
  obtain hops where h: "route_loop (shard_workchain s) n
       (shard_prefix_ident d AND top_mask n) [0..<n]
       (shard_prefix_ident s AND top_mask n) s [] = Inr (d, hops)"
    "validate_hops hops s = Inr d" "length hops = hamming n s d"
    using route_loop_plan [OF n] by blast
  have "plan_hops plan = hops"
    "checked_mul fee (word_of_nat (length hops)) = Some (transit_fee plan)"
    "checked_sub (amount_nanos m) (transit_fee plan) = Some (remaining_value plan)"
    using assms h(1) pl
    by (auto simp: plan_hypercube_route_def bindR_Inr Let_def ok_or_Inr split: if_splits
        simp flip: top_mask_def)
  then show thesis using n h that by auto
qed

lemma hamming_le: "hamming n s d \<le> n"
proof -
  have "hamming n s d \<le> card {..<n}" unfolding hamming_def by (intro card_mono) auto
  then show ?thesis by simp
qed

section \<open>Properties\<close>

text \<open>
  C28. A planned route is valid, ends at the destination, and charges exactly its hops: the
  validator accepts it, its length is the number of prefix bits in which source and destination
  differ, the fee is that number times the fee per hop, and fee and remaining value add up to the
  amount of the message.
\<close>

theorem planned_route_correct:
  assumes "plan_hypercube_route m source destination fee_per_hop = Inr plan"
  shows "validate_hypercube_route (plan_hops plan) source destination = Inr () \<and>
    (\<exists>n. prefix_len source = Inr n \<and> length (plan_hops plan) = hamming n source destination) \<and>
    unat (transit_fee plan) = unat fee_per_hop * length (plan_hops plan) \<and>
    unat (transit_fee plan) + unat (remaining_value plan) = unat (amount_nanos m)"
proof -
  obtain n where n: "same_depth n source destination"
    and v: "validate_hops (plan_hops plan) source = Inr destination"
    and l: "length (plan_hops plan) = hamming n source destination"
    and f: "checked_mul fee_per_hop (word_of_nat (length (plan_hops plan))) = Some (transit_fee plan)"
    and r: "checked_sub (amount_nanos m) (transit_fee plan) = Some (remaining_value plan)"
    using plan_Inr [OF assms] by blast
  have "n \<le> 60" using n has_prefix_len_le by (auto simp: same_depth_def)
  then have "length (plan_hops plan) \<le> 60" using l hamming_le [of n source destination] by simp
  then have u: "unat (word_of_nat (length (plan_hops plan)) :: u128) = length (plan_hops plan)"
    by (simp add: unsigned_of_nat take_bit_eq_mod)
  have "unat (transit_fee plan) = unat fee_per_hop * length (plan_hops plan)"
    using f u unat_mult_no_overflow [of fee_per_hop "word_of_nat (length (plan_hops plan))"]
    by (auto simp: checked_mul_def split: if_splits)
  moreover have "unat (transit_fee plan) + unat (remaining_value plan) = unat (amount_nanos m)"
  proof -
    have "transit_fee plan \<le> amount_nanos m" "remaining_value plan = amount_nanos m - transit_fee plan"
      using r by (auto simp: checked_sub_def split: if_splits)
    then show ?thesis by (simp add: unat_sub word_le_nat_alt)
  qed
  ultimately show ?thesis
    using v l n by (auto simp: validate_hypercube_route_def same_depth_def prefix_len_Inr)
qed

text \<open>The two shards of depth one, and a message from the lower to the upper one.\<close>

definition shard_0 :: shard_ident where
  "shard_0 = \<lparr>shard_workchain = 0, shard_prefix_ident = push_bit 62 1\<rparr>"

definition shard_1 :: shard_ident where
  "shard_1 = \<lparr>shard_workchain = 0, shard_prefix_ident = push_bit 63 1 OR push_bit 62 1\<rparr>"

definition routed_message :: message where
  "routed_message = \<lparr>msg_type = Internal, src_address = FullAddress 0 0,
     dest_address = FullAddress 0 (push_bit 255 1), amount_nanos = 100, extra_currencies = [],
     created_lt = 1, body_cell_hash = 0\<rparr>"

lemma shard_01_facts:
  "has_prefix_len shard_0 1" "has_prefix_len shard_1 1" "same_depth 1 shard_0 shard_1"
  "hamming 1 shard_0 shard_1 = 1"
proof -
  show p: "has_prefix_len shard_0 1" "has_prefix_len shard_1 1"
    by (auto simp: has_prefix_len_def shard_0_def shard_1_def bit_or_iff bit_push_bit_iff bit_1_iff
        simp del: push_bit_of_1)
  then show "same_depth 1 shard_0 shard_1" by (simp add: same_depth_def shard_0_def shard_1_def)
  have "{j. j < 1 \<and> prefix_bit shard_0 j \<noteq> prefix_bit shard_1 j} = {0}"
    by (auto simp: prefix_bit_def shard_0_def shard_1_def bit_or_iff bit_push_bit_iff bit_1_iff
        simp del: push_bit_of_1)
  then show "hamming 1 shard_0 shard_1 = 1" by (simp add: hamming_def)
qed

lemma routed_message_planned:
  "\<exists>plan. plan_hypercube_route routed_message shard_0 shard_1 7 = Inr plan"
proof -
  have "in_shard_prefix shard_0 1 0" "in_shard_prefix shard_1 1 (push_bit 255 1)"
    by (simp_all add: in_shard_prefix_def shard_0_def shard_1_def bit_or_iff bit_push_bit_iff bit_1_iff
        del: push_bit_of_1)
  then have ep: "validate_source_shard routed_message shard_0 = Inr ()"
    "validate_dest_shard routed_message shard_1 = Inr ()"
    using contains_account_eq [OF shard_01_facts(1), of 0]
      contains_account_eq [OF shard_01_facts(2), of "push_bit 255 1"]
    by (simp_all add: validate_source_shard_def validate_dest_shard_def address_validate_against_shard_def
        validate_full_address_def validate_account_id_def routed_message_def shard_0_def shard_1_def
        del: push_bit_of_1)
  obtain hops where h: "route_loop (shard_workchain shard_0) 1 (shard_prefix_ident shard_1 AND top_mask 1) [0..<1]
       (shard_prefix_ident shard_0 AND top_mask 1) shard_0 [] = Inr (shard_1, hops)"
    "length hops = 1"
    using route_loop_plan [OF shard_01_facts(3)] shard_01_facts(4) by metis
  have pl: "prefix_len shard_0 = Inr 1" "prefix_len shard_1 = Inr 1"
    using shard_01_facts by (simp_all only: prefix_len_Inr)
  have "checked_mul (7 :: u128) 1 = Some 7" "checked_sub (100 :: u128) 7 = Some 93"
    by (simp_all add: checked_mul_def checked_sub_def word_le_nat_alt)
  then show ?thesis
    using ep h pl shard_01_facts(3)
    by (simp add: plan_hypercube_route_def same_depth_def routed_message_def Let_def ok_or_def
        del: One_nat_def upt_Suc flip: top_mask_def)
qed

theorem planned_route_correct_witness:
  "\<exists>plan. plan_hypercube_route routed_message shard_0 shard_1 7 = Inr plan \<and>
     unat (transit_fee plan) + unat (remaining_value plan) = 100 \<and>
     validate_hypercube_route (plan_hops plan) shard_0 shard_1 = Inr ()"
proof -
  obtain plan where p: "plan_hypercube_route routed_message shard_0 shard_1 7 = Inr plan"
    using routed_message_planned by blast
  show ?thesis using planned_route_correct [OF p] p by (auto simp: routed_message_def)
qed

text \<open>
  C29. No valid route is shorter than the planned one: every route the validator accepts between
  two shards has at least as many hops as prefix bits in which they differ.
\<close>

theorem planned_route_shortest:
  assumes "validate_hypercube_route hops source destination = Inr ()"
    and "prefix_len source = Inr n"
  shows "hamming n source destination \<le> length hops"
  using assms validate_hops_distance [of hops source destination n]
  by (auto simp: validate_hypercube_route_def bindR_Inr prefix_len_Inr split: if_splits)

theorem planned_route_shortest_witness:
  "validate_hypercube_route [\<lparr>hop_from = shard_0, hop_to = shard_1\<rparr>] shard_0 shard_1 = Inr () \<and>
   hamming 1 shard_0 shard_1 \<le> length [\<lparr>hop_from = shard_0, hop_to = shard_1\<rparr>]"
proof -
  have "are_neighbors shard_0 shard_1" using shard_01_facts by (auto simp: are_neighbors_iff)
  then have v: "validate_hypercube_route [\<lparr>hop_from = shard_0, hop_to = shard_1\<rparr>] shard_0 shard_1 = Inr ()"
    by (simp add: validate_hypercube_route_def)
  have n: "prefix_len shard_0 = Inr 1" using shard_01_facts by (simp only: prefix_len_Inr)
  show ?thesis using v planned_route_shortest [OF v n] by blast
qed

end
