(* ===== verification/Blocks.thy ===== *)
theory Blocks
  imports Block_Headers "HOL-Library.List_Lexorder"
begin

unbundle bit_operations_syntax

text \<open>
  \<open>crates/protocol/onx-blocks\<close>: the error type (\<open>error.rs\<close>), split and merge flags (\<open>flags.rs\<close>),
  structural validity of a block against its parents (\<open>validity.rs\<close>), and the shard configuration
  a masterchain block commits to (\<open>masterchain.rs\<close>).
\<close>

datatype blocks_error =
    DataStructure data_structure_error
  | UnresolvableParent
  | SequenceDiscontinuity u32 u32
  | NonMonotonicTime
  | RootMismatch
  | ConflictingSplitMergeFlags u16
  | ReservedFlagBitSet u16
  | InvalidSuccessorAfterCommit
  | UnsortedShardEntries
  | DuplicateShardEntry
  | InvalidMasterchainReference

section \<open>Flags\<close>

definition SPLIT_PREPARE :: u16 where "SPLIT_PREPARE = 0x0001"
definition SPLIT_COMMIT :: u16 where "SPLIT_COMMIT = 0x0002"
definition MERGE_PREPARE :: u16 where "MERGE_PREPARE = 0x0004"
definition MERGE_COMMIT :: u16 where "MERGE_COMMIT = 0x0008"
definition MERGE_RESULT :: u16 where "MERGE_RESULT = 0x0010"

definition ANNOUNCEMENT_MASK :: u16 where
  "ANNOUNCEMENT_MASK = SPLIT_PREPARE OR SPLIT_COMMIT OR MERGE_PREPARE OR MERGE_COMMIT"

definition RESERVED_MASK :: u16 where
  "RESERVED_MASK = NOT (ANNOUNCEMENT_MASK OR MERGE_RESULT)"

definition validate_flags :: "u16 \<Rightarrow> blocks_error + unit" where
  "validate_flags fl =
     (if fl AND RESERVED_MASK \<noteq> 0 then Inl (ReservedFlagBitSet fl)
      else if count_ones (fl AND ANNOUNCEMENT_MASK) > 1 then Inl (ConflictingSplitMergeFlags fl)
      else Inr ())"

definition is_split_commit :: "u16 \<Rightarrow> bool" where
  "is_split_commit fl \<longleftrightarrow> fl AND SPLIT_COMMIT \<noteq> 0"

definition is_merge_commit :: "u16 \<Rightarrow> bool" where
  "is_merge_commit fl \<longleftrightarrow> fl AND MERGE_COMMIT \<noteq> 0"

definition is_merge_result :: "u16 \<Rightarrow> bool" where
  "is_merge_result fl \<longleftrightarrow> fl AND MERGE_RESULT \<noteq> 0"

section \<open>Successors\<close>

record recomputed_roots =
  rc_state_root :: hash32
  rc_in_msg_root :: hash32
  rc_out_msg_root :: hash32

definition check_merge_parents ::
  "crypto \<Rightarrow> block_header \<Rightarrow> block_header \<Rightarrow> block_header option \<Rightarrow> blocks_error + unit" where
  "check_merge_parents cr h parent parent_2 =
     bindR (ok_or parent_2 UnresolvableParent) (\<lambda>p2.
       if prev_ref_hash h \<noteq> block_hash cr parent \<or> prev_ref_hash_2 h \<noteq> block_hash cr p2
       then Inl UnresolvableParent
       else
         let max_parent_seq = max (seq_no parent) (seq_no p2) in
         if unat (seq_no h) \<noteq> unat max_parent_seq + 1
         then Inl (SequenceDiscontinuity (max_parent_seq + 1) (seq_no h))
         else if gen_utime h < gen_utime parent \<or> gen_utime h < gen_utime p2 then Inl NonMonotonicTime
         else if start_lt h < end_lt parent \<or> start_lt h < end_lt p2 \<or> start_lt h > end_lt h
         then Inl NonMonotonicTime
         else Inr ())"

definition check_parent :: "crypto \<Rightarrow> block_header \<Rightarrow> block_header \<Rightarrow> blocks_error + unit" where
  "check_parent cr h parent =
     (if prev_ref_hash h \<noteq> block_hash cr parent then Inl UnresolvableParent
      else if unat (seq_no h) \<noteq> unat (seq_no parent) + 1
      then Inl (SequenceDiscontinuity (seq_no parent + 1) (seq_no h))
      else if gen_utime h < gen_utime parent then Inl NonMonotonicTime
      else if start_lt h < end_lt parent \<or> start_lt h > end_lt h then Inl NonMonotonicTime
      else Inr ())"

definition validate_block_successor ::
  "crypto \<Rightarrow> block_header \<Rightarrow> block_header \<Rightarrow> block_header option \<Rightarrow> recomputed_roots \<Rightarrow>
     blocks_error + unit" where
  "validate_block_successor cr h parent parent_2 rc =
     bindR (validate_flags (flags h)) (\<lambda>_.
     bindR (if is_merge_result (flags h) then check_merge_parents cr h parent parent_2
            else check_parent cr h parent) (\<lambda>_.
     if state_root_hash h \<noteq> rc_state_root rc \<or> in_msg_root_hash h \<noteq> rc_in_msg_root rc
        \<or> out_msg_root_hash h \<noteq> rc_out_msg_root rc
     then Inl RootMismatch
     else if is_split_commit (flags parent) \<or> is_merge_commit (flags parent)
     then Inl InvalidSuccessorAfterCommit
     else
       (case parent_2 of
          Some p2 \<Rightarrow>
            if is_split_commit (flags p2) \<or> is_merge_commit (flags p2)
            then Inl InvalidSuccessorAfterCommit else Inr ()
        | None \<Rightarrow> Inr ())))"

definition validate_ordinary_successor ::
  "crypto \<Rightarrow> block_header \<Rightarrow> block_header \<Rightarrow> recomputed_roots \<Rightarrow> blocks_error + unit" where
  "validate_ordinary_successor cr h parent rc = validate_block_successor cr h parent None rc"

section \<open>Shard configurations\<close>

record shard_entry =
  se_shard :: shard_ident
  se_block_hash :: hash32
  se_seq_no :: u32

lemma shard_entry_eta [simp]:
  "\<lparr>se_shard = se_shard e, se_block_hash = se_block_hash e, se_seq_no = se_seq_no e\<rparr> = e"
  by simp

definition shard_entry_to_bytes :: "shard_entry \<Rightarrow> bytes" where
  "shard_entry_to_bytes e = shard_to_bytes (se_shard e) @ encode (se_block_hash e) @ encode (se_seq_no e)"

definition shard_entry_from_bytes :: "bytes \<Rightarrow> blocks_error + shard_entry" where
  "shard_entry_from_bytes bs =
     (if length bs < 48 then Inl (DataStructure (TruncatedInput 48 (length bs)))
      else if length bs > 48 then Inl (DataStructure (TrailingInput (length bs - 48)))
      else
        bindR (map_err DataStructure (shard_from_bytes (subslice 0 12 bs))) (\<lambda>s.
        bindR (map_err (DataStructure \<circ> Primitive) (decode_exact (subslice 12 44 bs))) (\<lambda>h.
        bindR (map_err (DataStructure \<circ> Primitive) (decode_exact (subslice 44 48 bs))) (\<lambda>n.
        Inr \<lparr>se_shard = s, se_block_hash = h, se_seq_no = n\<rparr>))))"

record masterchain_block_extra =
  shard_entries :: "shard_entry list"

lemma extra_eta [simp]: "\<lparr>shard_entries = shard_entries x\<rparr> = x"
  by simp

definition extra_to_bytes :: "masterchain_block_extra \<Rightarrow> bytes" where
  "extra_to_bytes x =
     encode (word_of_nat (length (shard_entries x)) :: u32)
     @ concat (map shard_entry_to_bytes (shard_entries x))"

text \<open>Byte arrays are compared lexicographically.\<close>

fun check_shard_entries :: "shard_entry list \<Rightarrow> blocks_error + unit" where
  "check_shard_entries (x # y # es) =
     (let a = shard_to_bytes (se_shard x); b = shard_to_bytes (se_shard y) in
      if a = b then Inl DuplicateShardEntry
      else if a > b then Inl UnsortedShardEntries
      else check_shard_entries (y # es))"
| "check_shard_entries es = Inr ()"

definition extra_validate :: "masterchain_block_extra \<Rightarrow> blocks_error + unit" where
  "extra_validate x = check_shard_entries (shard_entries x)"

definition extra_from_bytes :: "bytes \<Rightarrow> blocks_error + masterchain_block_extra" where
  "extra_from_bytes bs =
     (if length bs < 4 then Inl (DataStructure (TruncatedInput 4 (length bs)))
      else
        bindR (map_err (DataStructure \<circ> Primitive) (decode_exact (subslice 0 4 bs))) (\<lambda>cw.
        let count = unat (cw :: u32) in
        bindR (ok_or (checked_mul_usize count 48)
                 (DataStructure (TruncatedInput usize_max (length bs)))) (\<lambda>entries_len.
        bindR (ok_or (checked_add_usize 4 entries_len)
                 (DataStructure (TruncatedInput usize_max (length bs)))) (\<lambda>expected.
        if length bs < expected then Inl (DataStructure (TruncatedInput expected (length bs)))
        else if length bs > expected then Inl (DataStructure (TrailingInput (length bs - expected)))
        else
          bindR (decode_entries shard_entry_from_bytes 48 count (drop 4 bs)) (\<lambda>es.
          let x = \<lparr>shard_entries = es\<rparr> in
          bindR (extra_validate x) (\<lambda>_. Inr x))))))"

definition is_canonical :: "masterchain_block_extra \<Rightarrow> shard_ident \<Rightarrow> hash32 \<Rightarrow> u32 \<Rightarrow> bool" where
  "is_canonical x s h n \<longleftrightarrow>
     list_ex (\<lambda>e. se_shard e = s \<and> se_block_hash e = h \<and> se_seq_no e = n) (shard_entries x)"

definition validate_master_ref :: "crypto \<Rightarrow> block_header \<Rightarrow> block_header option \<Rightarrow> blocks_error + unit" where
  "validate_master_ref cr h resolved =
     (if is_masterchain (shard_workchain (shard h)) then
        if master_ref_hash h \<noteq> 0 then Inl InvalidMasterchainReference else Inr ()
      else
        (case resolved of
           Some mb \<Rightarrow>
             if is_masterchain (shard_workchain (shard mb)) \<and> master_ref_hash h = block_hash cr mb
             then Inr () else Inl InvalidMasterchainReference
         | None \<Rightarrow> Inl InvalidMasterchainReference))"

section \<open>What an accepted successor satisfies\<close>

text \<open>The relation between a block and one parent.\<close>

definition follows :: "crypto \<Rightarrow> block_header \<Rightarrow> block_header \<Rightarrow> bool" where
  "follows cr h p \<longleftrightarrow> gen_utime p \<le> gen_utime h \<and> end_lt p \<le> start_lt h \<and> start_lt h \<le> end_lt h \<and>
     \<not> is_split_commit (flags p) \<and> \<not> is_merge_commit (flags p)"

definition flags_ok :: "u16 \<Rightarrow> bool" where
  "flags_ok fl \<longleftrightarrow> fl AND RESERVED_MASK = 0 \<and> count_ones (fl AND ANNOUNCEMENT_MASK) \<le> 1"

lemma validate_flags_Inr: "validate_flags fl = Inr () \<longleftrightarrow> flags_ok fl"
  by (auto simp: validate_flags_def flags_ok_def)

definition roots_match :: "block_header \<Rightarrow> recomputed_roots \<Rightarrow> bool" where
  "roots_match h rc \<longleftrightarrow> state_root_hash h = rc_state_root rc \<and> in_msg_root_hash h = rc_in_msg_root rc
     \<and> out_msg_root_hash h = rc_out_msg_root rc"

definition successor_spec ::
  "crypto \<Rightarrow> block_header \<Rightarrow> block_header \<Rightarrow> block_header option \<Rightarrow> recomputed_roots \<Rightarrow> bool" where
  "successor_spec cr h p parent_2 rc \<longleftrightarrow> flags_ok (flags h) \<and> roots_match h rc \<and>
     prev_ref_hash h = block_hash cr p \<and> follows cr h p \<and>
     (if is_merge_result (flags h) then
        (case parent_2 of
           None \<Rightarrow> False
         | Some p2 \<Rightarrow> prev_ref_hash_2 h = block_hash cr p2 \<and> follows cr h p2 \<and>
             unat (seq_no h) = max (unat (seq_no p)) (unat (seq_no p2)) + 1)
      else unat (seq_no h) = unat (seq_no p) + 1 \<and>
        (case parent_2 of
           None \<Rightarrow> True
         | Some p2 \<Rightarrow> \<not> is_split_commit (flags p2) \<and> \<not> is_merge_commit (flags p2)))"

lemma unat_max: "unat (max a (b :: 'a::len word)) = max (unat a) (unat b)"
  by (auto simp: max_def word_le_nat_alt)

lemma successor_Inr: "validate_block_successor cr h p parent_2 rc = Inr () \<longleftrightarrow> successor_spec cr h p parent_2 rc"
proof (cases "is_merge_result (flags h)")
  case True
  then show ?thesis
    by (cases parent_2)
      (auto simp: validate_block_successor_def check_merge_parents_def successor_spec_def bindR_Inr
        validate_flags_Inr follows_def roots_match_def unat_max Let_def not_less)
next
  case False
  then show ?thesis
    by (cases parent_2)
      (auto simp: validate_block_successor_def check_parent_def successor_spec_def bindR_Inr
        validate_flags_Inr follows_def roots_match_def not_less)
qed

section \<open>The configuration codec\<close>

lemma length_shard_entry [simp, codec_simps]: "length (shard_entry_to_bytes e) = 48"
  by (simp add: shard_entry_to_bytes_def)

abbreviation entry_ok :: "shard_entry \<Rightarrow> bool" where
  "entry_ok e \<equiv> shard_ok (se_shard e)"

lemma shard_entry_from_to: "entry_ok e \<Longrightarrow> shard_entry_from_bytes (shard_entry_to_bytes e) = Inr e"
  by (simp add: shard_entry_from_bytes_def shard_entry_to_bytes_def subslice_simps shard_from_to)

lemma shard_entry_sound:
  assumes "shard_entry_from_bytes bs = Inr e"
  shows "entry_ok e \<and> bs = shard_entry_to_bytes e"
proof -
  from assms have len: "length bs = 48"
    and s: "shard_from_bytes (subslice 0 12 bs) = Inr (se_shard e)"
    and h: "subslice 12 44 bs = encode (se_block_hash e)" and n: "subslice 44 48 bs = encode (se_seq_no e)"
    by (auto simp: shard_entry_from_bytes_def bindR_Inr decode_exact_iff split: if_splits)
  have sh: "shard_to_bytes (se_shard e) = subslice 0 12 bs" using shardc.dec_sound [OF s] by simp
  have "shard_entry_to_bytes e = subslice 0 48 bs"
    unfolding shard_entry_to_bytes_def sh h [symmetric] n [symmetric] by (simp add: subslice_join)
  then show ?thesis using shardc.dec_sound [OF s] by (simp add: subslice_all len)
qed

interpretation entryc: fixed_codec shard_entry_to_bytes shard_entry_from_bytes 48 entry_ok
  by unfold_locales (auto simp: shard_entry_from_to dest: shard_entry_sound)

abbreviation entry_keys :: "masterchain_block_extra \<Rightarrow> bytes list" where
  "entry_keys x \<equiv> map (\<lambda>e. shard_to_bytes (se_shard e)) (shard_entries x)"

lemma check_shard_entries_Inr:
  "check_shard_entries es = Inr () \<longleftrightarrow> sorted_wrt (<) (map (\<lambda>e. shard_to_bytes (se_shard e)) es)"
proof (induction es rule: check_shard_entries.induct)
  case (1 x y es)
  then show ?case by (auto simp: Let_def)
qed auto

definition extra_ok :: "masterchain_block_extra \<Rightarrow> bool" where
  "extra_ok x \<longleftrightarrow> length (shard_entries x) < 2 ^ 32 \<and> list_all entry_ok (shard_entries x) \<and>
     sorted_wrt (<) (entry_keys x)"

lemma extra_from_to:
  assumes "extra_ok x"
  shows "extra_from_bytes (extra_to_bytes x) = Inr x"
proof -
  let ?es = "shard_entries x"
  have n: "length ?es < 2 ^ 32" and ok: "list_all entry_ok ?es" and v: "extra_validate x = Inr ()"
    using assms by (simp_all add: extra_ok_def extra_validate_def check_shard_entries_Inr)
  have u: "unat (word_of_nat (length ?es) :: u32) = length ?es"
    using n by (simp add: unsigned_of_nat take_bit_eq_mod)
  have e: "decode_entries shard_entry_from_bytes 48 (length ?es) (concat (map shard_entry_to_bytes ?es)) = Inr ?es"
    using entryc.decode_entries_concat [OF ok, of "[]"] by simp
  show ?thesis
    using n e v entryc.length_concat_enc [of ?es]
    by (simp add: extra_from_bytes_def extra_to_bytes_def subslice_here u Let_def checked_mul_usize_def
        checked_add_usize_def)
qed

lemma extra_sound:
  assumes "extra_from_bytes bs = Inr x"
  shows "extra_ok x \<and> bs = extra_to_bytes x"
proof -
  from assms obtain cw where cw: "subslice 0 4 bs = encode (cw :: u32)"
    and len: "length bs = 4 + 48 * unat cw"
    and es: "decode_entries shard_entry_from_bytes 48 (unat cw) (drop 4 bs) = Inr (shard_entries x)"
    and v: "extra_validate x = Inr ()"
    by (auto simp: extra_from_bytes_def bindR_Inr Let_def ok_or_Inr decode_exact_iff
        checked_mul_usize_def checked_add_usize_def split: if_splits)
  have n: "length (shard_entries x) = unat cw" and ok: "list_all entry_ok (shard_entries x)"
    and b: "drop 4 bs = concat (map shard_entry_to_bytes (shard_entries x))"
    using entryc.decode_entries_sound [OF es] len by auto
  have "unat cw < 2 ^ 32" using unsigned_less [where ?'a = nat and w = cw] by simp
  then have "extra_ok x" using n ok v by (simp add: extra_ok_def extra_validate_def check_shard_entries_Inr)
  moreover have "bs = extra_to_bytes x"
    using cw append_take_drop_id [of 4 bs]
    by (simp add: extra_to_bytes_def n b [symmetric] subslice_def del: append_take_drop_id)
  ultimately show ?thesis by simp
qed

lemma distinct_entry_shards:
  "sorted_wrt (<) (entry_keys x) \<Longrightarrow> list_all entry_ok (shard_entries x) \<Longrightarrow> distinct (map se_shard (shard_entries x))"
proof -
  assume "sorted_wrt (<) (entry_keys x)"
  then have "distinct (entry_keys x)" by (simp add: strict_sorted_iff)
  then show ?thesis by (auto simp: distinct_map inj_on_def)
qed

section \<open>Properties\<close>

text \<open>
  Block validity is exact: a block is accepted as successor of its parents if and only if its
  flags are well-formed, its three roots are the recomputed ones, it names its parents by hash, its
  sequence number is one more than the greatest of theirs, its times do not precede theirs, and no
  parent has committed to a split or a merge.
\<close>

theorem block_successor_exact:
  "validate_block_successor cr h p parent_2 rc = Inr () \<longleftrightarrow> successor_spec cr h p parent_2 rc"
  by (rule successor_Inr)

text \<open>
  The codec of shard configurations is canonical: decoding succeeds exactly on the encodings of
  configurations with valid shards in strictly ascending byte order, fewer than \<open>2 ^ 32\<close> of them.
\<close>

theorem masterchain_extra_canonical:
  "extra_from_bytes bs = Inr x \<longleftrightarrow> bs = extra_to_bytes x \<and> extra_ok x"
  using extra_from_to extra_sound by blast

section \<open>Merge results of committed parents\<close>

text \<open>
  A block that merges two shards is rejected when its parents carry the flag with which the shards
  announced their last blocks.
\<close>

lemma merge_of_committed_rejected:
  "is_merge_result (flags h) \<Longrightarrow> is_merge_commit (flags p) \<Longrightarrow>
     validate_block_successor cr h p (Some p2) rc \<noteq> Inr ()"
  by (simp add: successor_Inr successor_spec_def follows_def)

end
