(* ===== verification/Sync.thy ===== *)
theory Sync
  imports Blocks Machines
begin

text \<open>
  \<open>crates/protocol/onx-blocks/src/sync.rs\<close>: the header synchronisation engine. Batches are staged and
  committed only when every candidate checks out. Along every sequence of requests the index keeps
  its chains closed: each held block is a trusted anchor or a valid successor of held blocks, so
  following parents from any held block reaches an anchor.
\<close>

record sync_candidate =
  cand_header :: block_header
  cand_roots :: recomputed_roots
  cand_extra :: "masterchain_block_extra option"
  canonicality_proof :: "hash32 option"

record stored_block =
  sb_header :: block_header
  sb_extra :: "masterchain_block_extra option"

record block_sync_engine =
  blocks :: "hash32 \<rightharpoonup> stored_block"

definition sync_new :: block_sync_engine where
  "sync_new = \<lparr>blocks = Map.empty\<rparr>"

datatype sync_error =
    BlockError blocks_error
  | DuplicateBlock hash32
  | MissingParent hash32
  | MissingMasterchainProof hash32
  | MissingMasterchainExtra
  | UnexpectedMasterchainExtra
  | MissingCanonicalityProof
  | UnexpectedCanonicalityProof
  | InvalidCanonicalityProof hash32

abbreviation on_masterchain :: "block_header \<Rightarrow> bool" where
  "on_masterchain h \<equiv> is_masterchain (shard_workchain (shard h))"

definition validate_role_fields :: "sync_candidate \<Rightarrow> sync_error + unit" where
  "validate_role_fields c =
     (if on_masterchain (cand_header c) then
        bindR (ok_or (cand_extra c) MissingMasterchainExtra) (\<lambda>x.
        bindR (map_err BlockError (extra_validate x)) (\<lambda>_.
        if canonicality_proof c \<noteq> None then Inl UnexpectedCanonicalityProof else Inr ()))
      else if cand_extra c \<noteq> None then Inl UnexpectedMasterchainExtra
      else if canonicality_proof c = None then Inl MissingCanonicalityProof
      else Inr ())"

text \<open>The staged map is returned; the proof of a shard block is present by the role check.\<close>

definition validate_candidate ::
  "crypto \<Rightarrow> sync_candidate \<Rightarrow> (hash32 \<rightharpoonup> stored_block) \<Rightarrow> sync_error + (hash32 \<rightharpoonup> stored_block)" where
  "validate_candidate cr c staged =
     bindR (validate_role_fields c) (\<lambda>_.
     let h = cand_header c; hash = block_hash cr h in
     if staged hash \<noteq> None then Inl (DuplicateBlock hash)
     else
       bindR (ok_or (staged (prev_ref_hash h)) (MissingParent (prev_ref_hash h))) (\<lambda>parent.
       bindR (if is_merge_result (flags h)
              then bindR (ok_or (staged (prev_ref_hash_2 h)) (MissingParent (prev_ref_hash_2 h)))
                     (\<lambda>p2. Inr (Some (sb_header p2)))
              else Inr None) (\<lambda>parent_2.
       bindR (map_err BlockError
                (validate_block_successor cr h (sb_header parent) parent_2 (cand_roots c))) (\<lambda>_.
       bindR (if on_masterchain h then map_err BlockError (validate_master_ref cr h None)
              else
                bindR (ok_or (staged (master_ref_hash h))
                         (MissingMasterchainProof (master_ref_hash h))) (\<lambda>master.
                bindR (map_err BlockError (validate_master_ref cr h (Some (sb_header master)))) (\<lambda>_.
                let proof_hash = the (canonicality_proof c) in
                bindR (ok_or (staged proof_hash) (MissingMasterchainProof proof_hash)) (\<lambda>prf.
                bindR (ok_or (sb_extra prf) MissingMasterchainExtra) (\<lambda>x.
                if \<not> is_canonical x (shard h) hash (seq_no h)
                then Inl (InvalidCanonicalityProof proof_hash) else Inr ()))))) (\<lambda>_.
       Inr (staged(hash \<mapsto> \<lparr>sb_header = h, sb_extra = cand_extra c\<rparr>)))))))"

definition trusted_candidate :: "block_header \<Rightarrow> masterchain_block_extra option \<Rightarrow> sync_candidate" where
  "trusted_candidate h x =
     \<lparr>cand_header = h,
      cand_roots = \<lparr>rc_state_root = state_root_hash h, rc_in_msg_root = in_msg_root_hash h,
                    rc_out_msg_root = out_msg_root_hash h\<rparr>,
      cand_extra = x,
      canonicality_proof = (if on_masterchain h then None else Some 0)\<rparr>"

definition insert_trusted ::
  "crypto \<Rightarrow> block_sync_engine \<Rightarrow> block_header \<Rightarrow> masterchain_block_extra option \<Rightarrow>
     block_sync_engine \<times> (sync_error + unit)" where
  "insert_trusted cr e h x =
     (case validate_role_fields (trusted_candidate h x) of
        Inl er \<Rightarrow> (e, Inl er)
      | Inr _ \<Rightarrow>
          let hash = block_hash cr h in
          if blocks e hash \<noteq> None then (e, Inl (DuplicateBlock hash))
          else (e\<lparr>blocks := (blocks e)(hash \<mapsto> \<lparr>sb_header = h, sb_extra = x\<rparr>)\<rparr>, Inr ()))"

fun stage_batch ::
  "crypto \<Rightarrow> sync_candidate list \<Rightarrow> (hash32 \<rightharpoonup> stored_block) \<Rightarrow> sync_error + (hash32 \<rightharpoonup> stored_block)" where
  "stage_batch cr [] staged = Inr staged"
| "stage_batch cr (c # cs) staged =
     bindR (validate_candidate cr c staged) (\<lambda>staged. stage_batch cr cs staged)"

definition import_batch ::
  "crypto \<Rightarrow> block_sync_engine \<Rightarrow> sync_candidate list \<Rightarrow> block_sync_engine \<times> (sync_error + unit)" where
  "import_batch cr e cs =
     (case stage_batch cr cs (blocks e) of
        Inl er \<Rightarrow> (e, Inl er)
      | Inr staged \<Rightarrow> (e\<lparr>blocks := staged\<rparr>, Inr ()))"

definition import_reverse_batch ::
  "crypto \<Rightarrow> block_sync_engine \<Rightarrow> sync_candidate list \<Rightarrow> block_sync_engine \<times> (sync_error + unit)" where
  "import_reverse_batch cr e cs = import_batch cr e (rev cs)"

definition sync_header :: "block_sync_engine \<Rightarrow> hash32 \<Rightarrow> block_header option" where
  "sync_header e h = map_option sb_header (blocks e h)"

section \<open>The invariant\<close>

text \<open>A held block is linked when its parents are held and accept it, and a shard block is
  committed by the configuration of a held block.\<close>

definition linked :: "crypto \<Rightarrow> (hash32 \<rightharpoonup> stored_block) \<Rightarrow> block_header \<Rightarrow> bool" where
  "linked cr bs h \<longleftrightarrow>
     (\<exists>p parent_2 rc. bs (prev_ref_hash h) = Some p \<and> successor_spec cr h (sb_header p) parent_2 rc \<and>
        (is_merge_result (flags h) \<longrightarrow>
           (\<exists>p2. bs (prev_ref_hash_2 h) = Some p2 \<and> parent_2 = Some (sb_header p2)))) \<and>
     (if on_masterchain h then master_ref_hash h = 0
      else (\<exists>m. bs (master_ref_hash h) = Some m \<and> on_masterchain (sb_header m)) \<and>
        (\<exists>ph b x. bs ph = Some b \<and> sb_extra b = Some x \<and>
           is_canonical x (shard h) (block_hash cr h) (seq_no h)))"

definition stored_ok :: "crypto \<Rightarrow> hash32 \<Rightarrow> stored_block \<Rightarrow> bool" where
  "stored_ok cr h b \<longleftrightarrow> block_hash cr (sb_header b) = h \<and>
     (if on_masterchain (sb_header b) then \<exists>x. sb_extra b = Some x \<and> sorted_wrt (<) (entry_keys x)
      else sb_extra b = None)"

definition sync_inv :: "crypto \<Rightarrow> hash32 set \<Rightarrow> (hash32 \<rightharpoonup> stored_block) \<Rightarrow> bool" where
  "sync_inv cr anchors bs \<longleftrightarrow>
     (\<forall>h b. bs h = Some b \<longrightarrow> stored_ok cr h b \<and> (h \<in> anchors \<or> linked cr bs (sb_header b)))"

lemma linked_mono: "linked cr bs h \<Longrightarrow> bs \<subseteq>\<^sub>m bs' \<Longrightarrow> linked cr bs' h"
proof -
  assume l: "linked cr bs h" and m: "bs \<subseteq>\<^sub>m bs'"
  have ext: "bs' k = Some b" if "bs k = Some b" for k b
    using m that by (metis domI map_le_def)
  show "linked cr bs' h"
    using l ext unfolding linked_def by (auto split: if_splits) blast+
qed

lemma sync_inv_insert:
  assumes "sync_inv cr anchors bs" "bs h = None" "stored_ok cr h b"
    and "h \<in> anchors' \<or> linked cr bs (sb_header b)" "anchors \<subseteq> anchors'"
  shows "sync_inv cr anchors' (bs(h \<mapsto> b))"
proof -
  have "bs \<subseteq>\<^sub>m bs(h \<mapsto> b)" using assms(2) by (auto simp: map_le_def)
  then show ?thesis
    using assms linked_mono unfolding sync_inv_def by (auto split: if_splits) blast+
qed

lemma validate_role_Inr:
  "validate_role_fields c = Inr () \<longleftrightarrow>
     (if on_masterchain (cand_header c)
      then (\<exists>x. cand_extra c = Some x \<and> sorted_wrt (<) (entry_keys x)) \<and> canonicality_proof c = None
      else cand_extra c = None \<and> canonicality_proof c \<noteq> None)"
  by (auto simp: validate_role_fields_def bindR_Inr ok_or_Inr extra_validate_def check_shard_entries_Inr)

lemma validate_candidate_Inr:
  assumes "validate_candidate cr c staged = Inr staged'"
  shows "staged (block_hash cr (cand_header c)) = None"
    "staged' = staged(block_hash cr (cand_header c) \<mapsto> \<lparr>sb_header = cand_header c, sb_extra = cand_extra c\<rparr>)"
    "stored_ok cr (block_hash cr (cand_header c)) \<lparr>sb_header = cand_header c, sb_extra = cand_extra c\<rparr>"
    "linked cr staged (cand_header c)"
proof -
  let ?h = "cand_header c"
  from assms have role: "validate_role_fields c = Inr ()"
    and fresh: "staged (block_hash cr ?h) = None"
    and st: "staged' = staged(block_hash cr ?h \<mapsto> \<lparr>sb_header = ?h, sb_extra = cand_extra c\<rparr>)"
    by (auto simp: validate_candidate_def bindR_Inr Let_def split: if_splits)
  show "staged (block_hash cr ?h) = None" by (rule fresh)
  show "staged' = staged(block_hash cr ?h \<mapsto> \<lparr>sb_header = ?h, sb_extra = cand_extra c\<rparr>)" by (rule st)
  show "stored_ok cr (block_hash cr ?h) \<lparr>sb_header = ?h, sb_extra = cand_extra c\<rparr>"
    using role by (auto simp: validate_role_Inr stored_ok_def split: if_splits)
  from assms obtain p parent_2 where p: "staged (prev_ref_hash ?h) = Some p"
    and succ: "successor_spec cr ?h (sb_header p) parent_2 (cand_roots c)"
    and p2: "is_merge_result (flags ?h) \<Longrightarrow>
      \<exists>q. staged (prev_ref_hash_2 ?h) = Some q \<and> parent_2 = Some (sb_header q)"
    by (auto simp: validate_candidate_def bindR_Inr Let_def ok_or_Inr successor_Inr split: if_splits)
  moreover from assms have "if on_masterchain ?h then master_ref_hash ?h = 0
      else (\<exists>m. staged (master_ref_hash ?h) = Some m \<and> on_masterchain (sb_header m)) \<and>
        (\<exists>ph b x. staged ph = Some b \<and> sb_extra b = Some x \<and>
           is_canonical x (shard ?h) (block_hash cr ?h) (seq_no ?h))"
    by (auto simp: validate_candidate_def bindR_Inr Let_def ok_or_Inr validate_master_ref_def
        split: if_splits)
  ultimately show "linked cr staged ?h" unfolding linked_def by blast
qed

lemma stage_batch_inv:
  "stage_batch cr cs staged = Inr staged' \<Longrightarrow> sync_inv cr anchors staged \<Longrightarrow> sync_inv cr anchors staged'"
proof (induction cs arbitrary: staged)
  case (Cons c cs)
  then obtain s1 where v: "validate_candidate cr c staged = Inr s1" and r: "stage_batch cr cs s1 = Inr staged'"
    by (auto simp: bindR_Inr)
  have "sync_inv cr anchors s1"
    unfolding validate_candidate_Inr(2) [OF v]
    using validate_candidate_Inr [OF v] Cons.prems(2) by (intro sync_inv_insert) auto
  then show ?case by (rule Cons.IH [OF r])
qed simp

section \<open>The engine as a component\<close>

datatype sync_request =
    InsertTrusted block_header "masterchain_block_extra option"
  | ImportBatch "sync_candidate list"
  | ImportReverseBatch "sync_candidate list"

fun sync_step ::
  "crypto \<Rightarrow> block_sync_engine \<Rightarrow> sync_request \<Rightarrow> block_sync_engine \<times> (sync_error + unit)" where
  "sync_step cr e (InsertTrusted h x) = insert_trusted cr e h x"
| "sync_step cr e (ImportBatch cs) = import_batch cr e cs"
| "sync_step cr e (ImportReverseBatch cs) = import_reverse_batch cr e cs"

definition anchored :: "crypto \<Rightarrow> hash32 set \<Rightarrow> sync_request \<Rightarrow> bool" where
  "anchored cr A q = (case q of InsertTrusted h x \<Rightarrow> block_hash cr h \<in> A | _ \<Rightarrow> True)"

lemma sync_step_inv:
  assumes "sync_inv cr A (blocks e)" "anchored cr A q"
  shows "sync_inv cr A (blocks (fst (sync_step cr e q)))"
proof (cases q)
  case (InsertTrusted h x)
  show ?thesis
  proof (cases "validate_role_fields (trusted_candidate h x) = Inr () \<and> blocks e (block_hash cr h) = None")
    case True
    then have "stored_ok cr (block_hash cr h) \<lparr>sb_header = h, sb_extra = x\<rparr>"
      by (auto simp: stored_ok_def validate_role_Inr trusted_candidate_def split: if_splits)
    then have "sync_inv cr A ((blocks e)(block_hash cr h \<mapsto> \<lparr>sb_header = h, sb_extra = x\<rparr>))"
      using assms True InsertTrusted by (intro sync_inv_insert [OF assms(1)]) (auto simp: anchored_def)
    then show ?thesis using True InsertTrusted by (simp add: insert_trusted_def)
  next
    case False
    then show ?thesis using assms InsertTrusted by (auto simp: insert_trusted_def Let_def split: sum.splits)
  qed
next
  case (ImportBatch cs)
  then show ?thesis using assms stage_batch_inv by (auto simp: import_batch_def split: sum.splits)
next
  case (ImportReverseBatch cs)
  then show ?thesis using assms stage_batch_inv
    by (auto simp: import_reverse_batch_def import_batch_def split: sum.splits)
qed

interpretation sync: component "sync_step cr" "\<lambda>e. sync_inv cr A (blocks e)" "anchored cr A" for cr A
  by unfold_locales (rule sync_step_inv)

section \<open>Every held block descends from an anchor\<close>

definition parent_of :: "(hash32 \<rightharpoonup> stored_block) \<Rightarrow> (hash32 \<times> hash32) set" where
  "parent_of bs = {(h, p). \<exists>b. bs h = Some b \<and> p = prev_ref_hash (sb_header b) \<and> bs p \<noteq> None}"

lemma descends_from_anchor:
  assumes "sync_inv cr A bs"
  shows "bs h = Some b \<Longrightarrow> \<exists>a\<in>A. (h, a) \<in> (parent_of bs)\<^sup>* \<and> bs a \<noteq> None"
proof (induction "unat (seq_no (sb_header b))" arbitrary: h b rule: less_induct)
  case less
  show ?case
  proof (cases "h \<in> A")
    case True
    then show ?thesis using less.prems by blast
  next
    case False
    then have "linked cr bs (sb_header b)" using assms less.prems by (auto simp: sync_inv_def)
    then obtain p parent_2 rc where p: "bs (prev_ref_hash (sb_header b)) = Some p"
      and s: "successor_spec cr (sb_header b) (sb_header p) parent_2 rc"
      by (auto simp: linked_def)
    have "unat (seq_no (sb_header p)) < unat (seq_no (sb_header b))"
      using s by (auto simp: successor_spec_def split: if_splits option.splits)
    then obtain a where a: "a \<in> A" "(prev_ref_hash (sb_header b), a) \<in> (parent_of bs)\<^sup>*" "bs a \<noteq> None"
      using less.hyps p by blast
    have "(h, prev_ref_hash (sb_header b)) \<in> parent_of bs"
      using less.prems p by (auto simp: parent_of_def)
    with a show ?thesis by (meson converse_rtrancl_into_rtrancl)
  qed
qed

lemma sync_inv_empty: "sync_inv cr A (blocks sync_new)"
  by (simp add: sync_inv_def sync_new_def)

text \<open>The blocks whose insertion as trusted was accepted in a run.\<close>

definition accepted :: "crypto \<Rightarrow> sync_request list \<Rightarrow> (sync_error + unit) list \<Rightarrow> hash32 set" where
  "accepted cr qs responses = {block_hash cr a | a. \<exists>x. (InsertTrusted a x, Inr ()) \<in> set (zip qs responses)}"

lemma sync_inv_mono: "sync_inv cr A bs \<Longrightarrow> A \<subseteq> B \<Longrightarrow> sync_inv cr B bs"
  unfolding sync_inv_def by blast

lemma refused_insertion: "snd (insert_trusted cr e h x) = Inl er \<Longrightarrow> fst (insert_trusted cr e h x) = e"
  by (auto simp: insert_trusted_def Let_def split: sum.splits if_splits)

lemma run_anchored:
  "sync_inv cr A (blocks e) \<Longrightarrow>
     sync_inv cr (A \<union> accepted cr qs (snd (run_ops (sync_step cr) e qs))) (blocks (fst (run_ops (sync_step cr) e qs)))"
proof (induction qs arbitrary: e A)
  case Nil
  then show ?case by (simp add: accepted_def)
next
  case (Cons q qs)
  obtain e' r where step: "sync_step cr e q = (e', r)" by fastforce
  let ?new = "accepted cr [q] [r]"
  have "sync_inv cr (A \<union> ?new) (blocks e')"
  proof (cases "anchored cr (A \<union> ?new) q")
    case True
    then show ?thesis using sync_step_inv [OF sync_inv_mono [OF Cons.prems]] step by (metis fst_conv sup_ge1)
  next
    case False
    then obtain h x where q: "q = InsertTrusted h x" "r \<noteq> Inr ()"
      by (cases q) (auto simp: anchored_def accepted_def)
    then obtain er where "r = Inl er" by (cases r) auto
    then have "e' = e" using refused_insertion [of cr e h x er] step q(1) by simp
    then show ?thesis using sync_inv_mono [OF Cons.prems] by simp
  qed
  from Cons.IH [OF this]
  have "sync_inv cr (A \<union> ?new \<union> accepted cr qs (snd (run_ops (sync_step cr) e' qs))) (blocks (fst (run_ops (sync_step cr) e' qs)))" .
  moreover have "accepted cr (q # qs) (r # rs) = ?new \<union> accepted cr qs rs" for rs
    by (auto simp: accepted_def)
  ultimately show ?case by (simp add: step case_prod_unfold Let_def Un_assoc)
qed

section \<open>Properties\<close>

text \<open>
  C25. Synchronisation keeps the index anchored: after any sequence of trusted insertions and of
  forward and reverse batches, following first parent references from any held block stays within held
  blocks and reaches one whose insertion as trusted was requested and accepted; and every held block that
  is not such a block has its parent among the held blocks, and both of its parents if it merges two
  shards.
\<close>

theorem held_blocks_descend_from_anchors:
  assumes "run_ops (sync_step cr) sync_new qs = (e, responses)" "blocks e h = Some b"
  shows "(\<exists>a x. (InsertTrusted a x, Inr ()) \<in> set (zip qs responses) \<and> (h, block_hash cr a) \<in> (parent_of (blocks e))\<^sup>*) \<and>
    ((\<exists>a x. (InsertTrusted a x, Inr ()) \<in> set (zip qs responses) \<and> h = block_hash cr a) \<or>
     blocks e (prev_ref_hash (sb_header b)) \<noteq> None \<and>
     (is_merge_result (flags (sb_header b)) \<longrightarrow> blocks e (prev_ref_hash_2 (sb_header b)) \<noteq> None))"
proof -
  have inv: "sync_inv cr (accepted cr qs responses) (blocks e)"
    using run_anchored [OF sync_inv_empty [of cr "{}"], of qs] assms(1) by simp
  then have "h \<in> accepted cr qs responses \<or> linked cr (blocks e) (sb_header b)"
    using assms(2) by (simp add: sync_inv_def)
  moreover have "\<exists>a \<in> accepted cr qs responses. (h, a) \<in> (parent_of (blocks e))\<^sup>*"
    using descends_from_anchor [OF inv assms(2)] by blast
  ultimately show ?thesis by (auto simp: accepted_def linked_def)
qed

definition genesis_header :: block_header where
  "genesis_header = \<lparr>magic_constructor = BLOCK_HEADER_MAGIC, shard = shard_root MASTERCHAIN, seq_no = 0,
     flags = 0, gen_utime = 0, start_lt = 0, end_lt = 0, prev_key_block = 0, prev_ref_hash = 0,
     prev_ref_hash_2 = 0, master_ref_hash = 0, state_root_hash = 0, in_msg_root_hash = 0,
     out_msg_root_hash = 0\<rparr>"

abbreviation genesis_request :: sync_request where
  "genesis_request \<equiv> InsertTrusted genesis_header (Some \<lparr>shard_entries = []\<rparr>)"

lemma genesis_held:
  "run_ops (sync_step cr) sync_new [genesis_request] =
     (\<lparr>blocks = [block_hash cr genesis_header \<mapsto> \<lparr>sb_header = genesis_header, sb_extra = Some \<lparr>shard_entries = []\<rparr>\<rparr>]\<rparr>, [Inr ()])"
proof -
  have "on_masterchain genesis_header"
    by (simp add: genesis_header_def shard_root_def is_masterchain_def MASTERCHAIN_def)
  then show ?thesis
    by (simp add: insert_trusted_def sync_new_def validate_role_fields_def trusted_candidate_def
        extra_validate_def)
qed

theorem held_blocks_descend_from_anchors_witness:
  "\<exists>e a x. run_ops (sync_step toy_crypto) sync_new [genesis_request] = (e, [Inr ()]) \<and>
    (InsertTrusted a x, Inr ()) \<in> set (zip [genesis_request] [Inr () :: sync_error + unit]) \<and>
    (block_hash toy_crypto genesis_header, block_hash toy_crypto a) \<in> (parent_of (blocks e))\<^sup>*"
  using held_blocks_descend_from_anchors [OF genesis_held [of toy_crypto], of "block_hash toy_crypto genesis_header"]
    genesis_held [of toy_crypto] by auto

text \<open>What a candidate is stored as.\<close>

definition stored :: "crypto \<Rightarrow> sync_candidate \<Rightarrow> hash32 \<times> stored_block" where
  "stored cr c = (block_hash cr (cand_header c), \<lparr>sb_header = cand_header c, sb_extra = cand_extra c\<rparr>)"

lemma stage_batch_stores:
  "stage_batch cr cs bs = Inr bs' \<Longrightarrow>
     bs' = bs ++ map_of (map (stored cr) cs) \<and> distinct (map (\<lambda>c. fst (stored cr c)) cs) \<and>
     (\<forall>c \<in> set cs. bs (fst (stored cr c)) = None)"
proof (induction cs arbitrary: bs)
  case (Cons c cs)
  then obtain s1 where v: "validate_candidate cr c bs = Inr s1" and r: "stage_batch cr cs s1 = Inr bs'"
    by (auto simp: bindR_Inr)
  have s1: "bs (fst (stored cr c)) = None" "s1 = bs(fst (stored cr c) \<mapsto> snd (stored cr c))"
    using validate_candidate_Inr(1,2) [OF v] by (simp_all add: stored_def)
  have rest: "bs' = s1 ++ map_of (map (stored cr) cs)" "distinct (map (\<lambda>c. fst (stored cr c)) cs)"
    "\<forall>c' \<in> set cs. s1 (fst (stored cr c')) = None"
    using Cons.IH [OF r] by simp_all
  have fresh: "\<forall>c' \<in> set cs. fst (stored cr c') \<noteq> fst (stored cr c) \<and> bs (fst (stored cr c')) = None"
    using rest(3) s1(2) by (auto split: if_splits)
  then have "fst (stored cr c) \<notin> fst ` set (map (stored cr) cs)" by (metis (no_types, lifting) imageE image_set)
  then have "fst (stored cr c) \<notin> dom (map_of (map (stored cr) cs))" by (simp add: dom_map_of_conv_image_fst)
  from map_add_upd_left [OF this, of bs "snd (stored cr c)"]
  have "bs' = (bs ++ map_of (map (stored cr) cs))(fst (stored cr c) \<mapsto> snd (stored cr c))"
    unfolding rest(1) s1(2) .
  moreover have "map_of (map (stored cr) (c # cs)) = (map_of (map (stored cr) cs))(fst (stored cr c) \<mapsto> snd (stored cr c))"
    by (metis list.simps(9) map_of_Cons_code(2) map_of.simps(2) prod.collapse)
  ultimately have "bs' = bs ++ map_of (map (stored cr) (c # cs))" by (simp only: map_add_upd)
  moreover have "distinct (map (\<lambda>c. fst (stored cr c)) (c # cs))" using rest(2) fresh by auto
  moreover have "\<forall>c' \<in> set (c # cs). bs (fst (stored cr c')) = None" using s1(1) fresh by simp
  ultimately show ?case by (intro conjI)
qed simp

text \<open>
  C26. A batch is atomic: an import that reports an error leaves the index exactly as it was. One
  that succeeds adds for every candidate its header and extra data under the hash of that header, and
  nothing else changes; no two candidates had the same hash, and none of them was held before.
\<close>

theorem import_batch_atomic:
  "case import_batch cr e cs of
     (e', Inl er) \<Rightarrow> e' = e
   | (e', Inr u) \<Rightarrow>
       blocks e' = blocks e ++
         map_of (map (\<lambda>c. (block_hash cr (cand_header c), \<lparr>sb_header = cand_header c, sb_extra = cand_extra c\<rparr>)) cs) \<and>
       distinct (map (\<lambda>c. block_hash cr (cand_header c)) cs) \<and>
       (\<lambda>c. block_hash cr (cand_header c)) ` set cs \<inter> dom (blocks e) = {}"
proof (cases "stage_batch cr cs (blocks e)")
  case (Inl er)
  then show ?thesis by (simp add: import_batch_def)
next
  case (Inr staged)
  have "(\<lambda>c. (block_hash cr (cand_header c), \<lparr>sb_header = cand_header c, sb_extra = cand_extra c\<rparr>)) = stored cr"
    by (simp add: stored_def fun_eq_iff)
  then show ?thesis
    using stage_batch_stores [OF Inr] by (auto simp: import_batch_def Inr stored_def)
qed

end
