(* ===== verification/Dictionary.thy ===== *)
theory Dictionary
  imports Cells Ordered_Maps Machines
begin

unbundle bit_operations_syntax

text \<open>
  \<open>crates/protocol/onx-execution/src/dictionary.rs\<close>: the binary Patricia dictionaries of the virtual
  machine and the cells that commit to them. An out-of-range index, which panics in Rust, is
  \<open>None\<close>; the invariant that all keys of a dictionary have its width excludes it. The dictionary
  fulfils the contract of a map.
\<close>

datatype dictionary_error = InvalidKeyLength | InvalidKey | CellError

datatype node =
    Leaf (leaf_suffix: "bool list") (leaf_cell: cell)
  | Branch (branch_prefix: "bool list") (branch_zero: node) (branch_one: node)

record dictionary =
  key_bits :: nat
  dict_root :: "node option"
  root_cell :: "cell option"

section \<open>Nodes\<close>

text \<open>\<open>a.iter().zip(b).take_while(|(x, y)| x == y).count()\<close>\<close>

definition common :: "bool list \<Rightarrow> bool list \<Rightarrow> nat" where
  "common a b = length (takeWhile (\<lambda>(x, y). x = y) (zip a b))"

definition starts_with :: "bool list \<Rightarrow> bool list \<Rightarrow> bool" where
  "starts_with bits p \<longleftrightarrow> take (length p) bits = p"

fun node_get :: "node \<Rightarrow> bool list \<Rightarrow> cell option" where
  "node_get (Leaf suffix v) bits = (if suffix = bits then Some v else None)"
| "node_get (Branch prefix zero one) bits =
     (if starts_with bits prefix \<and> length bits > length prefix
      then node_get (if bits ! length prefix then one else zero) (drop (length prefix + 1) bits)
      else None)"

text \<open>The node and the displaced value; \<open>None\<close> is an index out of range.\<close>

fun node_insert :: "node option \<Rightarrow> bool list \<Rightarrow> cell \<Rightarrow> (node \<times> cell option) option" where
  "node_insert None bits v = Some (Leaf bits v, None)"
| "node_insert (Some (Leaf suffix prior)) bits v =
     (let n = common suffix bits in
      if n = length suffix \<and> n = length bits then Some (Leaf suffix v, Some prior)
      else if n \<ge> length suffix \<or> n \<ge> length bits then None
      else
        let old_leaf = Leaf (drop (n + 1) suffix) prior;
            new_leaf = Leaf (drop (n + 1) bits) v
        in if suffix ! n then Some (Branch (take n suffix) new_leaf old_leaf, None)
           else Some (Branch (take n suffix) old_leaf new_leaf, None))"
| "node_insert (Some (Branch prefix zero one)) bits v =
     (let n = common prefix bits in
      if n < length prefix then
        if n \<ge> length bits then None
        else
          let old = Branch (drop (n + 1) prefix) zero one;
              new = Leaf (drop (n + 1) bits) v
          in if prefix ! n then Some (Branch (take n prefix) new old, None)
             else Some (Branch (take n prefix) old new, None)
      else
        let index = length prefix in
        if index \<ge> length bits then None
        else if bits ! index then
          (case node_insert (Some one) (drop (index + 1) bits) v of
             None \<Rightarrow> None
           | Some (child, old) \<Rightarrow> Some (Branch prefix zero child, old))
        else
          (case node_insert (Some zero) (drop (index + 1) bits) v of
             None \<Rightarrow> None
           | Some (child, old) \<Rightarrow> Some (Branch prefix child one, old)))"

fun node_prepend :: "bool list \<Rightarrow> bool \<Rightarrow> node \<Rightarrow> node" where
  "node_prepend prefix edge (Leaf suffix v) = Leaf (prefix @ [edge] @ suffix) v"
| "node_prepend prefix edge (Branch child_prefix zero one) =
     Branch (prefix @ [edge] @ child_prefix) zero one"

fun node_remove_some :: "node \<Rightarrow> bool list \<Rightarrow> node option \<times> cell option" where
  "node_remove_some (Leaf suffix v) bits =
     (if suffix = bits then (None, Some v) else (Some (Leaf suffix v), None))"
| "node_remove_some (Branch prefix zero one) bits =
     (if \<not> starts_with bits prefix \<or> length bits \<le> length prefix then (Some (Branch prefix zero one), None)
      else
        let i = length prefix in
        if bits ! i then
          (case node_remove_some one (drop (i + 1) bits) of
             (Some child, old) \<Rightarrow> (Some (Branch prefix zero child), old)
           | (None, old) \<Rightarrow> (Some (node_prepend prefix False zero), old))
        else
          (case node_remove_some zero (drop (i + 1) bits) of
             (Some child, old) \<Rightarrow> (Some (Branch prefix child one), old)
           | (None, old) \<Rightarrow> (Some (node_prepend prefix True one), old)))"

fun node_remove :: "node option \<Rightarrow> bool list \<Rightarrow> node option \<times> cell option" where
  "node_remove None bits = (None, None)"
| "node_remove (Some node) bits = node_remove_some node bits"

section \<open>Node cells\<close>

definition pack :: "bool list \<Rightarrow> bytes" where
  "pack bits =
     fold (\<lambda>(i, b) out. if b then out[i div 8 := out ! (i div 8) OR push_bit (7 - i mod 8) 1] else out)
       (enumerate 0 bits) (replicate (div_ceil (length bits) 8) 0)"

function label_tail :: "crypto \<Rightarrow> bool list \<Rightarrow> dictionary_error + cell" where
  "label_tail cr bits =
     (let first = min (length bits) 1000 in
      bindR (if first < length bits
             then bindR (label_tail cr (drop first bits)) (\<lambda>c. Inr [cell_hash cr c])
             else Inr []) (\<lambda>refs.
      map_err (\<lambda>_. CellError) (cell_new ([0xD2] @ pack (take first bits)) refs)))"
  by pat_completeness auto
termination
  by (relation "measure (\<lambda>(_, bits). length bits)") auto

declare label_tail.simps [simp del]

definition node_cell :: "crypto \<Rightarrow> u8 \<Rightarrow> bool list \<Rightarrow> hash32 list \<Rightarrow> dictionary_error + cell" where
  "node_cell cr tag bits refs =
     (let first = min (length bits) 1000;
          data = [tag] @ encode (word_of_nat (length bits) :: u16) @ pack (take first bits) in
      bindR (if first < length bits
             then bindR (label_tail cr (drop first bits)) (\<lambda>c. Inr (cell_hash cr c # refs))
             else Inr refs) (\<lambda>refs.
      map_err (\<lambda>_. CellError) (cell_new data refs)))"

fun node_serialize :: "crypto \<Rightarrow> node \<Rightarrow> dictionary_error + cell" where
  "node_serialize cr (Leaf suffix v) = node_cell cr 0xD0 suffix [cell_hash cr v]"
| "node_serialize cr (Branch prefix zero one) =
     bindR (node_serialize cr zero) (\<lambda>z.
     bindR (node_serialize cr one) (\<lambda>u.
     node_cell cr 0xD1 prefix [cell_hash cr z, cell_hash cr u]))"

section \<open>Dictionaries\<close>

definition dict_new :: "nat \<Rightarrow> dictionary_error + dictionary" where
  "dict_new w =
     (if \<not> (1 \<le> w \<and> w \<le> 1023) then Inl InvalidKeyLength
      else Inr \<lparr>key_bits = w, dict_root = None, root_cell = None\<rparr>)"

definition bits_of_key :: "bytes \<Rightarrow> nat \<Rightarrow> dictionary_error + bool list" where
  "bits_of_key key width =
     (if length key * 8 < width \<or> length key * 8 \<ge> width + 8 then Inl InvalidKey
      else Inr (map (\<lambda>i. (key ! (i div 8)) AND push_bit (7 - i mod 8) 1 \<noteq> 0) [0..<width]))"

definition dict_get :: "dictionary \<Rightarrow> bytes \<Rightarrow> dictionary_error + cell option" where
  "dict_get d key =
     bindR (bits_of_key key (key_bits d)) (\<lambda>bits.
       Inr (case dict_root d of None \<Rightarrow> None | Some n \<Rightarrow> node_get n bits))"

text \<open>The outer \<open>None\<close> is the panic of an index out of range.\<close>

definition dict_set ::
  "crypto \<Rightarrow> dictionary \<Rightarrow> bytes \<Rightarrow> cell \<Rightarrow> (dictionary \<times> (dictionary_error + cell option)) option" where
  "dict_set cr d key v =
     (case bits_of_key key (key_bits d) of
        Inl e \<Rightarrow> Some (d, Inl e)
      | Inr bits \<Rightarrow>
          (case node_insert (dict_root d) bits v of
             None \<Rightarrow> None
           | Some (n, old) \<Rightarrow>
               (case node_serialize cr n of
                  Inl e \<Rightarrow> Some (d\<lparr>dict_root := Some n\<rparr>, Inl e)
                | Inr c \<Rightarrow> Some (d\<lparr>dict_root := Some n, root_cell := Some c\<rparr>, Inr old))))"

definition dict_delete ::
  "crypto \<Rightarrow> dictionary \<Rightarrow> bytes \<Rightarrow> dictionary \<times> (dictionary_error + cell option)" where
  "dict_delete cr d key =
     (case bits_of_key key (key_bits d) of
        Inl e \<Rightarrow> (d, Inl e)
      | Inr bits \<Rightarrow>
          let (root, old) = node_remove (dict_root d) bits in
          (case root of
             None \<Rightarrow> (d\<lparr>dict_root := None, root_cell := None\<rparr>, Inr old)
           | Some n \<Rightarrow>
               (case node_serialize cr n of
                  Inl e \<Rightarrow> (d\<lparr>dict_root := Some n\<rparr>, Inl e)
                | Inr c \<Rightarrow> (d\<lparr>dict_root := Some n, root_cell := Some c\<rparr>, Inr old))))"

section \<open>Nodes of a fixed key width\<close>

fun node_ok :: "nat \<Rightarrow> node \<Rightarrow> bool" where
  "node_ok w (Leaf suffix v) \<longleftrightarrow> length suffix = w"
| "node_ok w (Branch prefix zero one) \<longleftrightarrow> length prefix < w \<and>
     node_ok (w - length prefix - 1) zero \<and> node_ok (w - length prefix - 1) one"

lemma common_le: "common a b \<le> length a" "common a b \<le> length b"
  using length_takeWhile_le [of "\<lambda>(x, y). x = y" "zip a b"] by (auto simp: common_def)

lemma common_simps [simp]:
  "common [] b = 0" "common a [] = 0"
  "common (x # a) (y # b) = (if x = y then Suc (common a b) else 0)"
  by (simp_all add: common_def)

lemma common_take: "take (common a b) a = take (common a b) b"
proof (induction a arbitrary: b)
  case (Cons x a)
  then show ?case by (cases b) auto
qed simp

lemma common_differ:
  "common a b < length a \<Longrightarrow> common a b < length b \<Longrightarrow> a ! common a b \<noteq> b ! common a b"
proof (induction a arbitrary: b)
  case (Cons x a)
  then show ?case by (cases b) (auto split: if_splits)
qed simp

lemma common_full: "common a b = length a \<longleftrightarrow> starts_with b a"
proof (induction a arbitrary: b)
  case (Cons x a)
  then show ?case by (cases b) (auto simp: starts_with_def)
qed (simp add: starts_with_def)

text \<open>
  Prepending a prefix and an edge bit to a node restricts its keys to those that start with them;
  every node arises this way from splitting its label.
\<close>

lemma split_label: "n < length s \<Longrightarrow> s = take n s @ [s ! n] @ drop (n + 1) s"
  using id_take_nth_drop [of n s] by simp

lemma key_split:
  "length p < length j \<Longrightarrow> p @ [e] @ s = j \<longleftrightarrow> starts_with j p \<and> j ! length p = e \<and> drop (length p + 1) j = s"
proof -
  assume "length p < length j"
  then have "j = take (length p) j @ [j ! length p] @ drop (length p + 1) j" by (rule split_label)
  then have "p @ [e] @ s = j \<longleftrightarrow>
      p @ [e] @ s = take (length p) j @ [j ! length p] @ drop (length p + 1) j" by metis
  also have "\<dots> \<longleftrightarrow> p = take (length p) j \<and> e = j ! length p \<and> s = drop (length p + 1) j"
    using \<open>length p < length j\<close> by (subst append_eq_append_conv) auto
  finally show ?thesis by (auto simp: starts_with_def)
qed

lemma starts_with_append:
  "length p < length j \<Longrightarrow>
     starts_with j (p @ [e] @ s) \<longleftrightarrow> starts_with j p \<and> j ! length p = e \<and> starts_with (drop (length p + 1) j) s"
proof -
  assume l: "length p < length j"
  let ?k = "length p + 1 + length s"
  have "starts_with j (p @ [e] @ s) \<longleftrightarrow> p @ [e] @ s = take ?k j" by (auto simp: starts_with_def)
  also have "\<dots> \<longleftrightarrow> starts_with (take ?k j) p \<and> take ?k j ! length p = e \<and> drop (length p + 1) (take ?k j) = s"
    using l by (intro key_split) simp
  also have "\<dots> \<longleftrightarrow> starts_with j p \<and> j ! length p = e \<and> starts_with (drop (length p + 1) j) s"
    by (simp add: starts_with_def drop_take min_def)
  finally show ?thesis .
qed

lemma get_prepend:
  assumes "node_ok w n" "length j = length p + 1 + w"
  shows "node_get (node_prepend p e n) j =
    (if starts_with j p \<and> j ! length p = e then node_get n (drop (length p + 1) j) else None)"
proof (cases n)
  case (Leaf s v)
  then show ?thesis using key_split [of p j e s] assms(2) by auto
next
  case (Branch q z u)
  have l: "length p < length j" using assms(2) by simp
  show ?thesis
    using starts_with_append [OF l, of e q] assms Branch
    by (auto simp: nth_append add.commute add.left_commute)
qed

lemma ok_prepend: "node_ok w n \<Longrightarrow> node_ok (length p + 1 + w) (node_prepend p e n)"
  by (cases n) auto

lemma leaf_as_prepend: "n < length s \<Longrightarrow> Leaf s v = node_prepend (take n s) (s ! n) (Leaf (drop (n + 1) s) v)"
  using split_label [of n s] by simp

lemma branch_as_prepend:
  "n < length q \<Longrightarrow> Branch q z u = node_prepend (take n q) (q ! n) (Branch (drop (n + 1) q) z u)"
  using split_label [of n q] by simp

text \<open>A branch splits the keys that start with its prefix by the bit that follows.\<close>

lemma get_branch:
  "length j = length p + 1 + w \<Longrightarrow> node_get (Branch p z u) j =
     (if starts_with j p then node_get (if j ! length p then u else z) (drop (length p + 1) j) else None)"
  by simp

section \<open>Insertion\<close>

text \<open>Splitting a node at a label position where a new key departs from it.\<close>

lemma split_insert:
  fixes v :: cell
  assumes n: "length p + 1 + w = length bits" and pre: "starts_with bits p"
    and b: "bits ! length p = e" and ok: "node_ok w m" and j: "length j = length bits"
  defines "new \<equiv> Leaf (drop (length p + 1) bits) v"
  shows "node_get (Branch p (if e then m else new) (if e then new else m)) j =
    (if j = bits then Some v else node_get (node_prepend p (\<not> e) m) j)"
    and "node_ok (length bits) (Branch p (if e then m else new) (if e then new else m))"
proof -
  have lb: "length p < length bits" and lj: "length j = length p + 1 + w" using n j by simp_all
  have bits: "p @ [e] @ drop (length p + 1) bits = bits"
    using key_split [OF lb, of e "drop (length p + 1) bits"] pre b by simp
  have "length p < length j" using lj by simp
  from key_split [OF this, of e "drop (length p + 1) bits"] have
    eq: "j = bits \<longleftrightarrow> starts_with j p \<and> j ! length p = e \<and> drop (length p + 1) j = drop (length p + 1) bits"
    by (simp only: bits) blast
  show "node_get (Branch p (if e then m else new) (if e then new else m)) j =
    (if j = bits then Some v else node_get (node_prepend p (\<not> e) m) j)"
    unfolding get_branch [OF lj] get_prepend [OF ok lj] eq by (auto simp: new_def)
  show "node_ok (length bits) (Branch p (if e then m else new) (if e then new else m))"
  proof -
    have "length bits - length p - 1 = w" using n by simp
    then show ?thesis using lb ok by (simp add: new_def)
  qed
qed

definition inserts :: "nat \<Rightarrow> node \<Rightarrow> bool list \<Rightarrow> cell \<Rightarrow> bool" where
  "inserts w n bits v \<longleftrightarrow>
     (\<exists>n'. node_insert (Some n) bits v = Some (n', node_get n bits) \<and> node_ok w n' \<and>
       (\<forall>j. length j = w \<longrightarrow> node_get n' j = (if j = bits then Some v else node_get n j)))"

text \<open>A label that leaves the key at some bit is split there.\<close>

lemma inserts_diverging:
  fixes s bits
  defines "n \<equiv> common s bits"
  defines "e \<equiv> bits ! n"
  assumes n: "n < length s" "n < length bits"
    and nd: "nd = node_prepend (take n s) (s ! n) old" and ok: "node_ok (length bits - n - 1) old"
    and ins: "node_insert (Some nd) bits v = Some (Branch (take n s) (if e then old else Leaf (drop (n + 1) bits) v)
      (if e then Leaf (drop (n + 1) bits) v else old), node_get nd bits)"
  shows "inserts (length bits) nd bits v"
proof -
  have p: "length (take n s) + 1 + (length bits - n - 1) = length bits" "starts_with bits (take n s)"
    "bits ! length (take n s) = e" "s ! n = (\<not> e)" "length (take n s) = n"
    using n common_take [of s bits] common_differ [of s bits] by (auto simp: starts_with_def n_def e_def)
  let ?new = "Leaf (drop (n + 1) bits) v"
  let ?N = "Branch (take n s) (if e then old else ?new) (if e then ?new else old)"
  have "node_ok (length bits) ?N" using split_insert(2) [OF p(1-3) ok refl, of v] by (simp only: p(5))
  moreover have "node_get ?N j = (if j = bits then Some v else node_get nd j)" if "length j = length bits" for j
    using split_insert(1) [OF p(1-3) ok that, of v] unfolding nd p(4) by (simp only: p(5))
  ultimately show ?thesis unfolding inserts_def using ins by blast
qed

lemma key_below:
  assumes "starts_with bits q" "length q < length bits" "length j = length bits"
  shows "j = bits \<longleftrightarrow> starts_with j q \<and> j ! length q = bits ! length q \<and> drop (length q + 1) j = drop (length q + 1) bits"
proof -
  have "q @ [bits ! length q] @ drop (length q + 1) bits = bits" using key_split [OF assms(2)] assms(1) by simp
  moreover have "length q < length j" using assms(2,3) by simp
  ultimately show ?thesis using key_split [of q j "bits ! length q" "drop (length q + 1) bits"] by simp blast
qed

text \<open>A label that starts the key leads to the child that takes the rest of it.\<close>

lemma inserts_below:
  fixes q bits z u
  defines "rest \<equiv> drop (length q + 1) bits" and "c \<equiv> if bits ! length q then u else z"
  assumes sw: "starts_with bits q" and len: "length q < length bits" and ok: "node_ok (length bits) (Branch q z u)"
    and child: "inserts (length bits - length q - 1) c rest v"
  shows "inserts (length bits) (Branch q z u) bits v"
proof -
  have lj: "length j = length q + 1 + (length bits - length q - 1)" if "length j = length bits" for j :: "bool list"
    using that len by simp
  note eq = key_below [OF sw len, folded rest_def]
  obtain n' where n': "node_insert (Some c) rest v = Some (n', node_get c rest)" "node_ok (length bits - length q - 1) n'"
    "\<forall>j. length j = length bits - length q - 1 \<longrightarrow> node_get n' j = (if j = rest then Some v else node_get c j)"
    using child unfolding inserts_def by blast
  let ?m = "if bits ! length q then Branch q z n' else Branch q n' u"
  have "node_insert (Some (Branch q z u)) bits v = Some (?m, node_get (Branch q z u) bits)"
    using n'(1) sw len common_full [of q bits] by (cases "bits ! length q") (simp_all add: Let_def rest_def c_def)
  moreover have "node_ok (length bits) ?m" using n'(2) ok by auto
  moreover have "node_get ?m j = (if j = bits then Some v else node_get (Branch q z u) j)" if "length j = length bits" for j
    using n'(3) eq [OF that] that lj [OF that] len by (cases "bits ! length q") (auto simp: c_def)
  ultimately show ?thesis unfolding inserts_def by blast
qed

lemma node_inserts: "node_ok (length bits) n \<Longrightarrow> inserts (length bits) n bits v"
proof (induction n arbitrary: bits)
  case (Leaf s prior)
  have ls: "length s = length bits" using Leaf by simp
  show ?case
  proof (cases "common s bits = length s")
    case True
    then have "s = bits" using common_full [of s bits] ls by (simp add: starts_with_def)
    then show ?thesis using True unfolding inserts_def by simp
  next
    case False
    then have n: "common s bits < length s" "common s bits < length bits"
      using common_le(1) [of s bits] Leaf by simp_all
    have "s \<noteq> bits" using False common_full [of s bits] by (auto simp: starts_with_def)
    then show ?thesis
      by (intro inserts_diverging [OF n leaf_as_prepend [OF n(1)]])
        (use Leaf n common_differ [OF n] in \<open>simp_all add: Let_def\<close>)
  qed
next
  case (Branch q z u)
  have lq: "length q < length bits" using Branch.prems by simp
  show ?case
  proof (cases "common q bits = length q")
    case True
    then have "starts_with bits q" using common_full by blast
    moreover have "inserts (length bits - length q - 1) (if bits ! length q then u else z) (drop (length q + 1) bits) v"
      using Branch.IH [of "drop (length q + 1) bits"] Branch.prems lq by simp
    ultimately show ?thesis using inserts_below lq Branch.prems by blast
  next
    case False
    then have n: "common q bits < length q" "common q bits < length bits" using common_le(1) [of q bits] lq by simp_all
    have "length bits - common q bits - 1 - length (drop (common q bits + 1) q) - 1 = length bits - length q - 1"
      using n lq by simp
    then have ok: "node_ok (length bits - common q bits - 1) (Branch (drop (common q bits + 1) q) z u)"
      using Branch.prems n lq by auto
    have "\<not> starts_with bits q" using False common_full [of q bits] by simp
    then show ?thesis
      by (intro inserts_diverging [OF n branch_as_prepend [OF n(1)] ok])
        (use n common_differ [OF n] in \<open>simp add: Let_def\<close>)
  qed
qed

lemma node_insert_spec:
  "node_ok w n \<Longrightarrow> length bits = w \<Longrightarrow>
     \<exists>n'. node_insert (Some n) bits v = Some (n', node_get n bits) \<and> node_ok w n' \<and>
       (\<forall>j. length j = w \<longrightarrow> node_get n' j = (if j = bits then Some v else node_get n j))"
  using node_inserts [of bits n v] by (simp add: inserts_def)

section \<open>Removal\<close>

definition root_ok :: "nat \<Rightarrow> node option \<Rightarrow> bool" where
  "root_ok w r = (case r of None \<Rightarrow> True | Some n \<Rightarrow> node_ok w n)"

definition root_get :: "node option \<Rightarrow> bool list \<Rightarrow> cell option" where
  "root_get r bits = (case r of None \<Rightarrow> None | Some n \<Rightarrow> node_get n bits)"

lemma root_simps [simp]:
  "root_ok w None" "root_ok w (Some n) = node_ok w n"
  "root_get None bits = None" "root_get (Some n) bits = node_get n bits"
  by (simp_all add: root_ok_def root_get_def)

definition removes :: "nat \<Rightarrow> node \<Rightarrow> bool list \<Rightarrow> bool" where
  "removes w n bits \<longleftrightarrow>
     (\<exists>r. node_remove_some n bits = (r, node_get n bits) \<and> root_ok w r \<and>
       (\<forall>j. length j = w \<longrightarrow> root_get r j = (if j = bits then None else node_get n j)))"

lemma removes_below:
  fixes q bits z u
  defines "rest \<equiv> drop (length q + 1) bits" and "c \<equiv> if bits ! length q then u else z"
  assumes sw: "starts_with bits q" and lq: "length q < length bits" and ok: "node_ok (length bits) (Branch q z u)"
    and child: "removes (length bits - length q - 1) c rest"
  shows "removes (length bits) (Branch q z u) bits"
proof -
  let ?e = "bits ! length q" and ?w = "length bits - length q - 1"
  have lj: "length j = length q + 1 + ?w" if "length j = length bits" for j :: "bool list" using that lq by simp
  note eq = key_below [OF sw lq, folded rest_def]
  obtain r where r: "node_remove_some c rest = (r, node_get c rest)" "root_ok ?w r"
    "\<forall>j. length j = ?w \<longrightarrow> root_get r j = (if j = rest then None else node_get c j)"
    using child unfolding removes_def by blast
  show ?thesis
  proof (cases r)
    case None
    have ok': "node_ok ?w (if ?e then z else u)" using ok by auto
    let ?N = "node_prepend q (\<not> ?e) (if ?e then z else u)"
    have "node_remove_some (Branch q z u) bits = (Some ?N, node_get (Branch q z u) bits)"
      using r(1) None sw lq by (cases ?e) (simp_all add: rest_def c_def)
    moreover have "node_ok (length bits) ?N"
      using ok_prepend [OF ok', of q "\<not> ?e"] unfolding lj [OF refl, symmetric] .
    moreover have "node_get ?N j = (if j = bits then None else node_get (Branch q z u) j)" if "length j = length bits" for j
      using r(3) [rule_format, of "drop (length q + 1) j"] None eq [OF that] lj [OF that]
      unfolding get_prepend [OF ok' lj [OF that]] by (cases ?e) (auto simp: c_def split: if_splits)
    ultimately show ?thesis by (auto simp: removes_def)
  next
    case (Some n')
    let ?N = "if ?e then Branch q z n' else Branch q n' u"
    have "node_remove_some (Branch q z u) bits = (Some ?N, node_get (Branch q z u) bits)"
      using r(1) Some sw lq by (cases ?e) (simp_all add: rest_def c_def)
    moreover have "node_ok (length bits) ?N" using r(2) Some ok by auto
    moreover have "node_get ?N j = (if j = bits then None else node_get (Branch q z u) j)" if "length j = length bits" for j
      using r(3) Some eq [OF that] lj [OF that] lq by (cases ?e) (auto simp: c_def)
    ultimately show ?thesis by (auto simp: removes_def)
  qed
qed

lemma node_removes: "node_ok (length bits) n \<Longrightarrow> removes (length bits) n bits"
proof (induction n arbitrary: bits)
  case (Leaf s v)
  then show ?case by (auto simp: removes_def)
next
  case (Branch q z u)
  have lq: "length q < length bits" using Branch.prems by simp
  show ?case
  proof (cases "starts_with bits q")
    case True
    moreover have "removes (length bits - length q - 1) (if bits ! length q then u else z) (drop (length q + 1) bits)"
      using Branch.IH [of "drop (length q + 1) bits"] Branch.prems lq by simp
    ultimately show ?thesis using removes_below lq Branch.prems by blast
  qed (use Branch.prems in \<open>auto simp: removes_def\<close>)
qed

lemma node_remove_spec:
  "node_ok w n \<Longrightarrow> length bits = w \<Longrightarrow>
     \<exists>r. node_remove_some n bits = (r, node_get n bits) \<and> root_ok w r \<and>
       (\<forall>j. length j = w \<longrightarrow> root_get r j = (if j = bits then None else node_get n j))"
  using node_removes [of bits n] by (simp add: removes_def)

section \<open>The contract of a map\<close>

definition root_set :: "node option \<Rightarrow> bool list \<Rightarrow> cell \<Rightarrow> node option" where
  "root_set r bits v = map_option fst (node_insert r bits v)"

definition root_del :: "node option \<Rightarrow> bool list \<Rightarrow> node option" where
  "root_del r bits = fst (node_remove r bits)"

lemma root_insert_spec:
  assumes "root_ok w r" "length bits = w"
  obtains n where "node_insert r bits v = Some (n, root_get r bits)" "node_ok w n"
    "\<And>j. length j = w \<Longrightarrow> node_get n j = (if j = bits then Some v else root_get r j)"
proof (cases r)
  case None
  then show thesis using that [of "Leaf bits v"] assms by auto
next
  case (Some m)
  then show thesis using node_insert_spec [of w m bits v] assms that by auto
qed

lemma root_remove_spec:
  assumes "root_ok w r" "length bits = w"
  obtains r' where "node_remove r bits = (r', root_get r bits)" "root_ok w r'"
    "\<And>j. length j = w \<Longrightarrow> root_get r' j = (if j = bits then None else root_get r j)"
proof (cases r)
  case None
  then show thesis using that [of None] by auto
next
  case (Some m)
  then show thesis using node_remove_spec [of w m bits] assms that by auto
qed

interpretation dict: map_ops "root_ok w" None root_get root_set root_del "\<lambda>bits. length bits = w" for w
proof (unfold_locales, goal_cases)
  case (3 r k v)
  then show ?case by (elim root_insert_spec [of w r k v]) (auto simp: root_set_def)
next
  case (4 r k j v)
  then show ?case by (elim root_insert_spec [of w r k v]) (auto simp: root_set_def)
next
  case (5 r k)
  then show ?case by (elim root_remove_spec [of w r k]) (auto simp: root_del_def)
next
  case (6 r k j)
  then show ?case by (elim root_remove_spec [of w r k]) (auto simp: root_del_def)
qed simp_all

section \<open>Node cells never overflow\<close>

lemma length_pack: "length (pack bits) = div_ceil (length bits) 8"
proof -
  have "length (fold (\<lambda>(i, b) out. if b then out[i div 8 := out ! (i div 8) OR push_bit (7 - i mod 8) 1] else out)
      xs out) = length (out :: bytes)" for xs out
    by (induction xs arbitrary: out) auto
  then show ?thesis by (simp add: pack_def)
qed

lemma label_tail_Inr:
  assumes "length bits \<le> 1000"
  shows "\<exists>c. label_tail cr bits = Inr c"
proof -
  have "div_ceil (length bits) 8 \<le> 125" using assms by (simp add: div_ceil_def)
  then show ?thesis
    using assms by (simp add: label_tail.simps [of cr bits] cell_new_Inr cell_ok_def length_pack min_def Let_def)
qed

lemma node_cell_Inr:
  assumes "length bits \<le> 1023" "length refs \<le> 3"
  shows "\<exists>c. node_cell cr tag bits refs = Inr c"
proof -
  obtain t where t: "label_tail cr (drop 1000 bits) = Inr t"
  proof -
    have "length (drop 1000 bits) \<le> 1000" using assms(1) by simp
    then show thesis using label_tail_Inr that by blast
  qed
  have "div_ceil (min (length bits) 1000) 8 \<le> 125" by (simp add: div_ceil_def)
  then show ?thesis
    using assms t by (auto simp: node_cell_def cell_new_Inr cell_ok_def length_pack min_def Let_def)
qed

lemma node_serialize_Inr: "node_ok w n \<Longrightarrow> w \<le> 1023 \<Longrightarrow> \<exists>c. node_serialize cr n = Inr c"
proof (induction n arbitrary: w)
  case (Leaf s v)
  then show ?case using node_cell_Inr by simp
next
  case (Branch q z u)
  obtain cz cu where "node_serialize cr z = Inr cz" "node_serialize cr u = Inr cu"
  proof -
    have "w - length q - 1 \<le> 1023" using Branch.prems(2) by linarith
    then show thesis
      using Branch.IH(1) [of "w - length q - 1"] Branch.IH(2) [of "w - length q - 1"] Branch.prems(1) that
      by auto
  qed
  then show ?case using node_cell_Inr [of q] Branch.prems by simp
qed

section \<open>Dictionaries\<close>

text \<open>What the constructors establish: keys of the dictionary's width, and the cell of the root.\<close>

definition dict_ok :: "crypto \<Rightarrow> dictionary \<Rightarrow> bool" where
  "dict_ok cr d \<longleftrightarrow> 1 \<le> key_bits d \<and> key_bits d \<le> 1023 \<and> root_ok (key_bits d) (dict_root d) \<and>
     (case dict_root d of None \<Rightarrow> root_cell d = None
      | Some n \<Rightarrow> (\<exists>c. node_serialize cr n = Inr c \<and> root_cell d = Some c))"

abbreviation dict_map :: "dictionary \<Rightarrow> bool list \<Rightarrow> cell option" where
  "dict_map d \<equiv> root_get (dict_root d)"

lemma bits_of_key_length: "bits_of_key key w = Inr bits \<Longrightarrow> length bits = w"
  by (auto simp: bits_of_key_def split: if_splits)

lemma dict_set_spec:
  assumes "dict_ok cr d" "bits_of_key key (key_bits d) = Inr bits"
  obtains d' where "dict_set cr d key v = Some (d', Inr (dict_map d bits))" "dict_ok cr d'"
    "key_bits d' = key_bits d"
    "\<And>j. length j = key_bits d \<Longrightarrow> dict_map d' j = (if j = bits then Some v else dict_map d j)"
proof -
  have ok: "root_ok (key_bits d) (dict_root d)" using assms(1) by (simp add: dict_ok_def)
  have len: "length bits = key_bits d" using bits_of_key_length [OF assms(2)] .
  obtain n where n: "node_insert (dict_root d) bits v = Some (n, dict_map d bits)" "node_ok (key_bits d) n"
    "\<And>j. length j = key_bits d \<Longrightarrow> node_get n j = (if j = bits then Some v else dict_map d j)"
    using root_insert_spec [OF ok len, of v] by blast
  obtain c where c: "node_serialize cr n = Inr c"
    using node_serialize_Inr [OF n(2)] assms(1) by (auto simp: dict_ok_def)
  show thesis
    using assms n c that [of "d\<lparr>dict_root := Some n, root_cell := Some c\<rparr>"]
    by (simp add: dict_set_def dict_ok_def)
qed

lemma dict_delete_spec:
  assumes "dict_ok cr d" "bits_of_key key (key_bits d) = Inr bits"
  obtains d' where "dict_delete cr d key = (d', Inr (dict_map d bits))" "dict_ok cr d'"
    "key_bits d' = key_bits d"
    "\<And>j. length j = key_bits d \<Longrightarrow> dict_map d' j = (if j = bits then None else dict_map d j)"
proof -
  have ok: "root_ok (key_bits d) (dict_root d)" using assms(1) by (simp add: dict_ok_def)
  have len: "length bits = key_bits d" using bits_of_key_length [OF assms(2)] .
  obtain r where r: "node_remove (dict_root d) bits = (r, dict_map d bits)" "root_ok (key_bits d) r"
    "\<And>j. length j = key_bits d \<Longrightarrow> root_get r j = (if j = bits then None else dict_map d j)"
    using root_remove_spec [OF ok len] by blast
  show thesis
  proof (cases r)
    case None
    then show ?thesis
      using assms r that [of "d\<lparr>dict_root := None, root_cell := None\<rparr>"]
      by (simp add: dict_delete_def dict_ok_def)
  next
    case (Some n)
    then obtain c where c: "node_serialize cr n = Inr c"
      using node_serialize_Inr [of "key_bits d" n cr] r(2) assms(1) by (auto simp: dict_ok_def)
    then show ?thesis
      using assms r Some that [of "d\<lparr>dict_root := Some n, root_cell := Some c\<rparr>"]
      by (simp add: dict_delete_def dict_ok_def)
  qed
qed

section \<open>Refinement of a finite map\<close>

text \<open>
  The requests of the virtual machine: set, delete and get; the response of a set is \<open>None\<close> if it
  panics. The specification answers the same requests on a map from key bits to cells.
\<close>

datatype dict_request = DictSet bytes cell | DictDel bytes | DictGet bytes

fun dict_step ::
  "crypto \<Rightarrow> dictionary \<Rightarrow> dict_request \<Rightarrow> dictionary \<times> (dictionary_error + cell option) option" where
  "dict_step cr d (DictSet key v) =
     (case dict_set cr d key v of None \<Rightarrow> (d, None) | Some (d', r) \<Rightarrow> (d', Some r))"
| "dict_step cr d (DictDel key) = (let (d', r) = dict_delete cr d key in (d', Some r))"
| "dict_step cr d (DictGet key) = (d, Some (dict_get d key))"

fun map_step ::
  "nat \<Rightarrow> (bool list \<rightharpoonup> cell) \<Rightarrow> dict_request \<Rightarrow>
     (bool list \<rightharpoonup> cell) \<times> (dictionary_error + cell option) option" where
  "map_step w m (DictSet key v) =
     (case bits_of_key key w of Inl e \<Rightarrow> (m, Some (Inl e)) | Inr bits \<Rightarrow> (m(bits \<mapsto> v), Some (Inr (m bits))))"
| "map_step w m (DictDel key) =
     (case bits_of_key key w of Inl e \<Rightarrow> (m, Some (Inl e)) | Inr bits \<Rightarrow> (m(bits := None), Some (Inr (m bits))))"
| "map_step w m (DictGet key) =
     (case bits_of_key key w of Inl e \<Rightarrow> (m, Some (Inl e)) | Inr bits \<Rightarrow> (m, Some (Inr (m bits))))"

lemma get_wrong_length: "node_ok w n \<Longrightarrow> length j \<noteq> w \<Longrightarrow> node_get n j = None"
  by (induction n arbitrary: w j) auto

lemma dict_map_wrong_length: "dict_ok cr d \<Longrightarrow> length j \<noteq> key_bits d \<Longrightarrow> dict_map d j = None"
  using get_wrong_length by (auto simp: dict_ok_def root_get_def root_ok_def split: option.splits)

lemma dict_map_update:
  assumes "dict_ok cr d" "dict_ok cr d'" "key_bits d' = key_bits d" "length bits = key_bits d"
    and "\<And>j. length j = key_bits d \<Longrightarrow> dict_map d' j = (if j = bits then x else dict_map d j)"
  shows "dict_map d' = (dict_map d)(bits := x)"
proof
  fix j
  show "dict_map d' j = ((dict_map d)(bits := x)) j"
    using assms dict_map_wrong_length [OF assms(1), of j] dict_map_wrong_length [OF assms(2), of j]
    by (cases "length j = key_bits d") auto
qed

lemma dict_step_refines:
  assumes "dict_ok cr d" "dict_step cr d q = (d', r)"
  shows "map_step (key_bits d) (dict_map d) q = (dict_map d', r) \<and> dict_ok cr d' \<and> key_bits d' = key_bits d"
proof (cases q)
  case (DictSet key v)
  show ?thesis
  proof (cases "bits_of_key key (key_bits d)")
    case (Inl e)
    then show ?thesis using assms DictSet by (auto simp: dict_set_def)
  next
    case (Inr bits)
    obtain e where e: "dict_set cr d key v = Some (e, Inr (dict_map d bits))" "dict_ok cr e"
      "key_bits e = key_bits d"
      "\<And>j. length j = key_bits d \<Longrightarrow> dict_map e j = (if j = bits then Some v else dict_map d j)"
      using dict_set_spec [OF assms(1) Inr, of v] by blast
    have "dict_map e = (dict_map d)(bits \<mapsto> v)"
      using dict_map_update [OF assms(1) e(2,3) bits_of_key_length [OF Inr] e(4)] by simp
    then show ?thesis using assms(2) DictSet Inr e by simp
  qed
next
  case (DictDel key)
  show ?thesis
  proof (cases "bits_of_key key (key_bits d)")
    case (Inl e)
    then show ?thesis using assms DictDel by (auto simp: dict_delete_def)
  next
    case (Inr bits)
    obtain e where e: "dict_delete cr d key = (e, Inr (dict_map d bits))" "dict_ok cr e"
      "key_bits e = key_bits d"
      "\<And>j. length j = key_bits d \<Longrightarrow> dict_map e j = (if j = bits then None else dict_map d j)"
      using dict_delete_spec [OF assms(1) Inr] by blast
    have "dict_map e = (dict_map d)(bits := None)"
      using dict_map_update [OF assms(1) e(2,3) bits_of_key_length [OF Inr] e(4)] by simp
    then show ?thesis using assms(2) DictDel Inr e by simp
  qed
next
  case (DictGet key)
  then show ?thesis
    using assms by (auto simp: dict_get_def root_get_def split: sum.splits)
qed

interpretation dictc: component "dict_step cr" "dict_ok cr" "\<lambda>_. True" for cr
  by unfold_locales (metis dict_step_refines prod.collapse)

lemma dict_run_refines:
  assumes "dict_ok cr d"
  shows "run_ops (map_step (key_bits d)) (dict_map d) qs =
    (dict_map (fst (run_ops (dict_step cr) d qs)), snd (run_ops (dict_step cr) d qs))"
  using assms
proof (induction qs arbitrary: d)
  case (Cons q qs)
  obtain d' r where s: "dict_step cr d q = (d', r)" by (cases "dict_step cr d q")
  have "map_step (key_bits d) (dict_map d) q = (dict_map d', r)" "dict_ok cr d'" "key_bits d' = key_bits d"
    using dict_step_refines [OF Cons.prems s] by simp_all
  then show ?case using Cons.IH [of d'] s by (simp add: case_prod_unfold Let_def)
qed simp

section \<open>Properties\<close>

text \<open>
  C21. A dictionary implements a finite map: along any sequence of set, delete and get requests to a
  new dictionary of a valid key width, every response, errors included, is that of the map from key
  bits to cells, so no request panics, and afterwards the dictionary holds that map and its root
  cell is the cell of its root node.
\<close>

theorem dictionary_implements_map:
  assumes "dict_new w = Inr d"
  shows "run_ops (map_step w) Map.empty qs =
      (dict_map (fst (run_ops (dict_step cr) d qs)), snd (run_ops (dict_step cr) d qs)) \<and>
    dict_ok cr (fst (run_ops (dict_step cr) d qs))"
proof -
  have d: "dict_ok cr d" "key_bits d = w" "dict_map d = Map.empty"
    using assms by (auto simp: dict_new_def dict_ok_def root_get_def split: if_splits)
  show ?thesis
    using dict_run_refines [OF d(1), of qs] dictc.run_inv [OF d(1), of qs]
    by (simp add: d(2,3) list_all_iff)
qed

definition sample_cell :: cell where
  "sample_cell = \<lparr>data_bytes = [1], cell_refs = [], is_special = False\<rparr>"

theorem dictionary_implements_map_witness:
  "run_ops (map_step 8) Map.empty [DictSet [5] sample_cell, DictGet [5], DictDel [5], DictGet [5], DictGet []] =
     (dict_map (fst (run_ops (dict_step toy_crypto) \<lparr>key_bits = 8, dict_root = None, root_cell = None\<rparr>
        [DictSet [5] sample_cell, DictGet [5], DictDel [5], DictGet [5], DictGet []])),
      snd (run_ops (dict_step toy_crypto) \<lparr>key_bits = 8, dict_root = None, root_cell = None\<rparr>
        [DictSet [5] sample_cell, DictGet [5], DictDel [5], DictGet [5], DictGet []]))"
  using dictionary_implements_map [of 8 "\<lparr>key_bits = 8, dict_root = None, root_cell = None\<rparr>"]
  by (simp add: dict_new_def del: run_ops.simps dict_step.simps map_step.simps)

end
