(* ===== verification/Vm_Types.thy ===== *)
theory Vm_Types
  imports Cells Messages
begin

unbundle bit_operations_syntax

text \<open>
  \<open>crates/protocol/onx-execution\<close>: the values of the virtual machine (\<open>types.rs\<close>) and its control
  registers (\<open>continuation.rs\<close>). A 32-byte big-endian array is a 256-bit word: bit \<open>7 - d % 8\<close> of
  byte \<open>d / 8\<close> of the array is bit \<open>255 - d\<close> of the word. An \<open>i128\<close> is a 128-bit word read by
  \<^const>\<open>sint\<close>.
\<close>

type_synonym i128 = "128 word"

datatype exception_kind = OutOfGas | IntegerOverflow | AbsentNode | MalformedCell | TypeMismatch

record execution_context =
  ctx_gen_utime :: u32
  ctx_start_lt :: u64
  ctx_end_lt :: u64
  ctx_gas_limit :: u64

section \<open>Slices\<close>

record cell_slice =
  slice_cell :: cell
  bit_offset :: nat
  ref_offset :: nat
  child_cells :: "cell list"

definition slice_new :: "cell \<Rightarrow> cell_slice" where
  "slice_new c = \<lparr>slice_cell = c, bit_offset = 0, ref_offset = 0, child_cells = []\<rparr>"

definition slice_new_with_children :: "cell \<Rightarrow> cell list \<Rightarrow> cell_slice" where
  "slice_new_with_children c cs = \<lparr>slice_cell = c, bit_offset = 0, ref_offset = 0, child_cells = cs\<rparr>"

definition remaining_bits :: "cell_slice \<Rightarrow> nat" where
  "remaining_bits sl = length (data_bytes (slice_cell sl)) * 8 - bit_offset sl"

definition remaining_refs :: "cell_slice \<Rightarrow> nat" where
  "remaining_refs sl = length (cell_refs (slice_cell sl)) - ref_offset sl"

text \<open>Bit \<open>i\<close> of a byte string, the most significant bit of the first byte first.\<close>

definition bit_at :: "bytes \<Rightarrow> nat \<Rightarrow> bool" where
  "bit_at bs i \<longleftrightarrow> drop_bit (7 - i mod 8) (bs ! (i div 8)) AND 1 = 1"

definition read_bits :: "cell_slice \<Rightarrow> nat \<Rightarrow> exception_kind + u256 \<times> cell_slice" where
  "read_bits sl width =
     (if remaining_bits sl < width \<or> width > 256 then Inl MalformedCell
      else
        let res = fold (\<lambda>i res.
              if bit_at (data_bytes (slice_cell sl)) (bit_offset sl + i)
              then res OR push_bit (255 - ((256 - width) + i)) 1 else res)
            [0..<width] 0
        in Inr (res, sl\<lparr>bit_offset := bit_offset sl + width\<rparr>))"

section \<open>Builders\<close>

record builder =
  b_data_bytes :: bytes
  current_bit_len :: nat
  b_references :: "cell list"

definition builder_default :: builder where
  "builder_default = \<lparr>b_data_bytes = [], current_bit_len = 0, b_references = []\<rparr>"

text \<open>One round of the loop: a byte is appended when the destination lies past the data.\<close>

definition put_bit :: "bytes \<Rightarrow> nat \<Rightarrow> bool \<Rightarrow> bytes" where
  "put_bit data dest b =
     (let data = (if dest div 8 \<ge> length data then data @ [0] else data)
      in if b then data[dest div 8 := data ! (dest div 8) OR push_bit (7 - dest mod 8) 1] else data)"

definition append_bits :: "builder \<Rightarrow> u256 \<Rightarrow> nat \<Rightarrow> exception_kind + builder" where
  "append_bits b val width =
     (if width > 256 then Inl MalformedCell
      else
        let target_total_bits = current_bit_len b + width in
        if target_total_bits > 128 * 8 then Inl MalformedCell
        else
          let data = fold (\<lambda>i data.
                put_bit data (current_bit_len b + i) (bit val (255 - ((256 - width) + i))))
              [0..<width] (b_data_bytes b)
          in Inr (b\<lparr>b_data_bytes := data, current_bit_len := target_total_bits\<rparr>))"

section \<open>Stack values\<close>

datatype stack_value =
    VInteger u256
  | VBytes bytes
  | VCell cell
  | VSlice cell_slice
  | VBuilder builder

definition from_i128 :: "i128 \<Rightarrow> stack_value" where
  "from_i128 v = VInteger ((if sint v < 0 then push_bit 128 (mask 128) else 0) OR ucast v)"

fun to_i128 :: "stack_value \<Rightarrow> exception_kind + i128" where
  "to_i128 (VInteger w) = Inr (ucast w)"
| "to_i128 _ = Inl TypeMismatch"

datatype execution_result =
    Success (new_data: cell) (result_messages: "message list") (success_gas: u64)
  | Exception (exception: exception_kind) (exception_gas: u64)

section \<open>Control registers\<close>

record continuation =
  cont_code :: cell
  cont_pc :: nat

record registers =
  c0 :: "continuation option"
  c1 :: "continuation option"
  c2 :: "continuation option"

definition registers_default :: registers where
  "registers_default = \<lparr>c0 = None, c1 = None, c2 = None\<rparr>"

definition set_c0 :: "registers \<Rightarrow> continuation \<Rightarrow> registers" where
  "set_c0 r k = r\<lparr>c0 := Some k\<rparr>"

definition set_c1 :: "registers \<Rightarrow> continuation \<Rightarrow> registers" where
  "set_c1 r k = r\<lparr>c1 := Some k\<rparr>"

definition set_c2 :: "registers \<Rightarrow> continuation \<Rightarrow> registers" where
  "set_c2 r k = r\<lparr>c2 := Some k\<rparr>"

definition take_c0 :: "registers \<Rightarrow> registers \<times> continuation option" where
  "take_c0 r = (r\<lparr>c0 := None\<rparr>, c0 r)"

definition take_c1 :: "registers \<Rightarrow> registers \<times> continuation option" where
  "take_c1 r = (r\<lparr>c1 := None\<rparr>, c1 r)"

definition take_return :: "registers \<Rightarrow> bool \<Rightarrow> registers \<times> continuation option" where
  "take_return r alternative = (if alternative then take_c1 r else take_c0 r)"

section \<open>Integers on the stack\<close>

lemma from_i128_scast: "from_i128 v = VInteger (scast v)"
proof -
  have "(if sint v < 0 then push_bit 128 (mask 128) else 0) OR ucast v = (scast v :: u256)"
  proof (rule bit_word_eqI)
    fix i assume i: "i < LENGTH(256)"
    have neg: "sint v < 0 \<longleftrightarrow> bit v 127"
      by (simp add: bit_last_iff [symmetric])
    consider "i < 127" | "i = 127" | "128 \<le> i" by linarith
    then show "bit ((if sint v < 0 then push_bit 128 (mask 128) else 0) OR ucast v :: u256) i = bit (scast v :: u256) i"
    proof cases
      case 3
      then have "\<not> bit v i" "i - 128 < 256" "i - 128 < 128" using i by (auto dest: bit_imp_le_length)
      then show ?thesis using i 3 by (simp add: bit_simps neg min_def)
    qed (auto simp: bit_simps neg min_def)
  qed
  then show ?thesis by (simp add: from_i128_def)
qed

lemma to_from_i128: "to_i128 (from_i128 v) = Inr v"
proof -
  have "ucast (scast v :: u256) = v"
  proof (rule bit_word_eqI)
    fix n assume "n < LENGTH(128)"
    then consider "n < 127" | "n = 127" by fastforce
    then show "bit (ucast (scast v :: u256) :: i128) n = bit v n" by cases (simp_all add: bit_simps min_def)
  qed
  then show ?thesis by (simp add: from_i128_scast)
qed

end
