(* ===== verification/Interpreter.thy ===== *)
theory Interpreter
  imports Vm_Types "HOL-Library.Signed_Division"
begin

unbundle bit_operations_syntax

text \<open>
  \<open>crates/protocol/onx-execution/src/interpreter.rs\<close> and \<open>lib.rs\<close>: the interpreter of the virtual
  machine. An instruction is a function from the interpreter's state to a result and the state it
  leaves, since the state is kept when an instruction fails; a result is a value, one of the
  exceptions of the instruction set, or a panic of the host. The stacks are lists with the top
  first. Where the code's plain arithmetic depends on overflow checks the profile is an argument.
\<close>

definition MAX_STACK_DEPTH :: nat where
  "MAX_STACK_DEPTH = 1023"

record interpreter =
  stack :: "stack_value list"
  call_stack :: "(cell \<times> nat) list"
  current_code :: cell
  pc_bits :: nat
  vm_data :: cell
  out_messages :: "message list"
  gas_limit :: u64
  gas_used :: u64
  vm_context :: execution_context
  code_refs :: "cell list"
  control_registers :: registers

definition interpreter_new :: "cell \<Rightarrow> cell \<Rightarrow> message \<Rightarrow> execution_context \<Rightarrow> interpreter" where
  "interpreter_new code data m ctx =
     \<lparr>stack = [], call_stack = [], current_code = code, pc_bits = 0, vm_data = data,
      out_messages = [], gas_limit = ctx_gas_limit ctx, gas_used = 0, vm_context = ctx,
      code_refs = [], control_registers = registers_default\<rparr>"

definition set_exception_handler :: "interpreter \<Rightarrow> continuation \<Rightarrow> interpreter" where
  "set_exception_handler s k = s\<lparr>control_registers := set_c2 (control_registers s) k\<rparr>"

definition set_alternative_return :: "interpreter \<Rightarrow> continuation \<Rightarrow> interpreter" where
  "set_alternative_return s k = s\<lparr>control_registers := set_c1 (control_registers s) k\<rparr>"

definition jump_to :: "continuation \<Rightarrow> interpreter \<Rightarrow> interpreter" where
  "jump_to k s = s\<lparr>current_code := cont_code k, pc_bits := cont_pc k\<rparr>"

definition return_to_control_register :: "bool \<Rightarrow> interpreter \<Rightarrow> bool \<times> interpreter" where
  "return_to_control_register alternative s =
     (let (r, k) = take_return (control_registers s) alternative;
          s = s\<lparr>control_registers := r\<rparr>
      in case k of Some k \<Rightarrow> (True, jump_to k s) | None \<Rightarrow> (False, s))"

section \<open>Results of instructions\<close>

datatype vm_error = Exn exception_kind | Panic

type_synonym 'a vm = "interpreter \<Rightarrow> (vm_error + 'a) \<times> interpreter"

definition ret :: "'a \<Rightarrow> 'a vm" where
  "ret x = (\<lambda>s. (Inr x, s))"

definition raise :: "exception_kind \<Rightarrow> 'a vm" where
  "raise k = (\<lambda>s. (Inl (Exn k), s))"

definition panic :: "'a vm" where
  "panic = (\<lambda>s. (Inl Panic, s))"

definition bnd :: "'a vm \<Rightarrow> ('a \<Rightarrow> 'b vm) \<Rightarrow> 'b vm" where
  "bnd m f = (\<lambda>s. case m s of (Inl e, s') \<Rightarrow> (Inl e, s') | (Inr x, s') \<Rightarrow> f x s')"

definition lift_r :: "exception_kind + 'a \<Rightarrow> 'a vm" where
  "lift_r r = (\<lambda>s. (map_err Exn r, s))"

definition reads :: "(interpreter \<Rightarrow> 'a) \<Rightarrow> 'a vm" where
  "reads f = (\<lambda>s. (Inr (f s), s))"

definition modifies :: "(interpreter \<Rightarrow> interpreter) \<Rightarrow> unit vm" where
  "modifies f = (\<lambda>s. (Inr (), f s))"

section \<open>Gas, stack and code access\<close>

definition consume_gas :: "u64 \<Rightarrow> unit vm" where
  "consume_gas amount = (\<lambda>s.
     let new_gas = saturating_add (gas_used s) amount in
     if new_gas > gas_limit s then (Inl (Exn OutOfGas), s\<lparr>gas_used := gas_limit s\<rparr>)
     else (Inr (), s\<lparr>gas_used := new_gas\<rparr>))"

text \<open>\<open>as u64\<close> of a gas amount computed from lengths, which fit; the clamp concerns only lists longer
  than any Rust vector.\<close>

definition gas_of :: "nat \<Rightarrow> u64" where
  "gas_of n = word_of_nat (min n (2 ^ 64 - 1))"

definition vm_pop :: "stack_value vm" where
  "vm_pop = (\<lambda>s. case stack s of [] \<Rightarrow> (Inl (Exn MalformedCell), s) | v # vs \<Rightarrow> (Inr v, s\<lparr>stack := vs\<rparr>))"

definition vm_push :: "stack_value \<Rightarrow> unit vm" where
  "vm_push v = (\<lambda>s. if length (stack s) \<ge> MAX_STACK_DEPTH then (Inl (Exn MalformedCell), s)
     else (Inr (), s\<lparr>stack := v # stack s\<rparr>))"

definition pop_integer :: "u256 vm" where
  "pop_integer = bnd vm_pop (\<lambda>v. case v of VInteger w \<Rightarrow> ret w | _ \<Rightarrow> raise TypeMismatch)"

definition pop_bytes :: "bytes vm" where
  "pop_bytes = bnd vm_pop (\<lambda>v. case v of VBytes b \<Rightarrow> ret b | _ \<Rightarrow> raise TypeMismatch)"

definition pop_cell :: "cell vm" where
  "pop_cell = bnd vm_pop (\<lambda>v. case v of VCell c \<Rightarrow> ret c | _ \<Rightarrow> raise TypeMismatch)"

definition pop_slice :: "cell_slice vm" where
  "pop_slice = bnd vm_pop (\<lambda>v. case v of VSlice c \<Rightarrow> ret c | _ \<Rightarrow> raise TypeMismatch)"

definition pop_builder :: "builder vm" where
  "pop_builder = bnd vm_pop (\<lambda>v. case v of VBuilder b \<Rightarrow> ret b | _ \<Rightarrow> raise TypeMismatch)"

text \<open>\<open>StackValue::Integer(self.pop_integer()?).to_i128()?\<close>\<close>

definition pop_i128 :: "i128 vm" where
  "pop_i128 = bnd pop_integer (\<lambda>w. lift_r (to_i128 (VInteger w)))"

definition code_bits :: "interpreter \<Rightarrow> nat" where
  "code_bits s = length (data_bytes (current_code s)) * 8"

definition read_uint8 :: "u8 vm" where
  "read_uint8 = (\<lambda>s.
     if pc_bits s + 8 > code_bits s then (Inl (Exn MalformedCell), s)
     else
       let byte_idx = pc_bits s div 8;
           bit_rem = pc_bits s mod 8;
           data = data_bytes (current_code s);
           val = (if bit_rem = 0 then data ! byte_idx
                  else push_bit bit_rem (data ! byte_idx)
                       OR drop_bit (8 - bit_rem)
                            (if byte_idx + 1 < length data then data ! (byte_idx + 1) else 0))
       in (Inr val, s\<lparr>pc_bits := pc_bits s + 8\<rparr>))"

definition read_uint16 :: "u16 vm" where
  "read_uint16 = bnd read_uint8 (\<lambda>high. bnd read_uint8 (\<lambda>low.
     ret (push_bit 8 (ucast high) OR ucast low)))"

fun read_bytes_exact :: "nat \<Rightarrow> bytes vm" where
  "read_bytes_exact 0 = ret []"
| "read_bytes_exact (Suc n) =
     bnd read_uint8 (\<lambda>b. bnd (read_bytes_exact n) (\<lambda>bs. ret (b # bs)))"

section \<open>Stack instructions\<close>

definition op_nop :: "bool vm" where
  "op_nop = bnd (consume_gas 1) (\<lambda>_. ret True)"

definition op_drop :: "bool vm" where
  "op_drop = bnd (consume_gas 1) (\<lambda>_. bnd vm_pop (\<lambda>_. ret True))"

definition op_dup :: "bool vm" where
  "op_dup = bnd (consume_gas 1) (\<lambda>_. bnd (reads stack) (\<lambda>st.
     case st of [] \<Rightarrow> raise MalformedCell | v # _ \<Rightarrow> bnd (vm_push v) (\<lambda>_. ret True)))"

definition op_swap :: "bool vm" where
  "op_swap = bnd (consume_gas 1) (\<lambda>_. bnd vm_pop (\<lambda>a. bnd vm_pop (\<lambda>b.
     bnd (vm_push a) (\<lambda>_. bnd (vm_push b) (\<lambda>_. ret True)))))"

definition op_over :: "bool vm" where
  "op_over = bnd (consume_gas 1) (\<lambda>_. bnd (reads stack) (\<lambda>st.
     if length st < 2 then raise MalformedCell else bnd (vm_push (st ! 1)) (\<lambda>_. ret True)))"

definition op_rot :: "bool vm" where
  "op_rot = bnd (consume_gas 1) (\<lambda>_. bnd vm_pop (\<lambda>c. bnd vm_pop (\<lambda>b. bnd vm_pop (\<lambda>a.
     bnd (vm_push b) (\<lambda>_. bnd (vm_push c) (\<lambda>_. bnd (vm_push a) (\<lambda>_. ret True)))))))"

definition op_pick :: "bool vm" where
  "op_pick = bnd (consume_gas 1) (\<lambda>_. bnd read_uint8 (\<lambda>d. bnd (reads stack) (\<lambda>st.
     if unat d \<ge> length st then raise MalformedCell
     else bnd (vm_push (st ! unat d)) (\<lambda>_. ret True))))"

definition op_roll :: "bool vm" where
  "op_roll = bnd (consume_gas 1) (\<lambda>_. bnd read_uint8 (\<lambda>d. bnd (reads stack) (\<lambda>st.
     if unat d \<ge> length st then raise MalformedCell
     else bnd (modifies (\<lambda>s. s\<lparr>stack := take (unat d) st @ drop (unat d + 1) st\<rparr>)) (\<lambda>_.
       bnd (vm_push (st ! unat d)) (\<lambda>_. ret True)))))"

definition op_pushint :: "bool vm" where
  "op_pushint = bnd (consume_gas 1) (\<lambda>_. bnd read_uint8 (\<lambda>sgnd. bnd (read_bytes_exact 32) (\<lambda>bs.
     bnd (vm_push (VInteger (from_be bs))) (\<lambda>_. ret True))))"

definition op_pushbytes :: "bool vm" where
  "op_pushbytes = bnd read_uint16 (\<lambda>len.
     bnd (consume_gas (gas_of (1 + div_ceil (unat len) 32))) (\<lambda>_.
     bnd (read_bytes_exact (unat len)) (\<lambda>bs. bnd (vm_push (VBytes bs)) (\<lambda>_. ret True))))"

definition op_nip :: "bool vm" where
  "op_nip = bnd (consume_gas 1) (\<lambda>_. bnd (reads stack) (\<lambda>st.
     if length st < 2 then raise MalformedCell
     else bnd vm_pop (\<lambda>t. bnd vm_pop (\<lambda>_. bnd (vm_push t) (\<lambda>_. ret True)))))"

definition op_tuck :: "bool vm" where
  "op_tuck = bnd (consume_gas 1) (\<lambda>_. bnd (reads stack) (\<lambda>st.
     if length st < 2 then raise MalformedCell
     else bnd vm_pop (\<lambda>b. bnd vm_pop (\<lambda>a.
       bnd (vm_push b) (\<lambda>_. bnd (vm_push a) (\<lambda>_. bnd (vm_push b) (\<lambda>_. ret True)))))))"

text \<open>The top \<open>left + right\<close> values, bottom first, are rotated left by \<open>left\<close>.\<close>

definition op_blkswap :: "bool vm" where
  "op_blkswap = bnd (consume_gas 1) (\<lambda>_. bnd read_uint8 (\<lambda>l. bnd read_uint8 (\<lambda>r. bnd (reads stack) (\<lambda>st.
     let left = unat l; right = unat r; count = left + right in
     if left = 0 \<or> right = 0 \<or> length st < count then raise MalformedCell
     else bnd (modifies (\<lambda>s. s\<lparr>stack := drop right (take count st) @ take right st @ drop count st\<rparr>))
       (\<lambda>_. ret True)))))"

section \<open>Arithmetic\<close>

definition in_i128 :: "int \<Rightarrow> bool" where
  "in_i128 x \<longleftrightarrow> - (2 ^ 127) \<le> x \<and> x < 2 ^ 127"

definition i128_of :: "int \<Rightarrow> i128 option" where
  "i128_of x = (if in_i128 x then Some (word_of_int x) else None)"

definition checked_shl :: "i128 \<Rightarrow> nat \<Rightarrow> i128 option" where
  "checked_shl a b = (if b < 128 then Some (push_bit b a) else None)"

definition push_checked :: "i128 option \<Rightarrow> bool vm" where
  "push_checked r = bnd (lift_r (ok_or r IntegerOverflow)) (\<lambda>v. bnd (vm_push (from_i128 v)) (\<lambda>_. ret True))"

text \<open>\<open>ADD\<close>, \<open>SUB\<close>, \<open>NEG\<close>, \<open>MUL\<close>, \<open>DIVMOD\<close>, \<open>CMP\<close>: \<open>a / b\<close> panics on the one quotient that overflows.\<close>

definition op_arith_body :: "u8 \<Rightarrow> bool vm" where
  "op_arith_body opcode =
     (if opcode = 0x10 then bnd pop_i128 (\<lambda>b. bnd pop_i128 (\<lambda>a. push_checked (i128_of (sint a + sint b))))
      else if opcode = 0x11 then bnd pop_i128 (\<lambda>b. bnd pop_i128 (\<lambda>a. push_checked (i128_of (sint a - sint b))))
      else if opcode = 0x12 then bnd pop_i128 (\<lambda>a. push_checked (i128_of (- sint a)))
      else if opcode = 0x13 then bnd pop_i128 (\<lambda>b. bnd pop_i128 (\<lambda>a. push_checked (i128_of (sint a * sint b))))
      else if opcode = 0x14 then bnd pop_i128 (\<lambda>b. bnd pop_i128 (\<lambda>a.
        if b = 0 then raise IntegerOverflow
        else if \<not> in_i128 (sint a sdiv sint b) then panic
        else bnd (vm_push (from_i128 (word_of_int (sint a sdiv sint b)))) (\<lambda>_.
          bnd (vm_push (from_i128 (word_of_int (sint a smod sint b)))) (\<lambda>_. ret True))))
      else bnd pop_i128 (\<lambda>b. bnd pop_i128 (\<lambda>a.
        bnd (vm_push (from_i128 (if sint a < sint b then - 1 else if sint b < sint a then 1 else 0)))
          (\<lambda>_. ret True))))"

definition op_arith :: "u8 \<Rightarrow> bool vm" where
  "op_arith opcode = bnd (consume_gas (if opcode = 0x13 \<or> opcode = 0x14 then 8 else 4)) (\<lambda>_.
     bnd read_uint16 (\<lambda>width. bnd read_uint8 (\<lambda>fl.
     if width = 0 \<or> width > 256 then raise MalformedCell else op_arith_body opcode)))"

definition op_iszero :: "bool vm" where
  "op_iszero = bnd (consume_gas 4) (\<lambda>_. bnd pop_integer (\<lambda>a.
     bnd (vm_push (from_i128 (if a = 0 then 1 else 0))) (\<lambda>_. ret True)))"

text \<open>\<open>DIV\<close>, \<open>SHL\<close>, \<open>SHR\<close>.\<close>

definition extended_result :: "u8 \<Rightarrow> u16 \<Rightarrow> i128 \<Rightarrow> i128 \<Rightarrow> exception_kind + i128" where
  "extended_result opcode width a b =
     (if opcode = 0x17 then
        if b = 0 then Inl IntegerOverflow else ok_or (i128_of (sint a sdiv sint b)) IntegerOverflow
      else if sint b < 0 \<or> sint b \<ge> int (unat width) then Inl IntegerOverflow
      else if opcode = 0x18 then ok_or (checked_shl a (unat b)) IntegerOverflow
      else Inr (signed_drop_bit (unat b) a))"

text \<open>
  The range check. \<open>1 << 127\<close> is the least \<open>i128\<close>, whose negation panics with overflow checks and
  is itself without.
\<close>

definition fit_result :: "profile \<Rightarrow> u16 \<Rightarrow> u8 \<Rightarrow> i128 \<Rightarrow> i128 vm" where
  "fit_result p width flavor r =
     bnd (lift_r (ok_or (checked_shl 1 (unat width - 1)) IntegerOverflow)) (\<lambda>limit.
     bnd (if flavor = 0 then
            if sint r < 0 then ret False
            else bnd (lift_r (ok_or (i128_of (sint limit * 2)) IntegerOverflow)) (\<lambda>m. ret (sint r < sint m))
          else if flavor = 1 then
            if in_i128 (- sint limit) then ret (sint r \<ge> - sint limit \<and> sint r < sint limit)
            else (case p of Dev \<Rightarrow> panic
                  | Release \<Rightarrow> ret (sint r \<ge> sint (- limit) \<and> sint r < sint limit))
          else ret True) (\<lambda>fits.
     if \<not> fits then raise IntegerOverflow
     else if flavor = 2 then
       bnd (lift_r (ok_or (i128_of (sint limit * 2)) IntegerOverflow)) (\<lambda>m.
         ret (word_of_int (sint r mod sint m)))
     else ret r))"

definition op_extended :: "profile \<Rightarrow> u8 \<Rightarrow> bool vm" where
  "op_extended p opcode = bnd (consume_gas (if opcode = 0x17 then 8 else 4)) (\<lambda>_.
     bnd read_uint16 (\<lambda>width. bnd read_uint8 (\<lambda>flavor.
     if width = 0 \<or> width > 128 \<or> flavor > 2 then raise MalformedCell
     else bnd pop_i128 (\<lambda>b. bnd pop_i128 (\<lambda>a.
       bnd (lift_r (extended_result opcode width a b)) (\<lambda>r.
       bnd (fit_result p width flavor r) (\<lambda>r.
       bnd (vm_push (from_i128 r)) (\<lambda>_. ret True))))))))"

definition op_conv :: "bool vm" where
  "op_conv = bnd (consume_gas 4) (\<lambda>_. bnd read_uint16 (\<lambda>wd. bnd read_uint8 (\<lambda>sgnd.
     bnd pop_integer (\<lambda>a. bnd (vm_push (VInteger a)) (\<lambda>_. ret True)))))"

section \<open>Byte strings\<close>

definition op_bytelen :: "bool vm" where
  "op_bytelen = bnd (consume_gas 1) (\<lambda>_. bnd pop_bytes (\<lambda>b.
     bnd (vm_push (from_i128 (word_of_nat (length b)))) (\<lambda>_. ret True)))"

definition op_concat :: "bool vm" where
  "op_concat = bnd pop_bytes (\<lambda>b. bnd pop_bytes (\<lambda>a.
     bnd (consume_gas (gas_of (4 + div_ceil (length a + length b) 32))) (\<lambda>_.
     bnd (vm_push (VBytes (a @ b))) (\<lambda>_. ret True))))"

text \<open>
  \<open>as usize\<close> keeps the low 64 bits. When \<open>offset + len\<close> overflows, the dev profile panics on the
  addition; the release profile wraps, and a wrapped end that passes the check panics on the slice.
\<close>

definition op_subbytes :: "profile \<Rightarrow> bool vm" where
  "op_subbytes p = bnd (consume_gas 4) (\<lambda>_. bnd pop_i128 (\<lambda>l. bnd pop_i128 (\<lambda>off. bnd pop_bytes (\<lambda>bs.
     let len = unat (ucast l :: u64); offset = unat (ucast off :: u64) in
     if offset + len \<ge> 2 ^ 64 then
       (if p = Release \<and> (offset + len) mod 2 ^ 64 > length bs then raise MalformedCell else panic)
     else if offset + len > length bs then raise MalformedCell
     else bnd (vm_push (VBytes (subslice offset (offset + len) bs))) (\<lambda>_. ret True)))))"

definition op_byteeq :: "bool vm" where
  "op_byteeq = bnd pop_bytes (\<lambda>b. bnd pop_bytes (\<lambda>a.
     bnd (consume_gas (gas_of (1 + div_ceil (min (length a) (length b)) 32))) (\<lambda>_.
     bnd (vm_push (from_i128 (if a = b then 1 else 0))) (\<lambda>_. ret True))))"

section \<open>Cells\<close>

definition op_newc :: "bool vm" where
  "op_newc = bnd (consume_gas 10) (\<lambda>_. bnd (vm_push (VBuilder builder_default)) (\<lambda>_. ret True))"

definition op_endc :: "crypto \<Rightarrow> bool vm" where
  "op_endc cr = bnd (consume_gas 10) (\<lambda>_. bnd pop_builder (\<lambda>b.
     bnd (lift_r (map_err (\<lambda>_. MalformedCell)
            (cell_new (b_data_bytes b) (map (cell_hash cr) (b_references b))))) (\<lambda>c.
     bnd (vm_push (VCell c)) (\<lambda>_. ret True))))"

definition op_stbits :: "bool vm" where
  "op_stbits = bnd (consume_gas 10) (\<lambda>_. bnd read_uint16 (\<lambda>width. bnd read_uint8 (\<lambda>sgnd.
     bnd pop_integer (\<lambda>v. bnd pop_builder (\<lambda>b.
     bnd (lift_r (append_bits b v (unat width))) (\<lambda>b. bnd (vm_push (VBuilder b)) (\<lambda>_. ret True)))))))"

definition op_stref :: "bool vm" where
  "op_stref = bnd (consume_gas 10) (\<lambda>_. bnd pop_cell (\<lambda>c. bnd pop_builder (\<lambda>b.
     if length (b_references b) \<ge> 4 then raise MalformedCell
     else bnd (vm_push (VBuilder (b\<lparr>b_references := b_references b @ [c]\<rparr>))) (\<lambda>_. ret True))))"

definition op_stbytes :: "bool vm" where
  "op_stbytes = bnd pop_bytes (\<lambda>bs.
     bnd (consume_gas (gas_of (10 + div_ceil (length bs) 32))) (\<lambda>_. bnd pop_builder (\<lambda>b.
     if length (b_data_bytes b) + length bs > 128 then raise MalformedCell
     else bnd (vm_push (VBuilder (b\<lparr>b_data_bytes := b_data_bytes b @ bs\<rparr>))) (\<lambda>_. ret True))))"

definition op_ctos :: "bool vm" where
  "op_ctos = bnd (consume_gas 10) (\<lambda>_. bnd pop_cell (\<lambda>c.
     if is_special c then raise AbsentNode
     else bnd (vm_push (VSlice (slice_new c))) (\<lambda>_. ret True)))"

text \<open>\<open>LDU\<close> and \<open>LDI\<close> have the same body.\<close>

definition op_ld :: "bool vm" where
  "op_ld = bnd (consume_gas 10) (\<lambda>_. bnd read_uint16 (\<lambda>width. bnd pop_slice (\<lambda>sl.
     bnd (lift_r (read_bits sl (unat width))) (\<lambda>(v, sl).
     bnd (vm_push (VSlice sl)) (\<lambda>_. bnd (vm_push (VInteger v)) (\<lambda>_. ret True))))))"

definition op_ldref :: "bool vm" where
  "op_ldref = bnd (consume_gas 10) (\<lambda>_. bnd pop_slice (\<lambda>sl.
     if remaining_refs sl = 0 then raise MalformedCell
     else
       let ref_cell = (if ref_offset sl < length (child_cells sl) then child_cells sl ! ref_offset sl
                       else \<lparr>data_bytes = [], cell_refs = [cell_refs (slice_cell sl) ! ref_offset sl],
                             is_special = False\<rparr>) in
       bnd (vm_push (VSlice (sl\<lparr>ref_offset := ref_offset sl + 1\<rparr>))) (\<lambda>_.
       bnd (vm_push (VCell ref_cell)) (\<lambda>_. ret True))))"

definition op_isexotic :: "bool vm" where
  "op_isexotic = bnd (consume_gas 10) (\<lambda>_. bnd pop_cell (\<lambda>c.
     bnd (vm_push (from_i128 (if is_special c then 1 else 0))) (\<lambda>_. ret True)))"

definition op_sempty :: "bool vm" where
  "op_sempty = bnd (consume_gas 1) (\<lambda>_. bnd pop_slice (\<lambda>sl.
     bnd (vm_push (from_i128 (if remaining_bits sl = 0 \<and> remaining_refs sl = 0 then 1 else 0)))
       (\<lambda>_. ret True)))"

definition op_sbits :: "bool vm" where
  "op_sbits = bnd (consume_gas 1) (\<lambda>_. bnd pop_slice (\<lambda>sl.
     bnd (vm_push (from_i128 (word_of_nat (remaining_bits sl)))) (\<lambda>_. ret True)))"

definition op_srefs :: "bool vm" where
  "op_srefs = bnd (consume_gas 1) (\<lambda>_. bnd pop_slice (\<lambda>sl.
     bnd (vm_push (from_i128 (word_of_nat (remaining_refs sl)))) (\<lambda>_. ret True)))"

section \<open>Cryptography\<close>

definition op_hashbytes :: "crypto \<Rightarrow> bool vm" where
  "op_hashbytes cr = bnd (consume_gas 200) (\<lambda>_. bnd pop_bytes (\<lambda>bs.
     bnd (vm_push (VInteger (domain_hash cr (tag_of ''ONX_EXEC_HASH_V1'') bs))) (\<lambda>_. ret True)))"

definition op_hashcell :: "crypto \<Rightarrow> bool vm" where
  "op_hashcell cr = bnd (consume_gas 200) (\<lambda>_. bnd pop_cell (\<lambda>c.
     bnd (vm_push (VInteger (cell_hash cr c))) (\<lambda>_. ret True)))"

definition op_chksignu :: "crypto \<Rightarrow> bool vm" where
  "op_chksignu cr = bnd (consume_gas 4000) (\<lambda>_. bnd pop_integer (\<lambda>h. bnd pop_bytes (\<lambda>sg. bnd pop_bytes (\<lambda>pk.
     if length pk \<noteq> 32 \<or> length sg \<noteq> 64 then raise TypeMismatch
     else
       let valid = (case (pk_decode_exact cr pk, sig_decode_exact sg) of
                      (Inr k, Inr s) \<Rightarrow> is_ok (verify cr k TX_BODY_V1 (encode h) s)
                    | _ \<Rightarrow> False)
       in bnd (vm_push (from_i128 (if valid then 1 else 0))) (\<lambda>_. ret True)))))"

section \<open>Control flow\<close>

definition branch_condition :: "u8 \<Rightarrow> bool vm" where
  "branch_condition opcode =
     (if opcode = 0x70 \<or> opcode = 0x71 then ret True
      else if opcode = 0x73 \<or> opcode = 0x75 then bnd pop_i128 (\<lambda>v. ret (v \<noteq> 0))
      else bnd pop_i128 (\<lambda>v. ret (v = 0)))"

definition push_call :: "interpreter \<Rightarrow> interpreter" where
  "push_call s = s\<lparr>call_stack := (current_code s, pc_bits s) # call_stack s,
     control_registers := set_c0 (control_registers s) \<lparr>cont_code = current_code s, cont_pc = pc_bits s\<rparr>\<rparr>"

definition op_branch :: "u8 \<Rightarrow> bool vm" where
  "op_branch opcode = bnd (consume_gas 4) (\<lambda>_. bnd read_uint8 (\<lambda>idx.
     bnd (branch_condition opcode) (\<lambda>cond.
     if cond then
       bnd (reads code_refs) (\<lambda>refs.
       if unat idx \<ge> length refs then raise MalformedCell
       else
         bnd (modifies (\<lambda>s. if opcode = 0x71 \<or> opcode = 0x75 \<or> opcode = 0x76 then push_call s else s)) (\<lambda>_.
         bnd (modifies (\<lambda>s. s\<lparr>current_code := refs ! unat idx, pc_bits := 0\<rparr>)) (\<lambda>_. ret True)))
     else ret True)))"

text \<open>The return shared by \<open>RET\<close> and \<open>IFRET\<close>.\<close>

definition vm_return :: "bool vm" where
  "vm_return = (\<lambda>s.
     let (returned, s) = return_to_control_register False s in
     if returned then
       let cs = tl (call_stack s);
           k = (case cs of [] \<Rightarrow> None | (code, pc) # _ \<Rightarrow> Some \<lparr>cont_code = code, cont_pc = pc\<rparr>)
       in (Inr True, s\<lparr>call_stack := cs, control_registers := (control_registers s)\<lparr>c0 := k\<rparr>\<rparr>)
     else (Inr False, s))"

definition op_ret :: "bool vm" where
  "op_ret = bnd (consume_gas 4) (\<lambda>_. vm_return)"

definition op_throw :: "bool vm" where
  "op_throw = bnd (consume_gas 4) (\<lambda>_. bnd read_uint8 (\<lambda>k.
     if k = 0 then raise IntegerOverflow
     else if k = 1 then raise AbsentNode
     else if k = 2 then raise MalformedCell
     else if k = 3 then raise TypeMismatch
     else raise MalformedCell))"

text \<open>A signed byte offset from the current position, rejected outside the code.\<close>

definition jump_relative :: "u8 \<Rightarrow> bool vm" where
  "jump_relative offset = (\<lambda>s.
     let pc = int (pc_bits s) + sint offset * 8 in
     if 0 \<le> pc \<and> pc \<le> int (code_bits s) then (Inr True, s\<lparr>pc_bits := nat pc\<rparr>)
     else (Inl (Exn MalformedCell), s))"

definition op_ifelse :: "bool vm" where
  "op_ifelse = bnd (consume_gas 4) (\<lambda>_. bnd read_uint8 (\<lambda>t. bnd read_uint8 (\<lambda>f.
     bnd pop_i128 (\<lambda>v. jump_relative (if v \<noteq> 0 then t else f)))))"

definition op_ifret :: "bool vm" where
  "op_ifret = bnd (consume_gas 4) (\<lambda>_. bnd pop_i128 (\<lambda>v. if v \<noteq> 0 then vm_return else ret True))"

definition op_repeat :: "bool vm" where
  "op_repeat = bnd (consume_gas 4) (\<lambda>_. bnd read_uint8 (\<lambda>count. bnd read_uint8 (\<lambda>offset.
     if count > 0 then jump_relative offset else ret True)))"

definition op_until :: "bool vm" where
  "op_until = bnd (consume_gas 4) (\<lambda>_. bnd read_uint8 (\<lambda>offset. bnd pop_i128 (\<lambda>v.
     if v = 0 then jump_relative offset else ret True)))"

section \<open>The step and the run\<close>

definition exec_op :: "crypto \<Rightarrow> profile \<Rightarrow> u8 \<Rightarrow> bool vm" where
  "exec_op cr p opcode =
     (if opcode = 0x00 then op_nop else if opcode = 0x01 then op_drop
      else if opcode = 0x02 then op_dup else if opcode = 0x03 then op_swap
      else if opcode = 0x04 then op_over else if opcode = 0x05 then op_rot
      else if opcode = 0x06 then op_pick else if opcode = 0x07 then op_roll
      else if opcode = 0x08 then op_pushint else if opcode = 0x09 then op_pushbytes
      else if opcode = 0x0A then op_nip else if opcode = 0x0B then op_tuck
      else if opcode = 0x0C then op_blkswap
      else if 0x10 \<le> opcode \<and> opcode \<le> 0x15 then op_arith opcode
      else if opcode = 0x16 then op_iszero
      else if 0x17 \<le> opcode \<and> opcode \<le> 0x19 then op_extended p opcode
      else if opcode = 0x20 then op_conv
      else if opcode = 0x30 then op_bytelen else if opcode = 0x31 then op_concat
      else if opcode = 0x32 then op_subbytes p else if opcode = 0x33 then op_byteeq
      else if opcode = 0x40 then op_newc else if opcode = 0x41 then op_endc cr
      else if opcode = 0x42 then op_stbits else if opcode = 0x43 then op_stref
      else if opcode = 0x44 then op_stbytes else if opcode = 0x45 then op_ctos
      else if opcode = 0x46 \<or> opcode = 0x47 then op_ld
      else if opcode = 0x48 then op_ldref else if opcode = 0x49 then op_isexotic
      else if opcode = 0x4A then op_sempty else if opcode = 0x4B then op_sbits
      else if opcode = 0x4C then op_srefs
      else if opcode = 0x60 then op_hashbytes cr else if opcode = 0x61 then op_hashcell cr
      else if opcode = 0x62 then op_chksignu cr
      else if opcode = 0x70 \<or> opcode = 0x71 \<or> opcode = 0x73 \<or> opcode = 0x74 \<or> opcode = 0x75 \<or> opcode = 0x76
      then op_branch opcode
      else if opcode = 0x72 then op_ret else if opcode = 0x77 then op_throw
      else if opcode = 0x78 then op_ifelse else if opcode = 0x79 then op_ifret
      else if opcode = 0x7A then op_repeat else if opcode = 0x7B then op_until
      else raise MalformedCell)"

definition vm_step :: "crypto \<Rightarrow> profile \<Rightarrow> bool vm" where
  "vm_step cr p = (\<lambda>s.
     if pc_bits s \<ge> code_bits s then
       (case call_stack s of
          (prev_code, prev_pc) # cs \<Rightarrow>
            (Inr True, s\<lparr>call_stack := cs, current_code := prev_code, pc_bits := prev_pc\<rparr>)
        | [] \<Rightarrow> (Inr False, s))
     else bnd read_uint8 (exec_op cr p) s)"

fun exception_code :: "exception_kind \<Rightarrow> i128" where
  "exception_code OutOfGas = 0"
| "exception_code IntegerOverflow = 1"
| "exception_code AbsentNode = 2"
| "exception_code MalformedCell = 3"
| "exception_code TypeMismatch = 4"

datatype run_outcome = Finished execution_result | Panicked

text \<open>The loop of \<open>run\<close> with fuel; \<open>None\<close> when the fuel is spent.\<close>

fun run :: "crypto \<Rightarrow> profile \<Rightarrow> nat \<Rightarrow> interpreter \<Rightarrow> run_outcome option" where
  "run cr p 0 s = None"
| "run cr p (Suc fuel) s =
     (case vm_step cr p s of
        (Inr True, s') \<Rightarrow> run cr p fuel s'
      | (Inr False, s') \<Rightarrow> Some (Finished (Success (vm_data s') (out_messages s') (gas_used s')))
      | (Inl Panic, s') \<Rightarrow> Some Panicked
      | (Inl (Exn kind), s') \<Rightarrow>
          (case c2 (control_registers s') of
             Some handler \<Rightarrow>
               (case vm_push (from_i128 (exception_code kind)) s' of
                  (Inr _, s'') \<Rightarrow> run cr p fuel (jump_to handler s'')
                | (Inl _, s'') \<Rightarrow> Some (Finished (Exception kind (gas_used s''))))
           | None \<Rightarrow> Some (Finished (Exception kind (gas_used s')))))"

definition execute ::
  "crypto \<Rightarrow> profile \<Rightarrow> nat \<Rightarrow> cell \<Rightarrow> cell \<Rightarrow> message \<Rightarrow> execution_context \<Rightarrow> run_outcome option" where
  "execute cr p fuel code data m ctx = run cr p fuel (interpreter_new code data m ctx)"

end
