(* ===== verification/Vm_Safety.thy ===== *)
theory Vm_Safety
  imports Interpreter
begin

text \<open>
  Safety and termination of the virtual machine. Every instruction keeps the machine within its gas
  limit and stack depth, leaves the contract data, the messages and the exception handler alone, and
  pays: a potential, the gas left plus the open calls, decreases with every completed step. The
  rules for the building blocks are collected in \<open>vm_rules\<close> and carry the proof to every instruction.
\<close>

named_theorems vm_rules \<open>building blocks of safe instructions\<close>

definition vm_inv :: "interpreter \<Rightarrow> bool" where
  "vm_inv s \<longleftrightarrow> gas_used s \<le> gas_limit s \<and> length (stack s) \<le> MAX_STACK_DEPTH"

definition vm_rel :: "interpreter \<Rightarrow> interpreter \<Rightarrow> bool" where
  "vm_rel s s' \<longleftrightarrow> gas_limit s' = gas_limit s \<and> gas_used s \<le> gas_used s' \<and>
     c2 (control_registers s') = c2 (control_registers s) \<and> vm_data s' = vm_data s \<and>
     out_messages s' = out_messages s \<and> code_refs s' = code_refs s \<and> vm_context s' = vm_context s"

definition potential :: "interpreter \<Rightarrow> nat" where
  "potential s = unat (gas_limit s) - unat (gas_used s) + length (call_stack s)"

definition safe :: "nat \<Rightarrow> 'a vm \<Rightarrow> bool" where
  "safe k m \<longleftrightarrow> (\<forall>s. vm_inv s \<longrightarrow> vm_inv (snd (m s)) \<and> vm_rel s (snd (m s)) \<and>
     (\<forall>x. fst (m s) = Inr x \<longrightarrow> gas_limit s \<noteq> - 1 \<longrightarrow> potential (snd (m s)) + k \<le> potential s))"

lemma safeI:
  assumes "\<And>s. vm_inv s \<Longrightarrow> vm_inv (snd (m s))" "\<And>s. vm_inv s \<Longrightarrow> vm_rel s (snd (m s))"
    and "\<And>s x. vm_inv s \<Longrightarrow> fst (m s) = Inr x \<Longrightarrow> gas_limit s \<noteq> - 1 \<Longrightarrow> potential (snd (m s)) + k \<le> potential s"
  shows "safe k m"
  using assms by (simp add: safe_def)

lemma vm_rel_refl [simp]: "vm_rel s s"
  by (simp add: vm_rel_def)

lemma vm_rel_trans: "vm_rel s t \<Longrightarrow> vm_rel t u \<Longrightarrow> vm_rel s u"
  by (auto simp: vm_rel_def)

lemma safe_bnd:
  assumes m: "safe j m" and f: "\<And>x. safe k (f x)"
  shows "safe (j + k) (bnd m f)"
  unfolding safe_def
proof (intro allI impI)
  fix s assume s: "vm_inv s"
  obtain r t where r: "m s = (r, t)" by (cases "m s")
  have t: "vm_inv t" "vm_rel s t" "\<And>x. r = Inr x \<Longrightarrow> gas_limit s \<noteq> - 1 \<Longrightarrow> potential t + j \<le> potential s"
    using m s r by (auto simp: safe_def)
  show "vm_inv (snd (bnd m f s)) \<and> vm_rel s (snd (bnd m f s)) \<and>
     (\<forall>x. fst (bnd m f s) = Inr x \<longrightarrow> gas_limit s \<noteq> - 1 \<longrightarrow> potential (snd (bnd m f s)) + (j + k) \<le> potential s)"
  proof (cases r)
    case (Inl e)
    then show ?thesis using r t by (simp add: bnd_def)
  next
    case (Inr x)
    have ft: "vm_inv (snd (f x t))" "vm_rel t (snd (f x t))"
      "\<And>y. fst (f x t) = Inr y \<Longrightarrow> gas_limit t \<noteq> - 1 \<Longrightarrow> potential (snd (f x t)) + k \<le> potential t"
      using f [of x] t(1) by (auto simp: safe_def)
    have "gas_limit t = gas_limit s" using t(2) by (simp add: vm_rel_def)
    then show ?thesis
      using Inr r ft t vm_rel_trans [OF t(2) ft(2)] by (fastforce simp: bnd_def)
  qed
qed

lemma safe_mono: "safe k m \<Longrightarrow> j \<le> k \<Longrightarrow> safe j m"
  unfolding safe_def by (meson add_le_mono1 add_mono_thms_linordered_semiring(2) le_trans)

lemma safe_bnd0 [vm_rules]: "safe 0 m \<Longrightarrow> (\<And>x. safe 0 (f x)) \<Longrightarrow> safe 0 (bnd m f)"
  using safe_bnd [of 0 m 0 f] by simp

lemma safe_bnd_later: "safe 0 m \<Longrightarrow> (\<And>x. safe 1 (f x)) \<Longrightarrow> safe 1 (bnd m f)"
  using safe_bnd [of 0 m 1 f] by simp

lemma safe_ret [vm_rules]: "safe 0 (ret x)"
  by (auto simp: safe_def ret_def)

lemma safe_raise [vm_rules]: "safe k (raise e)"
  by (auto simp: safe_def raise_def)

lemma safe_panic [vm_rules]: "safe k panic"
  by (auto simp: safe_def panic_def)

lemma safe_lift [vm_rules]: "safe 0 (lift_r r)"
  by (auto simp: safe_def lift_r_def)

lemma safe_reads [vm_rules]: "safe 0 (reads f)"
  by (auto simp: safe_def reads_def)

lemma safe_if [vm_rules]: "(b \<Longrightarrow> safe k m) \<Longrightarrow> (\<not> b \<Longrightarrow> safe k n) \<Longrightarrow> safe k (if b then m else n)"
  by simp

lemma safe_let [vm_rules]: "safe k (f x) \<Longrightarrow> safe k (Let x f)"
  by simp

lemma safe_prod [vm_rules]: "(\<And>a b. safe k (f a b)) \<Longrightarrow> safe k (case x of (a, b) \<Rightarrow> f a b)"
  by (cases x) simp

lemma safe_pop [vm_rules]: "safe 0 vm_pop"
  by (auto simp: safe_def vm_pop_def vm_inv_def vm_rel_def potential_def split: list.splits)

lemma safe_push [vm_rules]: "safe 0 (vm_push v)"
  by (auto simp: safe_def vm_push_def vm_inv_def vm_rel_def potential_def MAX_STACK_DEPTH_def)

lemma safe_value_case [vm_rules]:
  "(\<And>w. safe k (f1 w)) \<Longrightarrow> (\<And>b. safe k (f2 b)) \<Longrightarrow> (\<And>c. safe k (f3 c)) \<Longrightarrow> (\<And>sl. safe k (f4 sl)) \<Longrightarrow>
     (\<And>b. safe k (f5 b)) \<Longrightarrow>
     safe k (case v of VInteger w \<Rightarrow> f1 w | VBytes b \<Rightarrow> f2 b | VCell c \<Rightarrow> f3 c | VSlice sl \<Rightarrow> f4 sl | VBuilder b \<Rightarrow> f5 b)"
  by (cases v) simp_all

lemma safe_list_case [vm_rules]:
  "safe k m \<Longrightarrow> (\<And>x xs. safe k (f x xs)) \<Longrightarrow> safe k (case l of [] \<Rightarrow> m | x # xs \<Rightarrow> f x xs)"
  by (cases l) simp_all

lemma safe_pops [vm_rules]:
  "safe 0 pop_integer" "safe 0 pop_bytes" "safe 0 pop_cell" "safe 0 pop_slice" "safe 0 pop_builder"
  by (auto simp: pop_integer_def pop_bytes_def pop_cell_def pop_slice_def pop_builder_def intro!: vm_rules)

lemma safe_pop_i128 [vm_rules]: "safe 0 pop_i128"
  unfolding pop_i128_def by (intro vm_rules)

lemma safe_read_uint8 [vm_rules]: "safe 0 read_uint8"
  by (auto simp: safe_def read_uint8_def vm_inv_def vm_rel_def potential_def Let_def)

lemma safe_read_uint16 [vm_rules]: "safe 0 read_uint16"
  unfolding read_uint16_def by (intro vm_rules)

lemma safe_read_bytes [vm_rules]: "safe 0 (read_bytes_exact n)"
  by (induction n) (auto intro!: vm_rules)

lemma safe_jump_relative [vm_rules]: "safe 0 (jump_relative off)"
  by (auto simp: safe_def jump_relative_def vm_inv_def vm_rel_def potential_def Let_def)

lemma safe_return [vm_rules]: "safe 0 vm_return"
  by (auto simp: safe_def vm_return_def return_to_control_register_def take_return_def take_c0_def jump_to_def
      vm_inv_def vm_rel_def potential_def Let_def split: option.splits)

lemma safe_set_stack [vm_rules]:
  "length st \<le> MAX_STACK_DEPTH \<Longrightarrow> safe 0 (modifies (\<lambda>s. s\<lparr>stack := st\<rparr>))"
  by (auto simp: safe_def modifies_def vm_inv_def vm_rel_def potential_def)

lemma safe_set_code [vm_rules]: "safe 0 (modifies (\<lambda>s. s\<lparr>current_code := c, pc_bits := pc\<rparr>))"
  by (auto simp: safe_def modifies_def vm_inv_def vm_rel_def potential_def)

text \<open>The stack an instruction reads respects the depth limit.\<close>

lemma safe_reads_stack:
  assumes "\<And>st. length st \<le> MAX_STACK_DEPTH \<Longrightarrow> safe 0 (f st)"
  shows "safe 0 (bnd (reads stack) f)"
  unfolding safe_def
proof (intro allI impI)
  fix s assume s: "vm_inv s"
  then have "safe 0 (f (stack s))" by (intro assms) (simp add: vm_inv_def)
  then show "vm_inv (snd (bnd (reads stack) f s)) \<and> vm_rel s (snd (bnd (reads stack) f s)) \<and>
     (\<forall>x. fst (bnd (reads stack) f s) = Inr x \<longrightarrow> gas_limit s \<noteq> - 1 \<longrightarrow>
        potential (snd (bnd (reads stack) f s)) + 0 \<le> potential s)"
    using s by (simp add: safe_def bnd_def reads_def)
qed

section \<open>Paying for an instruction\<close>

lemma consume_gas_safe: "safe (unat n) (consume_gas n)"
proof (rule safeI)
  fix s assume s: "vm_inv s"
  let ?g = "saturating_add (gas_used s) n"
  have le: "gas_used s \<le> ?g"
    using unat_saturating_add [of "gas_used s" n] unsigned_less [where ?'a = nat and w = "gas_used s"]
    by (auto simp: word_le_nat_alt)
  show "vm_inv (snd (consume_gas n s))" "vm_rel s (snd (consume_gas n s))"
    using s le by (auto simp: consume_gas_def vm_inv_def vm_rel_def Let_def)
  fix x assume x: "fst (consume_gas n s) = Inr x" and lim: "gas_limit s \<noteq> - 1"
  have g: "?g \<le> gas_limit s" and s': "snd (consume_gas n s) = s\<lparr>gas_used := ?g\<rparr>"
    using x by (auto simp: consume_gas_def Let_def split: if_splits)
  have "unat (gas_limit s) \<noteq> 2 ^ 64 - 1"
    using lim by (simp add: word_unat_eq_iff unat_max_word)
  moreover have "unat (gas_limit s) < 2 ^ 64" using unsigned_less [where ?'a = nat and w = "gas_limit s"] by simp
  ultimately have "unat ?g < 2 ^ 64 - 1" using g by (simp add: word_le_nat_alt)
  then have "unat ?g = unat (gas_used s) + unat n"
    using unat_saturating_add [of "gas_used s" n] by (simp add: min_def split: if_splits)
  then show "potential (snd (consume_gas n s)) + unat n \<le> potential s"
    using g by (simp add: s' potential_def word_le_nat_alt)
qed

lemma safe_paid:
  assumes "0 < unat n" "\<And>x. safe 0 (f x)"
  shows "safe 1 (bnd (consume_gas n) f)"
  by (rule safe_mono [OF safe_bnd [OF consume_gas_safe assms(2)]]) (use assms(1) in simp)

lemma safe_paid0 [vm_rules]: "safe 0 (consume_gas n)"
  using consume_gas_safe by (rule safe_mono) simp

lemma unat_gas_of: "0 < n \<Longrightarrow> 0 < unat (gas_of n)"
  by (simp add: gas_of_def unsigned_of_nat take_bit_eq_mod min_def)

lemma safe_push_checked [vm_rules]: "safe 0 (push_checked r)"
  unfolding push_checked_def by (intro vm_rules)

lemma safe_fit_result [vm_rules]: "safe 0 (fit_result p width flavor r)"
  unfolding fit_result_def by (cases p) (simp_all only: profile.case, (intro vm_rules)+)

lemma safe_branch_condition [vm_rules]: "safe 0 (branch_condition opcode)"
  unfolding branch_condition_def by (intro vm_rules)

section \<open>Every instruction is safe\<close>

lemma pays:
  "safe 1 op_nop" "safe 1 op_drop" "safe 1 op_swap" "safe 1 op_rot" "safe 1 op_pushint"
  "safe 1 op_iszero" "safe 1 op_conv" "safe 1 op_bytelen" "safe 1 op_newc" "safe 1 (op_endc cr)"
  "safe 1 op_stbits" "safe 1 op_stref" "safe 1 op_ctos" "safe 1 op_ld" "safe 1 op_ldref" "safe 1 op_isexotic"
  "safe 1 op_sempty" "safe 1 op_sbits" "safe 1 op_srefs" "safe 1 (op_hashbytes cr)" "safe 1 (op_hashcell cr)"
  "safe 1 (op_chksignu cr)" "safe 1 op_ret" "safe 1 op_throw" "safe 1 op_ifelse" "safe 1 op_ifret"
  "safe 1 op_repeat" "safe 1 op_until" "safe 1 (op_subbytes p)" 
  unfolding op_nop_def op_drop_def op_swap_def op_rot_def op_pushint_def op_iszero_def op_conv_def op_bytelen_def
    op_newc_def op_endc_def op_stbits_def op_stref_def op_ctos_def op_ld_def op_ldref_def op_isexotic_def
    op_sempty_def op_sbits_def op_srefs_def op_hashbytes_def op_hashcell_def op_chksignu_def op_ret_def
    op_throw_def op_ifelse_def op_ifret_def op_repeat_def op_until_def op_subbytes_def
  by ((rule safe_paid, simp, intro vm_rules)+)

lemma pays_reading_the_stack:
  "safe 1 op_dup" "safe 1 op_over" "safe 1 op_pick" "safe 1 op_roll" "safe 1 op_nip" "safe 1 op_tuck"
  unfolding op_dup_def op_over_def op_pick_def op_roll_def op_nip_def op_tuck_def
  by ((rule safe_paid, simp, intro safe_reads_stack vm_rules; simp)+)

lemma pays_blkswap: "safe 1 op_blkswap"
  unfolding op_blkswap_def
  by (rule safe_paid, simp, intro safe_reads_stack vm_rules; simp)

lemma pays_arith: "safe 1 (op_arith opcode)"
  unfolding op_arith_def op_arith_body_def by (rule safe_paid, simp, intro vm_rules)

lemma pays_extended: "safe 1 (op_extended p opcode)"
  unfolding op_extended_def by (rule safe_paid, simp, intro vm_rules)

lemma pays_later:
  "safe 1 op_pushbytes" "safe 1 op_concat" "safe 1 op_byteeq" "safe 1 op_stbytes"
  unfolding op_pushbytes_def op_concat_def op_byteeq_def op_stbytes_def
  by (rule safe_bnd_later, intro vm_rules,
      (rule safe_paid, simp add: unat_gas_of, intro vm_rules |
       rule safe_bnd_later, intro vm_rules, rule safe_paid, simp add: unat_gas_of, intro vm_rules))+

text \<open>
  A call opens a frame, which raises the potential by one; the four units of gas of the branch pay for it.
\<close>

definition owes :: "'a vm \<Rightarrow> bool" where
  "owes m \<longleftrightarrow> (\<forall>s. vm_inv s \<longrightarrow> vm_inv (snd (m s)) \<and> vm_rel s (snd (m s)) \<and>
     potential (snd (m s)) \<le> potential s + 1)"

lemma owes_call: "owes (bnd (modifies (\<lambda>s. if b then push_call s else s)) (\<lambda>_.
     bnd (modifies (\<lambda>s. s\<lparr>current_code := c, pc_bits := pc\<rparr>)) (\<lambda>_. ret x)))"
  by (auto simp: owes_def bnd_def modifies_def ret_def push_call_def set_c0_def vm_inv_def vm_rel_def potential_def)

lemma owes_reads: "(\<And>x. owes (f x)) \<Longrightarrow> owes (bnd (reads g) f)"
  by (simp add: owes_def bnd_def reads_def)

lemma owes_raise: "owes (raise e)" and owes_ret: "owes (ret x)"
  by (simp_all add: owes_def raise_def ret_def)

lemma owes_if: "owes m \<Longrightarrow> owes n \<Longrightarrow> owes (if b then m else n)"
  by simp

lemma safe_bnd_owing:
  assumes m: "safe (k + 1) m" and f: "\<And>x. owes (f x)"
  shows "safe k (bnd m f)"
proof (rule safeI)
  fix s assume s: "vm_inv s"
  obtain r t where r: "m s = (r, t)" by (cases "m s")
  have t: "vm_inv t" "vm_rel s t" "\<And>x. r = Inr x \<Longrightarrow> gas_limit s \<noteq> - 1 \<Longrightarrow> potential t + (k + 1) \<le> potential s"
    using m s r by (auto simp: safe_def)
  have ft: "\<And>x. vm_inv (snd (f x t)) \<and> vm_rel t (snd (f x t)) \<and> potential (snd (f x t)) \<le> potential t + 1"
    using f t(1) by (simp add: owes_def)
  show "vm_inv (snd (bnd m f s))" using r t(1) ft by (cases r) (simp_all add: bnd_def)
  show "vm_rel s (snd (bnd m f s))" using r t(2) ft vm_rel_trans by (cases r) (auto simp: bnd_def)
  fix y assume y: "fst (bnd m f s) = Inr y" and lim: "gas_limit s \<noteq> - 1"
  obtain x where x: "r = Inr x" using y r by (cases r) (simp_all add: bnd_def)
  have "bnd m f s = f x t" using r x by (simp add: bnd_def)
  then show "potential (snd (bnd m f s)) + k \<le> potential s"
    using t(3) [OF x lim] ft [of x] by simp
qed

lemma bnd_assoc: "bnd (bnd m f) g = bnd m (\<lambda>x. bnd (f x) g)"
  by (auto simp: bnd_def fun_eq_iff split: prod.splits sum.splits)

lemma pays_branch: "safe 1 (op_branch opcode)"
proof -
  have paid: "safe (1 + 1) (bnd (consume_gas 4) (\<lambda>_. bnd read_uint8 (\<lambda>idx.
     bnd (branch_condition opcode) (\<lambda>cond. ret (idx, cond)))))"
    by (rule safe_mono [OF safe_bnd [OF consume_gas_safe, where k = 0]], intro vm_rules, simp)
  have "op_branch opcode = bnd (bnd (consume_gas 4) (\<lambda>_. bnd read_uint8 (\<lambda>idx.
     bnd (branch_condition opcode) (\<lambda>cond. ret (idx, cond))))) (\<lambda>(idx, cond).
     if cond then
       bnd (reads code_refs) (\<lambda>refs.
       if unat idx \<ge> length refs then raise MalformedCell
       else
         bnd (modifies (\<lambda>s. if opcode = 0x71 \<or> opcode = 0x75 \<or> opcode = 0x76 then push_call s else s)) (\<lambda>_.
         bnd (modifies (\<lambda>s. s\<lparr>current_code := refs ! unat idx, pc_bits := 0\<rparr>)) (\<lambda>_. ret True)))
     else ret True)"
    unfolding op_branch_def bnd_assoc by (simp add: bnd_def ret_def)
  moreover have "safe 1 \<dots>"
    by (rule safe_bnd_owing [OF paid]) (auto intro!: owes_if owes_reads owes_raise owes_call owes_ret split: prod.split)
  ultimately show ?thesis by simp
qed

lemma exec_op_safe: "safe 1 (exec_op cr p opcode)"
  unfolding exec_op_def
  by (intro safe_if pays pays_reading_the_stack pays_blkswap pays_arith pays_extended pays_later pays_branch safe_raise)

section \<open>Steps and runs\<close>

lemma vm_step_inv:
  assumes "vm_inv s"
  shows "vm_inv (snd (vm_step cr p s))" "vm_rel s (snd (vm_step cr p s))"
proof -
  have "safe 1 (bnd read_uint8 (exec_op cr p))"
    by (rule safe_bnd_later [OF safe_read_uint8 exec_op_safe])
  then show "vm_inv (snd (vm_step cr p s))" "vm_rel s (snd (vm_step cr p s))"
    using assms by (auto simp: vm_step_def safe_def vm_inv_def vm_rel_def split: list.splits)
qed

lemma vm_step_pays:
  assumes "vm_inv s" "fst (vm_step cr p s) = Inr True" "gas_limit s \<noteq> - 1"
  shows "potential (snd (vm_step cr p s)) < potential s"
proof -
  have safe: "safe 1 (bnd read_uint8 (exec_op cr p))"
    by (rule safe_bnd_later [OF safe_read_uint8 exec_op_safe])
  show ?thesis
  proof (cases "pc_bits s \<ge> code_bits s")
    case True
    then show ?thesis using assms(2) by (auto simp: vm_step_def potential_def split: list.splits)
  next
    case False
    then have "vm_step cr p s = bnd read_uint8 (exec_op cr p) s" by (simp add: vm_step_def)
    then show ?thesis using safe assms unfolding safe_def by (metis Suc_eq_plus1 Suc_le_eq)
  qed
qed

text \<open>Without an exception handler a run needs no more steps than its potential.\<close>

lemma run_terminates:
  assumes "vm_inv s" "c2 (control_registers s) = None" "gas_limit s \<noteq> - 1" "potential s < fuel"
  shows "\<exists>r. run cr p fuel s = Some r"
  using assms
proof (induction fuel arbitrary: s)
  case (Suc fuel)
  obtain r t where r: "vm_step cr p s = (r, t)" by (cases "vm_step cr p s")
  have t: "vm_inv t" "vm_rel s t" using vm_step_inv [OF Suc.prems(1), of cr p] r by simp_all
  have c2: "c2 (control_registers t) = None" and lim: "gas_limit t \<noteq> - 1"
    using t(2) Suc.prems(2, 3) by (simp_all add: vm_rel_def)
  show ?case
  proof (cases "r = Inr True")
    case True
    have "potential t < potential s"
      using vm_step_pays [OF Suc.prems(1), of cr p] r True Suc.prems(3) by simp
    then show ?thesis using Suc.IH [OF t(1) c2 lim] Suc.prems(4) r True by simp
  next
    case False
    then show ?thesis using r c2 by (simp split: sum.split vm_error.split bool.split)
  qed
qed simp

lemma run_result:
  assumes "run cr p fuel s = Some (Finished r)" "vm_inv s" "c2 (control_registers s) = None"
  shows "(case r of Success d ms g \<Rightarrow> d = vm_data s \<and> ms = out_messages s \<and> g \<le> gas_limit s
            | Exception k g \<Rightarrow> g \<le> gas_limit s)"
  using assms
proof (induction fuel arbitrary: s)
  case (Suc fuel)
  obtain o1 t where o1: "vm_step cr p s = (o1, t)" by (cases "vm_step cr p s")
  have t: "vm_inv t" "vm_rel s t" using vm_step_inv [OF Suc.prems(2), of cr p] o1 by simp_all
  have c2: "c2 (control_registers t) = None"
    using t(2) Suc.prems(3) by (simp add: vm_rel_def)
  have keep: "vm_data t = vm_data s" "out_messages t = out_messages s" "gas_limit t = gas_limit s"
    using t(2) by (simp_all add: vm_rel_def)
  have gas: "gas_used t \<le> gas_limit s" using t(1) keep by (simp add: vm_inv_def)
  show ?case
  proof (cases "o1 = Inr True")
    case True
    then have "run cr p fuel t = Some (Finished r)" using Suc.prems(1) o1 by simp
    from Suc.IH [OF this t(1) c2] show ?thesis by (simp only: keep)
  next
    case False
    then show ?thesis using Suc.prems(1) o1 c2 keep gas
      by (auto split: sum.splits vm_error.splits bool.splits)
  qed
qed simp

lemma run_mono:
  assumes "run cr p n s = Some r" "n \<le> m"
  shows "run cr p m s = Some r"
  using assms
proof (induction n arbitrary: s m)
  case (Suc n)
  then obtain k where m: "m = Suc k" "n \<le> k" by (cases m) auto
  then show ?case using Suc
    by (auto split: prod.splits sum.splits vm_error.splits bool.splits option.splits)
qed simp

lemma interpreter_new_inv: "vm_inv (interpreter_new code data m ctx)"
  by (simp add: vm_inv_def interpreter_new_def)

lemma new_run_returns:
  assumes "ctx_gas_limit ctx \<noteq> - 1"
  shows "\<exists>r. \<forall>fuel. run cr p (unat (ctx_gas_limit ctx) + 1 + fuel) (interpreter_new code data m ctx) = Some r"
proof -
  have "\<exists>r. run cr p (unat (ctx_gas_limit ctx) + 1) (interpreter_new code data m ctx) = Some r"
    by (rule run_terminates [OF interpreter_new_inv])
      (simp_all add: assms interpreter_new_def registers_default_def potential_def)
  then show ?thesis by (meson le_add1 run_mono)
qed

text \<open>
  C16. Gas metering bounds every execution: with a gas limit below the largest \<open>u64\<close>, \<open>execute\<close>
  finishes or panics within one step per unit of gas plus one, whatever the code, and the
  result does not depend on the fuel beyond that.
\<close>

theorem execute_terminates:
  assumes "ctx_gas_limit ctx \<noteq> - 1"
  shows "\<exists>r. \<forall>fuel. execute cr p (unat (ctx_gas_limit ctx) + 1 + fuel) code data m ctx = Some r"
  unfolding execute_def by (rule new_run_returns [OF assms])

definition sample_ctx :: execution_context where
  "sample_ctx = \<lparr>ctx_gen_utime = 0, ctx_start_lt = 0, ctx_end_lt = 1, ctx_gas_limit = 10\<rparr>"

definition sample_message :: message where
  "sample_message =
     \<lparr>msg_type = Internal, src_address = FullAddress 0 1,
      dest_address = FullAddress 0 2, amount_nanos = 5, extra_currencies = [],
      created_lt = 1, body_cell_hash = 0\<rparr>"

definition code_cell :: "bytes \<Rightarrow> cell" where
  "code_cell bs = \<lparr>data_bytes = bs, cell_refs = [], is_special = False\<rparr>"

theorem execute_terminates_witness:
  "\<exists>r. \<forall>fuel. execute toy_crypto Dev (11 + fuel) (code_cell [0x7A, 1, 0xFD]) (code_cell [7]) sample_message sample_ctx
     = Some r"
proof -
  have "ctx_gas_limit sample_ctx \<noteq> - 1" by (simp add: sample_ctx_def)
  from execute_terminates [OF this, of toy_crypto Dev "code_cell [0x7A, 1, 0xFD]" "code_cell [7]" sample_message]
  show ?thesis by (simp add: sample_ctx_def)
qed

text \<open>
  C18. What an execution returns: the gas reported never exceeds the limit of the context, and since
  no instruction writes the contract data or emits a message, a success returns the data it was
  given and no messages.
\<close>

theorem execute_result_bounded:
  assumes "execute cr p fuel code data m ctx = Some (Finished r)"
  shows "case r of Success d ms g \<Rightarrow> d = data \<and> ms = [] \<and> g \<le> ctx_gas_limit ctx
           | Exception k g \<Rightarrow> g \<le> ctx_gas_limit ctx"
  using run_result [OF assms [unfolded execute_def] interpreter_new_inv]
  by (simp add: interpreter_new_def registers_default_def split: execution_result.splits)

lemmas vm_eval = execute_def interpreter_new_def registers_default_def vm_step_def code_bits_def code_cell_def
  bnd_def ret_def reads_def modifies_def raise_def lift_r_def read_uint8_def read_uint16_def vm_pop_def vm_push_def
  consume_gas_def saturating_add_def exec_op_def MAX_STACK_DEPTH_def Let_def

theorem execute_result_bounded_witness:
  "execute toy_crypto Dev 3 (code_cell [0, 0]) (code_cell [7]) sample_message sample_ctx
     = Some (Finished (Success (code_cell [7]) [] 2)) \<and> (2::u64) \<le> ctx_gas_limit sample_ctx"
proof
  show e: "execute toy_crypto Dev 3 (code_cell [0, 0]) (code_cell [7]) sample_message sample_ctx
     = Some (Finished (Success (code_cell [7]) [] 2))"
    by (simp add: vm_eval op_nop_def sample_ctx_def numeral_3_eq_3)
  show "(2::u64) \<le> ctx_gas_limit sample_ctx"
    using execute_result_bounded [OF e] by simp
qed

section \<open>An exception handler that never runs out of gas\<close>

text \<open>
  \<open>CONCAT\<close> pops its operands before it pays. As its own exception handler on a stack with one integer,
  it fails on the type of the operand, the handler is entered again with the exception code on the
  stack, and the gas used stays the same: the loop of \<open>run\<close> does not end.
\<close>

lemma concat_handler_loops:
  assumes "current_code s = code_cell [0x31]" "pc_bits s = 0" "stack s = [VInteger w]"
    and "c2 (control_registers s) = Some \<lparr>cont_code = code_cell [0x31], cont_pc = 0\<rparr>"
  shows "run cr p fuel s = None"
  using assms
proof (induction fuel arbitrary: s w)
  case (Suc fuel)
  show ?case
    using Suc.prems by (simp add: vm_eval op_concat_def pop_bytes_def jump_to_def from_i128_def Suc.IH)
qed simp

lemma concat_handler_diverges:
  "\<forall>fuel. run cr p fuel (set_exception_handler (interpreter_new (code_cell [0x31]) data m ctx)
     \<lparr>cont_code = code_cell [0x31], cont_pc = 0\<rparr>) = None"
proof
  fix fuel
  show "run cr p fuel (set_exception_handler (interpreter_new (code_cell [0x31]) data m ctx)
     \<lparr>cont_code = code_cell [0x31], cont_pc = 0\<rparr>) = None"
  proof (cases fuel)
    case (Suc n)
    then show ?thesis
      by (simp add: vm_eval op_concat_def pop_bytes_def jump_to_def from_i128_def set_exception_handler_def
          set_c2_def) (rule concat_handler_loops; simp add: code_cell_def)
  qed simp
qed

end
