(* ===== verification/Vm_Ops.thy ===== *)
theory Vm_Ops
  imports Vm_Safety
begin

unbundle bit_operations_syntax

text \<open>
  What the instructions compute: the arithmetic of the machine against the integers, and the bits a
  builder stores against the bits a slice reads back.
\<close>

section \<open>Arithmetic\<close>

lemma sint_i128_of: "in_i128 x \<Longrightarrow> sint (word_of_int x :: i128) = x"
  unfolding in_i128_def by (subst sint_sbintrunc') (auto simp: signed_take_bit_int_eq_self)

lemma ucast_u256: "ucast (word_of_int x :: u256) = (word_of_int x :: i128)"
  by (rule bit_word_eqI) (auto simp: bit_simps)

text \<open>The 256-bit two's complement image of an integer.\<close>

definition num :: "int \<Rightarrow> stack_value" where
  "num x = VInteger (word_of_int x)"

lemma from_i128_num: "in_i128 x \<Longrightarrow> from_i128 (word_of_int x) = num x"
  unfolding from_i128_scast num_def
  by (simp add: scast_eq sint_i128_of)

lemma pop_i128_num:
  "stack s = num x # st \<Longrightarrow> pop_i128 s = (Inr (word_of_int x), s\<lparr>stack := st\<rparr>)"
  by (simp add: pop_i128_def pop_integer_def vm_pop_def bnd_def ret_def lift_r_def num_def ucast_u256)

lemma push_checked_num:
  "length (stack s) < MAX_STACK_DEPTH \<Longrightarrow>
   push_checked (i128_of x) s =
     (if in_i128 x then (Inr True, s\<lparr>stack := num x # stack s\<rparr>) else (Inl (Exn IntegerOverflow), s))"
  by (simp add: push_checked_def i128_of_def ok_or_def bnd_def lift_r_def vm_push_def ret_def from_i128_num)

lemma quotient_fits:
  assumes "in_i128 a" "in_i128 b" "b \<noteq> 0"
  shows "in_i128 (a sdiv b) \<longleftrightarrow> \<not> (a = - (2 ^ 127) \<and> b = - 1)" "in_i128 (a smod b)"
proof -
  have "0 \<le> \<bar>a\<bar> div \<bar>b\<bar>" by (intro pos_imp_zdiv_nonneg_iff [THEN iffD2]) (use assms(3) in auto)
  then have q: "\<bar>a sdiv b\<bar> = \<bar>a\<bar> div \<bar>b\<bar>"
    using assms(3) by (auto simp: signed_divide_int_def abs_mult abs_sgn_eq)
  have "a smod b = sgn a * (\<bar>a\<bar> mod \<bar>b\<bar>)"
    using assms(3) by (auto simp: signed_divide_int_def signed_modulo_int_def sgn_if minus_mod_eq_mult_div [symmetric]
        minus_div_mult_eq_mod algebra_simps)
  then have m: "\<bar>a smod b\<bar> = \<bar>a\<bar> mod \<bar>b\<bar>" using assms(3) by (auto simp: abs_mult abs_sgn_eq)
  have "\<bar>a\<bar> mod \<bar>b\<bar> < \<bar>b\<bar>" using assms(3) by simp
  moreover have "\<bar>b\<bar> \<le> 2 ^ 127" using assms(2) by (auto simp: in_i128_def)
  ultimately show "in_i128 (a smod b)" using m by (auto simp: in_i128_def)
  show "in_i128 (a sdiv b) \<longleftrightarrow> \<not> (a = - (2 ^ 127) \<and> b = - 1)"
  proof (cases "\<bar>b\<bar> = 1")
    case True
    then have "b = 1 \<or> b = - 1" by auto
    then show ?thesis using assms(1) by (auto simp: in_i128_def signed_divide_int_def sgn_mult_abs)
  next
    case False
    then have "2 \<le> \<bar>b\<bar>" using assms(3) by auto
    then have "\<bar>a\<bar> div \<bar>b\<bar> \<le> \<bar>a\<bar> div 2" by (intro zdiv_mono2) auto
    moreover have "\<bar>a\<bar> \<le> 2 ^ 127" using assms(1) by (auto simp: in_i128_def)
    ultimately have "\<bar>a sdiv b\<bar> \<le> 2 ^ 126" using q zdiv_mono1 [of "\<bar>a\<bar>" "2 ^ 127" 2] by simp
    then show ?thesis using False by (auto simp: in_i128_def)
  qed
qed

lemma arith_results:
  assumes "stack s = num b # num a # st" "in_i128 a" "in_i128 b" "length st + 2 \<le> MAX_STACK_DEPTH"
  shows "op_arith_body 0x10 s =
      (if in_i128 (a + b) then (Inr True, s\<lparr>stack := num (a + b) # st\<rparr>) else (Inl (Exn IntegerOverflow), s\<lparr>stack := st\<rparr>))"
    and "op_arith_body 0x11 s =
      (if in_i128 (a - b) then (Inr True, s\<lparr>stack := num (a - b) # st\<rparr>) else (Inl (Exn IntegerOverflow), s\<lparr>stack := st\<rparr>))"
    and "op_arith_body 0x13 s =
      (if in_i128 (a * b) then (Inr True, s\<lparr>stack := num (a * b) # st\<rparr>) else (Inl (Exn IntegerOverflow), s\<lparr>stack := st\<rparr>))"
    and "op_arith_body 0x14 s =
      (if b = 0 then (Inl (Exn IntegerOverflow), s\<lparr>stack := st\<rparr>)
       else if a = - (2 ^ 127) \<and> b = - 1 then (Inl Panic, s\<lparr>stack := st\<rparr>)
       else (Inr True, s\<lparr>stack := num (a smod b) # num (a sdiv b) # st\<rparr>))"
    and "op_arith_body 0x15 s = (Inr True, s\<lparr>stack := num (sgn (a - b)) # st\<rparr>)"
proof -
  have z: "b = 0 \<longleftrightarrow> (word_of_int b :: i128) = 0"
    using sint_i128_of [OF assms(3)] by (metis sint_0 word_of_int_0)
  note eval = op_arith_body_def bnd_def pop_i128_num [OF assms(1)] pop_i128_num [of "s\<lparr>stack := num a # st\<rparr>" a st]
    sint_i128_of [OF assms(2)] sint_i128_of [OF assms(3)]
  show "op_arith_body 0x10 s =
      (if in_i128 (a + b) then (Inr True, s\<lparr>stack := num (a + b) # st\<rparr>) else (Inl (Exn IntegerOverflow), s\<lparr>stack := st\<rparr>))"
    "op_arith_body 0x11 s =
      (if in_i128 (a - b) then (Inr True, s\<lparr>stack := num (a - b) # st\<rparr>) else (Inl (Exn IntegerOverflow), s\<lparr>stack := st\<rparr>))"
    "op_arith_body 0x13 s =
      (if in_i128 (a * b) then (Inr True, s\<lparr>stack := num (a * b) # st\<rparr>) else (Inl (Exn IntegerOverflow), s\<lparr>stack := st\<rparr>))"
    using assms(4) by (simp_all add: eval push_checked_num)
  have fits: "in_i128 (a sdiv b) \<longleftrightarrow> \<not> (a = - (2 ^ 127) \<and> b = - 1)" "in_i128 (a smod b)" if "b \<noteq> 0"
    using quotient_fits [OF assms(2, 3) that] by simp_all
  show "op_arith_body 0x14 s =
      (if b = 0 then (Inl (Exn IntegerOverflow), s\<lparr>stack := st\<rparr>)
       else if a = - (2 ^ 127) \<and> b = - 1 then (Inl Panic, s\<lparr>stack := st\<rparr>)
       else (Inr True, s\<lparr>stack := num (a smod b) # num (a sdiv b) # st\<rparr>))"
    using assms(4) fits by (simp add: eval flip: z) (simp add: raise_def panic_def ret_def vm_push_def from_i128_num)
  have "in_i128 (-1)" "in_i128 0" "in_i128 1" by (simp_all add: in_i128_def)
  then have "from_i128 (- 1) = num (- 1)" "from_i128 0 = num 0" "from_i128 1 = num 1"
    using from_i128_num [of "-1"] from_i128_num [of 0] from_i128_num [of 1] by simp_all
  then show "op_arith_body 0x15 s = (Inr True, s\<lparr>stack := num (sgn (a - b)) # st\<rparr>)"
    using assms(4) by (auto simp: eval vm_push_def ret_def)
qed

lemma neg_result:
  assumes "stack s = num b # num a # st" "in_i128 b" "length st + 2 \<le> MAX_STACK_DEPTH"
  shows "op_arith_body 0x12 s =
      (if in_i128 (- b) then (Inr True, s\<lparr>stack := num (- b) # num a # st\<rparr>)
       else (Inl (Exn IntegerOverflow), s\<lparr>stack := num a # st\<rparr>))"
  using assms(3) by (simp add: op_arith_body_def bnd_def pop_i128_num [OF assms(1)] sint_i128_of [OF assms(2)] push_checked_num)

text \<open>What an arithmetic instruction reads before it computes: it pays, and its width and flavor follow in the code.\<close>

definition arith_operands :: "u8 \<Rightarrow> (u16 \<times> u8) vm" where
  "arith_operands opcode = bnd (consume_gas (if opcode = 0x13 \<or> opcode = 0x14 then 8 else 4)) (\<lambda>_.
     bnd read_uint16 (\<lambda>width. bnd read_uint8 (\<lambda>flavor. ret (width, flavor))))"

lemma op_arith_split:
  "op_arith opcode = bnd (arith_operands opcode) (\<lambda>(width, flavor).
     if width = 0 \<or> width > 256 then raise MalformedCell else op_arith_body opcode)"
  by (auto simp: op_arith_def arith_operands_def bnd_def ret_def fun_eq_iff split: prod.splits sum.splits)

text \<open>The width, once checked, and the flavor have no influence.\<close>

lemma width_and_flavor_ignored:
  assumes "arith_operands opcode s0 = (Inr (width, flavor), s)" "0 < width" "width \<le> 256"
  shows "op_arith opcode s0 = op_arith_body opcode s"
  using assms by (auto simp: op_arith_split bnd_def)

definition sample_vm :: interpreter where
  "sample_vm = (interpreter_new (code_cell []) (code_cell []) sample_message sample_ctx)
     \<lparr>stack := [num 2, num (- 7)]\<rparr>"

text \<open>The specification of the instructions asks for the floored quotient and remainder.\<close>

lemma divmod_not_floored:
  "op_arith_body 0x14 sample_vm = (Inr True, sample_vm\<lparr>stack := [num (- 1), num (- 3)]\<rparr>)"
  "(- 7 :: int) div 2 = - 4" "(- 7 :: int) mod 2 = 1"
proof -
  have "stack sample_vm = [num 2, num (- 7)]" "in_i128 (- 7)" "in_i128 2" "length ([] :: stack_value list) + 2 \<le> MAX_STACK_DEPTH"
    by (simp_all add: sample_vm_def in_i128_def MAX_STACK_DEPTH_def)
  from arith_results(4) [OF this]
  show "op_arith_body 0x14 sample_vm = (Inr True, sample_vm\<lparr>stack := [num (- 1), num (- 3)]\<rparr>)"
    by (simp add: signed_divide_int_def signed_modulo_int_def)
qed simp_all

text \<open>
  C19. The arithmetic instructions compute on the integers of the \<open>i128\<close> range, whatever width and flavor
  they name: once the width is found to be between 1 and 256, on two operands of the range \<open>ADD\<close>, \<open>SUB\<close> and
  \<open>MUL\<close> replace them by their exact sum, difference and product, or fail with an
  integer overflow after popping them, and \<open>NEG\<close> negates one operand in the same way; \<open>DIVMOD\<close> leaves the quotient
  rounded towards zero and the remainder with the sign of the dividend, fails on a zero divisor, and panics
  exactly when the quotient does not fit; \<open>CMP\<close> leaves the sign of the difference. This is what
  the code does, and not what the specification of the instruction set asks for, where
  \<open>DIVMOD\<close> is floored, results overflow at the declared width, and the modulo flavor never overflows.
\<close>

theorem arithmetic_exact:
  assumes "stack s = num b # num a # st" "in_i128 a" "in_i128 b" "length st + 2 \<le> MAX_STACK_DEPTH"
    and "arith_operands opcode s0 = (Inr (width, flavor), s)" "0 < width" "width \<le> 256"
  shows "(opcode = 0x10 \<longrightarrow> op_arith opcode s0 =
      (if in_i128 (a + b) then (Inr True, s\<lparr>stack := num (a + b) # st\<rparr>) else (Inl (Exn IntegerOverflow), s\<lparr>stack := st\<rparr>))) \<and>
    (opcode = 0x11 \<longrightarrow> op_arith opcode s0 =
      (if in_i128 (a - b) then (Inr True, s\<lparr>stack := num (a - b) # st\<rparr>) else (Inl (Exn IntegerOverflow), s\<lparr>stack := st\<rparr>))) \<and>
    (opcode = 0x12 \<longrightarrow> op_arith opcode s0 =
      (if in_i128 (- b) then (Inr True, s\<lparr>stack := num (- b) # num a # st\<rparr>)
       else (Inl (Exn IntegerOverflow), s\<lparr>stack := num a # st\<rparr>))) \<and>
    (opcode = 0x13 \<longrightarrow> op_arith opcode s0 =
      (if in_i128 (a * b) then (Inr True, s\<lparr>stack := num (a * b) # st\<rparr>) else (Inl (Exn IntegerOverflow), s\<lparr>stack := st\<rparr>))) \<and>
    (opcode = 0x14 \<longrightarrow> op_arith opcode s0 =
      (if b = 0 then (Inl (Exn IntegerOverflow), s\<lparr>stack := st\<rparr>)
       else if a = - (2 ^ 127) \<and> b = - 1 then (Inl Panic, s\<lparr>stack := st\<rparr>)
       else (Inr True, s\<lparr>stack := num (a smod b) # num (a sdiv b) # st\<rparr>))) \<and>
    (opcode = 0x15 \<longrightarrow> op_arith opcode s0 = (Inr True, s\<lparr>stack := num (sgn (a - b)) # st\<rparr>))"
  unfolding width_and_flavor_ignored [OF assms(5-7)]
  using arith_results [OF assms(1-4)] neg_result [OF assms(1,3,4)] by blast

text \<open>\<open>ADD\<close> of 200 and 100 at the unsigned width of 8 bits, of which 255 is the largest integer, leaves 300.\<close>

definition sum_vm :: interpreter where
  "sum_vm = (interpreter_new (code_cell [0, 8, 0]) (code_cell []) sample_message (sample_ctx\<lparr>ctx_gas_limit := 20\<rparr>))
     \<lparr>stack := [num 100, num 200]\<rparr>"

lemma sum_operands: "arith_operands 0x10 sum_vm = (Inr (8, 0), sum_vm\<lparr>gas_used := 4, pc_bits := 24\<rparr>)"
  by (simp add: arith_operands_def sum_vm_def vm_eval sample_ctx_def read_uint16_def)

theorem arithmetic_exact_witness:
  "op_arith 0x10 sum_vm = (Inr True, sum_vm\<lparr>gas_used := 4, pc_bits := 24, stack := [num 300]\<rparr>)"
proof -
  let ?s = "sum_vm\<lparr>gas_used := 4, pc_bits := 24\<rparr>"
  have "stack ?s = [num 100, num 200]" "in_i128 200" "in_i128 100" "length ([] :: stack_value list) + 2 \<le> MAX_STACK_DEPTH"
    by (simp_all add: sum_vm_def in_i128_def MAX_STACK_DEPTH_def)
  from arithmetic_exact [OF this sum_operands] show ?thesis
    by (simp add: in_i128_def)
qed

section \<open>Bits stored and read\<close>

text \<open>
  A builder written only by \<open>append_bits\<close> has exactly the bytes its bits need and zeros after them.
\<close>

definition packed :: "bytes \<Rightarrow> nat \<Rightarrow> bool" where
  "packed data n \<longleftrightarrow> length data = div_ceil n 8 \<and> (\<forall>i. n \<le> i \<longrightarrow> i < 8 * length data \<longrightarrow> \<not> bit_at data i)"

lemma bit_at_bit: "bit_at data i \<longleftrightarrow> bit (data ! (i div 8)) (7 - i mod 8)"
proof -
  have "drop_bit k w AND 1 = 1 \<longleftrightarrow> bit w k" for k and w :: u8
    by (metis and_one_eq bit_iff_odd_drop_bit odd_iff_mod_2_eq_one one_mod_two_eq_one of_bool_eq_iff)
  then show ?thesis by (simp add: bit_at_def)
qed

definition grown :: "bytes \<Rightarrow> nat \<Rightarrow> bytes" where
  "grown data n = (if n div 8 \<ge> length data then data @ [0] else data)"

lemma grown_packed:
  assumes "packed data n"
  shows "length (grown data n) = n div 8 + 1"
    and "i < 8 * length (grown data n) \<Longrightarrow> bit_at (grown data n) i \<longleftrightarrow> i < n \<and> bit_at data i"
proof -
  have len: "length data = (n + 7) div 8" using assms by (simp add: packed_def div_ceil_def)
  have pad: "\<And>i. n \<le> i \<Longrightarrow> i < 8 * length data \<Longrightarrow> \<not> bit_at data i" using assms by (simp add: packed_def)
  show l: "length (grown data n) = n div 8 + 1" unfolding grown_def using len by auto
  assume i: "i < 8 * length (grown data n)"
  show "bit_at (grown data n) i \<longleftrightarrow> i < n \<and> bit_at data i"
  proof (cases "n div 8 \<ge> length data")
    case True
    then have g: "grown data n = data @ [0]" and n: "n = 8 * length data" using len by (auto simp: grown_def)
    then show ?thesis using i by (cases "i < n") (auto simp: bit_at_bit nth_append)
  next
    case False
    then have "grown data n = data" by (simp add: grown_def)
    then show ?thesis using i pad [of i] by (cases "i < n") auto
  qed
qed

lemma put_bit_grown:
  "put_bit data n b = (if b then (grown data n)[n div 8 := grown data n ! (n div 8) OR push_bit (7 - n mod 8) 1]
     else grown data n)"
  by (simp add: put_bit_def grown_def Let_def)

lemma put_bit_at:
  assumes "packed data n" "i < 8 * (n div 8 + 1)"
  shows "bit_at (put_bit data n b) i \<longleftrightarrow> (if i = n then b else i < n \<and> bit_at data i)"
proof -
  note g = grown_packed [OF assms(1)]
  have i: "i div 8 < length (grown data n)" using assms(2) g(1) by auto
  have old: "bit_at (grown data n) i \<longleftrightarrow> i < n \<and> bit_at data i" using g assms(2) by simp
  have same: "i = n" if d: "i div 8 = n div 8" and m: "7 - i mod 8 = 7 - n mod 8"
  proof -
    have "i mod 8 < 8" "n mod 8 < 8" by simp_all
    then have "i mod 8 = n mod 8" using m by linarith
    then show ?thesis using d by (metis div_mult_mod_eq)
  qed
  show ?thesis
  proof (cases b)
    case False
    then show ?thesis using old by (auto simp: put_bit_grown)
  next
    case True
    have "bit_at (put_bit data n b) i \<longleftrightarrow>
        bit (grown data n ! (i div 8)) (7 - i mod 8) \<or> (i div 8 = n div 8 \<and> 7 - i mod 8 = 7 - n mod 8)"
      using True i g(1) by (auto simp: put_bit_grown bit_at_bit bit_simps nth_list_update)
    then show ?thesis using old same True by (auto simp: bit_at_bit)
  qed
qed

lemma put_bit_packed: "packed data n \<Longrightarrow> packed (put_bit data n b) (Suc n)"
proof -
  assume p: "packed data n"
  have l: "length (put_bit data n b) = n div 8 + 1" using grown_packed(1) [OF p] by (simp add: put_bit_grown)
  then show ?thesis
    unfolding packed_def using put_bit_at [OF p] by (simp add: div_ceil_def)
qed

text \<open>The loop of \<open>append_bits\<close>.\<close>

lemma put_bits:
  assumes "packed data n"
  shows "packed (fold (\<lambda>i data. put_bit data (n + i) (f i)) [0..<w] data) (n + w) \<and>
    (\<forall>i < n + w. bit_at (fold (\<lambda>i data. put_bit data (n + i) (f i)) [0..<w] data) i \<longleftrightarrow>
       (if i < n then bit_at data i else f (i - n)))"
proof (induction w)
  case (Suc w)
  let ?d = "fold (\<lambda>i data. put_bit data (n + i) (f i)) [0..<w] data"
  have p: "packed ?d (n + w)" using Suc by simp
  have "bit_at (put_bit ?d (n + w) (f w)) i \<longleftrightarrow> (if i < n then bit_at data i else f (i - n))" if "i < n + Suc w" for i
  proof -
    have "i < 8 * ((n + w) div 8 + 1)" using that by auto
    from put_bit_at [OF p this] show ?thesis using Suc that by (auto simp: less_Suc_eq)
  qed
  then show ?case using put_bit_packed [OF p] by simp
qed (simp add: assms)

definition vbits :: "u256 \<times> nat \<Rightarrow> bool list" where
  "vbits vw = map (\<lambda>i. bit (fst vw) (snd vw - 1 - i)) [0..<snd vw]"

lemma length_vbits [simp]: "length (vbits vw) = snd vw"
  by (simp add: vbits_def)

definition stores :: "builder \<Rightarrow> bool list \<Rightarrow> bool" where
  "stores b bs \<longleftrightarrow> current_bit_len b = length bs \<and> packed (b_data_bytes b) (length bs) \<and>
     (\<forall>i < length bs. bit_at (b_data_bytes b) i = bs ! i)"

lemma append_bits_stores:
  assumes "stores b bs" "w \<le> 256" "length bs + w \<le> 1024"
  shows "\<exists>b'. append_bits b v w = Inr b' \<and> stores b' (bs @ vbits (v, w))"
proof -
  let ?f = "\<lambda>i. bit v (255 - ((256 - w) + i))"
  let ?d = "fold (\<lambda>i data. put_bit data (length bs + i) (?f i)) [0..<w] (b_data_bytes b)"
  have p: "packed (b_data_bytes b) (length bs)" using assms(1) by (simp add: stores_def)
  note d = put_bits [OF p, of ?f w]
  have e: "append_bits b v w = Inr (b\<lparr>b_data_bytes := ?d, current_bit_len := length bs + w\<rparr>)"
    using assms by (simp add: append_bits_def stores_def Let_def)
  have "bit_at ?d i = (bs @ vbits (v, w)) ! i" if i: "i < length bs + w" for i
  proof (cases "i < length bs")
    case False
    then have k: "255 - ((256 - w) + (i - length bs)) = w - 1 - (i - length bs)" "i - length bs < w" using i assms(2) by auto
    then have "(bs @ vbits (v, w)) ! i = bit v (w - 1 - (i - length bs))"
      using False by (simp add: nth_append vbits_def)
    moreover have "bit_at ?d i = bit v (255 - ((256 - w) + (i - length bs)))" using d i False by simp
    ultimately show ?thesis by (simp only: k)
  qed (use d i assms(1) in \<open>simp add: nth_append stores_def\<close>)
  then have "stores (b\<lparr>b_data_bytes := ?d, current_bit_len := length bs + w\<rparr>) (bs @ vbits (v, w))"
    using d by (simp add: stores_def)
  then show ?thesis using e by blast
qed

lemma bit_fold_or:
  "k < 256 \<Longrightarrow> bit (fold (\<lambda>i res. if g i then res OR push_bit (h i) 1 else res) xs (a :: u256)) k \<longleftrightarrow>
     bit a k \<or> (\<exists>i \<in> set xs. g i \<and> h i = k)"
  by (induction xs arbitrary: a) (auto simp: bit_simps)

lemma read_bits_vbits:
  assumes "w \<le> 256" "bit_offset sl + w \<le> 8 * length (data_bytes (slice_cell sl))"
    and "\<And>i. i < w \<Longrightarrow> bit_at (data_bytes (slice_cell sl)) (bit_offset sl + i) = bit v (w - 1 - i)"
  shows "read_bits sl w = Inr (take_bit w v, sl\<lparr>bit_offset := bit_offset sl + w\<rparr>)"
proof -
  let ?g = "\<lambda>i. bit_at (data_bytes (slice_cell sl)) (bit_offset sl + i)"
  have "fold (\<lambda>i res. if ?g i then res OR push_bit (255 - ((256 - w) + i)) 1 else res) [0..<w] 0 = take_bit w v"
  proof (rule bit_word_eqI)
    fix k assume k: "k < LENGTH(256)"
    have "(\<exists>i \<in> set [0..<w]. ?g i \<and> 255 - ((256 - w) + i) = k) \<longleftrightarrow> k < w \<and> bit v k"
    proof
      assume "\<exists>i \<in> set [0..<w]. ?g i \<and> 255 - ((256 - w) + i) = k"
      then obtain i where i: "i < w" "?g i" "255 - ((256 - w) + i) = k" by auto
      then have "k = w - 1 - i" using assms(1) by auto
      then show "k < w \<and> bit v k" using i(1, 2) assms(3) [OF i(1)] by auto
    next
      assume kw: "k < w \<and> bit v k"
      then have i: "w - 1 - k < w" "w - 1 - (w - 1 - k) = k" "255 - ((256 - w) + (w - 1 - k)) = k"
        using assms(1) by auto
      then have "?g (w - 1 - k)" using kw assms(3) [OF i(1)] by simp
      then show "\<exists>i \<in> set [0..<w]. ?g i \<and> 255 - ((256 - w) + i) = k" using i by (intro bexI [of _ "w - 1 - k"]) auto
    qed
    then show "bit (fold (\<lambda>i res. if ?g i then res OR push_bit (255 - ((256 - w) + i)) 1 else res) [0..<w] 0 :: u256) k =
        bit (take_bit w v) k"
      using k bit_fold_or [of k ?g "\<lambda>i. 255 - ((256 - w) + i)" "[0..<w]" 0] by (simp add: bit_take_bit_iff)
  qed
  then show ?thesis using assms(1, 2) by (simp add: read_bits_def remaining_bits_def Let_def)
qed

text \<open>Sequences of \<open>STBITS\<close> and of \<open>LDU\<close>.\<close>

fun store_all :: "builder \<Rightarrow> (u256 \<times> nat) list \<Rightarrow> exception_kind + builder" where
  "store_all b [] = Inr b"
| "store_all b (vw # vws) = bindR (append_bits b (fst vw) (snd vw)) (\<lambda>b. store_all b vws)"

fun load_all :: "cell_slice \<Rightarrow> nat list \<Rightarrow> exception_kind + u256 list" where
  "load_all sl [] = Inr []"
| "load_all sl (w # ws) = bindR (read_bits sl w) (\<lambda>(v, sl). bindR (load_all sl ws) (\<lambda>vs. Inr (v # vs)))"

lemma store_all_stores:
  assumes "stores b bs" "\<forall>vw \<in> set vws. snd vw \<le> 256" "length bs + sum_list (map snd vws) \<le> 1024"
  shows "\<exists>b'. store_all b vws = Inr b' \<and> stores b' (bs @ concat (map vbits vws))"
  using assms
proof (induction vws arbitrary: b bs)
  case (Cons vw vws)
  obtain b' where b': "append_bits b (fst vw) (snd vw) = Inr b'" "stores b' (bs @ vbits vw)"
    using append_bits_stores [OF Cons.prems(1), of "snd vw" "fst vw"] Cons.prems(2, 3) by auto
  show ?case using Cons.IH [OF b'(2)] Cons.prems(2, 3) b'(1) by auto
qed auto

lemma load_all_bits:
  assumes "\<forall>vw \<in> set vws. snd vw \<le> 256"
    and "bit_offset sl + length (concat (map vbits vws)) \<le> 8 * length (data_bytes (slice_cell sl))"
    and "\<And>i. i < length (concat (map vbits vws)) \<Longrightarrow>
      bit_at (data_bytes (slice_cell sl)) (bit_offset sl + i) = concat (map vbits vws) ! i"
  shows "load_all sl (map snd vws) = Inr (map (\<lambda>vw. take_bit (snd vw) (fst vw)) vws)"
  using assms
proof (induction vws arbitrary: sl)
  case (Cons vw vws)
  have "bit_at (data_bytes (slice_cell sl)) (bit_offset sl + i) = bit (fst vw) (snd vw - 1 - i)" if "i < snd vw" for i
    using Cons.prems(3) [of i] that by (simp add: nth_append) (simp add: vbits_def)
  then have r: "read_bits sl (snd vw) = Inr (take_bit (snd vw) (fst vw), sl\<lparr>bit_offset := bit_offset sl + snd vw\<rparr>)"
    using Cons.prems(1, 2) by (intro read_bits_vbits) auto
  have "load_all (sl\<lparr>bit_offset := bit_offset sl + snd vw\<rparr>) (map snd vws) =
      Inr (map (\<lambda>vw. take_bit (snd vw) (fst vw)) vws)"
  proof (rule Cons.IH)
    fix i assume "i < length (concat (map vbits vws))"
    then show "bit_at (data_bytes (slice_cell (sl\<lparr>bit_offset := bit_offset sl + snd vw\<rparr>)))
       (bit_offset (sl\<lparr>bit_offset := bit_offset sl + snd vw\<rparr>) + i) = concat (map vbits vws) ! i"
      using Cons.prems(3) [of "snd vw + i"] by (simp add: nth_append add.assoc)
  qed (use Cons.prems in auto)
  then show ?case using r by simp
qed simp

lemma length_concat_vbits: "length (concat (map vbits vws)) = sum_list (map snd vws)"
  by (induction vws) auto

text \<open>
  C20. Builders and slices agree on the layout of bits: values of at most 256 bits whose widths add up to
  at most 1024 bits can be stored one after the other in an empty builder, and a slice of
  a cell with the builder's bytes loads, with the same widths, the low bits of the same values in the same order.
\<close>

theorem stored_bits_load_back:
  assumes "\<forall>vw \<in> set vws. snd vw \<le> 256" "sum_list (map snd vws) \<le> 1024"
  shows "\<exists>b. store_all builder_default vws = Inr b \<and> length (b_data_bytes b) \<le> 128 \<and>
    load_all (slice_new \<lparr>data_bytes = b_data_bytes b, cell_refs = rs, is_special = False\<rparr>) (map snd vws) =
      Inr (map (\<lambda>vw. take_bit (snd vw) (fst vw)) vws)"
proof -
  have "stores builder_default []" by (simp add: stores_def builder_default_def packed_def div_ceil_def)
  from store_all_stores [OF this assms(1)] assms(2) obtain b where
    b: "store_all builder_default vws = Inr b" "stores b (concat (map vbits vws))" by auto
  have len: "length (b_data_bytes b) = div_ceil (sum_list (map snd vws)) 8"
    using b(2) by (simp add: stores_def packed_def length_concat_vbits)
  have "load_all (slice_new \<lparr>data_bytes = b_data_bytes b, cell_refs = rs, is_special = False\<rparr>) (map snd vws) =
      Inr (map (\<lambda>vw. take_bit (snd vw) (fst vw)) vws)"
    by (rule load_all_bits)
      (use assms(1) b(2) len in \<open>auto simp: slice_new_def stores_def length_concat_vbits div_ceil_def\<close>)
  then show ?thesis using b(1) len assms(2) by (auto simp: div_ceil_def)
qed

theorem stored_bits_load_back_witness:
  "\<exists>b. store_all builder_default [(5, 3), (0x1FF, 8), (1, 2)] = Inr b \<and> length (b_data_bytes b) \<le> 128 \<and>
    load_all (slice_new \<lparr>data_bytes = b_data_bytes b, cell_refs = [], is_special = False\<rparr>) [3, 8, 2] = Inr [5, 0xFF, 1]"
  using stored_bits_load_back [of "[(5, 3), (0x1FF, 8), (1, 2)]" "[]"] by (simp add: take_bit_eq_mod)

end
