(* ===== verification/Vm_Typing.thy ===== *)
theory Vm_Typing
  imports Vm_Safety
begin

text \<open>
  Type soundness of the virtual machine of \<open>crates/protocol/onx-execution\<close>. The fields of cells, slices and
  builders are related by the bounds their operations check; a state is well typed when everything it
  holds respects them and the program counter lies within the code, the latter as long as no exception
  handler was installed at a position outside of its own code. Every instruction keeps states
  well typed, whether it completes, fails or panics, so that the accesses by index to
  cells, slices and builders are within range at every point of every execution. The rules of the building blocks
  are collected in \<open>typing_rules\<close>.
\<close>

named_theorems typing_rules \<open>building blocks of well-typed instructions\<close>

section \<open>Well-typed values and states\<close>

definition slice_ok :: "cell_slice \<Rightarrow> bool" where
  "slice_ok sl \<longleftrightarrow> cell_ok (slice_cell sl) \<and> list_all cell_ok (child_cells sl) \<and>
     bit_offset sl \<le> 8 * length (data_bytes (slice_cell sl)) \<and> ref_offset sl \<le> length (cell_refs (slice_cell sl))"

definition builder_ok :: "builder \<Rightarrow> bool" where
  "builder_ok b \<longleftrightarrow> length (b_data_bytes b) \<le> 128 \<and> current_bit_len b \<le> 8 * length (b_data_bytes b) \<and>
     length (b_references b) \<le> 4 \<and> list_all cell_ok (b_references b)"

fun value_ok :: "stack_value \<Rightarrow> bool" where
  "value_ok (VInteger w) = True"
| "value_ok (VBytes bs) = True"
| "value_ok (VCell c) = cell_ok c"
| "value_ok (VSlice sl) = slice_ok sl"
| "value_ok (VBuilder b) = builder_ok b"

text \<open>
  A position in a code cell, and the continuations a control register may hold. Whether positions have
  to lie within the code is a parameter: they do in an execution whose handlers were installed
  at such positions, which the machine does not check.
\<close>

definition position_ok :: "bool \<Rightarrow> cell \<Rightarrow> nat \<Rightarrow> bool" where
  "position_ok pos c pc \<longleftrightarrow> cell_ok c \<and> (pos \<longrightarrow> pc \<le> 8 * length (data_bytes c))"

definition register_ok :: "bool \<Rightarrow> continuation option \<Rightarrow> bool" where
  "register_ok pos k \<longleftrightarrow> (case k of None \<Rightarrow> True | Some k \<Rightarrow> position_ok pos (cont_code k) (cont_pc k))"

definition well_typed :: "bool \<Rightarrow> interpreter \<Rightarrow> bool" where
  "well_typed pos s \<longleftrightarrow> list_all value_ok (stack s) \<and> length (stack s) \<le> MAX_STACK_DEPTH \<and>
     position_ok pos (current_code s) (pc_bits s) \<and> list_all (\<lambda>(c, pc). position_ok pos c pc) (call_stack s) \<and>
     register_ok pos (c0 (control_registers s)) \<and> register_ok pos (c1 (control_registers s)) \<and>
     register_ok pos (c2 (control_registers s)) \<and> list_all cell_ok (code_refs s)"

text \<open>An instruction that keeps states well typed and whose results satisfy \<open>Q\<close>.\<close>

definition keeps :: "bool \<Rightarrow> ('a \<Rightarrow> bool) \<Rightarrow> 'a vm \<Rightarrow> bool" where
  "keeps pos Q m \<longleftrightarrow> (\<forall>s. well_typed pos s \<longrightarrow> well_typed pos (snd (m s)) \<and> (\<forall>x. fst (m s) = Inr x \<longrightarrow> Q x))"

section \<open>Rules for the building blocks\<close>

lemma keeps_bnd [typing_rules]: "keeps pos P m \<Longrightarrow> (\<And>x. P x \<Longrightarrow> keeps pos Q (f x)) \<Longrightarrow> keeps pos Q (bnd m f)"
  by (fastforce simp: keeps_def bnd_def split: prod.splits sum.splits)

lemma keeps_bnd_any: "keeps pos (\<lambda>_. True) m \<Longrightarrow> (\<And>x. keeps pos Q (f x)) \<Longrightarrow> keeps pos Q (bnd m f)"
  by (rule keeps_bnd)

lemma keeps_ret [typing_rules]: "Q x \<Longrightarrow> keeps pos Q (ret x)"
  by (simp add: keeps_def ret_def)

lemma keeps_raise [typing_rules]: "keeps pos Q (raise e)" "keeps pos Q panic"
  by (simp_all add: keeps_def raise_def panic_def)

lemma keeps_lift: "(\<And>x. r = Inr x \<Longrightarrow> Q x) \<Longrightarrow> keeps pos Q (lift_r r)"
  by (cases r) (simp_all add: keeps_def lift_r_def)

lemma keeps_lift_any [typing_rules]: "keeps pos (\<lambda>x. r = Inr x) (lift_r r)"
  by (rule keeps_lift)

lemma keeps_if [typing_rules]: "(b \<Longrightarrow> keeps pos Q m) \<Longrightarrow> (\<not> b \<Longrightarrow> keeps pos Q n) \<Longrightarrow> keeps pos Q (if b then m else n)"
  by simp

lemma keeps_let [typing_rules]: "keeps pos Q (f x) \<Longrightarrow> keeps pos Q (Let x f)"
  by simp

lemma keeps_profile [typing_rules]: "keeps pos Q m \<Longrightarrow> keeps pos Q n \<Longrightarrow> keeps pos Q (case p of Dev \<Rightarrow> m | Release \<Rightarrow> n)"
  by (cases p) simp_all

lemma keeps_gas [typing_rules]: "keeps pos (\<lambda>_. True) (consume_gas n)"
  by (auto simp: keeps_def consume_gas_def well_typed_def Let_def)

lemma keeps_pop [typing_rules]: "keeps pos value_ok vm_pop"
  by (auto simp: keeps_def vm_pop_def well_typed_def split: list.splits)

lemma keeps_push [typing_rules]: "value_ok v \<Longrightarrow> keeps pos (\<lambda>_. True) (vm_push v)"
  by (auto simp: keeps_def vm_push_def well_typed_def)

lemma keeps_reads_stack [typing_rules]:
  "keeps pos (\<lambda>st. list_all value_ok st \<and> length st \<le> MAX_STACK_DEPTH) (reads stack)"
  by (simp add: keeps_def reads_def well_typed_def)

lemma keeps_reads_refs [typing_rules]: "keeps pos (list_all cell_ok) (reads code_refs)"
  by (simp add: keeps_def reads_def well_typed_def)

lemma keeps_set_stack [typing_rules]:
  "list_all value_ok st \<Longrightarrow> length st \<le> MAX_STACK_DEPTH \<Longrightarrow> keeps pos (\<lambda>_. True) (modifies (\<lambda>s. s\<lparr>stack := st\<rparr>))"
  by (simp add: keeps_def modifies_def well_typed_def)

lemma keeps_set_code [typing_rules]:
  "position_ok pos c pc \<Longrightarrow> keeps pos (\<lambda>_. True) (modifies (\<lambda>s. s\<lparr>current_code := c, pc_bits := pc\<rparr>))"
  by (simp add: keeps_def modifies_def well_typed_def)

lemma keeps_call [typing_rules]: "keeps pos (\<lambda>_. True) (modifies (\<lambda>s. if b then push_call s else s))"
  by (simp add: keeps_def modifies_def well_typed_def push_call_def set_c0_def register_ok_def)

lemma keeps_value_case [typing_rules]:
  "value_ok v \<Longrightarrow> (\<And>w. keeps pos Q (f1 w)) \<Longrightarrow> (\<And>b. keeps pos Q (f2 b)) \<Longrightarrow> (\<And>c. cell_ok c \<Longrightarrow> keeps pos Q (f3 c)) \<Longrightarrow>
     (\<And>sl. slice_ok sl \<Longrightarrow> keeps pos Q (f4 sl)) \<Longrightarrow> (\<And>b. builder_ok b \<Longrightarrow> keeps pos Q (f5 b)) \<Longrightarrow>
     keeps pos Q (case v of VInteger w \<Rightarrow> f1 w | VBytes b \<Rightarrow> f2 b | VCell c \<Rightarrow> f3 c | VSlice sl \<Rightarrow> f4 sl | VBuilder b \<Rightarrow> f5 b)"
  by (cases v) simp_all

lemma keeps_list_case [typing_rules]:
  "list_all P l \<Longrightarrow> keeps pos Q m \<Longrightarrow> (\<And>x xs. P x \<Longrightarrow> list_all P xs \<Longrightarrow> keeps pos Q (f x xs)) \<Longrightarrow>
     keeps pos Q (case l of [] \<Rightarrow> m | x # xs \<Rightarrow> f x xs)"
  by (cases l) simp_all

lemma keeps_pops [typing_rules]:
  "keeps pos (\<lambda>_. True) pop_integer" "keeps pos (\<lambda>_. True) pop_bytes" "keeps pos cell_ok pop_cell" "keeps pos slice_ok pop_slice"
  "keeps pos builder_ok pop_builder"
  unfolding pop_integer_def pop_bytes_def pop_cell_def pop_slice_def pop_builder_def
  by (rule typing_rules | assumption | simp)+

lemma keeps_any: "keeps pos Q m \<Longrightarrow> keeps pos (\<lambda>_. True) m"
  by (simp add: keeps_def)

lemma keeps_pop_i128 [typing_rules]: "keeps pos (\<lambda>_. True) pop_i128"
  unfolding pop_i128_def by (rule keeps_lift typing_rules | assumption | simp)+

lemma keeps_read_uint8 [typing_rules]: "keeps pos (\<lambda>_. True) read_uint8"
  by (auto simp: keeps_def read_uint8_def well_typed_def position_ok_def code_bits_def Let_def)

lemma keeps_read_uint16 [typing_rules]: "keeps pos (\<lambda>_. True) read_uint16"
  unfolding read_uint16_def by (rule typing_rules | assumption | simp)+

lemma keeps_read_bytes [typing_rules]: "keeps pos (\<lambda>_. True) (read_bytes_exact n)"
  by (induction n) (simp_all, (rule typing_rules | assumption | simp)+)

lemma from_i128_ok [simp]: "value_ok (from_i128 v)"
  by (simp add: from_i128_def)

lemma keeps_push_checked [typing_rules]: "keeps pos (\<lambda>_. True) (push_checked r)"
  unfolding push_checked_def by (rule typing_rules | assumption | simp)+

lemma keeps_fit_result [typing_rules]: "keeps pos (\<lambda>_. True) (fit_result p width flavor r)"
  unfolding fit_result_def by (rule keeps_bnd_any keeps_lift keeps_ret keeps_raise keeps_if keeps_profile TrueI)+

lemma keeps_branch_condition [typing_rules]: "keeps pos (\<lambda>_. True) (branch_condition opcode)"
  unfolding branch_condition_def by (rule typing_rules | assumption | simp)+

text \<open>Jumps stay within the code, and a return goes to a position that was saved.\<close>

lemma keeps_jump_relative [typing_rules]: "keeps pos (\<lambda>_. True) (jump_relative off)"
  by (auto simp: keeps_def jump_relative_def well_typed_def position_ok_def code_bits_def Let_def)

lemma saved_position:
  "tl cs = (c, pc) # rest \<Longrightarrow> list_all (\<lambda>(c, pc). position_ok pos c pc) cs \<Longrightarrow>
     position_ok pos c pc \<and> list_all (\<lambda>(c, pc). position_ok pos c pc) rest"
  by (cases cs) auto

lemma keeps_return [typing_rules]: "keeps pos (\<lambda>_. True) vm_return"
  by (auto simp: keeps_def vm_return_def return_to_control_register_def take_return_def take_c0_def jump_to_def
      well_typed_def register_ok_def Let_def split: option.splits list.splits dest: saved_position)


section \<open>Operations on slices and builders\<close>

lemma length_put_bit: "length (put_bit data dest b) = (if length data \<le> dest div 8 then Suc (length data) else length data)"
  by (simp add: put_bit_def Let_def)

lemma put_bits_bounds:
  assumes "start \<le> 8 * length data" "length data \<le> 128"
  shows "start + n \<le> 1024 \<Longrightarrow>
    length (fold (\<lambda>i data. put_bit data (start + i) (f i)) [0..<n] data) \<le> 128 \<and>
    start + n \<le> 8 * length (fold (\<lambda>i data. put_bit data (start + i) (f i)) [0..<n] data)"
proof (induction n)
  case (Suc n)
  then show ?case by (auto simp: length_put_bit)
qed (use assms in simp)

lemma append_bits_ok: "append_bits b val width = Inr b' \<Longrightarrow> builder_ok b \<Longrightarrow> builder_ok b'"
  using put_bits_bounds [of "current_bit_len b" "b_data_bytes b" width]
  by (auto simp: append_bits_def builder_ok_def Let_def split: if_splits)

lemma read_bits_ok: "read_bits sl width = Inr (v, sl') \<Longrightarrow> slice_ok sl \<Longrightarrow> slice_ok sl'"
  by (auto simp: read_bits_def slice_ok_def remaining_bits_def Let_def split: if_splits)

lemma slice_new_ok: "cell_ok c \<Longrightarrow> slice_ok (slice_new c)"
  by (simp add: slice_new_def slice_ok_def)

lemma next_reference_ok:
  assumes "slice_ok sl" "remaining_refs sl \<noteq> 0"
  shows "slice_ok (sl\<lparr>ref_offset := ref_offset sl + 1\<rparr>)"
    "cell_ok (if ref_offset sl < length (child_cells sl) then child_cells sl ! ref_offset sl
       else \<lparr>data_bytes = [], cell_refs = [cell_refs (slice_cell sl) ! ref_offset sl], is_special = False\<rparr>)"
  using assms by (auto simp: slice_ok_def remaining_refs_def cell_ok_def list_all_length)

section \<open>Every instruction keeps states well typed\<close>

lemma keeps_prod [typing_rules]: "(\<And>a b. x = (a, b) \<Longrightarrow> keeps pos Q (f a b)) \<Longrightarrow> keeps pos Q (case x of (a, b) \<Rightarrow> f a b)"
  by (cases x) simp

text \<open>Instructions whose values need no argument of their own.\<close>

lemma keeps_plain:
  "keeps pos (\<lambda>_. True) op_nop" "keeps pos (\<lambda>_. True) op_drop" "keeps pos (\<lambda>_. True) op_swap" "keeps pos (\<lambda>_. True) op_rot"
  "keeps pos (\<lambda>_. True) op_pushint" "keeps pos (\<lambda>_. True) op_pushbytes" "keeps pos (\<lambda>_. True) op_iszero" "keeps pos (\<lambda>_. True) op_conv"
  "keeps pos (\<lambda>_. True) op_bytelen" "keeps pos (\<lambda>_. True) op_concat" "keeps pos (\<lambda>_. True) op_byteeq" "keeps pos (\<lambda>_. True) op_isexotic"
  "keeps pos (\<lambda>_. True) op_sempty" "keeps pos (\<lambda>_. True) op_sbits" "keeps pos (\<lambda>_. True) op_srefs"
  "keeps pos (\<lambda>_. True) (op_hashbytes cr)" "keeps pos (\<lambda>_. True) (op_hashcell cr)" "keeps pos (\<lambda>_. True) op_ret"
  "keeps pos (\<lambda>_. True) op_throw" "keeps pos (\<lambda>_. True) op_ifelse" "keeps pos (\<lambda>_. True) op_ifret" "keeps pos (\<lambda>_. True) op_repeat"
  "keeps pos (\<lambda>_. True) op_until"
  unfolding op_nop_def op_drop_def op_swap_def op_rot_def op_pushint_def op_pushbytes_def op_iszero_def op_conv_def
    op_bytelen_def op_concat_def op_byteeq_def op_isexotic_def op_sempty_def op_sbits_def op_srefs_def op_hashbytes_def
    op_hashcell_def op_ret_def op_throw_def op_ifelse_def op_ifret_def op_repeat_def op_until_def
  by (rule typing_rules TrueI from_i128_ok value_ok.simps(1,2) [THEN iffD2] | assumption)+


lemmas plain_rules = typing_rules TrueI from_i128_ok value_ok.simps(1,2) [THEN iffD2]

lemma keeps_arith: "keeps pos (\<lambda>_. True) (op_arith opcode)" "keeps pos (\<lambda>_. True) (op_extended p opcode)"
  unfolding op_arith_def op_arith_body_def op_extended_def by (rule plain_rules | assumption)+

lemma keeps_bytes: "keeps pos (\<lambda>_. True) (op_subbytes p)" "keeps pos (\<lambda>_. True) (op_chksignu cr)"
  unfolding op_subbytes_def op_chksignu_def by (rule plain_rules | assumption)+

text \<open>Instructions that read the stack below its top.\<close>

lemma keeps_with_stack:
  "(\<And>st. list_all value_ok st \<Longrightarrow> length st \<le> MAX_STACK_DEPTH \<Longrightarrow> keeps pos Q (f st)) \<Longrightarrow> keeps pos Q (bnd (reads stack) f)"
  by (rule keeps_bnd [OF keeps_reads_stack]) simp

lemma nth_value_ok: "list_all value_ok st \<Longrightarrow> i < length st \<Longrightarrow> value_ok (st ! i)"
  by (simp add: list_all_length)

lemma rotated_ok:
  assumes "list_all value_ok st" "length st \<le> MAX_STACK_DEPTH" "r \<le> n" "n \<le> length st"
  shows "list_all value_ok (drop r (take n st) @ take r st @ drop n st)"
    "length (drop r (take n st) @ take r st @ drop n st) \<le> MAX_STACK_DEPTH"
  using assms by (auto simp: list_all_iff dest!: in_set_dropD in_set_takeD)

lemma removed_ok:
  assumes "list_all value_ok st" "length st \<le> MAX_STACK_DEPTH"
  shows "list_all value_ok (take i st @ drop (i + 1) st)" "length (take i st @ drop (i + 1) st) \<le> MAX_STACK_DEPTH"
  using assms by (auto simp: list_all_iff dest!: in_set_dropD in_set_takeD)

lemma keeps_stack:
  "keeps pos (\<lambda>_. True) op_dup" "keeps pos (\<lambda>_. True) op_over" "keeps pos (\<lambda>_. True) op_pick" "keeps pos (\<lambda>_. True) op_roll"
  "keeps pos (\<lambda>_. True) op_nip" "keeps pos (\<lambda>_. True) op_tuck"
  unfolding op_dup_def op_over_def op_pick_def op_roll_def op_nip_def op_tuck_def
  by (rule keeps_with_stack plain_rules removed_ok nth_value_ok | assumption | simp)+

lemma keeps_blkswap: "keeps pos (\<lambda>_. True) op_blkswap"
  unfolding op_blkswap_def Let_def
  by (rule keeps_with_stack plain_rules rotated_ok | assumption | simp)+

section \<open>Cells, slices and builders\<close>

lemma keeps_newc: "keeps pos (\<lambda>_. True) op_newc"
  unfolding op_newc_def by (rule plain_rules | assumption | simp add: builder_ok_def builder_default_def)+

lemma keeps_endc: "keeps pos (\<lambda>_. True) (op_endc cr)"
  unfolding op_endc_def
  by (rule plain_rules | assumption | auto simp: map_err_def cell_new_Inr split: sum.splits)+

lemma keeps_stbits: "keeps pos (\<lambda>_. True) op_stbits"
  unfolding op_stbits_def by (rule plain_rules | assumption | simp add: append_bits_ok)+

lemma keeps_stref: "keeps pos (\<lambda>_. True) op_stref" and keeps_stbytes: "keeps pos (\<lambda>_. True) op_stbytes"
  unfolding op_stref_def op_stbytes_def by (rule plain_rules | assumption | simp add: builder_ok_def)+

lemma keeps_ctos: "keeps pos (\<lambda>_. True) op_ctos"
  unfolding op_ctos_def by (rule plain_rules | assumption | simp add: slice_new_ok)+

lemma keeps_ld: "keeps pos (\<lambda>_. True) op_ld"
  unfolding op_ld_def by (rule plain_rules | assumption | simp add: read_bits_ok)+

lemma keeps_ldref: "keeps pos (\<lambda>_. True) op_ldref"
  unfolding op_ldref_def Let_def
  by (rule plain_rules next_reference_ok value_ok.simps(3,4) [THEN iffD2] | assumption)+

section \<open>Branches\<close>

lemma keeps_branch: "keeps pos (\<lambda>_. True) (op_branch opcode)"
  unfolding op_branch_def
  by (rule plain_rules | assumption | simp add: position_ok_def list_all_length)+

lemma exec_op_keeps: "keeps pos (\<lambda>_. True) (exec_op cr p opcode)"
  unfolding exec_op_def
  by (intro keeps_if keeps_plain keeps_arith keeps_bytes keeps_stack keeps_blkswap keeps_newc keeps_endc keeps_stbits
      keeps_stref keeps_stbytes keeps_ctos keeps_ld keeps_ldref keeps_branch keeps_raise)


section \<open>Steps and executions\<close>

lemma vm_step_typed:
  assumes "well_typed pos s"
  shows "well_typed pos (snd (vm_step cr p s))"
proof (cases "code_bits s \<le> pc_bits s")
  case True
  then show ?thesis
    using assms by (cases "call_stack s") (auto simp: vm_step_def well_typed_def)
next
  case False
  have "keeps pos (\<lambda>_. True) (bnd read_uint8 (exec_op cr p))"
    by (rule keeps_bnd [OF keeps_read_uint8 exec_op_keeps])
  then show ?thesis using assms False by (simp add: vm_step_def keeps_def)
qed

lemma vm_push_typed: "well_typed pos s \<Longrightarrow> value_ok v \<Longrightarrow> well_typed pos (snd (vm_push v s))"
  using keeps_push [of v] by (simp add: keeps_def)

text \<open>
  From one state of a run to the next one: a completed step, or the jump to the exception handler
  with the code of the exception on the stack.
\<close>

inductive vm_next :: "crypto \<Rightarrow> profile \<Rightarrow> interpreter \<Rightarrow> interpreter \<Rightarrow> bool" for cr p where
  Step: "vm_step cr p s = (Inr True, s') \<Longrightarrow> vm_next cr p s s'"
| Handle: "vm_step cr p s = (Inl (Exn kind), s') \<Longrightarrow> c2 (control_registers s') = Some handler \<Longrightarrow>
    vm_push (from_i128 (exception_code kind)) s' = (Inr (), s'') \<Longrightarrow> vm_next cr p s (jump_to handler s'')"

text \<open>How a run ends: a return, a panic, or an exception that is not handled.\<close>

inductive vm_halts :: "crypto \<Rightarrow> profile \<Rightarrow> interpreter \<Rightarrow> run_outcome \<Rightarrow> bool" for cr p where
  Return: "vm_step cr p s = (Inr False, s') \<Longrightarrow>
    vm_halts cr p s (Finished (Success (vm_data s') (out_messages s') (gas_used s')))"
| Abort: "vm_step cr p s = (Inl Panic, s') \<Longrightarrow> vm_halts cr p s Panicked"
| Unhandled: "vm_step cr p s = (Inl (Exn kind), s') \<Longrightarrow> c2 (control_registers s') = None \<Longrightarrow>
    vm_halts cr p s (Finished (Exception kind (gas_used s')))"
| Overfull: "vm_step cr p s = (Inl (Exn kind), s') \<Longrightarrow> c2 (control_registers s') = Some handler \<Longrightarrow>
    vm_push (from_i128 (exception_code kind)) s' = (Inl e, s'') \<Longrightarrow>
    vm_halts cr p s (Finished (Exception kind (gas_used s'')))"

text \<open>The loop of \<open>run\<close> goes through these states: it ends exactly where the relation halts.\<close>

lemma run_reaches: "run cr p fuel s = Some r \<Longrightarrow> \<exists>t. (vm_next cr p)\<^sup>*\<^sup>* s t \<and> vm_halts cr p t r"
proof (induction fuel arbitrary: s)
  case (Suc fuel)
  have again: ?case if "vm_next cr p s s'" "run cr p fuel s' = Some r" for s'
    using Suc.IH [OF that(2)] that(1) by (blast intro: converse_rtranclp_into_rtranclp)
  obtain x s' where step: "vm_step cr p s = (x, s')" by fastforce
  consider "x = Inr True" | "x = Inr False" | "x = Inl Panic" | kind where "x = Inl (Exn kind)"
    by (metis (full_types) obj_sumE vm_error.exhaust)
  then show ?case
  proof cases
    case 1
    then show ?thesis using again [OF Step] Suc.prems step by simp
  next
    case 2
    then show ?thesis using Suc.prems step by (auto intro!: exI [of _ s] vm_halts.intros)
  next
    case 3
    then show ?thesis using Suc.prems step by (auto intro!: exI [of _ s] vm_halts.intros)
  next
    case (4 kind)
    note exn = step [unfolded 4]
    show ?thesis
    proof (cases "c2 (control_registers s')")
      case None
      then show ?thesis using Suc.prems exn by (auto intro!: exI [of _ s] vm_halts.intros)
    next
      case (Some handler)
      obtain y s'' where push: "vm_push (from_i128 (exception_code kind)) s' = (y, s'')" by fastforce
      show ?thesis
      proof (cases y)
        case (Inl e)
        then show ?thesis
          using Suc.prems exn Some push by (auto intro!: exI [of _ s] vm_halts.Overfull)
      next
        case (Inr u)
        then show ?thesis
          using again [OF Handle [OF exn Some]] Suc.prems exn Some push by simp
      qed
    qed
  qed
qed simp

lemma vm_next_typed: "vm_next cr p s s' \<Longrightarrow> well_typed pos s \<Longrightarrow> well_typed pos s'"
proof (induction rule: vm_next.induct)
  case (Step s s')
  then show ?case using vm_step_typed [of pos s cr p] by simp
next
  case (Handle s kind s' handler s'')
  have s': "well_typed pos s'" using vm_step_typed [OF Handle.prems, of cr p] Handle.hyps(1) by simp
  have "well_typed pos s''" using vm_push_typed [OF s' from_i128_ok [of "exception_code kind"]] Handle.hyps(3) by simp
  moreover have "register_ok pos (Some handler)" using s' Handle.hyps(2) by (simp add: well_typed_def)
  ultimately show ?case by (simp add: jump_to_def well_typed_def register_ok_def)
qed


lemma reachable_typed: "(vm_next cr p)\<^sup>*\<^sup>* s t \<Longrightarrow> well_typed pos s \<Longrightarrow> well_typed pos t"
  by (induction rule: rtranclp_induct) (auto intro: vm_next_typed)

lemma start_typed:
  assumes "cell_ok code" "\<forall>k \<in> set handlers. position_ok pos (cont_code k) (cont_pc k)"
  shows "well_typed pos (fold (\<lambda>k s. set_exception_handler s k) handlers (interpreter_new code data m ctx))"
proof -
  have "well_typed pos s \<Longrightarrow> well_typed pos (fold (\<lambda>k s. set_exception_handler s k) handlers s)" for s
    using assms(2)
    by (induction handlers arbitrary: s) (auto simp: set_exception_handler_def set_c2_def well_typed_def register_ok_def)
  moreover have "well_typed pos (interpreter_new code data m ctx)"
    using assms(1) by (simp add: well_typed_def interpreter_new_def position_ok_def registers_default_def register_ok_def)
  ultimately show ?thesis by blast
qed

lemma builder_finishes: "builder_ok b \<Longrightarrow> \<exists>c. cell_new (b_data_bytes b) (map (cell_hash cr) (b_references b)) = Inr c"
  by (simp add: cell_new_Inr cell_ok_def builder_ok_def)

section \<open>Properties\<close>

text \<open>
  C17. Executions are type sound. In every state an execution of a valid code cell goes through,
  whatever exception handlers with valid code cells were installed, at whatever positions, the stack holds
  at most 1023 values, all within the bounds of their types: cells of at most 128 bytes and four
  references, slices whose offsets lie within their cell, builders that \<open>ENDC\<close> turns into a cell
  without failing. If the handlers were installed at positions within their code, then the program
  counter never leaves the code.
\<close>

theorem vm_states_well_typed:
  assumes "cell_ok code" "\<forall>k \<in> set handlers. cell_ok (cont_code k)"
    and "(vm_next cr p)\<^sup>*\<^sup>* (fold (\<lambda>k s. set_exception_handler s k) handlers (interpreter_new code data m ctx)) s"
  shows "length (stack s) \<le> 1023 \<and> list_all value_ok (stack s) \<and>
    (\<forall>b. VBuilder b \<in> set (stack s) \<longrightarrow>
       (\<exists>c. cell_new (b_data_bytes b) (map (cell_hash cr) (b_references b)) = Inr c)) \<and>
    ((\<forall>k \<in> set handlers. cont_pc k \<le> 8 * length (data_bytes (cont_code k))) \<longrightarrow> pc_bits s \<le> code_bits s)"
proof -
  have typed: "well_typed False s"
    by (rule reachable_typed [OF assms(3) start_typed [OF assms(1)]]) (use assms(2) in \<open>simp add: position_ok_def\<close>)
  have "pc_bits s \<le> code_bits s" if "\<forall>k \<in> set handlers. cont_pc k \<le> 8 * length (data_bytes (cont_code k))"
  proof -
    have "well_typed True s"
      by (rule reachable_typed [OF assms(3) start_typed [OF assms(1)]]) (use assms(2) that in \<open>simp add: position_ok_def\<close>)
    then show ?thesis by (simp add: well_typed_def position_ok_def code_bits_def)
  qed
  moreover have "length (stack s) \<le> 1023" "list_all value_ok (stack s)"
    using typed by (simp_all add: well_typed_def MAX_STACK_DEPTH_def)
  moreover have "\<exists>c. cell_new (b_data_bytes b) (map (cell_hash cr) (b_references b)) = Inr c"
    if "VBuilder b \<in> set (stack s)" for b
    using builder_finishes that typed by (fastforce simp: well_typed_def list_all_iff)
  ultimately show ?thesis by blast
qed

text \<open>\<open>NEWC\<close> on an empty stack.\<close>

theorem vm_states_well_typed_witness:
  "\<exists>s. vm_next toy_crypto Dev (interpreter_new (code_cell [0x40]) (code_cell [7]) sample_message
      (sample_ctx\<lparr>ctx_gas_limit := 20\<rparr>)) s \<and>
    VBuilder builder_default \<in> set (stack s) \<and> list_all value_ok (stack s)"
proof -
  let ?s = "interpreter_new (code_cell [0x40]) (code_cell [7]) sample_message (sample_ctx\<lparr>ctx_gas_limit := 20\<rparr>)"
  have code: "cell_ok (code_cell [0x40])" by (simp add: cell_ok_def code_cell_def)
  have start: "fold (\<lambda>k s. set_exception_handler s k) [] ?s = ?s" by simp
  have "\<exists>s. vm_step toy_crypto Dev ?s = (Inr True, s) \<and> stack s = [VBuilder builder_default]"
    by (simp add: vm_eval op_newc_def sample_ctx_def)
  then obtain s where s: "vm_next toy_crypto Dev ?s s" "stack s = [VBuilder builder_default]"
    using vm_next.Step by blast
  then have reach: "(vm_next toy_crypto Dev)\<^sup>*\<^sup>* (fold (\<lambda>k s. set_exception_handler s k) [] ?s) s"
    unfolding start by blast
  have "\<forall>k \<in> set []. cell_ok (cont_code k)" by simp
  from vm_states_well_typed [OF code this reach] show ?thesis using s by auto
qed

end
