(* ===== verification/Consensus.thy ===== *)
theory Consensus
  imports Addresses Block_Headers Ordered_Maps Machines
begin

text \<open>
  \<open>crates/protocol/onx-consensus/src/lib.rs\<close> and \<open>engine.rs\<close>: the vote accumulator, the late
  reward, the finality window, and the round-based state machine that finalizes one block per shard
  height. An operation takes the engine and returns the engine it leaves with the result of the
  call, since a rejected message leaves the engine as it was.
\<close>

datatype consensus_error =
    InvalidCandidateStake | InvalidLoadFactor | DuplicateCandidate | EmptyValidatorSet
  | InsufficientQuorumStake | InvalidSignature | DuplicateValidatorSignature | InvalidSignatureDepth
  | InvalidityProofVerificationFailed | ChallengeWindowExpired | DoubleSigningDetected | UnknownValidator
  | InvalidLeader | InvalidRound | InvalidStep | ConflictingProposal

record validator_set_entry =
  validator_id :: u32
  v_public_key :: public_key
  actual_stake :: u64

section \<open>The vote accumulator\<close>

record block_signature_with_depth =
  sig_validator_id :: u32
  sig_depth :: u16
  sig_signature :: signature

record bft_quorum_tracker =
  q_shard :: shard_ident
  q_block_hash :: hash32
  total_group_stake :: u64
  signed_stake :: u64
  signatories :: "u32 list"

definition quorum_new :: "shard_ident \<Rightarrow> hash32 \<Rightarrow> u64 \<Rightarrow> bft_quorum_tracker" where
  "quorum_new sh h tot =
     \<lparr>q_shard = sh, q_block_hash = h, total_group_stake = tot, signed_stake = 0, signatories = []\<rparr>"

definition add_vote ::
  "crypto \<Rightarrow> bft_quorum_tracker \<Rightarrow> block_signature_with_depth \<Rightarrow> validator_set_entry \<Rightarrow>
     bft_quorum_tracker \<times> (consensus_error + unit)" where
  "add_vote cr t vote v =
     (if sig_validator_id vote \<noteq> validator_id v then (t, Inl InvalidSignature)
      else if sig_validator_id vote \<in> set (signatories t) then (t, Inl DuplicateValidatorSignature)
      else if \<not> is_ok (verify cr (v_public_key v) VALIDATOR_SIGN_V1 (encode (q_block_hash t)) (sig_signature vote))
      then (t, Inl InvalidSignature)
      else (t\<lparr>signatories := signatories t @ [sig_validator_id vote],
              signed_stake := saturating_add (signed_stake t) (actual_stake v)\<rparr>, Inr ()))"

text \<open>The products are taken at 128 bits, which they fit.\<close>

definition two_thirds :: "u64 \<Rightarrow> u64 \<Rightarrow> bool" where
  "two_thirds sgn_stake tot \<longleftrightarrow> (ucast sgn_stake :: u128) * 3 \<ge> (ucast tot :: u128) * 2"

definition has_quorum :: "bft_quorum_tracker \<Rightarrow> bool" where
  "has_quorum t \<longleftrightarrow> two_thirds (signed_stake t) (total_group_stake t)"

definition verify_quorum :: "bft_quorum_tracker \<Rightarrow> consensus_error + unit" where
  "verify_quorum t = (if has_quorum t then Inr () else Inl InsufficientQuorumStake)"

definition calculate_late_reward :: "u128 \<Rightarrow> u16 \<Rightarrow> u128" where
  "calculate_late_reward base_reward blocks_late =
     (if blocks_late > 16 then 0
      else saturating_mul base_reward (9 ^ unat blocks_late) div (10 ^ unat blocks_late))"

definition CHALLENGE_WINDOW_BLOCKS :: u64 where
  "CHALLENGE_WINDOW_BLOCKS = 1048576"

definition is_block_irrevocably_final :: "u64 \<Rightarrow> u64 \<Rightarrow> bool \<Rightarrow> bool" where
  "is_block_irrevocably_final commit_height current_height has_accepted_invalidity_proof \<longleftrightarrow>
     (if has_accepted_invalidity_proof then False
      else current_height \<ge> saturating_add commit_height CHALLENGE_WINDOW_BLOCKS)"

definition evaluate_candidate_block_header :: "block_header \<Rightarrow> consensus_error + unit" where
  "evaluate_candidate_block_header header = Inr ()"

section \<open>Messages of the engine\<close>

datatype vote_phase = PreVote | PreCommit | Commit

fun phase_rank :: "vote_phase \<Rightarrow> u8" where
  "phase_rank PreVote = 1"
| "phase_rank PreCommit = 2"
| "phase_rank Commit = 3"

text \<open>The derived order is the order of declaration, which is the rank.\<close>

instantiation vote_phase :: linorder
begin

definition less_eq_vote_phase :: "vote_phase \<Rightarrow> vote_phase \<Rightarrow> bool" where
  "less_eq_vote_phase a b \<longleftrightarrow> phase_rank a \<le> phase_rank b"

definition less_vote_phase :: "vote_phase \<Rightarrow> vote_phase \<Rightarrow> bool" where
  "less_vote_phase a b \<longleftrightarrow> phase_rank a < phase_rank b"

instance
proof
  fix x y z :: vote_phase
  show "x \<le> y \<Longrightarrow> y \<le> x \<Longrightarrow> x = y"
    by (cases x; cases y) (simp_all add: less_eq_vote_phase_def word_le_nat_alt)
qed (auto simp: less_eq_vote_phase_def less_vote_phase_def)

end

datatype consensus_step = SProposal | SPreVote | SPreCommit | SCommit | SFinalized

record round_timeouts =
  t_proposal :: u64
  t_prevote :: u64
  t_precommit :: u64
  t_commit :: u64

definition timeouts_default :: round_timeouts where
  "timeouts_default = \<lparr>t_proposal = 3, t_prevote = 3, t_precommit = 3, t_commit = 3\<rparr>"

record consensus_proposal =
  p_height :: u64
  p_round :: u32
  p_block_hash :: hash32
  proposer_id :: u32
  p_signature :: signature

record consensus_vote =
  vote_height :: u64
  vote_round :: u32
  phase :: vote_phase
  vote_block_hash :: hash32
  voter_id :: u32
  vote_signature :: signature

record finalized_block =
  f_height :: u64
  f_round :: u32
  f_block_hash :: hash32
  commit_votes :: "consensus_vote list"

definition proposal_signing_bytes :: "shard_ident \<Rightarrow> u64 \<Rightarrow> u32 \<Rightarrow> hash32 \<Rightarrow> bytes" where
  "proposal_signing_bytes sh height rnd h =
     ascii ''ONX_CATCHAIN_PROPOSAL_V1'' @ shard_to_bytes sh @ to_be height @ to_be rnd @ encode h"

definition vote_signing_bytes :: "shard_ident \<Rightarrow> u64 \<Rightarrow> u32 \<Rightarrow> vote_phase \<Rightarrow> hash32 \<Rightarrow> bytes" where
  "vote_signing_bytes sh height rnd ph h =
     ascii ''ONX_CATCHAIN_VOTE_V1'' @ shard_to_bytes sh @ to_be height @ to_be rnd
       @ [case ph of PreVote \<Rightarrow> 1 | PreCommit \<Rightarrow> 2 | Commit \<Rightarrow> 3] @ encode h"

section \<open>The engine\<close>

record consensus_engine =
  e_shard :: shard_ident
  e_height :: u64
  e_validators :: "(u32, validator_set_entry) btree"
  e_total_stake :: u64
  e_timeouts :: round_timeouts
  round_started_at :: u64
  e_round :: u32
  e_step :: consensus_step
  e_proposal :: "consensus_proposal option"
  e_votes :: "(vote_phase, (u32, consensus_vote) btree) btree"
  e_finalized :: "finalized_block option"

text \<open>The loop of \<open>ConsensusEngine::new\<close>.\<close>

fun collect_validators ::
  "validator_set_entry list \<Rightarrow> (u32, validator_set_entry) btree \<Rightarrow> u64 \<Rightarrow>
     consensus_error + (u32, validator_set_entry) btree \<times> u64" where
  "collect_validators [] entries tot = Inr (entries, tot)"
| "collect_validators (v # vs) entries tot =
     (if bt_get entries (validator_id v) \<noteq> None then Inl DuplicateCandidate
      else collect_validators vs (bt_insert entries (validator_id v) v) (saturating_add tot (actual_stake v)))"

definition engine_new ::
  "shard_ident \<Rightarrow> u64 \<Rightarrow> validator_set_entry list \<Rightarrow> u64 \<Rightarrow> round_timeouts \<Rightarrow>
     consensus_error + consensus_engine" where
  "engine_new sh height validators now timeouts =
     bindR (collect_validators validators [] 0) (\<lambda>(entries, tot).
     if entries = [] \<or> tot = 0 then Inl EmptyValidatorSet
     else Inr \<lparr>e_shard = sh, e_height = height, e_validators = entries, e_total_stake = tot,
               e_timeouts = timeouts, round_started_at = now, e_round = 0, e_step = SProposal,
               e_proposal = None, e_votes = [], e_finalized = None\<rparr>)"

text \<open>The scheduled leader of a round; the set of validators is never empty.\<close>

definition leader :: "consensus_engine \<Rightarrow> u32" where
  "leader e = map fst (e_validators e) ! (unat (e_round e) mod length (e_validators e))"

definition bucket :: "consensus_engine \<Rightarrow> vote_phase \<Rightarrow> (u32, consensus_vote) btree" where
  "bucket e ph = (case bt_get (e_votes e) ph of None \<Rightarrow> [] | Some b \<Rightarrow> b)"

definition vote_stake :: "consensus_engine \<Rightarrow> vote_phase \<Rightarrow> u64" where
  "vote_stake e ph =
     fold (\<lambda>v tot. saturating_add tot (actual_stake v))
       (List.map_filter (bt_get (e_validators e)) (map fst (bucket e ph))) 0"

definition has_supermajority :: "consensus_engine \<Rightarrow> vote_phase \<Rightarrow> bool" where
  "has_supermajority e ph \<longleftrightarrow> two_thirds (vote_stake e ph) (e_total_stake e)"

definition receive_proposal ::
  "crypto \<Rightarrow> consensus_engine \<Rightarrow> consensus_proposal \<Rightarrow> consensus_engine \<times> (consensus_error + unit)" where
  "receive_proposal cr e p =
     (if e_step e = SFinalized then (e, Inl InvalidStep)
      else if p_height p \<noteq> e_height e \<or> p_round p \<noteq> e_round e then (e, Inl InvalidRound)
      else if proposer_id p \<noteq> leader e then (e, Inl InvalidLeader)
      else case bt_get (e_validators e) (proposer_id p) of
        None \<Rightarrow> (e, Inl UnknownValidator)
      | Some proposer \<Rightarrow>
          if \<not> is_ok (verify cr (v_public_key proposer) VALIDATOR_SIGN_V1
               (proposal_signing_bytes (e_shard e) (p_height p) (p_round p) (p_block_hash p)) (p_signature p))
          then (e, Inl InvalidSignature)
          else (case e_proposal e of
                  Some old \<Rightarrow> (e, if p_block_hash old \<noteq> p_block_hash p then Inl ConflictingProposal else Inr ())
                | None \<Rightarrow> (e\<lparr>e_proposal := Some p, e_step := SPreVote\<rparr>, Inr ())))"

text \<open>\<open>advance_after_quorum\<close>: a vote requires a proposal, so the \<open>expect\<close> of the code does not fail; the
  model keeps the engine where it would.\<close>

fun advance_after_quorum :: "consensus_engine \<Rightarrow> vote_phase \<Rightarrow> consensus_engine" where
  "advance_after_quorum e PreVote = e\<lparr>e_step := SPreCommit\<rparr>"
| "advance_after_quorum e PreCommit = e\<lparr>e_step := SCommit\<rparr>"
| "advance_after_quorum e Commit =
     (case e_proposal e of
        None \<Rightarrow> e
      | Some p \<Rightarrow>
          e\<lparr>e_votes := bt_remove (e_votes e) Commit,
            e_finalized := Some \<lparr>f_height = e_height e, f_round = e_round e, f_block_hash = p_block_hash p,
                                 commit_votes = map snd (bucket e Commit)\<rparr>,
            e_step := SFinalized\<rparr>)"

fun expected_phase :: "consensus_step \<Rightarrow> vote_phase option" where
  "expected_phase SPreVote = Some PreVote"
| "expected_phase SPreCommit = Some PreCommit"
| "expected_phase SCommit = Some Commit"
| "expected_phase _ = None"

definition insert_vote :: "consensus_engine \<Rightarrow> consensus_vote \<Rightarrow> consensus_engine" where
  "insert_vote e v =
     e\<lparr>e_votes := bt_insert (e_votes e) (phase v) (bt_insert (bucket e (phase v)) (voter_id v) v)\<rparr>"

definition receive_vote ::
  "crypto \<Rightarrow> consensus_engine \<Rightarrow> consensus_vote \<Rightarrow> consensus_engine \<times> (consensus_error + unit)" where
  "receive_vote cr e v =
     (if vote_height v \<noteq> e_height e \<or> vote_round v \<noteq> e_round e then (e, Inl InvalidRound)
      else if map_option p_block_hash (e_proposal e) \<noteq> Some (vote_block_hash v) then (e, Inl ConflictingProposal)
      else case expected_phase (e_step e) of
        None \<Rightarrow> (e, Inl InvalidStep)
      | Some expected \<Rightarrow>
          (case bt_get (e_validators e) (voter_id v) of
             None \<Rightarrow> (e, Inl UnknownValidator)
           | Some validator \<Rightarrow>
               if \<not> is_ok (verify cr (v_public_key validator) VALIDATOR_SIGN_V1
                    (vote_signing_bytes (e_shard e) (vote_height v) (vote_round v) (phase v) (vote_block_hash v))
                    (vote_signature v))
               then (e, Inl InvalidSignature)
               else if phase v \<noteq> expected then
                 (e, if phase_rank (phase v) < phase_rank expected then Inr () else Inl InvalidStep)
               else if bt_get (bucket e (phase v)) (voter_id v) \<noteq> None then (e, Inl DuplicateValidatorSignature)
               else
                 let e' = insert_vote e v in
                 (if has_supermajority e' expected then advance_after_quorum e' expected else e', Inr ())))"

definition timeout_for_step :: "consensus_engine \<Rightarrow> u64" where
  "timeout_for_step e =
     (case e_step e of SProposal \<Rightarrow> t_proposal (e_timeouts e) | SPreVote \<Rightarrow> t_prevote (e_timeouts e)
      | SPreCommit \<Rightarrow> t_precommit (e_timeouts e) | SCommit \<Rightarrow> t_commit (e_timeouts e) | SFinalized \<Rightarrow> - 1)"

definition on_timeout :: "consensus_engine \<Rightarrow> u64 \<Rightarrow> consensus_engine \<times> bool" where
  "on_timeout e now =
     (if e_step e = SFinalized \<or> saturating_sub now (round_started_at e) < timeout_for_step e then (e, False)
      else (e\<lparr>e_round := saturating_add (e_round e) 1, round_started_at := now, e_step := SProposal,
              e_proposal := None, e_votes := []\<rparr>, True))"

text \<open>What an engine is fed.\<close>

datatype engine_request = Propose consensus_proposal | Vote consensus_vote | Tick u64

fun engine_step :: "crypto \<Rightarrow> consensus_engine \<Rightarrow> engine_request \<Rightarrow> consensus_engine \<times> (consensus_error + bool)" where
  "engine_step cr e (Propose p) = (let (e', r) = receive_proposal cr e p in (e', bindR r (\<lambda>_. Inr True)))"
| "engine_step cr e (Vote v) = (let (e', r) = receive_vote cr e v in (e', bindR r (\<lambda>_. Inr True)))"
| "engine_step cr e (Tick now) = (let (e', b) = on_timeout e now in (e', Inr b))"

section \<open>Stakes\<close>

definition stake_sum :: "validator_set_entry list \<Rightarrow> nat" where
  "stake_sum vs = sum_list (map (\<lambda>v. unat (actual_stake v)) vs)"

definition stake_of :: "(u32, validator_set_entry) btree \<Rightarrow> u32 \<Rightarrow> nat" where
  "stake_of es k = (case bt_get es k of None \<Rightarrow> 0 | Some v \<Rightarrow> unat (actual_stake v))"

abbreviation weight :: "(u32, validator_set_entry) btree \<Rightarrow> u32 set \<Rightarrow> nat" where
  "weight es A \<equiv> sum (stake_of es) A"

lemma unat_stake_fold:
  "unat (fold (\<lambda>v tot. saturating_add tot (actual_stake v)) vs a) = min (unat a + stake_sum vs) (2 ^ 64 - 1)"
proof (induction vs arbitrary: a)
  case Nil
  show ?case using unsigned_less [where ?'a = nat and w = a] by (simp add: stake_sum_def)
next
  case (Cons v vs)
  have "unat (saturating_add a (actual_stake v)) = min (unat a + unat (actual_stake v)) (2 ^ 64 - 1)"
    using unat_saturating_add [of a "actual_stake v"] by simp
  then show ?case using Cons [of "saturating_add a (actual_stake v)"] by (simp add: stake_sum_def min_def)
qed

lemma two_thirds_nat: "two_thirds a b \<longleftrightarrow> 2 * unat b \<le> 3 * unat a"
proof -
  have u: "unat (ucast w :: u128) = unat w" for w :: u64 by (simp add: unsigned_ucast_eq take_bit_nat_eq_self_iff less_le_trans [OF unsigned_less])
  have "unat (ucast a * 3 :: u128) = unat a * 3" "unat (ucast b * 2 :: u128) = unat b * 2"
    using unsigned_less [where ?'a = nat and w = a] unsigned_less [where ?'a = nat and w = b]
    by (subst unat_mult_no_overflow; simp add: u)+
  then show ?thesis by (simp add: two_thirds_def word_le_nat_alt mult.commute)
qed

lemma stake_sum_keys:
  "distinct ks \<Longrightarrow> stake_sum (List.map_filter (bt_get es) ks) = weight es (set ks)"
  by (induction ks) (auto simp: stake_sum_def stake_of_def map_filter_simps split: option.split)

lemma weight_insert:
  assumes "bt_get es (validator_id v) = None"
  shows "weight (bt_insert es (validator_id v) v) A = weight es A + (if validator_id v \<in> A then unat (actual_stake v) else 0)"
proof -
  have s: "stake_of (bt_insert es (validator_id v) v) k = stake_of es k + (if k = validator_id v then unat (actual_stake v) else 0)" for k
    using assms by (simp add: stake_of_def)
  have "finite A" by (rule finite)
  then show ?thesis unfolding s sum.distrib by simp
qed

lemma collect_validators_ok:
  assumes "collect_validators vs entries tot = Inr (es, t)" "bt_inv entries" "\<forall>k v. bt_get entries k = Some v \<longrightarrow> validator_id v = k"
  shows "bt_inv es \<and> (\<forall>k v. bt_get es k = Some v \<longrightarrow> validator_id v = k) \<and>
    ran (bt_get es) = ran (bt_get entries) \<union> set vs \<and>
    (\<forall>A. weight es A = weight entries A + stake_sum (filter (\<lambda>v. validator_id v \<in> A) vs)) \<and>
    unat t = min (unat tot + stake_sum vs) (2 ^ 64 - 1)"
  using assms
proof (induction vs entries tot rule: collect_validators.induct)
  case (1 entries tot)
  then show ?case using unsigned_less [where ?'a = nat and w = tot] by (simp add: stake_sum_def)
next
  case (2 v vs entries tot)
  let ?es = "bt_insert entries (validator_id v) v" and ?t = "saturating_add tot (actual_stake v)"
  have n: "bt_get entries (validator_id v) = None" using "2.prems"(1) by (auto split: if_splits)
  have "bt_get ?es = (bt_get entries)(validator_id v \<mapsto> v)" by (rule ext) simp
  then have r: "ran (bt_get ?es) = ran (bt_get entries) \<union> {v}" using n by (simp add: ran_map_upd)
  have t: "unat ?t = min (unat tot + unat (actual_stake v)) (2 ^ 64 - 1)"
    using unat_saturating_add [of tot "actual_stake v"] by simp
  have "bt_inv es \<and> (\<forall>k v. bt_get es k = Some v \<longrightarrow> validator_id v = k) \<and>
    ran (bt_get es) = ran (bt_get ?es) \<union> set vs \<and>
    (\<forall>A. weight es A = weight ?es A + stake_sum (filter (\<lambda>v. validator_id v \<in> A) vs)) \<and>
    unat t = min (unat ?t + stake_sum vs) (2 ^ 64 - 1)"
    using "2.prems" n by (intro "2.IH") auto
  then show ?case using r t by (auto simp: stake_sum_def min_def weight_insert [OF n])
qed

section \<open>The invariant of the engine\<close>

definition signed_by :: "crypto \<Rightarrow> consensus_engine \<Rightarrow> u32 \<Rightarrow> bytes \<Rightarrow> signature \<Rightarrow> bool" where
  "signed_by cr e k m sg \<longleftrightarrow>
     (\<exists>v. bt_get (e_validators e) k = Some v \<and> is_ok (verify cr (v_public_key v) VALIDATOR_SIGN_V1 m sg))"

definition vote_ok :: "crypto \<Rightarrow> consensus_engine \<Rightarrow> vote_phase \<Rightarrow> consensus_vote \<Rightarrow> bool" where
  "vote_ok cr e ph v \<longleftrightarrow> vote_height v = e_height e \<and> vote_round v = e_round e \<and> phase v = ph \<and>
     map_option p_block_hash (e_proposal e) = Some (vote_block_hash v) \<and>
     signed_by cr e (voter_id v)
       (vote_signing_bytes (e_shard e) (e_height e) (e_round e) ph (vote_block_hash v)) (vote_signature v)"

definition validators_ok :: "consensus_engine \<Rightarrow> bool" where
  "validators_ok e \<longleftrightarrow> bt_inv (e_validators e) \<and> e_validators e \<noteq> [] \<and>
     (\<forall>k v. bt_get (e_validators e) k = Some v \<longrightarrow> validator_id v = k) \<and>
     e_total_stake e \<noteq> 0 \<and> unat (e_total_stake e) = min (weight (e_validators e) UNIV) (2 ^ 64 - 1)"

definition bucket_ok :: "crypto \<Rightarrow> consensus_engine \<Rightarrow> vote_phase \<Rightarrow> bool" where
  "bucket_ok cr e ph \<longleftrightarrow> bt_inv (bucket e ph) \<and>
     (\<forall>k v. bt_get (bucket e ph) k = Some v \<longrightarrow> voter_id v = k \<and> vote_ok cr e ph v)"

definition certificate :: "crypto \<Rightarrow> consensus_engine \<Rightarrow> finalized_block \<Rightarrow> bool" where
  "certificate cr e f \<longleftrightarrow> f_height f = e_height e \<and> f_round f = e_round e \<and>
     map_option p_block_hash (e_proposal e) = Some (f_block_hash f) \<and>
     distinct (map voter_id (commit_votes f)) \<and> (\<forall>v \<in> set (commit_votes f). vote_ok cr e Commit v) \<and>
     2 * unat (e_total_stake e) \<le> 3 * weight (e_validators e) (voter_id ` set (commit_votes f))"

definition proposal_ok :: "crypto \<Rightarrow> consensus_engine \<Rightarrow> bool" where
  "proposal_ok cr e \<longleftrightarrow> (case e_proposal e of None \<Rightarrow> e_step e = SProposal
     | Some p \<Rightarrow> e_step e \<noteq> SProposal \<and> p_height p = e_height e \<and> p_round p = e_round e \<and> proposer_id p = leader e \<and>
         signed_by cr e (leader e) (proposal_signing_bytes (e_shard e) (e_height e) (e_round e) (p_block_hash p))
           (p_signature p))"

fun passed :: "consensus_step \<Rightarrow> vote_phase set" where
  "passed SPreCommit = {PreVote}"
| "passed SCommit = {PreVote, PreCommit}"
| "passed SFinalized = {PreVote, PreCommit}"
| "passed _ = {}"

definition engine_inv :: "crypto \<Rightarrow> consensus_engine \<Rightarrow> bool" where
  "engine_inv cr e \<longleftrightarrow> validators_ok e \<and> proposal_ok cr e \<and> (\<forall>ph. bucket_ok cr e ph) \<and>
     (\<forall>ph \<in> passed (e_step e). has_supermajority e ph) \<and>
     (case e_finalized e of None \<Rightarrow> e_step e \<noteq> SFinalized | Some f \<Rightarrow> e_step e = SFinalized \<and> certificate cr e f)"

lemma leader_update [simp]:
  "leader (e\<lparr>e_step := st\<rparr>) = leader e" "leader (e\<lparr>e_votes := vs\<rparr>) = leader e"
  "leader (e\<lparr>e_proposal := pr\<rparr>) = leader e" "leader (e\<lparr>e_finalized := fb\<rparr>) = leader e"
  by (simp_all add: leader_def)

lemma unat_vote_stake:
  assumes "bt_inv (bucket e ph)"
  shows "unat (vote_stake e ph) = min (weight (e_validators e) (fst ` set (bucket e ph))) (2 ^ 64 - 1)"
  using unat_stake_fold [of "List.map_filter (bt_get (e_validators e)) (map fst (bucket e ph))" 0]
    stake_sum_keys [OF bt_distinct [OF assms], of "e_validators e"]
  by (simp add: vote_stake_def)

lemma collect_validators_distinct:
  "distinct (map validator_id vs) \<Longrightarrow> (\<forall>v \<in> set vs. bt_get entries (validator_id v) = None) \<Longrightarrow>
     \<exists>r. collect_validators vs entries tot = Inr r"
proof (induction vs arbitrary: entries tot)
  case (Cons v vs)
  have "\<forall>w \<in> set vs. bt_get (bt_insert entries (validator_id v) v) (validator_id w) = None"
    using Cons.prems by (auto simp: image_iff)
  then show ?case using Cons.IH [of "bt_insert entries (validator_id v) v"] Cons.prems by simp
qed simp

text \<open>An engine starts from every set of validators with distinct identifiers and some stake.\<close>

lemma engine_new_starts:
  assumes "distinct (map validator_id vs)" "stake_sum vs \<noteq> 0"
  shows "\<exists>e. engine_new sh h vs now ts = Inr e"
proof -
  obtain es t where c: "collect_validators vs [] 0 = Inr (es, t)"
    using collect_validators_distinct [OF assms(1), of "[]" 0] by auto
  from collect_validators_ok [OF this] have "ran (bt_get es) = set vs" "unat t = min (stake_sum vs) (2 ^ 64 - 1)" by auto
  moreover have "vs \<noteq> []" using assms(2) by (auto simp: stake_sum_def)
  ultimately have "es \<noteq> []" "t \<noteq> 0" using assms(2) by auto
  then show ?thesis by (simp add: engine_new_def c)
qed

lemma engine_new_inv:
  assumes "engine_new sh h vs now ts = Inr e"
  shows "engine_inv cr e" "e_shard e = sh" "e_height e = h" "ran (bt_get (e_validators e)) = set vs"
    "weight (e_validators e) A = stake_sum (filter (\<lambda>v. validator_id v \<in> A) vs)"
proof -
  obtain es t where c: "collect_validators vs [] 0 = Inr (es, t)"
    using assms by (auto simp: engine_new_def bindR_Inr)
  then have e: "e = \<lparr>e_shard = sh, e_height = h, e_validators = es, e_total_stake = t,
               e_timeouts = ts, round_started_at = now, e_round = 0, e_step = SProposal,
               e_proposal = None, e_votes = [], e_finalized = None\<rparr>" and ne: "es \<noteq> []" "t \<noteq> 0"
    using assms by (auto simp: engine_new_def split: if_splits)
  have es: "bt_inv es" "\<forall>k v. bt_get es k = Some v \<longrightarrow> validator_id v = k" "ran (bt_get es) = set vs"
    "\<And>A. weight es A = stake_sum (filter (\<lambda>v. validator_id v \<in> A) vs)" "unat t = min (stake_sum vs) (2 ^ 64 - 1)"
    using collect_validators_ok [OF c] by (auto simp: stake_of_def)
  show "engine_inv cr e" using es ne
    by (simp add: engine_inv_def e validators_ok_def proposal_ok_def bucket_ok_def bucket_def)
  show "e_shard e = sh" "e_height e = h" "ran (bt_get (e_validators e)) = set vs"
    "weight (e_validators e) A = stake_sum (filter (\<lambda>v. validator_id v \<in> A) vs)" using es by (simp_all add: e)
qed

lemma bucket_insert_vote:
  "bucket (insert_vote e v) ph = (if ph = phase v then bt_insert (bucket e ph) (voter_id v) v else bucket e ph)"
  by (simp add: bucket_def insert_vote_def)

lemma insert_vote_fields [simp]:
  "e_shard (insert_vote e v) = e_shard e" "e_height (insert_vote e v) = e_height e"
  "e_validators (insert_vote e v) = e_validators e" "e_total_stake (insert_vote e v) = e_total_stake e"
  "e_round (insert_vote e v) = e_round e" "e_step (insert_vote e v) = e_step e"
  "e_proposal (insert_vote e v) = e_proposal e" "e_finalized (insert_vote e v) = e_finalized e"
  by (simp_all add: insert_vote_def)

lemma supermajority_cong:
  "bucket e ph = bucket e' ph \<Longrightarrow> e_validators e = e_validators e' \<Longrightarrow> e_total_stake e = e_total_stake e' \<Longrightarrow>
     has_supermajority e ph = has_supermajority e' ph"
  by (simp add: has_supermajority_def vote_stake_def)

lemma vote_ok_cong:
  "e_shard e = e_shard e' \<Longrightarrow> e_height e = e_height e' \<Longrightarrow> e_round e = e_round e' \<Longrightarrow>
     e_proposal e = e_proposal e' \<Longrightarrow> e_validators e = e_validators e' \<Longrightarrow> vote_ok cr e ph v = vote_ok cr e' ph v"
  by (simp add: vote_ok_def signed_by_def)

text \<open>A vote is counted, or it leaves the engine as it was.\<close>

definition countable :: "crypto \<Rightarrow> consensus_engine \<Rightarrow> consensus_vote \<Rightarrow> bool" where
  "countable cr e v \<longleftrightarrow> vote_ok cr e (phase v) v \<and> expected_phase (e_step e) = Some (phase v) \<and>
     bt_get (bucket e (phase v)) (voter_id v) = None"

definition count_vote :: "consensus_engine \<Rightarrow> consensus_vote \<Rightarrow> consensus_engine" where
  "count_vote e v = (if has_supermajority (insert_vote e v) (phase v)
     then advance_after_quorum (insert_vote e v) (phase v) else insert_vote e v)"

lemma receive_vote_counts: "countable cr e v \<Longrightarrow> receive_vote cr e v = (count_vote e v, Inr ())"
  unfolding receive_vote_def countable_def count_vote_def vote_ok_def signed_by_def by (auto simp: Let_def)

lemma receive_vote_keeps: "\<not> countable cr e v \<Longrightarrow> fst (receive_vote cr e v) = e"
  unfolding receive_vote_def countable_def vote_ok_def signed_by_def Let_def
  by (cases "vote_height v \<noteq> e_height e \<or> vote_round v \<noteq> e_round e";
      cases "map_option p_block_hash (e_proposal e) \<noteq> Some (vote_block_hash v)";
      cases "expected_phase (e_step e)"; cases "bt_get (e_validators e) (voter_id v)"; simp) fastforce

lemma insert_vote_same [simp]:
  "validators_ok (insert_vote e v) = validators_ok e" "proposal_ok cr (insert_vote e v) = proposal_ok cr e"
  "certificate cr (insert_vote e v) f = certificate cr e f"
  unfolding validators_ok_def proposal_ok_def certificate_def vote_ok_def signed_by_def leader_def insert_vote_fields
  by (rule refl)+

lemma insert_vote_inv:
  assumes "engine_inv cr e" "vote_ok cr e (phase v) v" "expected_phase (e_step e) = Some (phase v)"
  shows "engine_inv cr (insert_vote e v)"
proof -
  have b: "bucket_ok cr (insert_vote e v) ph" for ph
    using assms(1,2) vote_ok_cong [of "insert_vote e v" e cr ph]
    by (auto simp: engine_inv_def bucket_ok_def bucket_insert_vote split: if_splits)
  have "has_supermajority (insert_vote e v) ph" if "ph \<in> passed (e_step e)" for ph
  proof -
    have "ph \<noteq> phase v" using that assms(3) by (cases "e_step e") auto
    then show ?thesis
      using that assms(1) supermajority_cong [of "insert_vote e v" ph e] by (simp add: engine_inv_def bucket_insert_vote)
  qed
  moreover have "e_finalized e = None" using assms(1,3) by (auto simp: engine_inv_def split: option.splits)
  ultimately show ?thesis using assms(1) b by (simp add: engine_inv_def)
qed

lemma certificate_of_quorum:
  assumes "bucket_ok cr e Commit" "has_supermajority e Commit" "e_proposal e = Some p"
  shows "certificate cr e \<lparr>f_height = e_height e, f_round = e_round e, f_block_hash = p_block_hash p,
    commit_votes = map snd (bucket e Commit)\<rparr>"
proof -
  have bt: "bt_inv (bucket e Commit)" and ok: "\<And>k v. (k, v) \<in> set (bucket e Commit) \<Longrightarrow> voter_id v = k \<and> vote_ok cr e Commit v"
    using assms(1) bt_get_mem [of "bucket e Commit"] by (simp_all add: bucket_ok_def)
  have ids: "map voter_id (map snd (bucket e Commit)) = map fst (bucket e Commit)"
    using ok by (auto simp: map_eq_conv)
  then have keys: "voter_id ` snd ` set (bucket e Commit) = fst ` set (bucket e Commit)"
    by (metis list.set_map)
  have "2 * unat (e_total_stake e) \<le> 3 * weight (e_validators e) (fst ` set (bucket e Commit))"
    using assms(2) unat_vote_stake [OF bt] by (simp add: has_supermajority_def two_thirds_nat min_def split: if_splits)
  then show ?thesis
    using bt_distinct [OF bt, folded ids] keys ok assms(3) unfolding certificate_def by auto
qed

lemma advance_inv:
  assumes e: "engine_inv cr e" and exp: "expected_phase (e_step e) = Some ph" and q: "has_supermajority e ph"
  shows "engine_inv cr (advance_after_quorum e ph)"
proof (cases ph)
  case Commit
  have st: "e_step e = SCommit" using exp Commit by (cases "e_step e") auto
  then obtain p where p: "e_proposal e = Some p" using e by (auto simp: engine_inv_def proposal_ok_def split: option.splits)
  let ?e = "advance_after_quorum e Commit"
  have keep: "vote_ok cr ?e ph v = vote_ok cr e ph v" for ph v by (rule vote_ok_cong) (simp_all add: p)
  have bk: "bucket ?e ph = (if ph = Commit then [] else bucket e ph)" for ph by (simp add: p bucket_def)
  have "certificate cr ?e (the (e_finalized ?e))"
    using certificate_of_quorum [OF _ q [unfolded Commit] p, of cr] e p
    by (simp add: engine_inv_def certificate_def vote_ok_def signed_by_def)
  moreover have "has_supermajority ?e ph" if "ph \<in> {PreVote, PreCommit}" for ph
    using that e st bk supermajority_cong [of ?e ph e] by (auto simp: engine_inv_def p)
  moreover have "bucket_ok cr ?e ph" for ph
    using e unfolding bucket_ok_def keep bk engine_inv_def by (cases ph) simp_all
  moreover have "validators_ok ?e" "proposal_ok cr ?e"
    using e p st by (simp_all add: engine_inv_def validators_ok_def proposal_ok_def signed_by_def)
  ultimately show ?thesis using Commit p by (simp add: engine_inv_def)
qed (use e exp q in \<open>cases "e_step e"; simp add: engine_inv_def validators_ok_def proposal_ok_def bucket_ok_def bucket_def
    vote_ok_def signed_by_def has_supermajority_def vote_stake_def split: option.splits\<close>)+

lemma engine_step_inv: "engine_inv cr e \<Longrightarrow> engine_inv cr (fst (engine_step cr e q))"
proof (cases q)
  case (Propose p)
  assume e: "engine_inv cr e"
  obtain e' r where r: "receive_proposal cr e p = (e', r)" by (cases "receive_proposal cr e p")
  have "engine_inv cr e'"
  proof (cases "e' = e")
    case False
    then have e': "e' = e\<lparr>e_proposal := Some p, e_step := SPreVote\<rparr>" "e_proposal e = None" "e_step e \<noteq> SFinalized"
      and p: "p_height p = e_height e" "p_round p = e_round e" "proposer_id p = leader e"
        "signed_by cr e (leader e) (proposal_signing_bytes (e_shard e) (e_height e) (e_round e) (p_block_hash p)) (p_signature p)"
      using r by (auto simp: receive_proposal_def signed_by_def split: if_splits option.splits)
    then have "\<not> vote_ok cr e ph v" for ph v by (simp add: vote_ok_def)
    then have none: "bt_get (bucket e ph) k = None" for ph k using e by (auto simp: engine_inv_def bucket_ok_def)
    then show ?thesis using e e' p
      by (simp add: engine_inv_def validators_ok_def proposal_ok_def bucket_ok_def bucket_def signed_by_def
          split: option.splits)
  qed (use e in simp)
  then show "engine_inv cr (fst (engine_step cr e q))" by (simp add: Propose r)
next
  case (Vote v)
  assume e: "engine_inv cr e"
  obtain e' r where r: "receive_vote cr e v = (e', r)" by (cases "receive_vote cr e v")
  have "engine_inv cr e'"
  proof (cases "countable cr e v")
    case True
    then have ok: "vote_ok cr e (phase v) v" "expected_phase (e_step e) = Some (phase v)" by (simp_all add: countable_def)
    have "e' = count_vote e v" using receive_vote_counts [OF True] r by simp
    then show ?thesis using insert_vote_inv [OF e ok] advance_inv [of cr "insert_vote e v" "phase v"] ok(2)
      by (simp add: count_vote_def)
  next
    case False
    then show ?thesis using receive_vote_keeps [OF False] r e by simp
  qed
  then show "engine_inv cr (fst (engine_step cr e q))" by (simp add: Vote r)
next
  case (Tick now)
  assume "engine_inv cr e"
  then show "engine_inv cr (fst (engine_step cr e q))"
    by (auto simp: Tick on_timeout_def engine_inv_def validators_ok_def proposal_ok_def bucket_ok_def bucket_def
        split: option.splits)
qed

interpretation engine: component "engine_step cr" "engine_inv cr" "\<lambda>_. True" for cr
  by unfold_locales (rule engine_step_inv)

section \<open>What every run keeps\<close>

definition engine_rel :: "consensus_engine \<Rightarrow> consensus_engine \<Rightarrow> bool" where
  "engine_rel e e' \<longleftrightarrow> e_shard e' = e_shard e \<and> e_height e' = e_height e \<and> e_validators e' = e_validators e \<and>
     e_total_stake e' = e_total_stake e \<and> e_round e \<le> e_round e' \<and> (e_step e = SFinalized \<longrightarrow> e' = e)"

lemma advance_fields [simp]:
  "e_shard (advance_after_quorum e ph) = e_shard e" "e_height (advance_after_quorum e ph) = e_height e"
  "e_validators (advance_after_quorum e ph) = e_validators e" "e_total_stake (advance_after_quorum e ph) = e_total_stake e"
  "e_round (advance_after_quorum e ph) = e_round e" "e_proposal (advance_after_quorum e ph) = e_proposal e"
  by (cases ph; simp split: option.splits)+

lemma saturating_succ: "x \<le> saturating_add x (1 :: u32)"
  using unat_saturating_add [of x 1] unsigned_less [where ?'a = nat and w = x] by (simp add: word_le_nat_alt)

lemma engine_step_rel: "engine_rel e (fst (engine_step cr e q))"
proof (cases q)
  case (Propose p)
  then show ?thesis by (auto simp: engine_rel_def receive_proposal_def split: option.splits)
next
  case (Vote v)
  show ?thesis
  proof (cases "countable cr e v")
    case True
    then have "e_step e \<noteq> SFinalized" by (auto simp: countable_def)
    then show ?thesis using receive_vote_counts [OF True] by (simp add: Vote engine_rel_def count_vote_def)
  next
    case False
    then show ?thesis using receive_vote_keeps [OF False] by (simp add: Vote engine_rel_def case_prod_unfold Let_def)
  qed
next
  case (Tick now)
  then show ?thesis by (auto simp: engine_rel_def on_timeout_def saturating_succ)
qed

lemma engine_run_rel: "engine_inv cr e \<Longrightarrow> engine_rel e (fst (run_ops (engine_step cr) e qs))"
  by (rule engine.run_rel [where cr = cr]) (auto simp: engine_step_rel list_all_iff, auto simp: engine_rel_def)

lemma finalized_certificate:
  assumes e: "engine_inv cr e" and f: "e_finalized e = Some f"
  shows "certificate cr e f" "e_step e = SFinalized"
  using assms by (simp_all add: engine_inv_def)

text \<open>The facts a run from a new engine gives about the block it finalizes.\<close>

definition commit_signed :: "crypto \<Rightarrow> shard_ident \<Rightarrow> u64 \<Rightarrow> finalized_block \<Rightarrow> validator_set_entry \<Rightarrow> signature \<Rightarrow> bool" where
  "commit_signed cr sh h f w sg \<longleftrightarrow>
     is_ok (verify cr (v_public_key w) VALIDATOR_SIGN_V1 (vote_signing_bytes sh h (f_round f) Commit (f_block_hash f)) sg)"

lemma run_finalized:
  assumes new: "engine_new sh h vs now ts = Inr e0" and run: "e = fst (run_ops (engine_step cr) e0 qs)"
    and f: "e_finalized e = Some f"
  shows "f_height f = h" "distinct (map voter_id (commit_votes f))"
    "\<And>v. v \<in> set (commit_votes f) \<Longrightarrow>
       \<exists>w \<in> set vs. validator_id w = voter_id v \<and> commit_signed cr sh h f w (vote_signature v)"
    "2 * min (stake_sum vs) (2 ^ 64 - 1) \<le> 3 * stake_sum (filter (\<lambda>w. validator_id w \<in> voter_id ` set (commit_votes f)) vs)"
    "inj_on validator_id (set vs)"
    "e_finalized (fst (run_ops (engine_step cr) e qs')) = Some f"
proof -
  have i0: "engine_inv cr e0" and sh: "e_shard e0 = sh" and h: "e_height e0 = h"
    and ran: "ran (bt_get (e_validators e0)) = set vs"
    and wt: "\<And>A. weight (e_validators e0) A = stake_sum (filter (\<lambda>v. validator_id v \<in> A) vs)"
    by (rule engine_new_inv [OF new])+
  have i: "engine_inv cr e" unfolding run by (rule engine.run_inv [OF i0]) (simp add: list_all_iff)
  have rel: "engine_rel e0 e" unfolding run by (rule engine_run_rel [OF i0])
  note c = finalized_certificate [OF i f]
  have keys: "validator_id w = k" if "bt_get (e_validators e0) k = Some w" for k w
    using i0 that by (simp add: engine_inv_def validators_ok_def)
  have same: "e_shard e = sh" "e_height e = h" "e_validators e = e_validators e0" "e_total_stake e = e_total_stake e0"
    using rel sh h by (simp_all add: engine_rel_def)
  show "f_height f = h" "distinct (map voter_id (commit_votes f))"
    using c(1) same by (simp_all add: certificate_def)
  show "\<exists>w \<in> set vs. validator_id w = voter_id v \<and> commit_signed cr sh h f w (vote_signature v)"
    if v: "v \<in> set (commit_votes f)" for v
  proof -
    have ok: "vote_ok cr e Commit v" and fr: "f_round f = e_round e"
      and fh: "map_option p_block_hash (e_proposal e) = Some (f_block_hash f)"
      using c(1) v by (simp_all add: certificate_def)
    then obtain w where w: "bt_get (e_validators e0) (voter_id v) = Some w" "commit_signed cr sh h f w (vote_signature v)"
      using same by (auto simp: vote_ok_def signed_by_def commit_signed_def)
    then have "w \<in> set vs" using ran ranI by fastforce
    then show ?thesis using w keys by blast
  qed
  have "unat (e_total_stake e0) = min (stake_sum vs) (2 ^ 64 - 1)"
    using i0 wt [of UNIV] by (simp add: engine_inv_def validators_ok_def)
  then show "2 * min (stake_sum vs) (2 ^ 64 - 1) \<le> 3 * stake_sum (filter (\<lambda>w. validator_id w \<in> voter_id ` set (commit_votes f)) vs)"
    using c(1) same wt by (simp add: certificate_def)
  show "inj_on validator_id (set vs)"
    unfolding ran [symmetric] inj_on_def using keys by (auto simp: ran_def)
  show "e_finalized (fst (run_ops (engine_step cr) e qs')) = Some f"
    using engine_run_rel [OF i, of qs'] c(2) f by (simp add: engine_rel_def)
qed

section \<open>Properties\<close>

text \<open>
  C2. A finalized block is certified, and finality is permanent: whatever proposals, votes and timeouts an engine
  was fed, the block it finalizes is for its height and carries commit votes of distinct validators
  of the set, each with a valid signature over the shard, the height, the round, the commit phase and the block
  hash; their stake is at least two thirds of the total (capped where the code saturates it);
  and no further message changes it.
\<close>

theorem finality_certified:
  assumes "engine_new sh h vs now ts = Inr e0" "e = fst (run_ops (engine_step cr) e0 qs)" "e_finalized e = Some f"
  shows "f_height f = h \<and> distinct (map voter_id (commit_votes f)) \<and>
    (\<forall>v \<in> set (commit_votes f). \<exists>w \<in> set vs. validator_id w = voter_id v \<and> commit_signed cr sh h f w (vote_signature v)) \<and>
    2 * min (stake_sum vs) (2 ^ 64 - 1) \<le> 3 * stake_sum (filter (\<lambda>w. validator_id w \<in> voter_id ` set (commit_votes f)) vs) \<and>
    (\<forall>qs'. e_finalized (fst (run_ops (engine_step cr) e qs')) = Some f)"
  using run_finalized [OF assms] by blast

definition sample_validator :: validator_set_entry where
  "sample_validator = \<lparr>validator_id = 7, v_public_key = 1, actual_stake = 100\<rparr>"

definition sample_vote :: "u32 \<Rightarrow> vote_phase \<Rightarrow> hash32 \<Rightarrow> consensus_vote" where
  "sample_vote rnd ph h = \<lparr>vote_height = 5, vote_round = rnd, phase = ph, vote_block_hash = h, voter_id = 7, vote_signature = 0\<rparr>"

definition sample_proposal :: "u32 \<Rightarrow> hash32 \<Rightarrow> consensus_proposal" where
  "sample_proposal rnd h = \<lparr>p_height = 5, p_round = rnd, p_block_hash = h, proposer_id = 7, p_signature = 0\<rparr>"

definition sample_run :: "hash32 \<Rightarrow> engine_request list" where
  "sample_run h = Propose (sample_proposal 0 h) # map (\<lambda>ph. Vote (sample_vote 0 ph h)) [PreVote, PreCommit, Commit]"

definition sample_engine :: consensus_engine where
  "sample_engine = \<lparr>e_shard = shard_root 0, e_height = 5, e_validators = [(7, sample_validator)], e_total_stake = 100,
     e_timeouts = timeouts_default, round_started_at = 0, e_round = 0, e_step = SProposal, e_proposal = None,
     e_votes = [], e_finalized = None\<rparr>"

definition sample_final :: "hash32 \<Rightarrow> finalized_block" where
  "sample_final h = \<lparr>f_height = 5, f_round = 0, f_block_hash = h, commit_votes = [sample_vote 0 Commit h]\<rparr>"

lemma sample_engine_new: "engine_new (shard_root 0) 5 [sample_validator] 0 timeouts_default = Inr sample_engine"
  by (simp add: engine_new_def sample_engine_def sample_validator_def saturating_add_def)

lemmas engine_eval = sample_engine_def sample_run_def sample_proposal_def sample_vote_def sample_validator_def
  receive_proposal_def receive_vote_def leader_def verify_def toy_crypto_def insert_vote_def bucket_def
  has_supermajority_def vote_stake_def two_thirds_nat map_filter_simps Let_def saturating_add_def less_vote_phase_def
  bt_remove_def word_less_nat_alt

lemma sample_run_final: "e_finalized (fst (run_ops (engine_step toy_crypto) sample_engine (sample_run h))) = Some (sample_final h)"
  by (simp add: engine_eval sample_final_def)

theorem finality_certified_witness:
  "e_finalized (fst (run_ops (engine_step toy_crypto) sample_engine (sample_run 9))) = Some (sample_final 9) \<and>
   (\<forall>qs'. e_finalized (fst (run_ops (engine_step toy_crypto)
      (fst (run_ops (engine_step toy_crypto) sample_engine (sample_run 9))) qs')) = Some (sample_final 9))"
  using finality_certified [OF sample_engine_new refl sample_run_final] sample_run_final [of 9] by simp

lemma stake_sum_filter_mono:
  "(\<And>v. v \<in> set vs \<Longrightarrow> P v \<Longrightarrow> Q v) \<Longrightarrow> stake_sum (filter P vs) \<le> stake_sum (filter Q vs)"
  by (induction vs) (auto simp: stake_sum_def)

lemma stake_sum_split: "stake_sum (filter P vs) + stake_sum (filter Q vs) \<le> stake_sum vs + stake_sum (filter (\<lambda>v. P v \<and> Q v) vs)"
  by (induction vs) (auto simp: stake_sum_def)

text \<open>
  C1. Agreement within a round: if two engines for the same shard, height and validators, whose stakes add up
  without saturation, finalize blocks in the same round, then validators with at least
  a third of the stake have signed commit votes for both blocks. Two different blocks are
  finalized in one round only if a third of the stake double-signs.
\<close>

theorem conflicting_finality_needs_double_signing:
  assumes "engine_new sh h vs now1 ts1 = Inr e1" "e_finalized (fst (run_ops (engine_step cr) e1 qs1)) = Some f1"
    and "engine_new sh h vs now2 ts2 = Inr e2" "e_finalized (fst (run_ops (engine_step cr) e2 qs2)) = Some f2"
    and "f_round f1 = f_round f2" "stake_sum vs < 2 ^ 64"
  shows "stake_sum vs \<le> 3 * stake_sum (filter (\<lambda>w. (\<exists>sg. commit_signed cr sh h f1 w sg) \<and>
    (\<exists>sg. commit_signed cr sh h f2 w sg)) vs)"
proof -
  let ?A1 = "voter_id ` set (commit_votes f1)" and ?A2 = "voter_id ` set (commit_votes f2)"
  note f1 = run_finalized [OF assms(1) refl assms(2)] and f2 = run_finalized [OF assms(3) refl assms(4)]
  have signed: "\<exists>sg. commit_signed cr sh h f w sg"
    if "\<And>v. v \<in> set (commit_votes f) \<Longrightarrow>
       \<exists>w \<in> set vs. validator_id w = voter_id v \<and> commit_signed cr sh h f w (vote_signature v)"
      "w \<in> set vs" "validator_id w \<in> voter_id ` set (commit_votes f)" for f w
    using that f1(5) by (metis (no_types, lifting) image_iff inj_onD)
  have cap: "min (stake_sum vs) (2 ^ 64 - 1) = stake_sum vs" using assms(6) by simp
  have "stake_sum vs \<le> 3 * stake_sum (filter (\<lambda>w. validator_id w \<in> ?A1 \<and> validator_id w \<in> ?A2) vs)"
    using f1(4) f2(4) stake_sum_split [of "\<lambda>w. validator_id w \<in> ?A1" vs "\<lambda>w. validator_id w \<in> ?A2"] unfolding cap by linarith
  also have "\<dots> \<le> 3 * stake_sum (filter (\<lambda>w. (\<exists>sg. commit_signed cr sh h f1 w sg) \<and>
    (\<exists>sg. commit_signed cr sh h f2 w sg)) vs)"
    by (intro mult_le_mono2 stake_sum_filter_mono conjI) (auto intro: signed [OF f1(3)] signed [OF f2(3)])
  finally show ?thesis .
qed

theorem conflicting_finality_needs_double_signing_witness:
  "stake_sum [sample_validator] \<le> 3 * stake_sum (filter (\<lambda>w. (\<exists>sg. commit_signed toy_crypto (shard_root 0) 5 (sample_final 1) w sg) \<and>
    (\<exists>sg. commit_signed toy_crypto (shard_root 0) 5 (sample_final 2) w sg)) [sample_validator])"
  by (rule conflicting_finality_needs_double_signing
      [OF sample_engine_new sample_run_final sample_engine_new sample_run_final])
    (simp_all add: sample_final_def stake_sum_def sample_validator_def)

text \<open>
  Rounds are independent: an engine that has seen a pre-commit quorum for one block finalizes, after a
  timeout, another block in the next round, with votes of the same validator. Nothing in the engine
  locks a validator on the block it pre-committed.
\<close>

lemma no_lock_across_rounds:
  "let e = fst (run_ops (engine_step toy_crypto) sample_engine
     [Propose (sample_proposal 0 1), Vote (sample_vote 0 PreVote 1), Vote (sample_vote 0 PreCommit 1)])
   in e_step e = SCommit \<and>
      map_option f_block_hash (e_finalized (fst (run_ops (engine_step toy_crypto) e
        (Tick 3 # Propose (sample_proposal 1 2) # map (\<lambda>ph. Vote (sample_vote 1 ph 2)) [PreVote, PreCommit, Commit])))) = Some 2"
  by (simp add: engine_eval on_timeout_def saturating_sub_def timeout_for_step_def timeouts_default_def word_le_nat_alt)

section \<open>Progress\<close>

lemma run_vote_Cons:
  "fst (run_ops (engine_step cr) e (map Vote (v # vs))) =
     fst (run_ops (engine_step cr) (fst (receive_vote cr e v)) (map Vote vs))"
  by (simp add: case_prod_unfold Let_def)

text \<open>Votes for another phase than the expected one change nothing.\<close>

lemma late_votes:
  "\<forall>v \<in> set vs. expected_phase (e_step e) \<noteq> Some (phase v) \<Longrightarrow>
     fst (run_ops (engine_step cr) e (map Vote vs)) = e"
proof (induction vs)
  case (Cons v vs)
  have "\<not> countable cr e v" using Cons.prems by (simp add: countable_def)
  from receive_vote_keeps [OF this] Cons show ?case by (simp only: run_vote_Cons) simp
qed simp

lemma supermajority_weight:
  assumes "engine_inv cr e"
  shows "has_supermajority e ph \<longleftrightarrow> 2 * unat (e_total_stake e) \<le> 3 * weight (e_validators e) (fst ` set (bucket e ph))"
proof -
  have "bt_inv (bucket e ph)" using assms by (simp add: engine_inv_def bucket_ok_def)
  note u = unat_vote_stake [OF this]
  have "unat (e_total_stake e) \<le> 2 ^ 64 - 1" using assms by (simp add: engine_inv_def validators_ok_def)
  then show ?thesis by (auto simp: has_supermajority_def two_thirds_nat u min_def)
qed

lemma advance_expected: "expected_phase (e_step (advance_after_quorum e ph)) \<noteq> Some ph" if "e_proposal e \<noteq> None"
  using that by (cases ph) auto

text \<open>
  Valid votes of distinct validators with two thirds of the stake move an engine past the phase they are
  for, whatever their order and however many come after the quorum.
\<close>

lemma phase_completes:
  assumes "engine_inv cr e" "expected_phase (e_step e) = Some ph" "\<not> has_supermajority e ph"
    and "\<forall>v \<in> set vs. vote_ok cr e ph v" "distinct (map voter_id vs)"
    and "voter_id ` set vs \<inter> fst ` set (bucket e ph) = {}"
    and "2 * unat (e_total_stake e) \<le> 3 * weight (e_validators e) (voter_id ` set vs \<union> fst ` set (bucket e ph))"
  shows "\<exists>e1. fst (run_ops (engine_step cr) e (map Vote vs)) = advance_after_quorum e1 ph \<and>
    engine_inv cr (advance_after_quorum e1 ph) \<and> e_proposal e1 = e_proposal e \<and> e_round e1 = e_round e \<and>
    e_height e1 = e_height e \<and> e_shard e1 = e_shard e \<and> e_validators e1 = e_validators e \<and>
    e_total_stake e1 = e_total_stake e \<and> (\<forall>ph'. ph' \<noteq> ph \<longrightarrow> bucket e1 ph' = bucket e ph')"
  using assms
proof (induction vs arbitrary: e)
  case Nil
  then show ?case using supermajority_weight [OF Nil.prems(1), of ph] by simp
next
  case (Cons v vs)
  have ph: "phase v = ph" and ok: "vote_ok cr e (phase v) v" using Cons.prems(4) by (auto simp: vote_ok_def)
  have "bt_get (bucket e ph) (voter_id v) = None" using Cons.prems(6) by (force simp: map_of_eq_None_iff)
  then have c: "countable cr e v" using ok ph Cons.prems(2) by (simp add: countable_def)
  let ?e = "insert_vote e v"
  have i: "engine_inv cr ?e" using insert_vote_inv [OF Cons.prems(1) ok] Cons.prems(2) ph by simp
  have p: "e_proposal e \<noteq> None" using ok by (auto simp: vote_ok_def)
  have keys: "fst ` set (bucket ?e ph) = insert (voter_id v) (fst ` set (bucket e ph))"
    by (simp add: bucket_insert_vote ph fst_set_bt_insert)
  have votes: "\<forall>v \<in> set vs. vote_ok cr ?e ph v"
    using Cons.prems(4) vote_ok_cong [of ?e e cr ph] by simp
  show ?case
  proof (cases "has_supermajority ?e ph")
    case True
    let ?a = "advance_after_quorum ?e ph"
    have a: "engine_inv cr ?a" using advance_inv [OF i _ True] Cons.prems(2) by simp
    have "fst (run_ops (engine_step cr) ?a (map Vote vs)) = ?a"
      using advance_expected [of ?e ph] p votes by (intro late_votes) (auto simp: vote_ok_def)
    then have "fst (run_ops (engine_step cr) e (map Vote (v # vs))) = ?a"
      using receive_vote_counts [OF c] True ph by (simp only: run_vote_Cons) (simp add: count_vote_def)
    then show ?thesis using a by (intro exI [of _ ?e]) (simp add: bucket_insert_vote ph)
  next
    case False
    have "fst (run_ops (engine_step cr) e (map Vote (v # vs))) = fst (run_ops (engine_step cr) ?e (map Vote vs))"
      using receive_vote_counts [OF c] False ph by (simp only: run_vote_Cons) (simp add: count_vote_def)
    moreover have "voter_id ` set (v # vs) \<union> fst ` set (bucket e ph) = voter_id ` set vs \<union> fst ` set (bucket ?e ph)"
      using keys by auto
    ultimately show ?thesis
      using Cons.IH [OF i _ False votes] Cons.prems keys by (auto simp: bucket_insert_vote ph)
  qed
qed

definition phase_votes :: "crypto \<Rightarrow> consensus_engine \<Rightarrow> vote_phase \<Rightarrow> consensus_vote list \<Rightarrow> bool" where
  "phase_votes cr e ph vs \<longleftrightarrow> (\<forall>v \<in> set vs. vote_ok cr e ph v) \<and> distinct (map voter_id vs) \<and>
     2 * unat (e_total_stake e) \<le> 3 * weight (e_validators e) (voter_id ` set vs)"

definition same_view :: "consensus_engine \<Rightarrow> consensus_engine \<Rightarrow> bool" where
  "same_view e e' \<longleftrightarrow> e_proposal e' = e_proposal e \<and> e_round e' = e_round e \<and>
    e_height e' = e_height e \<and> e_shard e' = e_shard e \<and> e_validators e' = e_validators e \<and>
    e_total_stake e' = e_total_stake e"

lemma phase_votes_cong: "same_view e e' \<Longrightarrow> phase_votes cr e' ph vs = phase_votes cr e ph vs"
  using vote_ok_cong [of e e' cr ph] by (simp add: phase_votes_def same_view_def)

lemma phase_completes_fresh:
  assumes i: "engine_inv cr e" and st: "expected_phase (e_step e) = Some ph" and b: "bucket e ph = []"
    and vs: "phase_votes cr e ph vs"
  shows "\<exists>e1. fst (run_ops (engine_step cr) e (map Vote vs)) = advance_after_quorum e1 ph \<and>
    engine_inv cr (advance_after_quorum e1 ph) \<and> same_view e e1 \<and> (\<forall>ph'. ph' \<noteq> ph \<longrightarrow> bucket e1 ph' = bucket e ph')"
proof -
  have "e_total_stake e \<noteq> 0" using i by (simp add: engine_inv_def validators_ok_def)
  then have "unat (e_total_stake e) \<noteq> 0" by (simp add: unat_eq_zero)
  then have "\<not> has_supermajority e ph" using supermajority_weight [OF i, of ph] b by simp
  then show ?thesis
    using phase_completes [OF i st, of vs] vs b by (auto simp: phase_votes_def same_view_def)
qed

lemma fresh_buckets:
  assumes "engine_inv cr e" "e_step e = SProposal"
  shows "bucket e ph = []"
proof -
  have "e_proposal e = None" using assms by (auto simp: engine_inv_def proposal_ok_def split: option.splits)
  then have "\<not> vote_ok cr e ph v" for v by (simp add: vote_ok_def)
  moreover have "bucket_ok cr e ph" using assms(1) by (simp add: engine_inv_def)
  ultimately have "bt_get (bucket e ph) k = None" for k by (metis bucket_ok_def not_None_eq)
  then show ?thesis by (metis map_of_eq_None_iff list.set_intros(1) list.set_map neq_Nil_conv prod.collapse image_eqI)
qed

text \<open>
  C3. Progress: an engine waiting for a proposal that accepts one and then receives, phase by phase and in any
  order within a phase, valid votes of validators with two thirds of the stake, finalizes that
  block in that round. Votes after a quorum do no harm.
\<close>

theorem honest_quorum_finalizes:
  assumes "engine_new sh h vs now ts = Inr e0" "e = fst (run_ops (engine_step cr) e0 qs)" "e_step e = SProposal"
    and "receive_proposal cr e p = (e1, Inr ())"
    and "phase_votes cr e1 PreVote pv" "phase_votes cr e1 PreCommit pc" "phase_votes cr e1 Commit cm"
  shows "map_option (\<lambda>f. (f_round f, f_block_hash f))
    (e_finalized (fst (run_ops (engine_step cr) e (Propose p # map Vote (pv @ pc @ cm))))) = Some (e_round e, p_block_hash p)"
proof -
  have i: "engine_inv cr e" unfolding assms(2)
    by (rule engine.run_inv [OF engine_new_inv(1) [OF assms(1)]]) (simp add: list_all_iff)
  have none: "e_proposal e = None" using i assms(3) by (auto simp: engine_inv_def proposal_ok_def split: option.splits)
  have e1: "e1 = e\<lparr>e_proposal := Some p, e_step := SPreVote\<rparr>"
    using assms(4) none by (auto simp: receive_proposal_def split: if_splits option.splits)
  have i1: "engine_inv cr e1" using engine_step_inv [OF i, of "Propose p"] assms(4) by simp
  have b1: "bucket e1 ph = []" for ph using fresh_buckets [OF i assms(3), of ph] by (simp add: e1 bucket_def)
  obtain e2 where e2: "fst (run_ops (engine_step cr) e1 (map Vote pv)) = advance_after_quorum e2 PreVote"
    "engine_inv cr (advance_after_quorum e2 PreVote)" "same_view e1 e2" "\<And>ph. ph \<noteq> PreVote \<Longrightarrow> bucket e2 ph = []"
    using phase_completes_fresh [OF i1 _ b1 assms(5)] b1 by (auto simp: e1)
  let ?e2 = "advance_after_quorum e2 PreVote"
  have v2: "same_view e1 ?e2" using e2(3) by (simp add: same_view_def)
  obtain e3 where e3: "fst (run_ops (engine_step cr) ?e2 (map Vote pc)) = advance_after_quorum e3 PreCommit"
    "engine_inv cr (advance_after_quorum e3 PreCommit)" "same_view ?e2 e3" "bucket e3 Commit = []"
    using phase_completes_fresh [OF e2(2), of PreCommit pc] e2(4) assms(6) phase_votes_cong [OF v2]
    by (auto simp: bucket_def)
  let ?e3 = "advance_after_quorum e3 PreCommit"
  have v3: "same_view e1 ?e3" using v2 e3(3) by (simp add: same_view_def)
  obtain e4 where e4: "fst (run_ops (engine_step cr) ?e3 (map Vote cm)) = advance_after_quorum e4 Commit" "same_view ?e3 e4"
    using phase_completes_fresh [OF e3(2), of Commit cm] e3(4) assms(7) phase_votes_cong [OF v3]
    by (auto simp: bucket_def)
  have "fst (run_ops (engine_step cr) e (Propose p # map Vote (pv @ pc @ cm))) = advance_after_quorum e4 Commit"
    using assms(4) e2(1) e3(1) e4(1) by (simp add: engine.run_append case_prod_unfold Let_def)
  then show ?thesis using v3 e4(2) by (simp add: same_view_def e1)
qed

theorem honest_quorum_finalizes_witness:
  "map_option (\<lambda>f. (f_round f, f_block_hash f))
    (e_finalized (fst (run_ops (engine_step toy_crypto) sample_engine (Propose (sample_proposal 0 9) #
      map Vote ([sample_vote 0 PreVote 9] @ [sample_vote 0 PreCommit 9] @ [sample_vote 0 Commit 9]))))) = Some (0, 9)"
proof -
  let ?e = "sample_engine\<lparr>e_proposal := Some (sample_proposal 0 9), e_step := SPreVote\<rparr>"
  have e: "sample_engine = fst (run_ops (engine_step toy_crypto) sample_engine [])" by simp
  have st: "e_step sample_engine = SProposal" by (simp add: sample_engine_def)
  have r: "receive_proposal toy_crypto sample_engine (sample_proposal 0 9) = (?e, Inr ())" by (simp add: engine_eval)
  have v: "phase_votes toy_crypto ?e ph [sample_vote 0 ph 9]" for ph
    by (simp add: phase_votes_def vote_ok_def signed_by_def engine_eval stake_of_def)
  show ?thesis using honest_quorum_finalizes [OF sample_engine_new e st r v v v] by (simp add: sample_engine_def sample_proposal_def)
qed

section \<open>The vote accumulator and the rewards\<close>

text \<open>Every validator counts once: the accumulated stake is that of the distinct signatories.\<close>

definition tracker_ok :: "(u32 \<Rightarrow> nat) \<Rightarrow> bft_quorum_tracker \<Rightarrow> bool" where
  "tracker_ok st t \<longleftrightarrow> distinct (signatories t) \<and>
     unat (signed_stake t) = min (sum st (set (signatories t))) (2 ^ 64 - 1)"

interpretation quorum: component "\<lambda>t (vote, v). add_vote cr t vote v" "tracker_ok st"
  "\<lambda>(vote, v). unat (actual_stake v) = st (validator_id v)" for cr st
proof unfold_locales
  fix t and q :: "block_signature_with_depth \<times> validator_set_entry"
  assume t: "tracker_ok st t" and q: "case q of (vote, v) \<Rightarrow> unat (actual_stake v) = st (validator_id v)"
  obtain vote v where qv: "q = (vote, v)" by (cases q)
  have "unat (saturating_add (signed_stake t) (actual_stake v)) =
      min (sum st (set (signatories t)) + st (validator_id v)) (2 ^ 64 - 1)"
    using t q unat_saturating_add [of "signed_stake t" "actual_stake v"] by (auto simp: qv tracker_ok_def min_def)
  then show "tracker_ok st (fst (case q of (vote, v) \<Rightarrow> add_vote cr t vote v))"
    using t by (auto simp: qv add_vote_def tracker_ok_def add.commute)
qed

lemma quorum_is_two_thirds:
  "tracker_ok st t \<Longrightarrow>
     verify_quorum t = Inr () \<longleftrightarrow> 2 * unat (total_group_stake t) \<le> 3 * min (sum st (set (signatories t))) (2 ^ 64 - 1)"
  by (simp add: verify_quorum_def has_quorum_def two_thirds_nat tracker_ok_def)

text \<open>A late reward never exceeds the base, and is the exact decayed value while the product fits.\<close>

lemma late_reward_bounded: "unat (calculate_late_reward b k) \<le> unat b"
proof (cases "k > 16")
  case False
  then have k: "unat k \<le> 16" by (simp add: word_less_nat_alt)
  have pow: "x ^ unat k < 2 ^ 128" if "x \<le> 10" for x :: nat
  proof -
    have "x ^ unat k \<le> 10 ^ unat k" using that by (rule power_mono) simp
    also have "\<dots> \<le> 10 ^ 16" using k by (intro power_increasing) simp_all
    finally show ?thesis by (rule le_less_trans) simp
  qed
  have n: "unat (9 ^ unat k :: u128) = 9 ^ unat k" and d: "unat (10 ^ unat k :: u128) = 10 ^ unat k"
    using pow [of 9] pow [of 10] unat_of_nat [of "9 ^ unat k", where 'a = 128] unat_of_nat [of "10 ^ unat k", where 'a = 128]
    by simp_all
  have "unat (saturating_mul b (9 ^ unat k)) \<le> unat b * 10 ^ unat k"
    using power_mono [of "9::nat" 10 "unat k"] by (simp add: unat_saturating_mul n min.coboundedI1)
  then have "unat (saturating_mul b (9 ^ unat k)) div 10 ^ unat k \<le> unat b"
    by (metis div_le_mono nonzero_mult_div_cancel_right power_not_zero zero_neq_numeral)
  then show ?thesis using False by (simp add: calculate_late_reward_def unat_div d)
qed (simp add: calculate_late_reward_def)

lemma finality_window:
  assumes "unat commit_height + 2 ^ 20 < 2 ^ 64"
  shows "is_block_irrevocably_final commit_height current proved \<longleftrightarrow> \<not> proved \<and> unat commit_height + 2 ^ 20 \<le> unat current"
  using assms by (simp add: is_block_irrevocably_final_def CHALLENGE_WINDOW_BLOCKS_def word_le_nat_alt unat_saturating_add)

end
