(* ===== verification/Elections.thy ===== *)
theory Elections
  imports Consensus "HOL-Library.Product_Lexorder" "HOL-Library.Multiset"
begin

text \<open>
  \<open>crates/protocol/onx-consensus/src/election.rs\<close> and the stake cap of \<open>lib.rs\<close>: the election of
  the validator set from the submitted candidates.
\<close>

record candidate_validator_spec =
  c_public_key :: public_key
  proposed_stake :: u64
  max_load_factor :: u16

text \<open>\<open>as u64\<close> keeps the low 64 bits of the cap.\<close>

definition calculate_actual_stake :: "u64 \<Rightarrow> u16 \<Rightarrow> u64 \<Rightarrow> u64" where
  "calculate_actual_stake proposed load_factor_scaled min_selected_stake =
     (let cap = saturating_mul (ucast load_factor_scaled :: u128) (ucast min_selected_stake) div 100
      in min proposed (ucast cap))"

definition DEFAULT_VALIDATOR_CAP :: nat where
  "DEFAULT_VALIDATOR_CAP = 100"

definition DEFAULT_MAX_LOAD_FACTOR_SCALED :: u16 where
  "DEFAULT_MAX_LOAD_FACTOR_SCALED = 1000"

definition MIN_LOAD_FACTOR_SCALED :: u16 where
  "MIN_LOAD_FACTOR_SCALED = 100"

record election_config =
  validator_cap :: nat
  max_load_factor_scaled :: u16

definition election_config_default :: election_config where
  "election_config_default =
     \<lparr>validator_cap = DEFAULT_VALIDATOR_CAP, max_load_factor_scaled = DEFAULT_MAX_LOAD_FACTOR_SCALED\<rparr>"

record stake_refund =
  refund_public_key :: public_key
  refund_amount :: u64

record election_result =
  r_validators :: "validator_set_entry list"
  r_refunds :: "stake_refund list"

text \<open>The validation loop, with the set of encoded keys seen so far.\<close>

fun validate_candidates ::
  "election_config \<Rightarrow> candidate_validator_spec list \<Rightarrow> public_key set \<Rightarrow> consensus_error + unit" where
  "validate_candidates cfg [] seen = Inr ()"
| "validate_candidates cfg (c # cs) seen =
     (if proposed_stake c = 0 then Inl InvalidCandidateStake
      else if max_load_factor c < MIN_LOAD_FACTOR_SCALED \<or> max_load_factor c > max_load_factor_scaled cfg
      then Inl InvalidLoadFactor
      else if c_public_key c \<in> seen then Inl DuplicateCandidate
      else validate_candidates cfg cs (insert (c_public_key c) seen))"

text \<open>
  The comparison of \<open>sort_by\<close>: descending stake, then ascending key. Big-endian byte arrays of one
  length compare as the integers they encode, and \<open>- 1 - stake\<close> reverses the order of the stakes.
\<close>

definition election_key :: "candidate_validator_spec \<Rightarrow> u64 \<times> public_key" where
  "election_key c = (- 1 - proposed_stake c, c_public_key c)"

definition locked_stake :: "u64 \<Rightarrow> nat \<Rightarrow> nat \<times> candidate_validator_spec \<Rightarrow> u64" where
  "locked_stake minimum_selected_stake selected_count = (\<lambda>(index, c).
     if index < selected_count
     then calculate_actual_stake (proposed_stake c) (max_load_factor c) minimum_selected_stake else 0)"

definition run_election ::
  "candidate_validator_spec list \<Rightarrow> election_config \<Rightarrow> consensus_error + election_result" where
  "run_election candidates cfg =
     (if validator_cap cfg = 0 then Inl EmptyValidatorSet
      else bindR (validate_candidates cfg candidates {}) (\<lambda>_.
        let candidates = sort_key election_key candidates;
            selected_count = min (length candidates) (validator_cap cfg)
        in if selected_count = 0 then Inl EmptyValidatorSet
        else
          let minimum_selected_stake = proposed_stake (candidates ! (selected_count - 1));
              locked = locked_stake minimum_selected_stake selected_count;
              indexed = enumerate 0 candidates
          in Inr \<lparr>r_validators = map (\<lambda>(i, c). \<lparr>validator_id = word_of_nat i, v_public_key = c_public_key c,
                                           actual_stake = locked (i, c)\<rparr>)
                     (filter (\<lambda>(i, c). i < selected_count) indexed),
                  r_refunds = map (\<lambda>(i, c). \<lparr>refund_public_key = c_public_key c,
                                        refund_amount = proposed_stake c - locked (i, c)\<rparr>) indexed\<rparr>))"

section \<open>The order and the cap\<close>

lemma election_key_le:
  "election_key a \<le> election_key b \<longleftrightarrow>
     proposed_stake b < proposed_stake a \<or> proposed_stake a = proposed_stake b \<and> c_public_key a \<le> c_public_key b"
proof -
  have "unat (- 1 - x) = 2 ^ 64 - 1 - unat x" for x :: u64
    using unat_sub [of x "- 1"] by (simp add: unat_max_word)
  then have "- 1 - x < - 1 - y \<longleftrightarrow> y < x" for x y :: u64
    using unsigned_less [where ?'a = nat and w = x] unsigned_less [where ?'a = nat and w = y]
    by (simp add: word_less_nat_alt) linarith
  then show ?thesis unfolding election_key_def less_eq_prod_def by (auto simp: not_less [symmetric])
qed

definition stake_cap :: "u16 \<Rightarrow> u64 \<Rightarrow> nat" where
  "stake_cap load minimum = unat load * unat minimum div 100"

lemma actual_stake_capped:
  "unat (calculate_actual_stake proposed load minimum) = min (unat proposed) (stake_cap load minimum mod 2 ^ 64)"
proof -
  have l: "unat (ucast load :: u128) = unat load" and m: "unat (ucast minimum :: u128) = unat minimum"
    using unsigned_less [where ?'a = nat and w = load] unsigned_less [where ?'a = nat and w = minimum]
    by (simp_all add: unsigned_ucast_eq take_bit_nat_eq_self)
  have "unat load * unat minimum < 2 ^ 16 * 2 ^ 64"
    using unsigned_less [where ?'a = nat and w = load] unsigned_less [where ?'a = nat and w = minimum]
    by (intro mult_strict_mono) simp_all
  then have s: "unat (saturating_mul (ucast load :: u128) (ucast minimum)) = unat load * unat minimum"
    by (simp add: unat_saturating_mul l m)
  have "unat (ucast (saturating_mul (ucast load :: u128) (ucast minimum) div 100) :: u64) = stake_cap load minimum mod 2 ^ 64"
    by (simp add: unsigned_ucast_eq take_bit_eq_mod unat_div s stake_cap_def)
  then show ?thesis by (simp add: calculate_actual_stake_def Let_def min_def word_le_nat_alt)
qed

text \<open>A cap above the range of \<open>u64\<close> is truncated: ten times a tenth of the range leaves a stake of four.\<close>

lemma stake_cap_truncates:
  "calculate_actual_stake 1844674407370955162 1000 1844674407370955162 = 4"
  by (simp add: word_unat_eq_iff actual_stake_capped stake_cap_def)

lemma validate_candidates_ok:
  "validate_candidates cfg cs seen = Inr () \<longleftrightarrow>
     (\<forall>c \<in> set cs. proposed_stake c \<noteq> 0 \<and> MIN_LOAD_FACTOR_SCALED \<le> max_load_factor c \<and>
        max_load_factor c \<le> max_load_factor_scaled cfg) \<and>
     distinct (map c_public_key cs) \<and> c_public_key ` set cs \<inter> seen = {}"
  by (induction cs arbitrary: seen) (auto simp: not_less)

section \<open>The elected set\<close>

lemma filter_enumerate: "filter (\<lambda>(i, c). i < n) (enumerate 0 xs) = enumerate 0 (take n xs)"
proof -
  have "filter (\<lambda>(i, c). i < n) (enumerate k xs) = enumerate k (take (n - k) xs)" for k
  proof (induction xs arbitrary: k)
    case (Cons x xs)
    show ?case
    proof (cases "k < n")
      case True
      then have "n - k = Suc (n - Suc k)" by simp
      then show ?thesis using Cons [of "Suc k"] True by simp
    next
      case False
      then have "filter (\<lambda>(i, c). i < n) (enumerate (Suc k) xs) = []" using Cons [of "Suc k"] by simp
      then show ?thesis using False by simp
    qed
  qed simp
  from this [of 0] show ?thesis by simp
qed

lemma run_election_ok:
  assumes "run_election cs cfg = Inr r"
  defines "ss \<equiv> sort_key election_key cs" and "n \<equiv> min (length cs) (validator_cap cfg)"
  defines "lock \<equiv> locked_stake (proposed_stake (ss ! (n - 1))) n"
  shows "0 < n" "validate_candidates cfg cs {} = Inr ()"
    and "r_validators r = map (\<lambda>(i, c). \<lparr>validator_id = word_of_nat i, v_public_key = c_public_key c, actual_stake = lock (i, c)\<rparr>)
      (enumerate 0 (take n ss))"
    and "r_refunds r = map (\<lambda>(i, c). \<lparr>refund_public_key = c_public_key c, refund_amount = proposed_stake c - lock (i, c)\<rparr>)
      (enumerate 0 ss)"
  using assms unfolding run_election_def
  by (auto simp: bindR_Inr Let_def filter_enumerate split: if_splits simp del: min_less_iff_conj)

lemma locked_le: "locked_stake m n ic \<le> proposed_stake (snd ic)"
  by (cases ic) (simp add: locked_stake_def calculate_actual_stake_def Let_def)

lemma sum_take_locked:
  "n \<le> length xs \<Longrightarrow> sum_list (map (\<lambda>(i, c). if i < n then f (i, c) else (0::nat)) (enumerate 0 xs)) =
     sum_list (map f (enumerate 0 (take n xs)))"
proof -
  have "sum_list (map (\<lambda>(i, c). if i < n then f (i, c) else 0) ys) = sum_list (map f (filter (\<lambda>(i, c). i < n) ys))" for ys
    by (induction ys) auto
  then show ?thesis by (simp only: filter_enumerate)
qed

lemma sum_list_minus:
  "(\<And>x. g x \<le> (f x :: nat)) \<Longrightarrow> sum_list (map g ys) + sum_list (map (\<lambda>x. f x - g x) ys) = sum_list (map f ys)"
proof (induction ys)
  case (Cons y ys)
  have "g y \<le> f y" by (rule Cons.prems)
  moreover have "sum_list (map g ys) + sum_list (map (\<lambda>x. f x - g x) ys) = sum_list (map f ys)"
    by (rule Cons.IH [OF Cons.prems])
  ultimately show ?case by (simp only: list.map sum_list.Cons)
qed simp

lemma sum_enumerate: "sum_list (map (\<lambda>ic. g (snd ic)) (enumerate k xs)) = sum_list (map g xs)"
  by (induction xs arbitrary: k) auto

lemma election_sum:
  assumes "run_election cs cfg = Inr r"
  shows "stake_sum (r_validators r) + sum_list (map (\<lambda>f. unat (refund_amount f)) (r_refunds r)) =
      sum_list (map (\<lambda>c. unat (proposed_stake c)) cs)"
proof -
  let ?ss = "sort_key election_key cs"
  define n where "n = min (length cs) (validator_cap cfg)"
  define lock where "lock = locked_stake (proposed_stake (?ss ! (n - 1))) n"
  note ok = run_election_ok [OF assms, folded n_def, folded lock_def]
  have le: "lock ic \<le> proposed_stake (snd ic)" for ic unfolding lock_def by (rule locked_le)
  have "stake_sum (r_validators r) = sum_list (map (\<lambda>ic. unat (lock ic)) (enumerate 0 (take n ?ss)))"
    unfolding ok(3) stake_sum_def by (simp add: case_prod_unfold comp_def)
  also have "\<dots> = sum_list (map (\<lambda>(i, c). if i < n then unat (lock (i, c)) else 0) (enumerate 0 ?ss))"
    by (rule sum_take_locked [symmetric]) (simp add: n_def)
  also have "\<dots> = sum_list (map (\<lambda>ic. unat (lock ic)) (enumerate 0 ?ss))"
    by (intro arg_cong [where f = sum_list] map_cong) (auto simp: lock_def locked_stake_def)
  finally have v: "stake_sum (r_validators r) = sum_list (map (\<lambda>ic. unat (lock ic)) (enumerate 0 ?ss))" .
  have f: "sum_list (map (\<lambda>f. unat (refund_amount f)) (r_refunds r)) =
      sum_list (map (\<lambda>ic. unat (proposed_stake (snd ic)) - unat (lock ic)) (enumerate 0 ?ss))"
    unfolding ok(4) using le by (simp add: case_prod_unfold comp_def unat_sub)
  have "sum_list (map (\<lambda>ic. unat (lock ic)) (enumerate 0 ?ss)) +
      sum_list (map (\<lambda>ic. unat (proposed_stake (snd ic)) - unat (lock ic)) (enumerate 0 ?ss)) =
      sum_list (map (\<lambda>ic. unat (proposed_stake (snd ic))) (enumerate 0 ?ss))"
    by (rule sum_list_minus) (rule le [unfolded word_le_nat_alt])
  also have "\<dots> = sum_list (map (\<lambda>c. unat (proposed_stake c)) ?ss)" by (rule sum_enumerate)
  also have "sum_list (map (\<lambda>c. unat (proposed_stake c)) ?ss) = sum_list (map (\<lambda>c. unat (proposed_stake c)) cs)"
    by (simp flip: sum_mset_sum_list)
  finally show ?thesis unfolding v f .
qed

lemma election_keys:
  assumes "run_election cs cfg = Inr r"
  shows "map v_public_key (r_validators r) = map c_public_key (take (min (length cs) (validator_cap cfg)) (sort_key election_key cs))"
    and "map refund_public_key (r_refunds r) = map c_public_key (sort_key election_key cs)"
    and "distinct (map c_public_key (sort_key election_key cs))"
proof -
  note ok = run_election_ok [OF assms]
  have e: "map (\<lambda>ic. c_public_key (snd ic)) (enumerate k xs) = map c_public_key xs" for k xs
    by (induction xs arbitrary: k) auto
  show "map v_public_key (r_validators r) = map c_public_key (take (min (length cs) (validator_cap cfg)) (sort_key election_key cs))"
    "map refund_public_key (r_refunds r) = map c_public_key (sort_key election_key cs)"
    unfolding ok(3, 4) by (simp_all add: case_prod_unfold comp_def e)
  have "distinct cs" "inj_on c_public_key (set cs)" using ok(2) by (simp_all add: validate_candidates_ok distinct_map)
  then show "distinct (map c_public_key (sort_key election_key cs))" by (simp add: distinct_map)
qed

text \<open>The identifiers of the elected are their places, and their keys are those of candidates.\<close>

lemma elected_ids:
  assumes "run_election cs cfg = Inr r" "validator_cap cfg \<le> 2 ^ 32"
  shows "distinct (map validator_id (r_validators r))"
proof -
  let ?n = "min (length cs) (validator_cap cfg)"
  have "map validator_id (r_validators r) = map (word_of_nat :: nat \<Rightarrow> u32) (map fst (enumerate 0 (take ?n (sort_key election_key cs))))"
    unfolding run_election_ok(3) [OF assms(1)] map_map by (rule map_cong) auto
  then have "map validator_id (r_validators r) = map (word_of_nat :: nat \<Rightarrow> u32) [0..<?n]" by simp
  moreover have "inj_on (word_of_nat :: nat \<Rightarrow> u32) {0..<?n}"
    using assms(2) by (auto simp: inj_on_def word_of_nat_eq_iff take_bit_nat_eq_self)
  ultimately show ?thesis by (simp add: distinct_map)
qed

lemma elected_from_candidates:
  assumes "run_election cs cfg = Inr r" "w \<in> set (r_validators r)"
  shows "\<exists>c \<in> set cs. v_public_key w = c_public_key c \<and> actual_stake w \<le> proposed_stake c"
proof -
  obtain i c m n where ic: "(i, c) \<in> set (enumerate 0 (take (min (length cs) (validator_cap cfg)) (sort_key election_key cs)))"
    and w: "w = \<lparr>validator_id = word_of_nat i, v_public_key = c_public_key c, actual_stake = locked_stake m n (i, c)\<rparr>"
    using assms(2) unfolding run_election_ok(3) [OF assms(1)] by (auto simp del: One_nat_def)
  have "c \<in> set (sort_key election_key cs)"
    using ic unfolding enumerate_eq_zip by (metis in_set_takeD set_zip_rightD)
  then have "c \<in> set cs" by simp
  then show ?thesis using locked_le [of m n "(i, c)"] by (auto simp: w)
qed

section \<open>Properties\<close>

text \<open>
  C31. An election conserves stake: the stakes locked for the elected validators and the refunds add up to the
  stakes proposed; every candidate is refunded exactly once, the elected are as many
  as the cap and the candidates allow, with distinct keys of candidates.
\<close>

theorem election_conserves_stake:
  assumes "run_election cs cfg = Inr r"
  shows "stake_sum (r_validators r) + sum_list (map (\<lambda>f. unat (refund_amount f)) (r_refunds r)) =
      sum_list (map (\<lambda>c. unat (proposed_stake c)) cs) \<and>
    mset (map refund_public_key (r_refunds r)) = mset (map c_public_key cs) \<and>
    length (r_validators r) = min (length cs) (validator_cap cfg) \<and>
    distinct (map v_public_key (r_validators r)) \<and> set (map v_public_key (r_validators r)) \<subseteq> set (map c_public_key cs)"
proof -
  let ?ss = "sort_key election_key cs"
  note keys = election_keys [OF assms]
  have "distinct (map c_public_key (take (min (length cs) (validator_cap cfg)) ?ss))"
    using keys(3) by (metis distinct_take take_map)
  then have "distinct (map v_public_key (r_validators r))" unfolding keys(1) .
  moreover have "set (map v_public_key (r_validators r)) \<subseteq> set (map c_public_key cs)"
    unfolding keys(1) using set_take_subset [of _ ?ss] by auto
  moreover have "length (r_validators r) = min (length cs) (validator_cap cfg)"
    using arg_cong [OF keys(1), of length] by simp
  moreover have "mset (map refund_public_key (r_refunds r)) = mset (map c_public_key cs)"
    unfolding keys(2) by simp
  ultimately show ?thesis using election_sum [OF assms] by blast
qed

definition sample_candidates :: "candidate_validator_spec list" where
  "sample_candidates =
     [\<lparr>c_public_key = 1, proposed_stake = 50, max_load_factor = 200\<rparr>,
      \<lparr>c_public_key = 2, proposed_stake = 400, max_load_factor = 300\<rparr>,
      \<lparr>c_public_key = 3, proposed_stake = 100, max_load_factor = 100\<rparr>]"

definition sample_election :: election_result where
  "sample_election =
     \<lparr>r_validators = [\<lparr>validator_id = 0, v_public_key = 2, actual_stake = 300\<rparr>, \<lparr>validator_id = 1, v_public_key = 3, actual_stake = 100\<rparr>],
      r_refunds = [\<lparr>refund_public_key = 2, refund_amount = 100\<rparr>, \<lparr>refund_public_key = 3, refund_amount = 0\<rparr>,
                   \<lparr>refund_public_key = 1, refund_amount = 50\<rparr>]\<rparr>"

lemma sample_election_run: "run_election sample_candidates \<lparr>validator_cap = 2, max_load_factor_scaled = 1000\<rparr> = Inr sample_election"
  by (simp add: run_election_def sample_candidates_def sample_election_def election_key_le MIN_LOAD_FACTOR_SCALED_def
      locked_stake_def calculate_actual_stake_def saturating_mul_def word_less_nat_alt word_le_nat_alt Let_def min_def)

theorem election_conserves_stake_witness:
  "stake_sum (r_validators sample_election) + sum_list (map (\<lambda>f. unat (refund_amount f)) (r_refunds sample_election)) =
     sum_list (map (\<lambda>c. unat (proposed_stake c)) sample_candidates)"
  using election_conserves_stake [OF sample_election_run] by blast

lemma election_succeeds_iff:
  "(\<exists>r. run_election cs cfg = Inr r) \<longleftrightarrow> validator_cap cfg \<noteq> 0 \<and> cs \<noteq> [] \<and> validate_candidates cfg cs {} = Inr ()"
  by (auto simp: run_election_def bindR_Inr Let_def min_def split: if_splits)

lemma election_permuted:
  assumes "run_election cs cfg = Inr r" "mset ds = mset cs"
  shows "run_election ds cfg = Inr r"
proof -
  note ok = run_election_ok [OF assms(1)]
  have s: "set ds = set cs" and l: "length ds = length cs" using mset_eq_setD [OF assms(2)] mset_eq_length [OF assms(2)] .
  have dk: "distinct (map c_public_key cs)" using ok(2) by (simp add: validate_candidates_ok)
  then have "distinct (map c_public_key ds)"
    using mset_eq_imp_distinct_iff [of "map c_public_key ds" "map c_public_key cs"] assms(2) by simp
  then have v: "validate_candidates cfg ds {} = Inr ()" using ok(2) by (simp add: validate_candidates_ok s)
  have "inj_on election_key (set ds)"
    using dk by (auto simp: s inj_on_def election_key_def distinct_map)
  then have "sort_key election_key ds = sort_key election_key cs"
    by (intro sort_key_inj_key_eq) (simp_all add: assms(2))
  then have "run_election ds cfg = run_election cs cfg" unfolding run_election_def by (simp only: v ok(2) l length_sort)
  then show ?thesis using assms(1) by simp
qed

text \<open>
  C32. Whether an election succeeds, and with which result, depends only on which candidates were
  submitted, not on the order of their submission: it succeeds exactly if the cap is positive, there are
  candidates, every stake is positive, every load factor lies within its bounds and no key occurs twice, and
  then the result is the same for every order. Only which error a refused submission reports may
  depend on the order.
\<close>

theorem election_order_independent:
  assumes "mset ds = mset cs"
  shows "(\<forall>r. run_election ds cfg = Inr r \<longleftrightarrow> run_election cs cfg = Inr r) \<and>
    ((\<exists>r. run_election cs cfg = Inr r) \<longleftrightarrow> validator_cap cfg \<noteq> 0 \<and> cs \<noteq> [] \<and> distinct (map c_public_key cs) \<and>
       (\<forall>c \<in> set cs. proposed_stake c \<noteq> 0 \<and> MIN_LOAD_FACTOR_SCALED \<le> max_load_factor c \<and>
          max_load_factor c \<le> max_load_factor_scaled cfg))"
proof -
  have "run_election ds cfg = Inr r \<longleftrightarrow> run_election cs cfg = Inr r" for r
    using election_permuted [OF _ assms] election_permuted [OF _ assms [symmetric]] by blast
  moreover have "validate_candidates cfg cs {} = Inr () \<longleftrightarrow> distinct (map c_public_key cs) \<and>
      (\<forall>c \<in> set cs. proposed_stake c \<noteq> 0 \<and> MIN_LOAD_FACTOR_SCALED \<le> max_load_factor c \<and>
        max_load_factor c \<le> max_load_factor_scaled cfg)"
    by (auto simp: validate_candidates_ok)
  ultimately show ?thesis unfolding election_succeeds_iff by blast
qed

theorem election_order_independent_witness:
  "run_election (rev sample_candidates) \<lparr>validator_cap = 2, max_load_factor_scaled = 1000\<rparr> = Inr sample_election"
  using election_order_independent [of "rev sample_candidates" sample_candidates "\<lparr>validator_cap = 2, max_load_factor_scaled = 1000\<rparr>"]
    sample_election_run by simp

text \<open>A candidate without stake and one with too small a load factor: the first one is reported.\<close>

lemma refusal_depends_on_order:
  "run_election [\<lparr>c_public_key = 1, proposed_stake = 0, max_load_factor = 100\<rparr>, \<lparr>c_public_key = 2, proposed_stake = 5, max_load_factor = 0\<rparr>]
     election_config_default = Inl InvalidCandidateStake"
  "run_election [\<lparr>c_public_key = 2, proposed_stake = 5, max_load_factor = 0\<rparr>, \<lparr>c_public_key = 1, proposed_stake = 0, max_load_factor = 100\<rparr>]
     election_config_default = Inl InvalidLoadFactor"
  by (simp_all add: run_election_def election_config_default_def DEFAULT_VALIDATOR_CAP_def MIN_LOAD_FACTOR_SCALED_def)

text \<open>
  The election takes the highest stakes and caps their spread: no refused candidate proposed more than an elected
  one, and where the caps fit \<open>u64\<close> every elected validator locks the lesser of its proposal and its load factor
  times the smallest elected proposal, so no stake is below that smallest proposal.
\<close>

theorem election_selects_and_caps:
  assumes "run_election cs cfg = Inr r" "i < length (r_validators r)"
  shows "\<exists>ss m. mset ss = mset cs \<and>
    m = proposed_stake (ss ! (length (r_validators r) - 1)) \<and>
    v_public_key (r_validators r ! i) = c_public_key (ss ! i) \<and>
    (\<forall>j < length cs. i \<le> j \<longrightarrow> proposed_stake (ss ! j) \<le> proposed_stake (ss ! i)) \<and>
    (stake_cap (max_load_factor (ss ! i)) m < 2 ^ 64 \<longrightarrow>
       unat (actual_stake (r_validators r ! i)) = min (unat (proposed_stake (ss ! i))) (stake_cap (max_load_factor (ss ! i)) m) \<and>
       m \<le> actual_stake (r_validators r ! i))"
proof -
  define ss where "ss = sort_key election_key cs"
  define n where "n = min (length cs) (validator_cap cfg)"
  define m where "m = proposed_stake (ss ! (n - 1))"
  note ok = run_election_ok [OF assms(1), folded ss_def, folded n_def, folded m_def]
  have len: "length (r_validators r) = n" "length ss = length cs" unfolding ok(3) by (simp_all add: n_def ss_def)
  then have i: "i < n" "i < length cs" "n \<le> length cs" using assms(2) by (simp_all add: n_def)
  have "sorted (map election_key ss)" by (simp add: ss_def)
  then have ord: "proposed_stake (ss ! j) \<le> proposed_stake (ss ! i)" if "i \<le> j" "j < length cs" for i j
    using that len(2) sorted_nth_mono [of "map election_key ss" i j] by (auto simp: election_key_le)
  have nth: "r_validators r ! i = \<lparr>validator_id = word_of_nat i, v_public_key = c_public_key (ss ! i),
      actual_stake = locked_stake m n (i, ss ! i)\<rparr>"
    unfolding ok(3) using i len by (simp add: nth_enumerate_eq)
  have mi: "m \<le> proposed_stake (ss ! i)" unfolding m_def using i by (intro ord) auto
  have "ss ! i \<in> set cs" using i len(2) by (metis nth_mem set_sort ss_def)
  then have "MIN_LOAD_FACTOR_SCALED \<le> max_load_factor (ss ! i)" using ok(2) by (simp add: validate_candidates_ok)
  then have load: "100 \<le> unat (max_load_factor (ss ! i))" by (simp add: MIN_LOAD_FACTOR_SCALED_def word_le_nat_alt)
  then have "100 * unat m div 100 \<le> stake_cap (max_load_factor (ss ! i)) m"
    unfolding stake_cap_def by (intro div_le_mono mult_le_mono1)
  then have "stake_cap (max_load_factor (ss ! i)) m < 2 ^ 64 \<Longrightarrow>
      unat (actual_stake (r_validators r ! i)) = min (unat (proposed_stake (ss ! i))) (stake_cap (max_load_factor (ss ! i)) m) \<and>
      m \<le> actual_stake (r_validators r ! i)"
    using i(1) mi by (simp add: nth locked_stake_def actual_stake_capped word_le_nat_alt)
  then show ?thesis using ord i nth len by (intro exI [of _ ss] exI [of _ m]) (auto simp: m_def ss_def)
qed

theorem election_selects_and_caps_witness:
  "v_public_key (r_validators sample_election ! 0) \<in> c_public_key ` set sample_candidates"
proof -
  have i: "0 < length (r_validators sample_election)" by (simp add: sample_election_def)
  from election_selects_and_caps [OF sample_election_run i] obtain ss where
    "mset ss = mset sample_candidates" "v_public_key (r_validators sample_election ! 0) = c_public_key (ss ! 0)" by blast
  moreover from this(1) have "set ss = set sample_candidates" "length ss = 3"
    by (rule mset_eq_setD) (use \<open>mset ss = mset sample_candidates\<close> in \<open>simp add: sample_candidates_def mset_eq_length flip: size_mset\<close>)
  ultimately show ?thesis by (metis imageI nth_mem zero_less_numeral)
qed

end
