(* ===== verification/Sharding.thy ===== *)
theory Sharding
  imports Messages Accounts Ordered_Maps "HOL-Library.Product_Lexorder" "HOL-Library.Multiset"
begin

unbundle bit_operations_syntax

text \<open>
  \<open>crates/protocol/onx-sharding\<close>: the binary shard tree with its load rules (\<open>lib.rs\<close>), and the
  migration of accounts and pending messages when a shard splits or two siblings merge
  (\<open>pipeline.rs\<close>). Account identifiers and message hashes are 256-bit words, whose order is that of
  their big-endian bytes.
\<close>

datatype sharding_error =
    InvalidShardPrefixLength | NonPartitioningLeaves | AnnouncementSequenceViolation
  | TaskGroupDriftExceeded | InvalidMergeSiblings | AccountOutsideShard | MessageOutsideShard

section \<open>The shard tree\<close>

datatype shard_tree_node =
    ShardLeaf shard_ident (block_bytes_avg: u64) (gas_used_avg: u64)
  | ShardInternal shard_ident shard_tree_node shard_tree_node

definition new_leaf :: "shard_ident \<Rightarrow> shard_tree_node" where
  "new_leaf s = ShardLeaf s 0 0"

fun split_leaf :: "shard_tree_node \<Rightarrow> sharding_error + shard_tree_node" where
  "split_leaf (ShardLeaf s bytes gas) =
     bindR (map_err (\<lambda>_. InvalidShardPrefixLength) (prefix_len s)) (\<lambda>len.
     if len \<ge> 60 then Inl InvalidShardPrefixLength
     else
       let base_ident = shard_prefix_ident s;
           child_0_ident = (base_ident AND NOT (push_bit (63 - len) 1)) OR push_bit (62 - len) 1;
           child_1_ident = base_ident OR push_bit (63 - len) 1 OR push_bit (62 - len) 1
       in Inr (ShardInternal s
                 (new_leaf \<lparr>shard_workchain = shard_workchain s, shard_prefix_ident = child_0_ident\<rparr>)
                 (new_leaf \<lparr>shard_workchain = shard_workchain s, shard_prefix_ident = child_1_ident\<rparr>)))"
| "split_leaf (ShardInternal s l r) = Inl InvalidShardPrefixLength"

text \<open>The products are plain \<open>u64\<close> multiplications: \<open>None\<close> is the overflow panic.\<close>

definition should_split :: "profile \<Rightarrow> u64 \<Rightarrow> u64 \<Rightarrow> u64 \<Rightarrow> u64 \<Rightarrow> bool option" where
  "should_split p bytes_avg byte_limit gas_avg g_limit =
     Option.bind (plain_mul p bytes_avg 100) (\<lambda>a. Option.bind (plain_mul p byte_limit 75) (\<lambda>b.
     if a \<ge> b then
       Option.bind (plain_mul p gas_avg 100) (\<lambda>c. Option.bind (plain_mul p g_limit 75) (\<lambda>d. Some (c \<ge> d)))
     else Some False))"

definition should_merge :: "profile \<Rightarrow> u64 \<Rightarrow> u64 \<Rightarrow> u64 \<Rightarrow> u64 \<Rightarrow> bool option" where
  "should_merge p bytes_avg byte_limit gas_avg g_limit =
     Option.bind (plain_mul p bytes_avg 100) (\<lambda>a. Option.bind (plain_mul p byte_limit 20) (\<lambda>b.
     if a \<le> b then
       Option.bind (plain_mul p gas_avg 100) (\<lambda>c. Option.bind (plain_mul p g_limit 20) (\<lambda>d. Some (c \<le> d)))
     else Some False))"

fun shard_tree_hash :: "crypto \<Rightarrow> shard_tree_node \<Rightarrow> hash32" where
  "shard_tree_hash cr (ShardLeaf s bytes gas) = domain_hash cr BLOCK_HEADER_V1 (0x00 # shard_to_bytes s)"
| "shard_tree_hash cr (ShardInternal s l r) =
     domain_hash cr BLOCK_HEADER_V1
       (0x01 # shard_to_bytes s @ encode (shard_tree_hash cr l) @ encode (shard_tree_hash cr r))"

section \<open>Triggers and timing\<close>

definition PREPARE_LEAD_BLOCKS :: u64 where
  "PREPARE_LEAD_BLOCKS = 8"

definition SPLIT_LOAD_WINDOW_BLOCKS :: nat where
  "SPLIT_LOAD_WINDOW_BLOCKS = 256"

definition MERGE_LOAD_WINDOW_BLOCKS :: nat where
  "MERGE_LOAD_WINDOW_BLOCKS = 1024"

datatype transition_kind = Split | Merge

record load_sample =
  block_bytes :: u64
  sample_gas_used :: u64

definition at_least_percent :: "u64 \<Rightarrow> u64 \<Rightarrow> u64 \<Rightarrow> bool" where
  "at_least_percent value limit percent \<longleftrightarrow>
     limit \<noteq> 0 \<and> (ucast value :: u128) * 100 \<ge> (ucast limit :: u128) * (ucast percent :: u128)"

definition at_most_percent :: "u64 \<Rightarrow> u64 \<Rightarrow> u64 \<Rightarrow> bool" where
  "at_most_percent value limit percent \<longleftrightarrow>
     limit \<noteq> 0 \<and> (ucast value :: u128) * 100 \<le> (ucast limit :: u128) * (ucast percent :: u128)"

definition split_trigger_met :: "load_sample list \<Rightarrow> u64 \<Rightarrow> u64 \<Rightarrow> bool" where
  "split_trigger_met samples byte_limit g_limit \<longleftrightarrow>
     length samples = SPLIT_LOAD_WINDOW_BLOCKS \<and>
     list_all (\<lambda>x. at_least_percent (block_bytes x) byte_limit 75 \<and> at_least_percent (sample_gas_used x) g_limit 75) samples"

definition merge_trigger_met :: "load_sample list \<Rightarrow> u64 \<Rightarrow> u64 \<Rightarrow> bool" where
  "merge_trigger_met samples byte_limit g_limit \<longleftrightarrow>
     length samples = MERGE_LOAD_WINDOW_BLOCKS \<and>
     list_all (\<lambda>x. at_most_percent (block_bytes x) byte_limit 20 \<and> at_most_percent (sample_gas_used x) g_limit 20) samples"

definition abs_diff :: "u64 \<Rightarrow> u64 \<Rightarrow> u64" where
  "abs_diff a b = (if a \<ge> b then a - b else b - a)"

definition validate_transition_commit ::
  "transition_kind \<Rightarrow> u64 list \<Rightarrow> u64 \<Rightarrow> u64 \<Rightarrow> u64 \<Rightarrow> sharding_error + unit" where
  "validate_transition_commit kind prepare_heights commit_height announced_epoch commit_epoch =
     (let expected_prepares = (case kind of Split \<Rightarrow> 1 | Merge \<Rightarrow> 2) in
      if length prepare_heights \<noteq> expected_prepares \<or>
         list_ex (\<lambda>h. case checked_add h PREPARE_LEAD_BLOCKS of None \<Rightarrow> True | Some e \<Rightarrow> e \<noteq> commit_height) prepare_heights
      then Inl AnnouncementSequenceViolation
      else if abs_diff announced_epoch commit_epoch > 1 then Inl TaskGroupDriftExceeded
      else Inr ())"

section \<open>Splitting and merging states\<close>

record shard_state =
  st_shard :: shard_ident
  st_accounts :: "(account_id, account_state) btree"
  pending_messages :: "message list"

fun check_accounts :: "shard_ident \<Rightarrow> account_id list \<Rightarrow> sharding_error + unit" where
  "check_accounts s [] = Inr ()"
| "check_accounts s (a # as) =
     bindR (map_err (\<lambda>_. AccountOutsideShard) (contains_account s a)) (\<lambda>b.
     if \<not> b then Inl AccountOutsideShard else check_accounts s as)"

fun check_messages :: "shard_ident \<Rightarrow> message list \<Rightarrow> sharding_error + unit" where
  "check_messages s [] = Inr ()"
| "check_messages s (m # ms) =
     (if \<not> is_ok (validate_dest_shard m s) then Inl MessageOutsideShard else check_messages s ms)"

definition validate_ownership :: "shard_state \<Rightarrow> sharding_error + unit" where
  "validate_ownership st =
     bindR (check_accounts (st_shard st) (map fst (st_accounts st))) (\<lambda>_.
     check_messages (st_shard st) (pending_messages st))"

definition message_key :: "crypto \<Rightarrow> message \<Rightarrow> u64 \<times> hash32" where
  "message_key cr m = (created_lt m, message_hash cr m)"

definition sort_messages :: "crypto \<Rightarrow> message list \<Rightarrow> message list" where
  "sort_messages cr ms = sort_key (message_key cr) ms"

text \<open>The two loops of \<open>split_shard_state\<close>.\<close>

fun split_accounts ::
  "shard_ident \<Rightarrow> (account_id \<times> account_state) list \<Rightarrow> (account_id, account_state) btree \<Rightarrow>
     (account_id, account_state) btree \<Rightarrow>
     sharding_error + (account_id, account_state) btree \<times> (account_id, account_state) btree" where
  "split_accounts left [] l r = Inr (l, r)"
| "split_accounts left ((a, st) # as) l r =
     bindR (map_err (\<lambda>_. AccountOutsideShard) (contains_account left a)) (\<lambda>b.
     if b then split_accounts left as (bt_insert l a st) r
     else split_accounts left as l (bt_insert r a st))"

fun split_messages ::
  "shard_ident \<Rightarrow> shard_ident \<Rightarrow> message list \<Rightarrow> message list \<Rightarrow> message list \<Rightarrow>
     sharding_error + message list \<times> message list" where
  "split_messages left right [] l r = Inr (l, r)"
| "split_messages left right (m # ms) l r =
     (if is_ok (validate_dest_shard m left) then split_messages left right ms (l @ [m]) r
      else if is_ok (validate_dest_shard m right) then split_messages left right ms l (r @ [m])
      else Inl MessageOutsideShard)"

text \<open>\<open>split_leaf\<close> always returns an internal node with two leaves, so the remaining patterns of the
  code's match are unreachable.\<close>

definition split_shard_state :: "crypto \<Rightarrow> shard_state \<Rightarrow> sharding_error + shard_state \<times> shard_state" where
  "split_shard_state cr parent =
     bindR (validate_ownership parent) (\<lambda>_.
     bindR (split_leaf (new_leaf (st_shard parent))) (\<lambda>tree.
     case tree of
       ShardInternal _ (ShardLeaf left _ _) (ShardLeaf right _ _) \<Rightarrow>
         bindR (split_accounts left (st_accounts parent) [] []) (\<lambda>(la, ra).
         bindR (split_messages left right (pending_messages parent) [] []) (\<lambda>(lm, rm).
         Inr (\<lparr>st_shard = left, st_accounts = la, pending_messages = sort_messages cr lm\<rparr>,
              \<lparr>st_shard = right, st_accounts = ra, pending_messages = sort_messages cr rm\<rparr>)))
     | _ \<Rightarrow> Inl InvalidShardPrefixLength))"

definition common_parent :: "shard_ident \<Rightarrow> shard_ident \<Rightarrow> sharding_error + shard_ident" where
  "common_parent first second =
     bindR (map_err (\<lambda>_. InvalidMergeSiblings) (prefix_len first)) (\<lambda>len.
     if len = 0 \<or> shard_workchain first \<noteq> shard_workchain second \<or> prefix_len second \<noteq> Inr len
     then Inl InvalidMergeSiblings
     else
       let child_mask = push_bit (64 - len) (NOT 0);
           differing = (shard_prefix_ident first XOR shard_prefix_ident second) AND child_mask
       in if differing \<noteq> push_bit (64 - len) 1 then Inl InvalidMergeSiblings
          else map_err (\<lambda>_. InvalidMergeSiblings)
                 (from_prefix_bits (shard_workchain first) (shard_prefix_ident first) (len - 1)))"

definition merge_shard_states :: "crypto \<Rightarrow> shard_state \<Rightarrow> shard_state \<Rightarrow> sharding_error + shard_state" where
  "merge_shard_states cr first second =
     bindR (validate_ownership first) (\<lambda>_.
     bindR (validate_ownership second) (\<lambda>_.
     bindR (common_parent (st_shard first) (st_shard second)) (\<lambda>parent.
     let accs = fold (\<lambda>(a, st) m. bt_insert m a st) (st_accounts second) (st_accounts first);
         pending = sort_messages cr (pending_messages first @ pending_messages second)
     in Inr \<lparr>st_shard = parent, st_accounts = accs, pending_messages = pending\<rparr>)))"

section \<open>The children of a shard\<close>

definition shard_child :: "shard_ident \<Rightarrow> nat \<Rightarrow> bool \<Rightarrow> shard_ident" where
  "shard_child s n b = \<lparr>shard_workchain = shard_workchain s,
     shard_prefix_ident =
       (if b then shard_prefix_ident s OR push_bit (63 - n) 1 OR push_bit (62 - n) 1
        else (shard_prefix_ident s AND NOT (push_bit (63 - n) 1)) OR push_bit (62 - n) 1)\<rparr>"

lemma split_leaf_Inr:
  "split_leaf (new_leaf s) = Inr t \<longleftrightarrow> (\<exists>n < 60. has_prefix_len s n \<and>
     t = ShardInternal s (new_leaf (shard_child s n False)) (new_leaf (shard_child s n True)))"
proof (cases "prefix_len s")
  case (Inl e)
  then have "\<not> has_prefix_len s n" for n using prefix_len_Inr [of s n] by simp
  then show ?thesis using Inl by (simp add: new_leaf_def)
next
  case (Inr n)
  then have n: "has_prefix_len s m \<longleftrightarrow> m = n" for m using prefix_len_Inr [of s m] by auto
  show ?thesis unfolding n by (simp add: new_leaf_def Inr shard_child_def Let_def) (auto simp: new_leaf_def)
qed

lemma shard_child_workchain [simp]: "shard_workchain (shard_child s n b) = shard_workchain s"
  by (simp add: shard_child_def)

lemma shard_child_bits:
  assumes "n < 60" "i \<le> n"
  shows "bit (shard_prefix_ident (shard_child s n b)) (63 - i) = (if i = n then b else bit (shard_prefix_ident s) (63 - i))"
  using assms by (auto simp: shard_child_def bit_simps)

lemma shard_child_len:
  assumes "has_prefix_len s n" "n < 60"
  shows "has_prefix_len (shard_child s n b) (Suc n)"
proof -
  have "bit (shard_prefix_ident (shard_child s n b)) (63 - Suc n)" using assms(2) by (auto simp: shard_child_def bit_simps)
  moreover have "\<not> bit (shard_prefix_ident (shard_child s n b)) i" if "i < 63 - Suc n" for i
    using that assms by (auto simp: shard_child_def bit_simps has_prefix_len_def)
  ultimately show ?thesis using assms(2) by (simp add: has_prefix_len_def)
qed

lemma in_shard_child:
  assumes "n < 60"
  shows "in_shard_prefix (shard_child s n b) (Suc n) a \<longleftrightarrow> in_shard_prefix s n a \<and> bit a (255 - n) = b"
  unfolding in_shard_prefix_def using shard_child_bits [OF assms] by (auto simp: less_Suc_eq)

lemma contains_child:
  assumes "has_prefix_len s n" "n < 60"
  shows "contains_account (shard_child s n b) a = Inr (in_shard_prefix s n a \<and> bit a (255 - n) = b)"
  using contains_account_eq [OF shard_child_len [OF assms]] in_shard_child [OF assms(2)] by simp

section \<open>Ownership\<close>

lemma check_accounts_ok: "check_accounts s as = Inr () \<longleftrightarrow> (\<forall>a \<in> set as. contains_account s a = Inr True)"
  by (induction as) (auto simp: bindR_Inr)

lemma check_messages_ok: "check_messages s ms = Inr () \<longleftrightarrow> (\<forall>m \<in> set ms. is_ok (validate_dest_shard m s))"
  by (induction ms) auto

lemma dest_in_shard:
  "is_ok (validate_dest_shard m s) \<longleftrightarrow> shard_workchain s = addr_workchain (dest_address m) \<and>
     contains_account s (addr_account (dest_address m)) = Inr True"
  by (auto simp: validate_dest_shard_def address_validate_against_shard_def validate_full_address_def
      validate_account_id_def is_ok_iff bindR_Inr)

lemma ownership_ok:
  "validate_ownership st = Inr () \<longleftrightarrow>
     (\<forall>a \<in> fst ` set (st_accounts st). contains_account (st_shard st) a = Inr True) \<and>
     (\<forall>m \<in> set (pending_messages st). is_ok (validate_dest_shard m (st_shard st)))"
  by (auto simp: validate_ownership_def bindR_Inr check_accounts_ok check_messages_ok)

section \<open>The loops of the split\<close>

lemma bt_insert_last: "\<forall>j \<in> fst ` set m. j < k \<Longrightarrow> bt_insert m k v = m @ [(k, v)]"
  by (induction m k v rule: bt_insert.induct) auto

lemma split_accounts_filter:
  assumes "\<And>a. contains_account left a = Inr (P a)" "bt_inv xs"
    and "\<forall>j \<in> fst ` set l \<union> fst ` set r. \<forall>k \<in> fst ` set xs. j < k"
  shows "split_accounts left xs l r = Inr (l @ filter (\<lambda>p. P (fst p)) xs, r @ filter (\<lambda>p. \<not> P (fst p)) xs)"
  using assms(2, 3)
proof (induction xs arbitrary: l r)
  case (Cons p xs)
  obtain a st where p: "p = (a, st)" by (cases p)
  have inv: "bt_inv xs" "\<forall>k \<in> fst ` set xs. a < k" using Cons.prems(1) by (simp_all add: p bt_inv_Cons)
  have l: "bt_insert l a st = l @ [(a, st)]" and r: "bt_insert r a st = r @ [(a, st)]"
    using Cons.prems(2) by (auto simp: p intro!: bt_insert_last)
  have "\<forall>j \<in> fst ` set (l @ [(a, st)]) \<union> fst ` set r. \<forall>k \<in> fst ` set xs. j < k"
    "\<forall>j \<in> fst ` set l \<union> fst ` set (r @ [(a, st)]). \<forall>k \<in> fst ` set xs. j < k"
    using Cons.prems(2) inv(2) by (auto simp: p)
  note IH = Cons.IH [OF inv(1) this(1)] Cons.IH [OF inv(1) this(2)]
  show ?case using IH by (simp add: p assms(1) l r)
qed simp

lemma split_messages_filter:
  assumes "\<forall>m \<in> set ms. is_ok (validate_dest_shard m left) \<or> is_ok (validate_dest_shard m right)"
  shows "split_messages left right ms l r = Inr (l @ filter (\<lambda>m. is_ok (validate_dest_shard m left)) ms,
     r @ filter (\<lambda>m. \<not> is_ok (validate_dest_shard m left)) ms)"
  using assms by (induction ms arbitrary: l r) auto

definition side_state :: "crypto \<Rightarrow> shard_state \<Rightarrow> nat \<Rightarrow> bool \<Rightarrow> shard_state" where
  "side_state cr st n b = \<lparr>st_shard = shard_child (st_shard st) n b,
     st_accounts = filter (\<lambda>p. bit (fst p) (255 - n) = b) (st_accounts st),
     pending_messages = sort_messages cr (filter (\<lambda>m. bit (addr_account (dest_address m)) (255 - n) = b) (pending_messages st))\<rparr>"

text \<open>The split, for a state that owns what it holds.\<close>

lemma split_state_eq:
  assumes inv: "bt_inv (st_accounts st)" and own: "validate_ownership st = Inr ()"
    and n: "has_prefix_len (st_shard st) n" "n < 60"
  shows "split_shard_state cr st = Inr (side_state cr st n False, side_state cr st n True)"
proof -
  let ?c = "shard_child (st_shard st) n"
  note con = contains_child [OF n]
  have acc: "in_shard_prefix (st_shard st) n a" if "a \<in> fst ` set (st_accounts st)" for a
    using own that contains_account_eq [OF n(1), of a] by (auto simp: ownership_ok)
  have msg: "is_ok (validate_dest_shard m (?c b)) \<longleftrightarrow> bit (addr_account (dest_address m)) (255 - n) = b"
    if "m \<in> set (pending_messages st)" for m b
    using own that contains_account_eq [OF n(1)] by (auto simp: ownership_ok dest_in_shard con)
  have "split_accounts (?c False) (st_accounts st) [] [] =
      Inr (filter (\<lambda>p. bit (fst p) (255 - n) = False) (st_accounts st), filter (\<lambda>p. bit (fst p) (255 - n) = True) (st_accounts st))"
    using split_accounts_filter [OF con inv, of "[]" "[]" False] acc by (auto intro!: filter_cong)
  moreover have "split_messages (?c False) (?c True) (pending_messages st) [] [] =
      Inr (filter (\<lambda>m. bit (addr_account (dest_address m)) (255 - n) = False) (pending_messages st),
           filter (\<lambda>m. bit (addr_account (dest_address m)) (255 - n) = True) (pending_messages st))"
    using msg by (subst split_messages_filter) (auto intro!: filter_cong)
  moreover have "split_leaf (new_leaf (st_shard st)) = Inr (ShardInternal (st_shard st) (new_leaf (?c False)) (new_leaf (?c True)))"
    using n by (subst split_leaf_Inr) auto
  ultimately show ?thesis
    by (simp add: split_shard_state_def own side_state_def new_leaf_def)
qed

lemma split_shard_state_Inr:
  assumes "bt_inv (st_accounts st)"
  shows "split_shard_state cr st = Inr lr \<longleftrightarrow> validate_ownership st = Inr () \<and>
    (\<exists>n < 60. has_prefix_len (st_shard st) n \<and> lr = (side_state cr st n False, side_state cr st n True))"
proof
  assume s: "split_shard_state cr st = Inr lr"
  then have own: "validate_ownership st = Inr ()" by (auto simp: split_shard_state_def bindR_Inr)
  from s obtain n where "n < 60" "has_prefix_len (st_shard st) n"
    by (auto simp: split_shard_state_def bindR_Inr split_leaf_Inr)
  then show "validate_ownership st = Inr () \<and>
    (\<exists>n < 60. has_prefix_len (st_shard st) n \<and> lr = (side_state cr st n False, side_state cr st n True))"
    using split_state_eq [OF assms own, of n cr] s own by auto
qed (use split_state_eq [OF assms] in auto)

section \<open>Merging the children\<close>

lemma map_of_filter_key: "map_of (filter (\<lambda>p. P (fst p)) xs) k = (if P k then map_of xs k else None)"
  by (induction xs) auto

lemma bt_inv_filter: "bt_inv xs \<Longrightarrow> bt_inv (filter P xs)"
  by (induction xs) (auto simp: bt_inv_Cons)

lemma merge_filtered_accounts:
  assumes "bt_inv xs"
  shows "fold (\<lambda>(a, st) m. bt_insert m a st) (filter (\<lambda>p. P (fst p) = (\<not> b)) xs) (filter (\<lambda>p. P (fst p) = b) xs) = xs"
proof (rule bt_eqI)
  show "bt_inv (fold (\<lambda>(a, st) m. bt_insert m a st) (filter (\<lambda>p. P (fst p) = (\<not> b)) xs) (filter (\<lambda>p. P (fst p) = b) xs))"
    by (intro bt.minv_sets bt_inv_filter assms) (simp add: list_all_iff)
  fix k
  have d: "map_of (rev ys) = map_of ys" if "bt_inv ys" for ys :: "('a, 'b) btree"
    using bt_distinct [OF that] by (subst map_of_inject_set) (simp_all add: rev_map [symmetric])
  have "bt_get (fold (\<lambda>(a, st) m. bt_insert m a st) (filter (\<lambda>p. P (fst p) = (\<not> b)) xs) (filter (\<lambda>p. P (fst p) = b) xs)) k =
      (bt_get (filter (\<lambda>p. P (fst p) = b) xs) ++ map_of (rev (filter (\<lambda>p. P (fst p) = (\<not> b)) xs))) k"
    by (intro bt.mget_sets bt_inv_filter assms) (simp_all add: list_all_iff)
  also have "\<dots> = bt_get xs k"
    unfolding d [OF bt_inv_filter [OF assms]] map_add_def
      map_of_filter_key [of "\<lambda>a. P a = (\<not> b)"] map_of_filter_key [of "\<lambda>a. P a = b"]
    by (auto split: option.split)
  finally show "bt_get (fold (\<lambda>(a, st) m. bt_insert m a st) (filter (\<lambda>p. P (fst p) = (\<not> b)) xs) (filter (\<lambda>p. P (fst p) = b) xs)) k =
      bt_get xs k" .
qed (rule assms)

lemma common_parent_children:
  assumes "has_prefix_len s n" "n < 60"
  shows "common_parent (shard_child s n b) (shard_child s n (\<not> b)) = Inr s"
proof -
  let ?p = "shard_prefix_ident (shard_child s n b)" and ?q = "shard_prefix_ident (shard_child s n (\<not> b))"
  have len: "prefix_len (shard_child s n c) = Inr (Suc n)" for c
    using shard_child_len [OF assms] by (simp add: prefix_len_Inr)
  have d: "(?p XOR ?q) AND push_bit (63 - n) (NOT 0) = push_bit (63 - n) 1"
  proof (rule bit_word_eqI)
    fix j assume j: "j < LENGTH(64)"
    show "bit ((?p XOR ?q) AND push_bit (63 - n) (NOT 0)) j = bit (push_bit (63 - n) 1 :: u64) j"
    proof (cases "j < 63 - n")
      case False
      then have "j = 63 - (63 - j)" "63 - j \<le> n" using j assms(2) by auto
      then show ?thesis
        using shard_child_bits [OF assms(2), of "63 - j" s b] shard_child_bits [OF assms(2), of "63 - j" s "\<not> b"] j assms(2) False
        by (auto simp: bit_simps)
    qed (simp add: bit_simps)
  qed
  obtain t where t: "from_prefix_bits (shard_workchain s) ?p n = Inr t"
    using assms(2) by (auto simp: from_prefix_bits_def Let_def)
  have "t = s"
    using from_prefix_bits_props [OF t] assms shard_child_bits [OF assms(2), of _ s b]
    by (intro shard_ident_eqI [where n = n]) auto
  then show ?thesis
    using len d t by (simp add: common_parent_def Let_def)
qed

lemma sort_messages_unique:
  assumes "mset ms = mset ms'" "inj_on (message_hash cr) (set ms)"
  shows "sort_messages cr ms = sort_messages cr ms'"
proof -
  have "inj_on (message_key cr) (set ms)" using assms(2) by (auto simp: inj_on_def message_key_def)
  then show ?thesis unfolding sort_messages_def using assms(1) by (intro sort_key_inj_key_eq) simp_all
qed

lemma side_ownership:
  assumes "validate_ownership st = Inr ()" "has_prefix_len (st_shard st) n" "n < 60"
  shows "validate_ownership (side_state cr st n b) = Inr ()"
  using assms(1) contains_account_eq [OF assms(2)]
  by (auto simp: ownership_ok side_state_def dest_in_shard contains_child [OF assms(2, 3)] sort_messages_def)

lemma mset_sides:
  "mset (pending_messages (side_state cr st n b)) + mset (pending_messages (side_state cr st n (\<not> b))) = mset (pending_messages st)"
proof -
  have "mset (filter (\<lambda>x. P x = b) xs) + mset (filter (\<lambda>x. P x = (\<not> b)) xs) = mset xs" for P and xs :: "message list"
    by (induction xs) auto
  then show ?thesis by (simp add: side_state_def sort_messages_def)
qed

lemma merge_sides:
  assumes "bt_inv (st_accounts st)" "validate_ownership st = Inr ()" "has_prefix_len (st_shard st) n" "n < 60"
    and "inj_on (message_hash cr) (set (pending_messages st))"
  shows "merge_shard_states cr (side_state cr st n b) (side_state cr st n (\<not> b)) =
    Inr (st\<lparr>pending_messages := sort_messages cr (pending_messages st)\<rparr>)"
proof -
  have "sort_messages cr (pending_messages (side_state cr st n b) @ pending_messages (side_state cr st n (\<not> b))) =
      sort_messages cr (pending_messages st)"
  proof (rule sort_messages_unique)
    show m: "mset (pending_messages (side_state cr st n b) @ pending_messages (side_state cr st n (\<not> b))) = mset (pending_messages st)"
      using mset_sides by simp
    show "inj_on (message_hash cr) (set (pending_messages (side_state cr st n b) @ pending_messages (side_state cr st n (\<not> b))))"
      using assms(5) mset_eq_setD [OF m] by simp
  qed
  moreover have "fold (\<lambda>(a, st) m. bt_insert m a st) (st_accounts (side_state cr st n (\<not> b))) (st_accounts (side_state cr st n b)) = st_accounts st"
    using merge_filtered_accounts [OF assms(1), of "\<lambda>a. bit a (255 - n)" b] by (simp add: side_state_def)
  moreover have "common_parent (st_shard (side_state cr st n b)) (st_shard (side_state cr st n (\<not> b))) = Inr (st_shard st)"
    using common_parent_children [OF assms(3, 4)] by (simp add: side_state_def)
  ultimately show ?thesis
    using side_ownership [OF assms(2-4)] by (simp add: merge_shard_states_def Let_def)
qed

section \<open>Properties\<close>

text \<open>
  C35. A split moves every account and message to exactly one child: it succeeds on a state that owns what it holds
  and whose shard is less than 60 bits deep, and only then; the children own what they hold, their account
  maps are disjoint and together the map of the parent, and their queues are, sorted, the
  messages of the parent.
\<close>

theorem split_partitions_state:
  assumes "bt_inv (st_accounts st)"
  shows "(is_ok (split_shard_state cr st) \<longleftrightarrow> validate_ownership st = Inr () \<and> (\<exists>n < 60. has_prefix_len (st_shard st) n)) \<and>
    (\<forall>l r. split_shard_state cr st = Inr (l, r) \<longrightarrow>
       validate_ownership l = Inr () \<and> validate_ownership r = Inr () \<and>
       dom (bt_get (st_accounts l)) \<inter> dom (bt_get (st_accounts r)) = {} \<and>
       bt_get (st_accounts st) = bt_get (st_accounts l) ++ bt_get (st_accounts r) \<and>
       mset (pending_messages st) = mset (pending_messages l) + mset (pending_messages r) \<and>
       sorted (map (message_key cr) (pending_messages l)) \<and> sorted (map (message_key cr) (pending_messages r)))"
proof (intro conjI allI impI)
  note iff = split_shard_state_Inr [OF assms, of cr]
  show "is_ok (split_shard_state cr st) \<longleftrightarrow> validate_ownership st = Inr () \<and> (\<exists>n < 60. has_prefix_len (st_shard st) n)"
    using iff by (auto simp: is_ok_iff)
  fix l r assume s: "split_shard_state cr st = Inr (l, r)"
  then obtain n where own: "validate_ownership st = Inr ()" and n: "has_prefix_len (st_shard st) n" "n < 60"
    and l: "l = side_state cr st n False" and r: "r = side_state cr st n True"
    using iff by auto
  show "validate_ownership l = Inr ()" "validate_ownership r = Inr ()"
    unfolding l r by (rule side_ownership [OF own n])+
  show "mset (pending_messages st) = mset (pending_messages l) + mset (pending_messages r)"
    using mset_sides [of cr st n False] by (simp add: l r)
  show "sorted (map (message_key cr) (pending_messages l))" "sorted (map (message_key cr) (pending_messages r))"
    by (simp_all add: l r side_state_def sort_messages_def)
  have get: "bt_get (st_accounts (side_state cr st n b)) a = (if bit a (255 - n) = b then bt_get (st_accounts st) a else None)" for a b
    by (simp add: side_state_def map_of_filter_key [of "\<lambda>a. bit a (255 - n) = b"])
  show "dom (bt_get (st_accounts l)) \<inter> dom (bt_get (st_accounts r)) = {}"
    by (auto simp: l r get split: if_splits)
  show "bt_get (st_accounts st) = bt_get (st_accounts l) ++ bt_get (st_accounts r)"
    by (rule ext) (auto simp: l r get map_add_def split: option.splits)
qed

definition sample_shard_state :: shard_state where
  "sample_shard_state = \<lparr>st_shard = shard_root 0, st_accounts = [(1, Uninitialized), (- 1, Uninitialized)], pending_messages = []\<rparr>"

lemma sample_state_split:
  "bt_inv (st_accounts sample_shard_state)"
  "split_shard_state cr sample_shard_state =
     Inr (side_state cr sample_shard_state 0 False, side_state cr sample_shard_state 0 True)"
proof -
  show inv: "bt_inv (st_accounts sample_shard_state)"
    by (simp add: sample_shard_state_def bt_inv_def word_less_nat_alt unat_max_word)
  have n: "has_prefix_len (st_shard sample_shard_state) 0" using root_prefix_len by (simp add: sample_shard_state_def)
  have "validate_ownership sample_shard_state = Inr ()"
    using contains_account_eq [OF n] by (simp add: ownership_ok sample_shard_state_def in_shard_prefix_def)
  then show "split_shard_state cr sample_shard_state =
     Inr (side_state cr sample_shard_state 0 False, side_state cr sample_shard_state 0 True)"
    using split_state_eq [OF inv _ n] by simp
qed

theorem split_partitions_state_witness:
  "dom (bt_get (st_accounts (side_state toy_crypto sample_shard_state 0 False))) \<inter>
     dom (bt_get (st_accounts (side_state toy_crypto sample_shard_state 0 True))) = {}"
  using split_partitions_state [OF sample_state_split(1), of toy_crypto] sample_state_split(2) [of toy_crypto] by blast

text \<open>
  C36. Splitting and merging are inverse: merging the two children of a split, in either order, gives the parent's
  shard and accounts and its pending messages in canonical order, provided no two different
  pending messages have the same hash.
\<close>

theorem split_merge_roundtrip:
  assumes "bt_inv (st_accounts st)" "split_shard_state cr st = Inr (l, r)"
    and "inj_on (message_hash cr) (set (pending_messages st))"
  shows "merge_shard_states cr l r = Inr (st\<lparr>pending_messages := sort_messages cr (pending_messages st)\<rparr>) \<and>
    merge_shard_states cr r l = Inr (st\<lparr>pending_messages := sort_messages cr (pending_messages st)\<rparr>)"
proof -
  obtain n where n: "validate_ownership st = Inr ()" "has_prefix_len (st_shard st) n" "n < 60"
    "l = side_state cr st n False" "r = side_state cr st n True"
    using split_shard_state_Inr [OF assms(1), of cr] assms(2) by auto
  show ?thesis
    using merge_sides [OF assms(1) n(1-3) assms(3), of False] merge_sides [OF assms(1) n(1-3) assms(3), of True] n(4, 5) by simp
qed

theorem split_merge_roundtrip_witness:
  "merge_shard_states toy_crypto (side_state toy_crypto sample_shard_state 0 False) (side_state toy_crypto sample_shard_state 0 True)
     = Inr sample_shard_state"
proof -
  have "inj_on (message_hash toy_crypto) (set (pending_messages sample_shard_state))" by (simp add: sample_shard_state_def)
  from split_merge_roundtrip [OF sample_state_split this] show ?thesis by (simp add: sample_shard_state_def sort_messages_def)
qed

section \<open>Triggers\<close>

lemma percent_nat:
  assumes "unat percent \<le> 100"
  shows "at_least_percent v limit percent \<longleftrightarrow> limit \<noteq> 0 \<and> unat limit * unat percent \<le> unat v * 100"
    and "at_most_percent v limit percent \<longleftrightarrow> limit \<noteq> 0 \<and> unat v * 100 \<le> unat limit * unat percent"
proof -
  have u: "unat (ucast w :: u128) = unat w" for w :: u64
    using unsigned_less [where ?'a = nat and w = w] by (simp add: unsigned_ucast_eq take_bit_nat_eq_self)
  have v: "unat v < 2 ^ 64" and l: "unat limit < 2 ^ 64"
    using unsigned_less [where ?'a = nat and w = v] unsigned_less [where ?'a = nat and w = limit] by simp_all
  have "unat limit * unat percent \<le> unat limit * 100" using assms by (rule mult_le_mono2)
  moreover have "unat limit * 100 < 2 ^ 64 * 100" using l by (simp only: mult_less_cancel2) simp
  moreover have "(2::nat) ^ 64 * 100 \<le> 2 ^ 128" by simp
  ultimately have "unat limit * unat percent < 2 ^ 128" by linarith
  then have p: "unat (ucast limit * ucast percent :: u128) = unat limit * unat percent"
    by (subst unat_mult_no_overflow) (simp_all add: u)
  have q: "unat (ucast v * 100 :: u128) = unat v * 100"
    using v by (subst unat_mult_no_overflow) (simp_all add: u)
  show "at_least_percent v limit percent \<longleftrightarrow> limit \<noteq> 0 \<and> unat limit * unat percent \<le> unat v * 100"
    "at_most_percent v limit percent \<longleftrightarrow> limit \<noteq> 0 \<and> unat v * 100 \<le> unat limit * unat percent"
    by (simp_all add: at_least_percent_def at_most_percent_def word_le_nat_alt p q)
qed

text \<open>No load history asks for a split and a merge at once, even where the windows overlap.\<close>

lemma triggers_exclusive:
  "at_least_percent v limit 75 \<Longrightarrow> \<not> at_most_percent v limit 20"
  by (auto simp: percent_nat word_le_nat_alt unat_eq_zero [symmetric])

text \<open>
  \<open>should_split\<close> multiplies at 64 bits: in a release build an average past a hundredth of the range wraps and an
  overloaded shard is not split, in a dev build the call panics.
\<close>

lemma should_split_wraps:
  "should_split Release 184467440737095517 100 100 100 = Some False"
  "should_split Dev 184467440737095517 100 100 100 = None"
  "at_least_percent 184467440737095517 100 75"
  by (simp_all add: should_split_def plain_mul_def percent_nat word_le_nat_alt)

text \<open>
  The timing of a split or merge commit is exact: it is accepted if and only if there is one announcement
  for a split and two for a merge, each made exactly eight masterchain blocks before the commit without overflow,
  and the assignment epochs differ by at most one; a wrong schedule is reported before an epoch drift.
\<close>

theorem transition_commit_exact:
  "validate_transition_commit kind hs commit_height e1 e2 =
     (if length hs = (case kind of Split \<Rightarrow> 1 | Merge \<Rightarrow> 2) \<and> (\<forall>h \<in> set hs. unat h + 8 = unat commit_height)
      then if unat e1 \<le> unat e2 + 1 \<and> unat e2 \<le> unat e1 + 1 then Inr () else Inl TaskGroupDriftExceeded
      else Inl AnnouncementSequenceViolation)"
proof -
  have h: "(case checked_add h PREPARE_LEAD_BLOCKS of None \<Rightarrow> True | Some e \<Rightarrow> e \<noteq> commit_height) \<longleftrightarrow> unat h + 8 \<noteq> unat commit_height" for h
  proof (cases "unat h + 8 < 2 ^ 64")
    case True
    then have "unat (h + 8) = unat h + 8" by (subst unat_add_no_overflow) simp_all
    then show ?thesis using True by (auto simp: checked_add_def PREPARE_LEAD_BLOCKS_def word_unat_eq_iff)
  next
    case False
    then show ?thesis using unsigned_less [where ?'a = nat and w = commit_height]
      by (auto simp: checked_add_def PREPARE_LEAD_BLOCKS_def)
  qed
  have "abs_diff e1 e2 > 1 \<longleftrightarrow> \<not> (unat e1 \<le> unat e2 + 1 \<and> unat e2 \<le> unat e1 + 1)"
    by (auto simp: abs_diff_def word_less_nat_alt word_le_nat_alt unat_sub)
  then show ?thesis
    by (auto simp: validate_transition_commit_def h list_ex_iff)
qed

theorem transition_commit_exact_witness:
  "validate_transition_commit Merge [92, 92] 100 7 8 = Inr ()"
  using transition_commit_exact [of Merge "[92, 92]" 100 7 8] by simp

end
