(* ===== verification/Economics.thy ===== *)
theory Economics
  imports Prelude "HOL-Library.Multiset"
begin

text \<open>
  \<open>crates/protocol/onx-economics\<close>: storage fees, the fee split, the inflation reward (\<open>lib.rs\<close>),
  slashing and the distribution of an epoch's rewards (\<open>slashing.rs\<close>). A function whose plain arithmetic
  can overflow returns an option, \<open>None\<close> for the panic of a build with overflow checks.
\<close>

datatype economics_error =
  ZeroDenominator | SupplyCapExceeded | InvalidFeeRate | InvalidValidatorStake | DuplicateValidator

definition INITIAL_SUPPLY_NANOS :: u128 where
  "INITIAL_SUPPLY_NANOS = 5000000000000000000"

definition ANNUAL_INFLATION_RATE_BPS :: u64 where
  "ANNUAL_INFLATION_RATE_BPS = 175"

definition FEE_BURN_RATIO_PERCENT :: u64 where
  "FEE_BURN_RATIO_PERCENT = 50"

definition STORAGE_FEE_RATE_PER_BYTE_PER_MLT :: u128 where
  "STORAGE_FEE_RATE_PER_BYTE_PER_MLT = 10"

definition calculate_storage_fee :: "u64 \<Rightarrow> u64 \<Rightarrow> u64 \<Rightarrow> economics_error + u128" where
  "calculate_storage_fee byte_count last_trans_lt new_lt =
     (if new_lt \<le> last_trans_lt then Inr 0
      else
        let elapsed_lt = new_lt - last_trans_lt
        in Inr (saturating_mul (saturating_mul (ucast byte_count) (ucast elapsed_lt)) STORAGE_FEE_RATE_PER_BYTE_PER_MLT
                div 1000000))"

definition split_transaction_fee :: "profile \<Rightarrow> u128 \<Rightarrow> (u128 \<times> u128) option" where
  "split_transaction_fee p total_fee_nanos =
     Option.bind (plain_mul p total_fee_nanos (ucast FEE_BURN_RATIO_PERCENT)) (\<lambda>x.
     let burn_amount = x div 100;
         validator_amount = saturating_sub total_fee_nanos burn_amount
     in Some (burn_amount, validator_amount))"

definition calculate_epoch_inflation_reward :: "profile \<Rightarrow> u128 \<Rightarrow> u64 \<Rightarrow> (economics_error + u128) option" where
  "calculate_epoch_inflation_reward p total_stake_nanos epochs_per_year =
     (if epochs_per_year = 0 then Some (Inl ZeroDenominator)
      else Option.bind (plain_mul p total_stake_nanos (ucast ANNUAL_INFLATION_RATE_BPS)) (\<lambda>x.
        let annual_reward = x div 10000 in Some (Inr (annual_reward div ucast epochs_per_year))))"

section \<open>Slashing and rewards\<close>

definition DOUBLE_SIGN_SLASH_BPS :: u16 where
  "DOUBLE_SIGN_SLASH_BPS = 10000"

definition OFFLINE_SLASH_BPS :: u16 where
  "OFFLINE_SLASH_BPS = 1000"

datatype slashing_reason = DoubleSigning | PersistentOffline

record slash_outcome =
  debited :: u128
  remaining_stake :: u128

record validator_stake =
  stake_id :: u32
  stake_nanos :: u128

record validator_reward =
  reward_id :: u32
  reward_nanos :: u128

definition apply_slash :: "u128 \<Rightarrow> u16 \<Rightarrow> slash_outcome" where
  "apply_slash stake basis_points =
     (let d = saturating_mul stake (ucast basis_points) div 10000
      in \<lparr>debited = d, remaining_stake = saturating_sub stake d\<rparr>)"

definition slash_for_misconduct :: "u128 \<Rightarrow> slashing_reason \<Rightarrow> slash_outcome" where
  "slash_for_misconduct stake reason =
     apply_slash stake (case reason of DoubleSigning \<Rightarrow> DOUBLE_SIGN_SLASH_BPS | PersistentOffline \<Rightarrow> OFFLINE_SLASH_BPS)"

fun sum_stakes :: "validator_stake list \<Rightarrow> u32 set \<Rightarrow> u128 \<Rightarrow> economics_error + u128" where
  "sum_stakes [] ids tot = Inr tot"
| "sum_stakes (v # vs) ids tot =
     (if stake_nanos v = 0 then Inl InvalidValidatorStake
      else if stake_id v \<in> ids then Inl DuplicateValidator
      else sum_stakes vs (insert (stake_id v) ids) (saturating_add tot (stake_nanos v)))"

fun plain_sum :: "profile \<Rightarrow> u128 \<Rightarrow> u128 list \<Rightarrow> u128 option" where
  "plain_sum p acc [] = Some acc"
| "plain_sum p acc (x # xs) = Option.bind (plain_add p acc x) (\<lambda>a. plain_sum p a xs)"

fun add_remainder :: "profile \<Rightarrow> nat \<Rightarrow> validator_reward list \<Rightarrow> validator_reward list option" where
  "add_remainder p 0 rs = Some rs"
| "add_remainder p (Suc n) [] = Some []"
| "add_remainder p (Suc n) (r # rs) =
     Option.bind (plain_add p (reward_nanos r) 1) (\<lambda>x.
     Option.bind (add_remainder p n rs) (\<lambda>rs. Some (r\<lparr>reward_nanos := x\<rparr> # rs)))"

definition floor_shares :: "u128 \<Rightarrow> u128 \<Rightarrow> validator_stake list \<Rightarrow> validator_reward list" where
  "floor_shares total_reward total_stake vs =
     map (\<lambda>v. \<lparr>reward_id = stake_id v, reward_nanos = saturating_mul total_reward (stake_nanos v) div total_stake\<rparr>) vs"

text \<open>\<open>as usize\<close> keeps the low 64 bits of the remainder.\<close>

definition distribute_epoch_rewards ::
  "profile \<Rightarrow> validator_stake list \<Rightarrow> u64 \<Rightarrow> (economics_error + validator_reward list) option" where
  "distribute_epoch_rewards p vs epochs_per_year =
     (let validators = sort_key stake_id vs in
      case sum_stakes validators {} 0 of
        Inl e \<Rightarrow> Some (Inl e)
      | Inr total_stake \<Rightarrow>
          if total_stake = 0 then Some (Inl InvalidValidatorStake)
          else Option.bind (calculate_epoch_inflation_reward p total_stake epochs_per_year) (\<lambda>r.
            case r of
              Inl e \<Rightarrow> Some (Inl e)
            | Inr total_reward \<Rightarrow>
                let rewards = floor_shares total_reward total_stake validators in
                Option.bind (plain_sum p 0 (map reward_nanos rewards)) (\<lambda>allocated.
                Option.bind (plain_sub p total_reward allocated) (\<lambda>d.
                Option.bind (add_remainder p (unat (ucast d :: u64)) rewards) (\<lambda>rs. Some (Inr rs))))))"

section \<open>Shares\<close>

text \<open>Floor shares fall short of the total by less than their number.\<close>

lemma floor_shares_sum:
  assumes "0 < t" "sum_list ss = (t::nat)"
  shows "sum_list (map (\<lambda>s. r * s div t) ss) \<le> r" "r < sum_list (map (\<lambda>s. r * s div t) ss) + max 1 (length ss)"
proof -
  have le: "t * sum_list (map (\<lambda>s. r * s div t) xs) \<le> r * sum_list xs" for xs
    by (induction xs) (auto simp: algebra_simps intro: add_mono)
  show "sum_list (map (\<lambda>s. r * s div t) ss) \<le> r" using le [of ss] assms by (simp add: mult.commute)
  have lt: "r * sum_list xs \<le> t * sum_list (map (\<lambda>s. r * s div t) xs) + length xs * (t - 1)" for xs
  proof (induction xs)
    case (Cons x xs)
    have "t * (r * x div t) + r * x mod t = r * x" by simp
    moreover have "r * x mod t \<le> t - 1" using assms(1) mod_less_divisor [of t "r * x"] by linarith
    ultimately show ?case using Cons
      by (simp only: list.map sum_list.Cons distrib_left list.size add_mult_distrib)
  qed simp
  show "r < sum_list (map (\<lambda>s. r * s div t) ss) + max 1 (length ss)"
  proof (rule ccontr)
    assume "\<not> ?thesis"
    then have "t * (sum_list (map (\<lambda>s. r * s div t) ss) + max 1 (length ss)) \<le> t * r" by simp
    moreover have "length ss * (t - 1) < t * max 1 (length ss)"
    proof (cases "length ss = 0")
      case False
      then have "length ss * (t - 1) < length ss * t" using assms(1) by simp
      moreover have "max 1 (length ss) = length ss" using False by (cases ss) auto
      ultimately show ?thesis by (simp only: mult.commute)
    qed (use assms(1) in simp)
    ultimately show False using lt [of ss] assms(2) by (simp add: algebra_simps)
  qed
qed

definition stakes_total :: "validator_stake list \<Rightarrow> nat" where
  "stakes_total vs = sum_list (map (\<lambda>v. unat (stake_nanos v)) vs)"

lemma sum_stakes_ok:
  assumes "\<forall>v \<in> set vs. stake_nanos v \<noteq> 0" "distinct (map stake_id vs)" "stake_id ` set vs \<inter> ids = {}"
    and "unat tot + stakes_total vs < 2 ^ 128"
  shows "\<exists>t. sum_stakes vs ids tot = Inr t \<and> unat t = unat tot + stakes_total vs"
  using assms
proof (induction vs arbitrary: ids tot)
  case (Cons v vs)
  have "unat (saturating_add tot (stake_nanos v)) = unat tot + unat (stake_nanos v)"
    using Cons.prems(4) by (simp add: unat_saturating_add stakes_total_def)
  then show ?case
    using Cons.IH [of "insert (stake_id v) ids" "saturating_add tot (stake_nanos v)"] Cons.prems
    by (auto simp: stakes_total_def add.assoc)
qed (simp add: stakes_total_def)

lemma plain_sum_ok:
  assumes "unat acc + sum_list (map unat xs) < 2 ^ 128"
  shows "\<exists>a. plain_sum p acc xs = Some a \<and> unat a = unat acc + sum_list (map unat xs)"
  using assms
proof (induction xs arbitrary: acc)
  case (Cons x xs)
  have "plain_add p acc x = Some (acc + x)" "unat (acc + x) = unat acc + unat x"
    using Cons.prems by (simp_all add: plain_add_def unat_add_no_overflow)
  then show ?case using Cons.IH [of "acc + x"] Cons.prems by (auto simp: add.assoc)
qed simp

definition incremented :: "nat \<Rightarrow> validator_reward list \<Rightarrow> validator_reward list" where
  "incremented k rs = map (\<lambda>r. r\<lparr>reward_nanos := reward_nanos r + 1\<rparr>) (take k rs) @ drop k rs"

lemma add_remainder_ok:
  assumes "\<forall>r \<in> set rs. unat (reward_nanos r) + 1 < 2 ^ 128"
  shows "add_remainder p k rs = Some (incremented k rs)"
  using assms
proof (induction p k rs rule: add_remainder.induct)
  case (3 p n r rs)
  have "plain_add p (reward_nanos r) 1 = Some (reward_nanos r + 1)"
    using "3.prems" by (simp add: plain_add_def)
  then show ?case using 3 by (simp add: incremented_def)
qed (simp_all add: incremented_def)

lemma incremented_sum:
  assumes "\<forall>r \<in> set rs. unat (reward_nanos r) + 1 < 2 ^ 128" "k \<le> length rs"
  shows "sum_list (map (\<lambda>r. unat (reward_nanos r)) (incremented k rs)) = sum_list (map (\<lambda>r. unat (reward_nanos r)) rs) + k"
  using assms
proof (induction k arbitrary: rs)
  case (Suc k)
  then obtain r rs' where rs: "rs = r # rs'" by (cases rs) auto
  have "unat (reward_nanos r + 1) = unat (reward_nanos r) + 1"
    using Suc.prems(1) by (subst unat_add_no_overflow) (simp_all add: rs)
  then show ?case using Suc.IH [of rs'] Suc.prems by (simp add: rs incremented_def)
qed (simp add: incremented_def)

text \<open>The reward of an epoch, and what the floor shares are while nothing saturates.\<close>

definition epoch_reward :: "nat \<Rightarrow> u64 \<Rightarrow> nat" where
  "epoch_reward t epochs = t * 175 div 10000 div unat epochs"

lemma inflation_reward_ok:
  assumes "unat t < 2 ^ 64" "epochs \<noteq> 0"
  shows "\<exists>r. calculate_epoch_inflation_reward p t epochs = Some (Inr r) \<and> unat r = epoch_reward (unat t) epochs"
proof -
  have c: "unat (ucast ANNUAL_INFLATION_RATE_BPS :: u128) = 175" by (simp add: ANNUAL_INFLATION_RATE_BPS_def)
  have e: "unat (ucast epochs :: u128) = unat epochs"
    using unsigned_less [where ?'a = nat and w = epochs] by (simp add: unsigned_ucast_eq take_bit_nat_eq_self)
  have m: "unat t * 175 < 2 ^ 128" using assms(1) by simp
  have "plain_mul p t (ucast ANNUAL_INFLATION_RATE_BPS) = Some (t * ucast ANNUAL_INFLATION_RATE_BPS)"
    using m by (simp add: plain_mul_def c)
  moreover have "unat (t * ucast ANNUAL_INFLATION_RATE_BPS) = unat t * 175"
    using m by (subst unat_mult_no_overflow) (simp_all add: c)
  ultimately show ?thesis
    using assms(2) by (simp add: calculate_epoch_inflation_reward_def epoch_reward_def unat_div e Let_def)
qed

lemma epoch_reward_le: "epoch_reward t e \<le> t"
proof -
  have "t * 175 div 10000 \<le> t" by (rule order_trans [OF div_le_mono [of "t * 175" "t * 10000"]]) simp_all
  then show ?thesis unfolding epoch_reward_def using div_le_dividend order_trans by blast
qed

lemma floor_shares_nat:
  assumes "unat r \<le> unat t" "unat t < 2 ^ 64" "\<forall>v \<in> set vs. unat (stake_nanos v) \<le> unat t"
  shows "map (\<lambda>x. unat (reward_nanos x)) (floor_shares r t vs) = map (\<lambda>v. unat r * unat (stake_nanos v) div unat t) vs"
proof -
  have "unat (saturating_mul r (stake_nanos v) div t) = unat r * unat (stake_nanos v) div unat t" if "v \<in> set vs" for v
  proof -
    have "unat r * unat (stake_nanos v) \<le> unat t * unat t" using assms(1, 3) that by (intro mult_le_mono) auto
    also have "\<dots> < 2 ^ 64 * 2 ^ 64" using assms(2) by (intro mult_strict_mono) auto
    finally show ?thesis by (simp add: unat_div unat_saturating_mul)
  qed
  then show ?thesis by (simp add: floor_shares_def)
qed

section \<open>Properties\<close>

lemma distribute_ok:
  assumes "sorted (map stake_id vs)" "distinct (map stake_id vs)" "\<forall>v \<in> set vs. stake_nanos v \<noteq> 0" "vs \<noteq> []"
    and "stakes_total vs < 2 ^ 64" "epochs \<noteq> 0"
  defines "R \<equiv> epoch_reward (stakes_total vs) epochs"
  shows "\<exists>rs k. distribute_epoch_rewards p vs epochs = Some (Inr (incremented k rs)) \<and> k \<le> length rs \<and>
    map reward_id rs = map stake_id vs \<and>
    map (\<lambda>x. unat (reward_nanos x)) rs = map (\<lambda>v. R * unat (stake_nanos v) div stakes_total vs) vs \<and>
    (\<forall>r \<in> set rs. unat (reward_nanos r) + 1 < 2 ^ 128) \<and>
    sum_list (map (\<lambda>x. unat (reward_nanos x)) rs) + k = R"
proof -
  obtain t where t: "sum_stakes vs {} 0 = Inr t" "unat t = stakes_total vs"
    using sum_stakes_ok [OF assms(3, 2), of "{}" 0] assms(5) by auto
  obtain r where r: "calculate_epoch_inflation_reward p t epochs = Some (Inr r)" "unat r = R"
    using inflation_reward_ok [of t epochs p] assms(5, 6) t(2) by (auto simp: R_def)
  have member: "unat (stake_nanos v) \<le> stakes_total vs" if "v \<in> set vs" for v
    unfolding stakes_total_def using that by (intro member_le_sum_list) auto
  have "0 < unat (stake_nanos (hd vs))" using assms(3, 4) by (simp add: unat_gt_0)
  then have pos: "0 < stakes_total vs" using member [of "hd vs"] assms(4) by simp
  then have t0: "t \<noteq> 0" using t(2) by auto
  have R: "R \<le> stakes_total vs" unfolding R_def by (rule epoch_reward_le)
  let ?f = "floor_shares r t vs"
  have f: "map (\<lambda>x. unat (reward_nanos x)) ?f = map (\<lambda>v. R * unat (stake_nanos v) div stakes_total vs) vs"
    using floor_shares_nat [of r t vs] R r(2) t(2) assms(5) member by simp
  have s: "sum_list (map (\<lambda>x. unat (reward_nanos x)) ?f) \<le> R" "R < sum_list (map (\<lambda>x. unat (reward_nanos x)) ?f) + max 1 (length vs)"
    using floor_shares_sum [OF pos, of "map (\<lambda>v. unat (stake_nanos v)) vs" R] unfolding f by (simp_all add: stakes_total_def comp_def)
  have m: "map unat (map reward_nanos ?f) = map (\<lambda>x. unat (reward_nanos x)) ?f" by simp
  obtain a where a: "plain_sum p 0 (map reward_nanos ?f) = Some a" "unat a = sum_list (map (\<lambda>x. unat (reward_nanos x)) ?f)"
    using plain_sum_ok [of 0 "map reward_nanos ?f" p] s(1) R assms(5) unfolding m by auto
  have sub: "plain_sub p r a = Some (r - a)" "unat (r - a) = R - unat a"
    using s(1) a(2) r(2) by (simp_all add: plain_sub_def word_le_nat_alt unat_sub)
  then have k: "unat (ucast (r - a) :: u64) = R - unat a"
    using R assms(5) by (simp add: unsigned_ucast_eq take_bit_nat_eq_self)
  have small: "\<forall>x \<in> set ?f. unat (reward_nanos x) + 1 < 2 ^ 128"
  proof
    fix x assume "x \<in> set ?f"
    then have "unat (reward_nanos x) \<le> sum_list (map (\<lambda>x. unat (reward_nanos x)) ?f)" by (intro member_le_sum_list) auto
    then show "unat (reward_nanos x) + 1 < 2 ^ 128" using s(1) R assms(5) by simp
  qed
  have "sort_key stake_id vs = vs" using assms(1) by (rule sort_key_id_if_sorted)
  then have "distribute_epoch_rewards p vs epochs = Some (Inr (incremented (R - unat a) ?f))"
    using t r a sub k t0 add_remainder_ok [OF small] by (simp add: distribute_epoch_rewards_def Let_def)
  moreover have "R - unat a \<le> length ?f" using s(2) a(2) assms(4) by (cases vs) (auto simp: floor_shares_def)
  moreover have "map reward_id ?f = map stake_id vs" by (simp add: floor_shares_def)
  ultimately show ?thesis using f small s(1) a(2) by (intro exI [of _ ?f] exI [of _ "R - unat a"]) simp
qed

lemma distribute_sorts: "distribute_epoch_rewards p (sort_key stake_id vs) epochs = distribute_epoch_rewards p vs epochs"
  by (simp add: distribute_epoch_rewards_def sort_key_id_if_sorted)

text \<open>
  C37. The rewards of an epoch are distributed exactly: for at least one validator, with
  distinct identifiers and positive stakes below \<open>2 ^ 64\<close> in total (the initial supply is below it), and a number of
  epochs in a year that is not zero, the distribution succeeds in every build profile, the rewards are
  in order of the validator identifiers, add up to the inflation reward of the epoch, and each is the
  floor of the proportional share or one more.
\<close>

theorem rewards_distributed_exactly:
  assumes "distinct (map stake_id vs)" "\<forall>v \<in> set vs. stake_nanos v \<noteq> 0" "vs \<noteq> []"
    and "stakes_total vs < 2 ^ 64" "epochs \<noteq> 0"
  shows "\<exists>rs. distribute_epoch_rewards p vs epochs = Some (Inr rs) \<and>
    sorted (map reward_id rs) \<and> mset (map reward_id rs) = mset (map stake_id vs) \<and>
    sum_list (map (\<lambda>x. unat (reward_nanos x)) rs) = stakes_total vs * 175 div 10000 div unat epochs \<and>
    (\<forall>i < length rs.
       let share = stakes_total vs * 175 div 10000 div unat epochs * unat (stake_nanos (sort_key stake_id vs ! i)) div stakes_total vs
       in unat (reward_nanos (rs ! i)) = share \<or> unat (reward_nanos (rs ! i)) = share + 1)"
proof -
  let ?vs = "sort_key stake_id vs"
  define R where "R = epoch_reward (stakes_total vs) epochs"
  have tot: "stakes_total ?vs = stakes_total vs" unfolding stakes_total_def by (simp flip: sum_mset_sum_list)
  have "?vs \<noteq> []" using assms(3) by (metis set_empty set_sort)
  moreover have "distinct (map stake_id ?vs)" using assms(1) by (simp add: distinct_map)
  moreover have "\<forall>v \<in> set ?vs. stake_nanos v \<noteq> 0" using assms(2) by simp
  moreover have "sorted (map stake_id ?vs)" by simp
  moreover have "stakes_total ?vs < 2 ^ 64" using assms(4) tot by simp
  ultimately obtain rs k where rs: "distribute_epoch_rewards p vs epochs = Some (Inr (incremented k rs))" "k \<le> length rs"
    "map reward_id rs = map stake_id ?vs"
    "map (\<lambda>x. unat (reward_nanos x)) rs = map (\<lambda>v. R * unat (stake_nanos v) div stakes_total vs) ?vs"
    "\<forall>r \<in> set rs. unat (reward_nanos r) + 1 < 2 ^ 128" "sum_list (map (\<lambda>x. unat (reward_nanos x)) rs) + k = R"
    using distribute_ok [of ?vs epochs p] assms(5) unfolding distribute_sorts tot R_def by blast
  have ids: "map reward_id (incremented k rs) = map reward_id rs"
    using append_take_drop_id [of k "map reward_id rs"] by (simp add: incremented_def take_map drop_map comp_def)
  have sum: "sum_list (map (\<lambda>x. unat (reward_nanos x)) (incremented k rs)) = R"
    using incremented_sum [OF rs(5, 2)] rs(6) by simp
  have "unat (reward_nanos (incremented k rs ! i)) = unat (reward_nanos (rs ! i)) + of_bool (i < k)" if i: "i < length rs" for i
  proof (cases "i < k")
    case True
    have "unat (reward_nanos (rs ! i) + 1) = unat (reward_nanos (rs ! i)) + 1"
      using rs(5) i by (subst unat_add_no_overflow) simp_all
    then show ?thesis using True i rs(2) by (simp add: incremented_def nth_append)
  qed (use i rs(2) in \<open>simp add: incremented_def nth_append\<close>)
  moreover have "unat (reward_nanos (rs ! i)) = R * unat (stake_nanos (?vs ! i)) div stakes_total vs" if i: "i < length rs" for i
    using arg_cong [OF rs(4), of "\<lambda>xs. xs ! i"] i map_eq_imp_length_eq [OF rs(3)] by simp
  moreover have "length (incremented k rs) = length rs" by (simp add: incremented_def)
  ultimately show ?thesis
    using rs(1, 3) ids sum by (intro exI [of _ "incremented k rs"]) (auto simp: R_def epoch_reward_def Let_def of_bool_def)
qed

theorem rewards_distributed_exactly_witness:
  "\<exists>rs. distribute_epoch_rewards Dev [\<lparr>stake_id = 2, stake_nanos = 30000\<rparr>, \<lparr>stake_id = 1, stake_nanos = 60000\<rparr>] 10 = Some (Inr rs) \<and>
    sum_list (map (\<lambda>x. unat (reward_nanos x)) rs) = 157"
  using rewards_distributed_exactly [of "[\<lparr>stake_id = 2, stake_nanos = 30000\<rparr>, \<lparr>stake_id = 1, stake_nanos = 60000\<rparr>]" 10 Dev]
  by (auto simp: stakes_total_def)

text \<open>A slash splits the stake; it is exact while the product fits.\<close>

lemma apply_slash_exact:
  assumes "unat bps \<le> 10000"
  shows "unat (debited (apply_slash stake bps)) + unat (remaining_stake (apply_slash stake bps)) = unat stake"
    and "unat stake * 10000 < 2 ^ 128 \<Longrightarrow> unat (debited (apply_slash stake bps)) = unat stake * unat bps div 10000"
proof -
  have b: "unat (ucast bps :: u128) = unat bps" 
    using unsigned_less [where ?'a = nat and w = bps] by (simp add: unsigned_ucast_eq take_bit_nat_eq_self)
  have "unat stake * unat bps \<le> unat stake * 10000" using assms by (rule mult_le_mono2)
  then have "unat (saturating_mul stake (ucast bps)) \<le> unat stake * 10000"
    by (simp add: unat_saturating_mul b min.coboundedI1)
  from div_le_mono [OF this, of 10000] have le: "unat (saturating_mul stake (ucast bps) div 10000) \<le> unat stake"
    by (simp add: unat_div)
  show "unat (debited (apply_slash stake bps)) + unat (remaining_stake (apply_slash stake bps)) = unat stake"
    using le by (simp add: apply_slash_def unat_saturating_sub Let_def)
  assume s: "unat stake * 10000 < 2 ^ 128"
  then have "unat stake * unat bps < 2 ^ 128" using \<open>unat stake * unat bps \<le> unat stake * 10000\<close> by linarith
  then show "unat (debited (apply_slash stake bps)) = unat stake * unat bps div 10000"
    by (simp add: apply_slash_def unat_div unat_saturating_mul b Let_def)
qed

lemma double_signing_takes_all:
  assumes "unat stake * 10000 < 2 ^ 128"
  shows "remaining_stake (slash_for_misconduct stake DoubleSigning) = 0"
  using apply_slash_exact [of 10000 stake] assms
  by (simp add: slash_for_misconduct_def DOUBLE_SIGN_SLASH_BPS_def word_unat_eq_iff)

text \<open>Where the product saturates, a double signer keeps part of the stake.\<close>

lemma double_signing_saturates:
  "remaining_stake (slash_for_misconduct (- 1) DoubleSigning) \<noteq> 0"
  by (simp add: slash_for_misconduct_def DOUBLE_SIGN_SLASH_BPS_def apply_slash_def word_unat_eq_iff unat_saturating_sub
      unat_div unat_saturating_mul unat_max_word Let_def)

text \<open>Half of a fee is burned and the rest paid, while the product fits; past that a dev build panics.\<close>

lemma fee_split_exact:
  assumes "unat fee * 50 < 2 ^ 128"
  shows "\<exists>b v. split_transaction_fee p fee = Some (b, v) \<and> unat b = unat fee div 2 \<and> unat b + unat v = unat fee"
proof -
  have c: "unat (ucast FEE_BURN_RATIO_PERCENT :: u128) = 50" by (simp add: FEE_BURN_RATIO_PERCENT_def)
  have "plain_mul p fee (ucast FEE_BURN_RATIO_PERCENT) = Some (fee * ucast FEE_BURN_RATIO_PERCENT)"
    using assms by (simp add: plain_mul_def c)
  moreover have "unat (fee * ucast FEE_BURN_RATIO_PERCENT) = unat fee * 50"
    using assms by (subst unat_mult_no_overflow) (simp_all add: c)
  ultimately show ?thesis
    by (simp add: split_transaction_fee_def unat_div unat_saturating_sub Let_def)
qed

lemma fee_split_panics: "split_transaction_fee Dev (- 1) = None"
  by (simp add: split_transaction_fee_def plain_mul_def FEE_BURN_RATIO_PERCENT_def unat_max_word)

end
