(* ===== verification/Payment_Channels.thy ===== *)
theory Payment_Channels
  imports Vm_Ops Machines
begin

text \<open>
  \<open>crates/protocol/onx-payment-channels\<close>: the states of a payment channel and its on-chain arbiter
  (\<open>lib.rs\<close>), and the off-chain daemon that drives the arbiter (\<open>daemon.rs\<close>). An operation returns the
  state it leaves with the result of the call.
\<close>

datatype channel_error =
    InvalidSignature | NonIncreasingSequence | AllocationExceedsDeposit | ExpiredCondition
  | MismatchedChannelId | InvalidProof | ChallengePeriodActive | ChallengePeriodExpired

record channel_state =
  ch_id :: hash32
  ch_sequence :: u64
  balance_party_a :: u128
  balance_party_b :: u128
  condition_hash :: "hash32 option"
  expiry_lt :: "u64 option"

definition CHANNEL_DOMAIN_TAG :: domain_tag where
  "CHANNEL_DOMAIN_TAG = tag_of ''ONX_CHANNEL_STATE_V1''"

definition channel_to_bytes :: "channel_state \<Rightarrow> bytes" where
  "channel_to_bytes st =
     encode (ch_id st) @ encode (ch_sequence st) @ encode (balance_party_a st) @ encode (balance_party_b st)
       @ (case condition_hash st of Some ch \<Rightarrow> 1 # encode ch | None \<Rightarrow> [0])
       @ (case expiry_lt st of Some x \<Rightarrow> 1 # encode x | None \<Rightarrow> [0])"

definition channel_hash :: "crypto \<Rightarrow> channel_state \<Rightarrow> hash32" where
  "channel_hash cr st = domain_hash cr CHANNEL_DOMAIN_TAG (channel_to_bytes st)"

section \<open>The arbiter\<close>

record arbiter =
  arb_channel_id :: hash32
  party_a :: full_address
  party_b :: full_address
  pubkey_a :: public_key
  pubkey_b :: public_key
  total_deposit :: u128
  challenge_window_lt :: u64
  latest_state :: channel_state
  challenge_start_lt :: "u64 option"
  is_settled :: bool

definition initial_state :: "hash32 \<Rightarrow> u128 \<Rightarrow> channel_state" where
  "initial_state i deposit =
     \<lparr>ch_id = i, ch_sequence = 0, balance_party_a = deposit, balance_party_b = 0, condition_hash = None, expiry_lt = None\<rparr>"

definition arbiter_new ::
  "hash32 \<Rightarrow> full_address \<Rightarrow> full_address \<Rightarrow> public_key \<Rightarrow> public_key \<Rightarrow> u128 \<Rightarrow> u64 \<Rightarrow> arbiter" where
  "arbiter_new i pa pb ka kb deposit window =
     \<lparr>arb_channel_id = i, party_a = pa, party_b = pb, pubkey_a = ka, pubkey_b = kb, total_deposit = deposit,
      challenge_window_lt = window, latest_state = initial_state i deposit, challenge_start_lt = None, is_settled = False\<rparr>"

definition verify_dual_signatures ::
  "crypto \<Rightarrow> arbiter \<Rightarrow> channel_state \<Rightarrow> signature \<Rightarrow> signature \<Rightarrow> channel_error + unit" where
  "verify_dual_signatures cr a st sig_a sig_b =
     (let state_hash = channel_hash cr st in
      if \<not> is_ok (verify cr (pubkey_a a) TX_BODY_V1 (encode state_hash) sig_a) then Inl InvalidSignature
      else if \<not> is_ok (verify cr (pubkey_b a) TX_BODY_V1 (encode state_hash) sig_b) then Inl InvalidSignature
      else Inr ())"

definition allocation_exceeds :: "arbiter \<Rightarrow> channel_state \<Rightarrow> bool" where
  "allocation_exceeds a st \<longleftrightarrow> saturating_add (balance_party_a st) (balance_party_b st) > total_deposit a"

definition cooperative_settle ::
  "crypto \<Rightarrow> arbiter \<Rightarrow> channel_state \<Rightarrow> signature \<Rightarrow> signature \<Rightarrow> arbiter \<times> (channel_error + unit)" where
  "cooperative_settle cr a st sig_a sig_b =
     (if ch_id st \<noteq> arb_channel_id a then (a, Inl MismatchedChannelId)
      else if allocation_exceeds a st then (a, Inl AllocationExceedsDeposit)
      else case verify_dual_signatures cr a st sig_a sig_b of
        Inl e \<Rightarrow> (a, Inl e)
      | Inr _ \<Rightarrow> (a\<lparr>latest_state := st, is_settled := True\<rparr>, Inr ()))"

definition submit_uncooperative_state ::
  "crypto \<Rightarrow> arbiter \<Rightarrow> channel_state \<Rightarrow> signature \<Rightarrow> signature \<Rightarrow> u64 \<Rightarrow> arbiter \<times> (channel_error + unit)" where
  "submit_uncooperative_state cr a st sig_a sig_b current_lt =
     (if ch_id st \<noteq> arb_channel_id a then (a, Inl MismatchedChannelId)
      else if ch_sequence st \<le> ch_sequence (latest_state a) then (a, Inl NonIncreasingSequence)
      else if allocation_exceeds a st then (a, Inl AllocationExceedsDeposit)
      else case verify_dual_signatures cr a st sig_a sig_b of
        Inl e \<Rightarrow> (a, Inl e)
      | Inr _ \<Rightarrow> (a\<lparr>latest_state := st, challenge_start_lt := Some current_lt\<rparr>, Inr ()))"

definition finalize_uncooperative_settlement :: "arbiter \<Rightarrow> u64 \<Rightarrow> arbiter \<times> (channel_error + unit)" where
  "finalize_uncooperative_settlement a current_lt =
     (case challenge_start_lt a of
        None \<Rightarrow> (a, Inl ChallengePeriodActive)
      | Some start_lt \<Rightarrow>
          if current_lt < saturating_add start_lt (challenge_window_lt a) then (a, Inl ChallengePeriodActive)
          else (a\<lparr>is_settled := True\<rparr>, Inr ()))"

text \<open>
  The check of a proof cell runs \<open>CTOS; RET\<close> on the virtual machine with the cell on the stack; the
  fuel bounds the run, \<open>None\<close> is a run that did not end or panicked. The two small cells of the code
  are within the limits of \<open>Cell::new\<close>.
\<close>

definition proof_context :: execution_context where
  "proof_context = \<lparr>ctx_gen_utime = 0, ctx_start_lt = 0, ctx_end_lt = 100, ctx_gas_limit = 1000\<rparr>"

definition proof_message :: message where
  "proof_message = (let addr = FullAddress BASIC 0 in
     \<lparr>msg_type = Internal, src_address = addr, dest_address = addr, amount_nanos = 0, extra_currencies = [],
      created_lt = 0, body_cell_hash = 0\<rparr>)"

definition verify_merkle_proof :: "crypto \<Rightarrow> profile \<Rightarrow> nat \<Rightarrow> cell \<Rightarrow> (channel_error + unit) option" where
  "verify_merkle_proof cr p fuel proof_cell =
     (case (cell_new [0x45, 0x72] [], cell_new [] []) of
        (Inr code, Inr empty_cell) \<Rightarrow>
          (let interp = interpreter_new code empty_cell proof_message proof_context
           in case run cr p fuel (interp\<lparr>stack := VCell proof_cell # stack interp\<rparr>) of
                Some (Finished (Success _ _ _)) \<Rightarrow> Some (Inr ())
              | Some (Finished (Exception _ _)) \<Rightarrow> Some (Inl InvalidProof)
              | _ \<Rightarrow> None)
      | _ \<Rightarrow> Some (Inl InvalidProof))"

section \<open>The daemon\<close>

record signed_state_envelope =
  env_state :: channel_state
  env_sig_a :: signature
  env_sig_b :: signature

record daemon =
  d_arbiter :: arbiter
  latest_by_channel :: "hash32 \<rightharpoonup> channel_state"

definition daemon_new :: "arbiter \<Rightarrow> daemon" where
  "daemon_new a = \<lparr>d_arbiter = a, latest_by_channel = [arb_channel_id a \<mapsto> latest_state a]\<rparr>"

definition daemon_latest_state :: "daemon \<Rightarrow> channel_state" where
  "daemon_latest_state d =
     (case latest_by_channel d (arb_channel_id (d_arbiter d)) of
        Some st \<Rightarrow> st | None \<Rightarrow> latest_state (d_arbiter d))"

definition exchange_signed_state ::
  "crypto \<Rightarrow> daemon \<Rightarrow> signed_state_envelope \<Rightarrow> daemon \<times> (channel_error + unit)" where
  "exchange_signed_state cr d env =
     (let st = env_state env; a = d_arbiter d in
      if ch_id st \<noteq> arb_channel_id a then (d, Inl MismatchedChannelId)
      else case verify_dual_signatures cr a st (env_sig_a env) (env_sig_b env) of
        Inl e \<Rightarrow> (d, Inl e)
      | Inr _ \<Rightarrow>
          if ch_sequence st \<le> ch_sequence (daemon_latest_state d) then (d, Inl NonIncreasingSequence)
          else if allocation_exceeds a st then (d, Inl AllocationExceedsDeposit)
          else (\<lparr>d_arbiter = a\<lparr>latest_state := st\<rparr>,
                 latest_by_channel = (latest_by_channel d)(arb_channel_id a \<mapsto> st)\<rparr>, Inr ()))"

text \<open>An arbiter call that succeeds is recorded under the channel of the arbiter.\<close>

definition track :: "daemon \<Rightarrow> arbiter \<times> (channel_error + unit) \<Rightarrow> daemon \<times> (channel_error + unit)" where
  "track d ar = (case ar of
     (a, Inl e) \<Rightarrow> (d\<lparr>d_arbiter := a\<rparr>, Inl e)
   | (a, Inr _) \<Rightarrow> (\<lparr>d_arbiter = a, latest_by_channel = (latest_by_channel d)(arb_channel_id a \<mapsto> latest_state a)\<rparr>, Inr ()))"

definition exchange_cooperative_settlement ::
  "crypto \<Rightarrow> daemon \<Rightarrow> signed_state_envelope \<Rightarrow> daemon \<times> (channel_error + unit)" where
  "exchange_cooperative_settlement cr d env =
     track d (cooperative_settle cr (d_arbiter d) (env_state env) (env_sig_a env) (env_sig_b env))"

definition receive_signed_state_and_track ::
  "crypto \<Rightarrow> daemon \<Rightarrow> signed_state_envelope \<Rightarrow> daemon \<times> (channel_error + unit)" where
  "receive_signed_state_and_track cr d env = exchange_signed_state cr d env"

definition is_stale_submission :: "daemon \<Rightarrow> channel_state \<Rightarrow> bool" where
  "is_stale_submission d st \<longleftrightarrow>
     (let latest = daemon_latest_state d in
      ch_sequence st > ch_sequence latest \<and>
      (balance_party_a st \<noteq> balance_party_a latest \<or> balance_party_b st \<noteq> balance_party_b latest))"

definition submit_uncooperative_dispute ::
  "crypto \<Rightarrow> daemon \<Rightarrow> signed_state_envelope \<Rightarrow> u64 \<Rightarrow> daemon \<times> (channel_error + unit)" where
  "submit_uncooperative_dispute cr d env current_lt =
     track d (submit_uncooperative_state cr (d_arbiter d) (env_state env) (env_sig_a env) (env_sig_b env) current_lt)"

definition finalize_dispute_if_due :: "daemon \<Rightarrow> u64 \<Rightarrow> daemon \<times> (channel_error + unit)" where
  "finalize_dispute_if_due d current_lt =
     (if challenge_start_lt (d_arbiter d) \<noteq> None then
        let (a, r) = finalize_uncooperative_settlement (d_arbiter d) current_lt in (d\<lparr>d_arbiter := a\<rparr>, r)
      else (d, Inr ()))"

text \<open>The watcher task works on its own copy of the daemon: the logical times it observes, one per tick.\<close>

definition challenge_watcher :: "daemon \<Rightarrow> u64 list \<Rightarrow> daemon" where
  "challenge_watcher d observed = fold (\<lambda>lt d. fst (finalize_dispute_if_due d lt)) observed d"

text \<open>\<open>run_flow\<close>: the addition of the window is plain, \<open>None\<close> is its panic.\<close>

definition run_flow ::
  "crypto \<Rightarrow> profile \<Rightarrow> daemon \<Rightarrow> signed_state_envelope \<Rightarrow> u64 \<Rightarrow> daemon \<times> (channel_error + unit) option" where
  "run_flow cr p d env current_lt =
     (if is_stale_submission d (env_state env) then
        (case submit_uncooperative_dispute cr d env current_lt of
           (d, Inl e) \<Rightarrow> (d, Some (Inl e))
         | (d, Inr _) \<Rightarrow>
             (case plain_add p current_lt (challenge_window_lt (d_arbiter d)) of
                None \<Rightarrow> (d, None)
              | Some due_lt \<Rightarrow> (let (d, r) = finalize_dispute_if_due d due_lt in (d, Some r))))
      else (let (d, r) = exchange_signed_state cr d env in (d, Some r)))"

datatype daemon_request =
    Exchange signed_state_envelope
  | Settle signed_state_envelope
  | Dispute signed_state_envelope u64
  | FinalizeDue u64
  | Flow signed_state_envelope u64

fun daemon_step :: "crypto \<Rightarrow> profile \<Rightarrow> daemon \<Rightarrow> daemon_request \<Rightarrow> daemon \<times> (channel_error + unit) option" where
  "daemon_step cr p d (Exchange env) = (let (d, r) = receive_signed_state_and_track cr d env in (d, Some r))"
| "daemon_step cr p d (Settle env) = (let (d, r) = exchange_cooperative_settlement cr d env in (d, Some r))"
| "daemon_step cr p d (Dispute env lt) = (let (d, r) = submit_uncooperative_dispute cr d env lt in (d, Some r))"
| "daemon_step cr p d (FinalizeDue lt) = (let (d, r) = finalize_dispute_if_due d lt in (d, Some r))"
| "daemon_step cr p d (Flow env lt) = run_flow cr p d env lt"

section \<open>The invariant\<close>

text \<open>A state the arbiter may hold: the initial allocation, or one both parties signed.\<close>

definition held_by :: "crypto \<Rightarrow> arbiter \<Rightarrow> channel_state \<Rightarrow> bool" where
  "held_by cr a st \<longleftrightarrow> ch_id st = arb_channel_id a \<and> \<not> allocation_exceeds a st \<and>
     (st = initial_state (arb_channel_id a) (total_deposit a) \<or> (\<exists>sa sb. verify_dual_signatures cr a st sa sb = Inr ()))"

definition daemon_inv :: "crypto \<Rightarrow> daemon \<Rightarrow> bool" where
  "daemon_inv cr d \<longleftrightarrow> held_by cr (d_arbiter d) (latest_state (d_arbiter d)) \<and>
     latest_by_channel d (arb_channel_id (d_arbiter d)) = Some (latest_state (d_arbiter d))"

definition same_channel :: "arbiter \<Rightarrow> arbiter \<Rightarrow> bool" where
  "same_channel a b \<longleftrightarrow> arb_channel_id b = arb_channel_id a \<and> party_a b = party_a a \<and> party_b b = party_b a \<and>
     pubkey_a b = pubkey_a a \<and> pubkey_b b = pubkey_b a \<and> total_deposit b = total_deposit a \<and>
     challenge_window_lt b = challenge_window_lt a \<and> (is_settled a \<longrightarrow> is_settled b)"

lemma held_by_cong:
  assumes "same_channel a b"
  shows "held_by cr b st = held_by cr a st"
proof -
  have f: "arb_channel_id b = arb_channel_id a" "pubkey_a b = pubkey_a a" "pubkey_b b = pubkey_b a" "total_deposit b = total_deposit a"
    using assms by (simp_all add: same_channel_def)
  show ?thesis unfolding held_by_def allocation_exceeds_def verify_dual_signatures_def f by (rule refl)
qed

lemma same_channel_refl [simp]: "same_channel a a"
  by (simp add: same_channel_def)

lemma same_channel_trans: "same_channel a b \<Longrightarrow> same_channel b c \<Longrightarrow> same_channel a c"
  by (simp add: same_channel_def)

text \<open>What a call of the arbiter leaves: the channel it had, and a state it may hold that is newer unless the
  call is a cooperative settlement.\<close>

definition arbiter_moves :: "crypto \<Rightarrow> bool \<Rightarrow> arbiter \<Rightarrow> arbiter \<Rightarrow> bool" where
  "arbiter_moves cr newer a b \<longleftrightarrow> same_channel a b \<and>
     (latest_state b = latest_state a \<or>
      held_by cr a (latest_state b) \<and> (newer \<longrightarrow> ch_sequence (latest_state a) < ch_sequence (latest_state b)))"

lemma signed_held:
  "ch_id st = arb_channel_id a \<Longrightarrow> \<not> allocation_exceeds a st \<Longrightarrow> verify_dual_signatures cr a st sa sb = Inr () \<Longrightarrow> held_by cr a st"
  by (auto simp: held_by_def)

lemma cooperative_moves: "arbiter_moves cr False a (fst (cooperative_settle cr a st sa sb))"
  by (auto simp: cooperative_settle_def arbiter_moves_def same_channel_def intro: signed_held split: sum.splits)

lemma submit_moves: "arbiter_moves cr True a (fst (submit_uncooperative_state cr a st sa sb lt))"
  by (auto simp: submit_uncooperative_state_def arbiter_moves_def same_channel_def not_le intro: signed_held split: sum.splits)

lemma finalize_moves: "arbiter_moves cr True a (fst (finalize_uncooperative_settlement a lt))"
  by (auto simp: finalize_uncooperative_settlement_def arbiter_moves_def same_channel_def split: option.splits)

text \<open>The same for the daemon, whose record of the latest state follows the arbiter.\<close>

definition daemon_moves :: "crypto \<Rightarrow> bool \<Rightarrow> daemon \<Rightarrow> daemon \<Rightarrow> bool" where
  "daemon_moves cr newer d e \<longleftrightarrow> daemon_inv cr e \<and> same_channel (d_arbiter d) (d_arbiter e) \<and>
     (newer \<longrightarrow> ch_sequence (latest_state (d_arbiter d)) \<le> ch_sequence (latest_state (d_arbiter e)))"

lemma daemon_moves_refl: "daemon_inv cr d \<Longrightarrow> daemon_moves cr newer d d"
  by (simp add: daemon_moves_def)

lemma daemon_moves_trans: "daemon_moves cr newer d e \<Longrightarrow> daemon_moves cr newer e f \<Longrightarrow> daemon_moves cr newer d f"
  using same_channel_trans by (auto simp: daemon_moves_def intro: order_trans)

lemma daemon_moves_weaken: "daemon_moves cr True d e \<Longrightarrow> daemon_moves cr newer d e"
  by (simp add: daemon_moves_def)

lemma daemon_moves_by:
  assumes "daemon_inv cr d" "arbiter_moves cr newer (d_arbiter d) (d_arbiter e)"
    and "latest_by_channel e (arb_channel_id (d_arbiter e)) = Some (latest_state (d_arbiter e))"
  shows "daemon_moves cr newer d e"
proof -
  have same: "same_channel (d_arbiter d) (d_arbiter e)" using assms(2) by (simp add: arbiter_moves_def)
  have held: "held_by cr (d_arbiter d) (latest_state (d_arbiter d))" using assms(1) by (simp add: daemon_inv_def)
  have "held_by cr (d_arbiter d) (latest_state (d_arbiter e))"
    using assms(2) held unfolding arbiter_moves_def by metis
  then have "daemon_inv cr e" using assms(3) held_by_cong [OF same] by (simp add: daemon_inv_def)
  moreover have "newer \<longrightarrow> ch_sequence (latest_state (d_arbiter d)) \<le> ch_sequence (latest_state (d_arbiter e))"
    using assms(2) unfolding arbiter_moves_def by (metis less_imp_le order_refl)
  ultimately show ?thesis using same by (simp add: daemon_moves_def)
qed

lemma failed_call_keeps:
  "snd (cooperative_settle cr a st sa sb) = Inl err \<Longrightarrow> fst (cooperative_settle cr a st sa sb) = a"
  "snd (submit_uncooperative_state cr a st sa sb lt) = Inl err \<Longrightarrow> fst (submit_uncooperative_state cr a st sa sb lt) = a"
  by (auto simp: cooperative_settle_def submit_uncooperative_state_def split: if_splits sum.splits)

lemma track_moves:
  assumes "daemon_inv cr d" "arbiter_moves cr newer (d_arbiter d) (fst ar)" "\<And>err. snd ar = Inl err \<Longrightarrow> fst ar = d_arbiter d"
  shows "daemon_moves cr newer d (fst (track d ar))"
proof (cases ar)
  case (Pair a r)
  show ?thesis
  proof (cases r)
    case (Inl e)
    then have "fst (track d ar) = d" using assms(3) Pair by (simp add: track_def)
    then show ?thesis using assms(1) by (simp add: daemon_moves_refl)
  next
    case (Inr u)
    then show ?thesis using assms(1, 2) Pair by (intro daemon_moves_by) (simp_all add: track_def)
  qed
qed

lemma exchange_moves: "daemon_inv cr d \<Longrightarrow> daemon_moves cr True d (fst (exchange_signed_state cr d env))"
proof -
  assume d: "daemon_inv cr d"
  let ?e = "fst (exchange_signed_state cr d env)"
  have latest: "daemon_latest_state d = latest_state (d_arbiter d)" using d by (simp add: daemon_inv_def daemon_latest_state_def)
  show ?thesis
  proof (cases "?e = d")
    case False
    then have "arbiter_moves cr True (d_arbiter d) (d_arbiter ?e)"
      "latest_by_channel ?e (arb_channel_id (d_arbiter ?e)) = Some (latest_state (d_arbiter ?e))"
      by (auto simp: exchange_signed_state_def arbiter_moves_def same_channel_def latest not_le Let_def
          intro: signed_held split: sum.splits if_splits)
    then show ?thesis by (rule daemon_moves_by [OF d])
  qed (use d in \<open>simp add: daemon_moves_refl\<close>)
qed

lemma finalize_due_moves: "daemon_inv cr d \<Longrightarrow> daemon_moves cr True d (fst (finalize_dispute_if_due d lt))"
proof -
  assume d: "daemon_inv cr d"
  have keep: "latest_state (fst (finalize_uncooperative_settlement (d_arbiter d) lt)) = latest_state (d_arbiter d)"
    "arb_channel_id (fst (finalize_uncooperative_settlement (d_arbiter d) lt)) = arb_channel_id (d_arbiter d)"
    by (auto simp: finalize_uncooperative_settlement_def split: option.splits)
  show ?thesis
  proof (cases "challenge_start_lt (d_arbiter d) \<noteq> None")
    case True
    then show ?thesis using d finalize_moves keep
      by (intro daemon_moves_by) (auto simp: finalize_dispute_if_due_def daemon_inv_def case_prod_unfold Let_def)
  qed (use d in \<open>simp add: finalize_dispute_if_due_def daemon_moves_refl\<close>)
qed

lemma dispute_moves: "daemon_inv cr d \<Longrightarrow> daemon_moves cr True d (fst (submit_uncooperative_dispute cr d env lt))"
  unfolding submit_uncooperative_dispute_def by (rule track_moves) (auto simp: submit_moves failed_call_keeps)

lemma settle_moves: "daemon_inv cr d \<Longrightarrow> daemon_moves cr False d (fst (exchange_cooperative_settlement cr d env))"
  unfolding exchange_cooperative_settlement_def by (rule track_moves) (auto simp: cooperative_moves failed_call_keeps)

lemma flow_moves:
  assumes "daemon_inv cr d"
  shows "daemon_moves cr True d (fst (run_flow cr p d env lt))"
proof (cases "is_stale_submission d (env_state env)")
  case True
  obtain e r where e: "submit_uncooperative_dispute cr d env lt = (e, r)" by (cases "submit_uncooperative_dispute cr d env lt")
  have m: "daemon_moves cr True d e" using dispute_moves [OF assms, of env lt] e by simp
  then have "daemon_moves cr True e (fst (finalize_dispute_if_due e x))" for x
    by (intro finalize_due_moves) (simp add: daemon_moves_def)
  then show ?thesis
    using True e m daemon_moves_trans by (auto simp: run_flow_def case_prod_unfold Let_def split: sum.splits option.splits)
next
  case False
  then show ?thesis using exchange_moves [OF assms] by (simp add: run_flow_def case_prod_unfold Let_def)
qed

abbreviation cooperative :: "daemon_request \<Rightarrow> bool" where
  "cooperative q \<equiv> \<exists>env. q = Settle env"

lemma daemon_step_moves: "daemon_inv cr d \<Longrightarrow> daemon_moves cr (\<not> cooperative q) d (fst (daemon_step cr p d q))"
proof (cases q)
  case (Settle env)
  assume "daemon_inv cr d"
  then show ?thesis using settle_moves Settle by (simp add: case_prod_unfold Let_def)
qed (simp_all add: receive_signed_state_and_track_def case_prod_unfold Let_def
    exchange_moves dispute_moves finalize_due_moves flow_moves daemon_moves_weaken)

interpretation channel: component "daemon_step cr p" "daemon_inv cr" "\<lambda>_. True" for cr p
  using daemon_step_moves by unfold_locales (auto simp: daemon_moves_def)

interpretation dispute: component "daemon_step cr p" "daemon_inv cr" "\<lambda>q. \<not> cooperative q" for cr p
  using daemon_step_moves by unfold_locales (auto simp: daemon_moves_def)

section \<open>Properties\<close>

lemma daemon_new_inv: "daemon_inv cr (daemon_new (arbiter_new i pa pb ka kb deposit window))"
  by (simp add: daemon_inv_def daemon_new_def arbiter_new_def held_by_def initial_state_def allocation_exceeds_def
      saturating_add_def unsigned_less [where ?'a = nat and ?'b = 128, simplified])

lemma run_channel:
  "daemon_inv cr d \<Longrightarrow> daemon_inv cr (fst (run_ops (daemon_step cr p) d qs)) \<and>
     same_channel (d_arbiter d) (d_arbiter (fst (run_ops (daemon_step cr p) d qs)))"
proof
  assume d: "daemon_inv cr d"
  show "daemon_inv cr (fst (run_ops (daemon_step cr p) d qs))"
    by (rule channel.run_inv [OF d]) (simp add: list_all_iff)
  show "same_channel (d_arbiter d) (d_arbiter (fst (run_ops (daemon_step cr p) d qs)))"
    by (rule channel.run_rel [where R = "\<lambda>d e. same_channel (d_arbiter d) (d_arbiter e)" and cr = cr])
      (use d daemon_step_moves in \<open>auto simp: daemon_moves_def list_all_iff intro: same_channel_trans\<close>)
qed

text \<open>
  C33. A channel never pays out more than was deposited, and only what both parties agreed to: along any sequence of
  exchanges, settlements, disputes and finalizations, the state the daemon reports is the one the arbiter holds,
  belongs to the channel, allocates at most the deposit (a deposit below the largest \<open>u128\<close>), and is
  the initial state or carries valid signatures of both parties.
\<close>

theorem channel_state_backed:
  assumes "d = fst (run_ops (daemon_step cr p) (daemon_new (arbiter_new i pa pb ka kb deposit window)) qs)" "deposit \<noteq> - 1"
  shows "daemon_latest_state d = latest_state (d_arbiter d) \<and> ch_id (daemon_latest_state d) = i \<and>
    unat (balance_party_a (daemon_latest_state d)) + unat (balance_party_b (daemon_latest_state d)) \<le> unat deposit \<and>
    (daemon_latest_state d = initial_state i deposit \<or>
     (\<exists>sa sb. is_ok (verify cr ka TX_BODY_V1 (encode (channel_hash cr (daemon_latest_state d))) sa) \<and>
        is_ok (verify cr kb TX_BODY_V1 (encode (channel_hash cr (daemon_latest_state d))) sb)))"
proof -
  let ?a = "arbiter_new i pa pb ka kb deposit window" and ?st = "latest_state (d_arbiter d)"
  have inv: "daemon_inv cr d" and same: "same_channel ?a (d_arbiter d)"
    using run_channel [OF daemon_new_inv] assms(1) by (simp_all add: daemon_new_def)
  have latest: "daemon_latest_state d = ?st" using inv by (simp add: daemon_inv_def daemon_latest_state_def)
  have "held_by cr ?a ?st" using inv held_by_cong [OF same] by (simp add: daemon_inv_def)
  then have h: "ch_id ?st = i" "\<not> deposit < saturating_add (balance_party_a ?st) (balance_party_b ?st)"
    "?st = initial_state i deposit \<or> (\<exists>sa sb. verify_dual_signatures cr ?a ?st sa sb = Inr ())"
    by (simp_all add: held_by_def arbiter_new_def allocation_exceeds_def)
  have "unat deposit \<noteq> 2 ^ 128 - 1" using assms(2) by (simp add: word_unat_eq_iff unat_max_word)
  then have "unat deposit < 2 ^ 128 - 1" using unsigned_less [where ?'a = nat and w = deposit] by simp
  then have "unat (balance_party_a ?st) + unat (balance_party_b ?st) \<le> unat deposit"
    using h(2) by (simp add: not_less word_le_nat_alt unat_saturating_add min_def split: if_splits)
  then show ?thesis using h latest
    by (auto simp: verify_dual_signatures_def arbiter_new_def Let_def split: if_splits)
qed

definition sample_envelope :: "u64 \<Rightarrow> u128 \<Rightarrow> u128 \<Rightarrow> signed_state_envelope" where
  "sample_envelope n x y =
     \<lparr>env_state = \<lparr>ch_id = 3, ch_sequence = n, balance_party_a = x, balance_party_b = y, condition_hash = None, expiry_lt = None\<rparr>,
      env_sig_a = 0, env_sig_b = 0\<rparr>"

definition sample_daemon :: daemon where
  "sample_daemon = daemon_new (arbiter_new 3 (FullAddress 0 1) (FullAddress 0 2) 11 12 100 50)"

lemmas daemon_eval = sample_daemon_def sample_envelope_def daemon_new_def arbiter_new_def initial_state_def
  receive_signed_state_and_track_def exchange_signed_state_def exchange_cooperative_settlement_def submit_uncooperative_dispute_def
  submit_uncooperative_state_def cooperative_settle_def run_flow_def is_stale_submission_def finalize_dispute_if_due_def
  finalize_uncooperative_settlement_def track_def daemon_latest_state_def verify_dual_signatures_def allocation_exceeds_def
  verify_def toy_crypto_def saturating_add_def plain_add_def word_le_nat_alt word_less_nat_alt Let_def

theorem channel_state_backed_witness:
  "unat (balance_party_b (daemon_latest_state (fst (run_ops (daemon_step toy_crypto Dev) sample_daemon
     [Exchange (sample_envelope 1 60 40), Exchange (sample_envelope 2 90 90)])))) = 40 \<and>
   unat (balance_party_a (daemon_latest_state (fst (run_ops (daemon_step toy_crypto Dev) sample_daemon
     [Exchange (sample_envelope 1 60 40), Exchange (sample_envelope 2 90 90)])))) + 40 \<le> 100"
proof -
  have b: "unat (balance_party_b (daemon_latest_state (fst (run_ops (daemon_step toy_crypto Dev) sample_daemon
     [Exchange (sample_envelope 1 60 40), Exchange (sample_envelope 2 90 90)])))) = 40"
    by (simp add: daemon_eval)
  have "(100 :: u128) \<noteq> - 1" by simp
  from channel_state_backed [OF refl this, of toy_crypto Dev 3 "FullAddress 0 1" "FullAddress 0 2" 11 12 50
      "[Exchange (sample_envelope 1 60 40), Exchange (sample_envelope 2 90 90)]", folded sample_daemon_def]
  have "unat (balance_party_a (daemon_latest_state (fst (run_ops (daemon_step toy_crypto Dev) sample_daemon
     [Exchange (sample_envelope 1 60 40), Exchange (sample_envelope 2 90 90)])))) +
     unat (balance_party_b (daemon_latest_state (fst (run_ops (daemon_step toy_crypto Dev) sample_daemon
     [Exchange (sample_envelope 1 60 40), Exchange (sample_envelope 2 90 90)])))) \<le> unat (100 :: u128)" by blast
  moreover have "unat (100 :: u128) = 100" by simp
  ultimately show ?thesis using b by linarith
qed

text \<open>
  C34. Disputes only move forward: along any sequence of operations without a cooperative settlement the sequence number of the held
  state never decreases, a settled channel stays settled, and the parties, keys, deposit and challenge
  window never change.
\<close>

theorem disputes_move_forward:
  assumes "daemon_inv cr d" "list_all (\<lambda>q. \<not> cooperative q) qs"
  shows "ch_sequence (latest_state (d_arbiter d)) \<le> ch_sequence (latest_state (d_arbiter (fst (run_ops (daemon_step cr p) d qs)))) \<and>
    same_channel (d_arbiter d) (d_arbiter (fst (run_ops (daemon_step cr p) d qs)))"
proof (rule dispute.run_rel [where cr = cr and R = "\<lambda>d e. ch_sequence (latest_state (d_arbiter d)) \<le> ch_sequence (latest_state (d_arbiter e)) \<and>
    same_channel (d_arbiter d) (d_arbiter e)"])
  fix s q assume "daemon_inv cr s" "\<not> cooperative q"
  then show "ch_sequence (latest_state (d_arbiter s)) \<le> ch_sequence (latest_state (d_arbiter (fst (daemon_step cr p s q)))) \<and>
      same_channel (d_arbiter s) (d_arbiter (fst (daemon_step cr p s q)))"
    using daemon_step_moves [of cr s q p] by (simp add: daemon_moves_def)
qed (use assms in \<open>auto intro: same_channel_trans\<close>)

theorem disputes_move_forward_witness:
  "ch_sequence (latest_state (d_arbiter sample_daemon)) \<le>
     ch_sequence (latest_state (d_arbiter (fst (run_ops (daemon_step toy_crypto Dev) sample_daemon
       [Dispute (sample_envelope 4 60 40) 9, Exchange (sample_envelope 2 50 50)]))))"
proof -
  have "daemon_inv toy_crypto sample_daemon" unfolding sample_daemon_def by (rule daemon_new_inv)
  moreover have "list_all (\<lambda>q. \<not> cooperative q) [Dispute (sample_envelope 4 60 40) 9, Exchange (sample_envelope 2 50 50)]" by simp
  ultimately show ?thesis using disputes_move_forward by blast
qed

section \<open>What the rules allow\<close>

text \<open>A cooperative settlement may go back to an older signed state, also after a settlement.\<close>

lemma settlement_can_regress:
  "let d = fst (run_ops (daemon_step toy_crypto Dev) sample_daemon [Settle (sample_envelope 5 10 90), Settle (sample_envelope 1 90 10)])
   in ch_sequence (daemon_latest_state d) = 1 \<and> is_settled (d_arbiter d)"
  by (simp add: daemon_eval)

text \<open>A settled channel still accepts newer states.\<close>

lemma settled_channel_still_moves:
  "let d = fst (run_ops (daemon_step toy_crypto Dev) sample_daemon [Settle (sample_envelope 5 10 90), Dispute (sample_envelope 6 90 10) 7])
   in ch_sequence (daemon_latest_state d) = 6 \<and> is_settled (d_arbiter d)"
  by (simp add: daemon_eval)

text \<open>\<open>run_flow\<close> settles a dispute in the call that opens it, since it finalizes at the end of the window instead
  of the current time: the other party has no time to answer.\<close>

lemma run_flow_skips_challenge:
  "let (d, r) = daemon_step toy_crypto Dev sample_daemon (Flow (sample_envelope 1 60 40) 9)
   in r = Some (Inr ()) \<and> is_settled (d_arbiter d)"
  by (simp add: daemon_eval)

text \<open>
  The proof check accepts every ordinary cell and rejects every special one, within two steps of the machine; it
  looks at nothing else of the cell.
\<close>

lemma proof_check_is_cell_kind:
  "verify_merkle_proof cr p (fuel + 2) c = Some (if is_special c then Inl InvalidProof else Inr ())"
proof -
  define s where "s = (interpreter_new (code_cell [0x45, 0x72]) (code_cell []) proof_message proof_context)\<lparr>stack := [VCell c]\<rparr>"
  have special: "vm_step cr p s = (Inl (Exn AbsentNode), s\<lparr>pc_bits := 8, gas_used := 10, stack := []\<rparr>)" if "is_special c"
    using that by (simp add: s_def vm_eval op_ctos_def pop_cell_def proof_context_def)
  have first: "vm_step cr p s = (Inr True, s\<lparr>pc_bits := 8, gas_used := 10, stack := [VSlice (slice_new c)]\<rparr>)" if "\<not> is_special c"
    using that by (simp add: s_def vm_eval op_ctos_def pop_cell_def proof_context_def)
  have second: "vm_step cr p (s\<lparr>pc_bits := 8, gas_used := 10, stack := [VSlice (slice_new c)]\<rparr>) =
      (Inr False, s\<lparr>pc_bits := 16, gas_used := 14, stack := [VSlice (slice_new c)]\<rparr>)"
    by (simp add: s_def vm_eval proof_context_def op_ret_def vm_return_def return_to_control_register_def take_return_def take_c0_def)
  have "c2 (control_registers s) = None" by (simp add: s_def interpreter_new_def registers_default_def)
  then have "run cr p (Suc (Suc fuel)) s = (if is_special c then Some (Finished (Exception AbsentNode 10))
      else Some (Finished (Success (vm_data s) (out_messages s) 14)))"
    using special first second by simp
  moreover have "cell_new [0x45, 0x72] [] = Inr (code_cell [0x45, 0x72])" "cell_new [] [] = Inr (code_cell [])"
    by (simp_all add: cell_new_def new_with_special_def MAX_CELL_DATA_BYTES_def MAX_CELL_REFS_def code_cell_def)
  moreover have "stack (interpreter_new (code_cell [0x45, 0x72]) (code_cell []) proof_message proof_context) = []"
    by (simp add: interpreter_new_def)
  ultimately show ?thesis
    by (simp add: verify_merkle_proof_def flip: s_def)
qed

end
