(* ===== verification/Rldp.thy ===== *)
theory Rldp
  imports Networking Ordered_Maps Machines
begin

unbundle bit_operations_syntax

text \<open>
  \<open>crates/node/onx-networking/src/rldp.rs\<close>: the frames of the reliable datagram protocol, the sender
  with its rounds and acknowledgements, the receiver that reassembles a payload, and the two loops
  \<open>send_rldp\<close> and \<open>recv_rldp\<close> over a datagram transport, which is an argument. The lemmas
  show that frames have one encoding, that a receiver fed with the frames of a sender in any order
  and any number delivers exactly the payload, that a sender which reports success has a peer that
  delivered the payload whatever datagrams are lost, and how many rounds a transfer needs.
\<close>

section \<open>Configuration and frames\<close>

definition DATA_TAG :: u32 where
  "DATA_TAG = 0x71d2b841"

definition ACK_TAG :: u32 where
  "ACK_TAG = 0x3a4f1092"

definition DEFAULT_CHUNK_SIZE :: nat where
  "DEFAULT_CHUNK_SIZE = 1024"

definition MAX_TRANSFER_SIZE :: nat where
  "MAX_TRANSFER_SIZE = 16 * 1024 * 1024"

definition DATA_HEADER_LEN :: nat where
  "DATA_HEADER_LEN = 4 + 32 + 32 + 4 + 2 + 2 + 2 + 2"

definition ACK_HEADER_LEN :: nat where
  "ACK_HEADER_LEN = 4 + 32 + 4 + 2 + 2"

record rldp_config =
  cfg_chunk_size :: nat
  redundancy :: nat
  packets_per_round :: nat
  max_rounds :: nat

definition rldp_config_default :: rldp_config where
  "rldp_config_default = \<lparr>cfg_chunk_size = DEFAULT_CHUNK_SIZE, redundancy = 3, packets_per_round = 128,
     max_rounds = 20\<rparr>"

record data_frame =
  df_transfer_id :: hash32
  payload_digest :: hash32
  total_size :: u32
  chunk_size :: u16
  chunk_count :: u16
  df_seq_no :: u16
  chunk_data :: bytes

definition validate_dimensions :: "u32 \<Rightarrow> u16 \<Rightarrow> u16 \<Rightarrow> network_error + unit" where
  "validate_dimensions tsize csize ccount =
     (if tsize = 0 \<or> unat tsize > MAX_TRANSFER_SIZE \<or> csize = 0 \<or> ccount = 0 \<or>
         div_ceil (unat tsize) (unat csize) \<noteq> unat ccount
      then Inl MalformedRldpFrame else Inr ())"

definition data_encode :: "data_frame \<Rightarrow> network_error + bytes" where
  "data_encode f =
     bindR (validate_dimensions (total_size f) (chunk_size f) (chunk_count f)) (\<lambda>_.
     if df_seq_no f \<ge> chunk_count f \<or> length (chunk_data f) \<noteq> unat (chunk_size f) then Inl MalformedRldpFrame
     else Inr (to_be DATA_TAG @ encode (df_transfer_id f) @ encode (payload_digest f) @ to_be (total_size f) @
       to_be (chunk_size f) @ to_be (chunk_count f) @ to_be (df_seq_no f) @
       to_be (word_of_nat (length (chunk_data f)) :: u16) @ chunk_data f))"

definition data_decode :: "bytes \<Rightarrow> network_error + data_frame" where
  "data_decode wire =
     (if length wire < DATA_HEADER_LEN \<or> from_be (subslice 0 4 wire) \<noteq> DATA_TAG then Inl MalformedRldpFrame
      else
        let transfer = from_be (subslice 4 36 wire);
            digest = from_be (subslice 36 68 wire);
            tsize = from_be (subslice 68 72 wire);
            csize = from_be (subslice 72 74 wire);
            ccount = from_be (subslice 74 76 wire);
            seq = from_be (subslice 76 78 wire);
            data_len = unat (from_be (subslice 78 80 wire) :: u16)
        in bindR (validate_dimensions tsize csize ccount) (\<lambda>_.
           if seq \<ge> ccount \<or> data_len \<noteq> unat csize \<or> length wire \<noteq> DATA_HEADER_LEN + data_len
           then Inl MalformedRldpFrame
           else Inr \<lparr>df_transfer_id = transfer, payload_digest = digest, total_size = tsize,
             chunk_size = csize, chunk_count = ccount, df_seq_no = seq, chunk_data = drop 80 wire\<rparr>))"

record ack_frame =
  af_transfer_id :: hash32
  af_ack_seq :: u32
  received_mask :: bytes

definition ack_encode :: "ack_frame \<Rightarrow> bytes" where
  "ack_encode a =
     to_be ACK_TAG @ encode (af_transfer_id a) @ to_be (af_ack_seq a) @
     to_be (word_of_nat (length (received_mask a)) :: u16) @ received_mask a"

definition ack_decode :: "bytes \<Rightarrow> network_error + ack_frame" where
  "ack_decode wire =
     (if length wire < ACK_HEADER_LEN \<or> from_be (subslice 0 4 wire) \<noteq> ACK_TAG then Inl MalformedRldpFrame
      else
        let len = unat (from_be (subslice 40 42 wire) :: u16)
        in if length wire \<noteq> ACK_HEADER_LEN + len then Inl MalformedRldpFrame
           else Inr \<lparr>af_transfer_id = from_be (subslice 4 36 wire), af_ack_seq = from_be (subslice 36 40 wire),
             received_mask = drop 42 wire\<rparr>)"

section \<open>The sender\<close>

record sender =
  s_frames :: "data_frame list"
  s_transfer_id :: hash32
  acknowledged :: "u16 set"
  last_ack_seq :: u32
  s_config :: rldp_config
  s_cursor :: nat

definition chunk_at :: "bytes \<Rightarrow> nat \<Rightarrow> nat \<Rightarrow> bytes" where
  "chunk_at data csize index =
     (let start = index * csize; end' = min (start + csize) (length data)
      in subslice start end' data @ replicate (csize - (end' - start)) 0)"

definition frame_at :: "crypto \<Rightarrow> hash32 \<Rightarrow> bytes \<Rightarrow> nat \<Rightarrow> nat \<Rightarrow> nat \<Rightarrow> data_frame" where
  "frame_at cr transfer data csize count index =
     \<lparr>df_transfer_id = transfer, payload_digest = sha256_digest cr data,
      total_size = word_of_nat (length data), chunk_size = word_of_nat csize,
      chunk_count = word_of_nat count, df_seq_no = word_of_nat index, chunk_data = chunk_at data csize index\<rparr>"

definition sender_new :: "crypto \<Rightarrow> hash32 \<Rightarrow> bytes \<Rightarrow> rldp_config \<Rightarrow> network_error + sender" where
  "sender_new cr transfer data cfg =
     (if data = [] \<or> length data > MAX_TRANSFER_SIZE \<or> cfg_chunk_size cfg = 0 \<or> cfg_chunk_size cfg > 65535 \<or>
         redundancy cfg = 0 \<or> packets_per_round cfg = 0
      then Inl MalformedRldpFrame
      else
        let count = div_ceil (length data) (cfg_chunk_size cfg)
        in if count > 65535 then Inl MalformedRldpFrame
           else Inr \<lparr>s_frames = map (frame_at cr transfer data (cfg_chunk_size cfg) count) [0..<count],
                  s_transfer_id = transfer, acknowledged = {}, last_ack_seq = 0, s_config = cfg, s_cursor = 0\<rparr>)"

definition is_complete :: "sender \<Rightarrow> bool" where
  "is_complete s \<longleftrightarrow> card (acknowledged s) = length (s_frames s)"

text \<open>
  The loop of \<open>next_round\<close>, by the number of frames that remain to be inspected; the inner loop
  over the redundancy pushes copies until the round is full. \<open>None\<close> is the panic of \<open>expect\<close>.
\<close>

fun round_loop :: "sender \<Rightarrow> nat \<Rightarrow> nat \<Rightarrow> bytes list \<Rightarrow> (nat \<times> bytes list) option" where
  "round_loop s 0 cur packets = Some (cur, packets)"
| "round_loop s (Suc remaining) cur packets =
     (if length packets \<ge> packets_per_round (s_config s) then Some (cur, packets)
      else
        let frame = s_frames s ! cur; cur' = (cur + 1) mod length (s_frames s)
        in if df_seq_no frame \<in> acknowledged s then round_loop s remaining cur' packets
           else case data_encode frame of
                  Inl _ \<Rightarrow> None
                | Inr wire \<Rightarrow> round_loop s remaining cur' (packets @
                    replicate (min (redundancy (s_config s)) (packets_per_round (s_config s) - length packets)) wire))"

definition next_round :: "sender \<Rightarrow> (sender \<times> bytes list) option" where
  "next_round s =
     (case round_loop s (length (s_frames s)) (s_cursor s) [] of
        None \<Rightarrow> None
      | Some (cur, packets) \<Rightarrow> Some (s\<lparr>s_cursor := cur\<rparr>, packets))"

text \<open>The sequence numbers a bitmap acknowledges among the first \<open>count\<close> ones.\<close>

definition mask_seqs :: "nat \<Rightarrow> bytes \<Rightarrow> nat list" where
  "mask_seqs count bitmap =
     concat (map (\<lambda>(i, b). map (\<lambda>j. i * 8 + j) (filter (\<lambda>j. i * 8 + j < count \<and> bit b j) [0..<8]))
       (enumerate 0 bitmap))"

definition apply_ack :: "sender \<Rightarrow> ack_frame \<Rightarrow> sender \<times> (network_error + unit)" where
  "apply_ack s ack =
     (if af_transfer_id ack \<noteq> s_transfer_id s \<or> af_ack_seq ack \<le> last_ack_seq s then (s, Inr ())
      else if length (received_mask ack) \<noteq> div_ceil (length (s_frames s)) 8 then (s, Inl MalformedRldpFrame)
      else (s\<lparr>last_ack_seq := af_ack_seq ack,
        acknowledged := acknowledged s \<union> word_of_nat ` set (mask_seqs (length (s_frames s)) (received_mask ack))\<rparr>,
        Inr ()))"

section \<open>The receiver\<close>

record receiver =
  r_transfer_id :: hash32
  r_digest :: hash32
  r_total_size :: nat
  r_chunk_size :: nat
  r_chunk_count :: nat
  chunks :: "(u16, bytes) btree"
  r_ack_seq :: u32

definition receiver_from_frame :: "data_frame \<Rightarrow> network_error + receiver" where
  "receiver_from_frame f =
     bindR (validate_dimensions (total_size f) (chunk_size f) (chunk_count f)) (\<lambda>_.
     Inr \<lparr>r_transfer_id = df_transfer_id f, r_digest = payload_digest f, r_total_size = unat (total_size f),
       r_chunk_size = unat (chunk_size f), r_chunk_count = unat (chunk_count f), chunks = [], r_ack_seq = 0\<rparr>)"

fun collect_chunks :: "(u16, bytes) btree \<Rightarrow> u16 list \<Rightarrow> network_error + bytes" where
  "collect_chunks cs [] = Inr []"
| "collect_chunks cs (seq # seqs) =
     bindR (ok_or (bt_get cs seq) MalformedRldpFrame) (\<lambda>c.
     bindR (collect_chunks cs seqs) (\<lambda>rest. Inr (c @ rest)))"

definition ingest :: "crypto \<Rightarrow> receiver \<Rightarrow> data_frame \<Rightarrow> receiver \<times> (network_error + bytes option)" where
  "ingest cr r f =
     (if df_transfer_id f \<noteq> r_transfer_id r \<or> payload_digest f \<noteq> r_digest r \<or>
         unat (total_size f) \<noteq> r_total_size r \<or> unat (chunk_size f) \<noteq> r_chunk_size r \<or>
         unat (chunk_count f) \<noteq> r_chunk_count r
      then (r, Inl MalformedRldpFrame)
      else
        let cs = (case bt_get (chunks r) (df_seq_no f) of
                    Some _ \<Rightarrow> chunks r
                  | None \<Rightarrow> bt_insert (chunks r) (df_seq_no f) (chunk_data f));
            r' = r\<lparr>chunks := cs\<rparr>
        in if length cs \<noteq> r_chunk_count r then (r', Inr None)
           else (r',
             bindR (collect_chunks cs (map word_of_nat [0..<r_chunk_count r])) (\<lambda>assembled.
             let data = take (r_total_size r) assembled
             in if sha256_digest cr data \<noteq> r_digest r then Inl PayloadDigestMismatch else Inr (Some data))))"

text \<open>Setting the bits of the held chunks; \<open>None\<close> is the panic of an index outside the bitmap.\<close>

fun set_mask :: "bytes \<Rightarrow> u16 list \<Rightarrow> bytes option" where
  "set_mask bitmap [] = Some bitmap"
| "set_mask bitmap (seq # seqs) =
     (let i = unat seq div 8 in
      if i < length bitmap then set_mask (bitmap[i := bitmap ! i OR push_bit (unat seq mod 8) 1]) seqs else None)"

definition receiver_ack :: "receiver \<Rightarrow> (receiver \<times> ack_frame) option" where
  "receiver_ack r =
     (let r' = r\<lparr>r_ack_seq := r_ack_seq r + 1\<rparr>
      in case set_mask (replicate (div_ceil (r_chunk_count r) 8) 0) (map fst (chunks r)) of
           None \<Rightarrow> None
         | Some bitmap \<Rightarrow> Some (r', \<lparr>af_transfer_id = r_transfer_id r, af_ack_seq = r_ack_seq r', received_mask = bitmap\<rparr>))"

section \<open>The loops over a transport\<close>

text \<open>
  A datagram transport with a state of its own: \<open>t_send\<close> transmits a datagram or panics, which is
  \<open>None\<close>; \<open>t_recv\<close> yields the next one or an error, and \<open>None\<close> where none arrives (before the
  timeout, where the caller sets one). A loop that waits for datagrams may run forever: the loops are partial functions, and
  \<open>None\<close> is a call that does not return.
\<close>

record 'n transport =
  t_send :: "'n \<Rightarrow> bytes \<Rightarrow> ('n \<times> (network_error + unit)) option"
  t_recv :: "'n \<Rightarrow> 'n \<times> (network_error + bytes) option"

fun send_packets :: "'n transport \<Rightarrow> 'n \<Rightarrow> bytes list \<Rightarrow> ('n \<times> (network_error + unit)) option" where
  "send_packets t n [] = Some (n, Inr ())"
| "send_packets t n (p # ps) =
     (case t_send t n p of
        None \<Rightarrow> None
      | Some (n', Inl e) \<Rightarrow> Some (n', Inl e)
      | Some (n', Inr _) \<Rightarrow> send_packets t n' ps)"

partial_function (option) await_acks ::
  "'n transport \<Rightarrow> 'n \<Rightarrow> sender \<Rightarrow> ('n \<times> (network_error + sender)) option" where
  "await_acks t n s =
     (case t_recv t n of
        (n', Some (Inr packet)) \<Rightarrow>
          (case ack_decode packet of
             Inr ack \<Rightarrow>
               (case apply_ack s ack of
                  (s', Inl e) \<Rightarrow> Some (n', Inl e)
                | (s', Inr _) \<Rightarrow> if is_complete s' then Some (n', Inr s') else await_acks t n' s')
           | Inl _ \<Rightarrow> await_acks t n' s)
      | (n', _) \<Rightarrow> Some (n', Inr s))"

fun send_rounds :: "'n transport \<Rightarrow> nat \<Rightarrow> 'n \<Rightarrow> sender \<Rightarrow> ('n \<times> (network_error + unit)) option" where
  "send_rounds t 0 n s = Some (n, Inl RldpTimeout)"
| "send_rounds t (Suc rounds) n s =
     (case next_round s of
        None \<Rightarrow> None
      | Some (s', packets) \<Rightarrow>
          (case send_packets t n packets of
             None \<Rightarrow> None
           | Some (n', Inl e) \<Rightarrow> Some (n', Inl e)
           | Some (n', Inr _) \<Rightarrow>
               if is_complete s' then Some (n', Inr ())
               else case await_acks t n' s' of
                      None \<Rightarrow> None
                    | Some (n'', Inl e) \<Rightarrow> Some (n'', Inl e)
                    | Some (n'', Inr s'') \<Rightarrow>
                        if is_complete s'' then Some (n'', Inr ()) else send_rounds t rounds n'' s''))"

definition send_rldp ::
  "crypto \<Rightarrow> 'n transport \<Rightarrow> 'n \<Rightarrow> hash32 \<Rightarrow> bytes \<Rightarrow> rldp_config \<Rightarrow> ('n \<times> (network_error + unit)) option" where
  "send_rldp cr t n transfer data cfg =
     (case sender_new cr transfer data cfg of
        Inl e \<Rightarrow> Some (n, Inl e)
      | Inr s \<Rightarrow> send_rounds t (max_rounds cfg) n s)"

text \<open>One datagram of \<open>recv_rldp\<close>: the frame is ingested and acknowledged.\<close>

definition receive_frame ::
  "crypto \<Rightarrow> 'n transport \<Rightarrow> 'n \<Rightarrow> receiver \<Rightarrow> data_frame \<Rightarrow> ('n \<times> (network_error + receiver \<times> bytes option)) option" where
  "receive_frame cr t n r f =
     (case ingest cr r f of
        (r', Inl e) \<Rightarrow> Some (n, Inl e)
      | (r', Inr result) \<Rightarrow>
          (case receiver_ack r' of
             None \<Rightarrow> None
           | Some (r'', ack) \<Rightarrow>
               (case t_send t n (ack_encode ack) of
                  None \<Rightarrow> None
                | Some (n', Inl e) \<Rightarrow> Some (n', Inl e)
                | Some (n', Inr _) \<Rightarrow> Some (n', Inr (r'', result)))))"

partial_function (option) receive_loop ::
  "crypto \<Rightarrow> 'n transport \<Rightarrow> 'n \<Rightarrow> receiver \<Rightarrow> ('n \<times> (network_error + bytes)) option" where
  "receive_loop cr t n r =
     (case t_recv t n of
        (n', None) \<Rightarrow> None
      | (n', Some (Inl e)) \<Rightarrow> Some (n', Inl e)
      | (n', Some (Inr packet)) \<Rightarrow>
          (case data_decode packet of
             Inl _ \<Rightarrow> receive_loop cr t n' r
           | Inr f \<Rightarrow>
               Option.bind (receive_frame cr t n' r f) (\<lambda>(n'', result).
               case result of
                 Inl e \<Rightarrow> Some (n'', Inl e)
               | Inr (r', Some data) \<Rightarrow> Some (n'', Inr data)
               | Inr (r', None) \<Rightarrow> receive_loop cr t n'' r')))"

definition recv_rldp :: "crypto \<Rightarrow> 'n transport \<Rightarrow> 'n \<Rightarrow> ('n \<times> (network_error + bytes)) option" where
  "recv_rldp cr t n =
     (case t_recv t n of
        (n', None) \<Rightarrow> None
      | (n', Some (Inl e)) \<Rightarrow> Some (n', Inl e)
      | (n', Some (Inr packet)) \<Rightarrow>
          (case data_decode packet of
             Inl e \<Rightarrow> Some (n', Inl e)
           | Inr f \<Rightarrow>
               (case receiver_from_frame f of
                  Inl e \<Rightarrow> Some (n', Inl e)
                | Inr r \<Rightarrow>
                    Option.bind (receive_frame cr t n' r f) (\<lambda>(n'', result).
                    case result of
                      Inl e \<Rightarrow> Some (n'', Inl e)
                    | Inr (r', Some data) \<Rightarrow> Some (n'', Inr data)
                    | Inr (r', None) \<Rightarrow> receive_loop cr t n'' r'))))"

section \<open>Frames have one encoding\<close>

definition frame_ok :: "data_frame \<Rightarrow> bool" where
  "frame_ok f \<longleftrightarrow> validate_dimensions (total_size f) (chunk_size f) (chunk_count f) = Inr () \<and>
     df_seq_no f < chunk_count f \<and> length (chunk_data f) = unat (chunk_size f)"

definition data_wire :: "data_frame \<Rightarrow> bytes" where
  "data_wire f = to_be DATA_TAG @ encode (df_transfer_id f) @ encode (payload_digest f) @ to_be (total_size f) @
     to_be (chunk_size f) @ to_be (chunk_count f) @ to_be (df_seq_no f) @
     to_be (word_of_nat (length (chunk_data f)) :: u16) @ chunk_data f"

lemma data_encode_wire: "data_encode f = Inr w \<longleftrightarrow> frame_ok f \<and> w = data_wire f"
  by (auto simp: data_encode_def frame_ok_def data_wire_def bindR_Inr not_le)

lemma data_wire_fields:
  "subslice 0 4 (data_wire f) = to_be DATA_TAG"
  "subslice 4 36 (data_wire f) = encode (df_transfer_id f)"
  "subslice 36 68 (data_wire f) = encode (payload_digest f)"
  "subslice 68 72 (data_wire f) = to_be (total_size f)"
  "subslice 72 74 (data_wire f) = to_be (chunk_size f)"
  "subslice 74 76 (data_wire f) = to_be (chunk_count f)"
  "subslice 76 78 (data_wire f) = to_be (df_seq_no f)"
  "subslice 78 80 (data_wire f) = to_be (word_of_nat (length (chunk_data f)) :: u16)"
  "drop 80 (data_wire f) = chunk_data f"
  "length (data_wire f) = 80 + length (chunk_data f)"
  by (simp_all add: data_wire_def subslice_simps)

lemma data_decode_wire:
  assumes "frame_ok f"
  shows "data_decode (data_wire f) = Inr f"
proof -
  have "unat (word_of_nat (length (chunk_data f)) :: u16) = unat (chunk_size f)"
    using assms by (simp add: frame_ok_def)
  with assms show ?thesis
    by (simp add: data_decode_def data_wire_fields DATA_HEADER_LEN_def from_be_to_be frame_ok_def
        not_le Let_def)
qed

lemma to_be_from_be_slice:
  "8 dvd LENGTH('a) \<Longrightarrow> length bs = LENGTH('a) div 8 \<Longrightarrow> from_be bs = w \<Longrightarrow> to_be (w :: 'a::len word) = bs"
  by (auto simp: to_be_from_be)

lemma data_decode_sound:
  assumes "data_decode w = Inr f"
  shows "frame_ok f \<and> w = data_wire f"
proof -
  have len: "length w = 80 + length (chunk_data f)"
    and ok: "frame_ok f" and data: "chunk_data f = drop 80 w"
    and tag: "from_be (subslice 0 4 w) = DATA_TAG"
    and fields: "df_transfer_id f = from_be (subslice 4 36 w)" "payload_digest f = from_be (subslice 36 68 w)"
      "total_size f = from_be (subslice 68 72 w)" "chunk_size f = from_be (subslice 72 74 w)"
      "chunk_count f = from_be (subslice 74 76 w)" "df_seq_no f = from_be (subslice 76 78 w)"
      "length (chunk_data f) = unat (from_be (subslice 78 80 w) :: u16)"
    using assms
    by (auto simp: data_decode_def bindR_Inr Let_def frame_ok_def DATA_HEADER_LEN_def not_le split: if_splits)
  have "data_wire f = subslice 0 4 w @ subslice 4 36 w @ subslice 36 68 w @ subslice 68 72 w @
      subslice 72 74 w @ subslice 74 76 w @ subslice 76 78 w @ subslice 78 80 w @ drop 80 w"
    using len by (simp add: data_wire_def fields(1-6) data [symmetric] fields(7) encode_from_be to_be_from_be
        to_be_from_be_slice [OF _ _ tag])
  also have "\<dots> = subslice 0 80 w @ drop 80 w" by (simp add: subslice_join flip: append_assoc)
  also have "\<dots> = w" by (simp add: subslice_def)
  finally show ?thesis using ok by simp
qed

text \<open>An acknowledgement announces two bytes of header that its encoder does not write.\<close>

lemma ack_decode_encode: "ack_decode (ack_encode a) = Inl MalformedRldpFrame"
proof -
  have len: "length (ack_encode a) = 42 + length (received_mask a)"
    by (simp add: ack_encode_def)
  have "subslice 40 42 (ack_encode a) = to_be (word_of_nat (length (received_mask a)) :: u16)"
    by (simp add: ack_encode_def subslice_simps)
  then have "unat (from_be (subslice 40 42 (ack_encode a)) :: u16) = length (received_mask a) mod 2 ^ 16"
    by (simp add: from_be_to_be unsigned_of_nat take_bit_eq_mod)
  moreover have "42 + n \<noteq> 44 + n mod 65536" for n :: nat
    using div_mult_mod_eq [of n 65536] by (cases "n div 65536") auto
  ultimately show ?thesis by (simp add: ack_decode_def ACK_HEADER_LEN_def len)
qed

section \<open>The frames of a transfer\<close>

definition transfer_ok :: "bytes \<Rightarrow> nat \<Rightarrow> nat \<Rightarrow> bool" where
  "transfer_ok data csize count \<longleftrightarrow> data \<noteq> [] \<and> length data \<le> MAX_TRANSFER_SIZE \<and> 0 < csize \<and>
     csize \<le> 65535 \<and> count = div_ceil (length data) csize \<and> count \<le> 65535"

definition frames_of :: "crypto \<Rightarrow> hash32 \<Rightarrow> bytes \<Rightarrow> nat \<Rightarrow> nat \<Rightarrow> data_frame list" where
  "frames_of cr transfer data csize count = map (frame_at cr transfer data csize count) [0..<count]"

lemma sender_new_Inr:
  "sender_new cr transfer data cfg = Inr s \<longleftrightarrow>
     (\<exists>count. transfer_ok data (cfg_chunk_size cfg) count \<and> redundancy cfg \<noteq> 0 \<and> packets_per_round cfg \<noteq> 0 \<and>
       s = \<lparr>s_frames = frames_of cr transfer data (cfg_chunk_size cfg) count, s_transfer_id = transfer,
            acknowledged = {}, last_ack_seq = 0, s_config = cfg, s_cursor = 0\<rparr>)"
  by (auto simp: sender_new_def transfer_ok_def frames_of_def Let_def)

lemma length_frames_of [simp]: "length (frames_of cr transfer data csize count) = count"
  by (simp add: frames_of_def)

lemma nth_frames_of [simp]: "i < count \<Longrightarrow> frames_of cr transfer data csize count ! i = frame_at cr transfer data csize count i"
  by (simp add: frames_of_def)

lemma div_ceil_le: "0 < b \<Longrightarrow> a \<le> div_ceil a b * b"
  using div_mult_mod_eq [of "a + b - 1" b] mod_less_divisor [of b "a + b - 1"]
  unfolding div_ceil_def by linarith

lemma div_ceil_pos: "0 < a \<Longrightarrow> 0 < b \<Longrightarrow> 0 < div_ceil a b"
  using div_ceil_le [of b a] by (cases "div_ceil a b") auto

lemma length_chunk_at [simp]: "length (chunk_at data csize i) = csize"
  by (auto simp: chunk_at_def Let_def)

lemma transfer_count_pos: "transfer_ok data csize count \<Longrightarrow> 0 < count"
  by (simp add: transfer_ok_def div_ceil_pos)

lemma frame_at_ok:
  assumes "transfer_ok data csize count" "i < count"
  shows "frame_ok (frame_at cr transfer data csize count i)"
proof -
  have small: "length data < 2 ^ 32" "csize < 2 ^ 16" "count < 2 ^ 16" "i < 2 ^ 16" "0 < length data"
    using assms by (auto simp: transfer_ok_def MAX_TRANSFER_SIZE_def)
  then have u: "unat (word_of_nat (length data) :: u32) = length data"
    "unat (word_of_nat csize :: u16) = csize" "unat (word_of_nat count :: u16) = count"
    "unat (word_of_nat i :: u16) = i"
    by (simp_all add: unsigned_of_nat take_bit_eq_mod)
  have "(word_of_nat (length data) :: u32) \<noteq> 0" "(word_of_nat csize :: u16) \<noteq> 0" "(word_of_nat count :: u16) \<noteq> 0"
    using u small assms transfer_count_pos [OF assms(1)] by (auto simp: transfer_ok_def word_unat_eq_iff)
  then show ?thesis
    using assms u by (simp add: frame_ok_def frame_at_def validate_dimensions_def transfer_ok_def word_less_nat_alt)
qed

lemma chunks_padded:
  "concat (map (chunk_at data csize) [0..<k]) = take (k * csize) data @ replicate (k * csize - length data) 0"
proof (induction k)
  case (Suc k)
  have "chunk_at data csize k = take csize (drop (k * csize) data) @
      replicate (csize - (length data - k * csize)) 0"
    by (auto simp: chunk_at_def subslice_def Let_def min_def)
  then have "concat (map (chunk_at data csize) [0..<Suc k]) =
      take (k * csize) data @ replicate (k * csize - length data) 0 @
      take csize (drop (k * csize) data) @ replicate (csize - (length data - k * csize)) 0"
    using Suc by simp
  also have "\<dots> = take (k * csize + csize) data @ replicate (k * csize + csize - length data) 0"
  proof (cases "k * csize < length data")
    case True
    then show ?thesis by (simp add: take_add)
  next
    case False
    then show ?thesis by (simp add: replicate_add [symmetric])
  qed
  finally show ?case by (simp add: add.commute)
qed simp

text \<open>The chunks of a transfer, cut to its size, are the payload.\<close>

lemma chunks_reassemble:
  assumes "transfer_ok data csize count"
  shows "take (length data) (concat (map (chunk_at data csize) [0..<count])) = data"
  using assms div_ceil_le [of csize "length data"] by (simp add: chunks_padded transfer_ok_def)

section \<open>Reassembly\<close>

definition held :: "receiver \<Rightarrow> nat set" where
  "held r = unat ` fst ` set (chunks r)"

definition receiver_ok :: "crypto \<Rightarrow> hash32 \<Rightarrow> bytes \<Rightarrow> nat \<Rightarrow> nat \<Rightarrow> receiver \<Rightarrow> bool" where
  "receiver_ok cr transfer data csize count r \<longleftrightarrow>
     r_transfer_id r = transfer \<and> r_digest r = sha256_digest cr data \<and> r_total_size r = length data \<and>
     r_chunk_size r = csize \<and> r_chunk_count r = count \<and> bt_inv (chunks r) \<and>
     (\<forall>(k, c) \<in> set (chunks r). unat k < count \<and> c = chunk_at data csize (unat k))"

lemma card_held: "bt_inv (chunks r) \<Longrightarrow> card (held r) = length (chunks r)"
  using bt_distinct [of "chunks r"] distinct_card [of "map fst (chunks r)"]
  by (simp add: held_def card_image inj_on_def word_unat_eq_iff)

lemma held_bound: "receiver_ok cr transfer data csize count r \<Longrightarrow> held r \<subseteq> {..<count}"
  by (auto simp: receiver_ok_def held_def)

lemma held_full:
  assumes "receiver_ok cr transfer data csize count r"
  shows "length (chunks r) = count \<longleftrightarrow> held r = {..<count}"
proof -
  have "length (chunks r) = card (held r)" using assms card_held by (simp add: receiver_ok_def)
  then show ?thesis
    using card_subset_eq [OF finite_lessThan held_bound [OF assms]] by (metis card_lessThan)
qed

lemma small_nat_u16: "i < 65536 \<Longrightarrow> unat (word_of_nat i :: u16) = i"
  by (simp add: unsigned_of_nat take_bit_eq_mod)

lemma held_get:
  assumes "receiver_ok cr transfer data csize count r" "i \<in> held r"
  shows "bt_get (chunks r) (word_of_nat i) = Some (chunk_at data csize i)"
proof -
  obtain k c where kc: "(k, c) \<in> set (chunks r)" "i = unat k"
    using assms(2) by (auto simp: held_def)
  with assms(1) have "c = chunk_at data csize i" "bt_inv (chunks r)"
    by (auto simp: receiver_ok_def)
  with kc show ?thesis by (simp add: bt_get_mem)
qed

lemma collect_all:
  "\<forall>i \<in> set is. bt_get cs (word_of_nat i) = Some (f i) \<Longrightarrow>
     collect_chunks cs (map word_of_nat is) = Inr (concat (map f is))"
  by (induction "is") auto

lemma empty_receiver_ok:
  assumes "transfer_ok data csize count" "i < count"
  shows "\<exists>r. receiver_from_frame (frame_at cr transfer data csize count i) = Inr r \<and>
     receiver_ok cr transfer data csize count r \<and> held r = {} \<and> r_ack_seq r = 0"
proof -
  have "validate_dimensions (word_of_nat (length data)) (word_of_nat csize) (word_of_nat count) = Inr ()"
    using frame_at_ok [OF assms, of cr transfer] by (simp add: frame_ok_def frame_at_def)
  moreover have "unat (word_of_nat (length data) :: u32) = length data"
    using assms by (auto simp: transfer_ok_def MAX_TRANSFER_SIZE_def unsigned_of_nat take_bit_eq_mod)
  ultimately show ?thesis
    using assms
    by (simp add: receiver_from_frame_def frame_at_def receiver_ok_def held_def small_nat_u16 transfer_ok_def)
qed

lemma set_bt_insert: "set (bt_insert m k v) \<subseteq> insert (k, v) (set m)"
  by (induction m k v rule: bt_insert.induct) auto

text \<open>A frame of the transfer is accepted, and completes the payload when it is the last one missing.\<close>

lemma ingest_frame:
  assumes ok: "transfer_ok data csize count" "receiver_ok cr transfer data csize count r" and i: "i < count"
    and step: "ingest cr r (frame_at cr transfer data csize count i) = (r', result)"
  shows "receiver_ok cr transfer data csize count r'" "held r' = insert i (held r)" "r_ack_seq r' = r_ack_seq r"
    "result = Inr (if held r' = {..<count} then Some data else None)"
proof -
  let ?cs = "case bt_get (chunks r) (word_of_nat i) of
      Some _ \<Rightarrow> chunks r | None \<Rightarrow> bt_insert (chunks r) (word_of_nat i) (chunk_at data csize i)"
  have u: "unat (word_of_nat (length data) :: u32) = length data" "unat (word_of_nat i :: u16) = i"
    "unat (word_of_nat csize :: u16) = csize" "unat (word_of_nat count :: u16) = count"
    using ok(1) i
    by (auto simp: transfer_ok_def MAX_TRANSFER_SIZE_def unsigned_of_nat take_bit_eq_mod)
  have r': "r' = r\<lparr>chunks := ?cs\<rparr>"
    and res: "result = (if length ?cs \<noteq> count then Inr None
      else bindR (collect_chunks ?cs (map word_of_nat [0..<count])) (\<lambda>assembled.
        if sha256_digest cr (take (length data) assembled) \<noteq> sha256_digest cr data then Inl PayloadDigestMismatch
        else Inr (Some (take (length data) assembled))))"
    using step ok(2) u
    by (auto simp: ingest_def frame_at_def receiver_ok_def Let_def split: if_splits cong: option.case_cong)
  have keys: "set ?cs \<subseteq> insert (word_of_nat i, chunk_at data csize i) (set (chunks r))"
    by (auto split: option.splits dest!: subsetD [OF set_bt_insert])
  have fsts: "fst ` set ?cs = insert (word_of_nat i) (fst ` set (chunks r))"
    by (auto simp: fst_set_bt_insert rev_image_eqI split: option.splits dest: map_of_SomeD)
  show ok': "receiver_ok cr transfer data csize count r'"
    using ok(2) keys u i by (auto simp: receiver_ok_def r' split: option.splits)
  show held': "held r' = insert i (held r)"
    using fsts u by (simp add: held_def r')
  show "r_ack_seq r' = r_ack_seq r" by (simp add: r')
  show "result = Inr (if held r' = {..<count} then Some data else None)"
  proof (cases "held r' = {..<count}")
    case True
    then have "collect_chunks (chunks r') (map word_of_nat [0..<count]) =
        Inr (concat (map (chunk_at data csize) [0..<count]))"
      using held_get [OF ok'] by (intro collect_all) auto
    then show ?thesis
      using True held_full [OF ok'] chunks_reassemble [OF ok(1)] by (simp add: res r')
  next
    case False
    then show ?thesis using held_full [OF ok'] by (simp add: res r')
  qed
qed

text \<open>The responses of a receiver along a sequence of frames of the transfer.\<close>

lemma ingest_run:
  assumes "transfer_ok data csize count" "receiver_ok cr transfer data csize count r" "set is \<subseteq> {..<count}"
  shows "snd (run_ops (ingest cr) r (map (frame_at cr transfer data csize count) is)) =
    map (\<lambda>k. Inr (if held r \<union> set (take (Suc k) is) = {..<count} then Some data else None)) [0..<length is]"
  using assms(2,3)
proof (induction "is" arbitrary: r)
  case (Cons i "is")
  obtain r' result where step: "ingest cr r (frame_at cr transfer data csize count i) = (r', result)"
    by fastforce
  note ingested = ingest_frame [OF assms(1) Cons.prems(1) _ step]
  have i: "i < count" using Cons.prems(2) by simp
  have "snd (run_ops (ingest cr) r' (map (frame_at cr transfer data csize count) is)) =
      map (\<lambda>k. Inr (if held r' \<union> set (take (Suc k) is) = {..<count} then Some data else None)) [0..<length is]"
    using Cons.prems(2) ingested(1) [OF i] by (intro Cons.IH) auto
  then show ?case
    using ingested(2,4) [OF i]
    by (simp add: step case_prod_unfold Let_def map_upt_Suc Un_commute del: upt_Suc)
qed simp

section \<open>Acknowledgements\<close>

lemma set_mask_seqs:
  "set (mask_seqs count bitmap) =
     {seq. seq < count \<and> seq div 8 < length bitmap \<and> bit (bitmap ! (seq div 8)) (seq mod 8)}"
  (is "?l = ?r")
proof (intro set_eqI iffI)
  fix seq assume "seq \<in> ?l"
  then obtain i j where "i < length bitmap" "j < 8" "seq = i * 8 + j" "seq < count" "bit (bitmap ! i) j"
    by (auto simp: mask_seqs_def in_set_enumerate_eq)
  then show "seq \<in> ?r" by simp
next
  fix seq assume seq: "seq \<in> ?r"
  then have "(seq div 8, bitmap ! (seq div 8)) \<in> set (enumerate 0 bitmap)"
    by (simp add: in_set_enumerate_eq)
  moreover have "seq \<in> (\<lambda>j. seq div 8 * 8 + j) ` set (filter (\<lambda>j. seq div 8 * 8 + j < count \<and> bit (bitmap ! (seq div 8)) j) [0..<8])"
    using seq by (intro image_eqI [of _ _ "seq mod 8"]) auto
  ultimately show "seq \<in> ?l"
    unfolding mask_seqs_def set_concat set_map image_image
    by (intro UN_I [of "(seq div 8, bitmap ! (seq div 8))"]) (simp_all only: prod.case set_map)
qed

lemma set_mask_bits:
  assumes "\<forall>k \<in> set keys. unat k < 8 * length bitmap"
  shows "\<exists>out. set_mask bitmap keys = Some out \<and> length out = length bitmap \<and>
    (\<forall>seq < 8 * length bitmap. bit (out ! (seq div 8)) (seq mod 8) \<longleftrightarrow>
      bit (bitmap ! (seq div 8)) (seq mod 8) \<or> seq \<in> unat ` set keys)"
  using assms
proof (induction keys arbitrary: bitmap)
  case (Cons k keys)
  define i where "i = unat k div 8"
  define upd where "upd = bitmap[i := bitmap ! i OR push_bit (unat k mod 8) 1]"
  have i: "i < length bitmap" using Cons.prems by (auto simp: i_def)
  have upd: "bit (upd ! (seq div 8)) (seq mod 8) \<longleftrightarrow> bit (bitmap ! (seq div 8)) (seq mod 8) \<or> seq = unat k"
    if "seq < 8 * length bitmap" for seq
  proof (cases "seq div 8 = i")
    case True
    then have "seq = unat k \<longleftrightarrow> seq mod 8 = unat k mod 8"
      unfolding i_def by (metis div_mult_mod_eq)
    then show ?thesis using True i by (auto simp: upd_def bit_simps)
  next
    case False
    then show ?thesis by (auto simp: upd_def i_def)
  qed
  have len: "length upd = length bitmap" by (simp add: upd_def)
  then obtain out where "set_mask upd keys = Some out" "length out = length bitmap"
    "\<forall>seq < 8 * length bitmap. bit (out ! (seq div 8)) (seq mod 8) \<longleftrightarrow>
      bit (upd ! (seq div 8)) (seq mod 8) \<or> seq \<in> unat ` set keys"
    using Cons.IH [of upd] Cons.prems by auto
  moreover have "set_mask bitmap (k # keys) = set_mask upd keys"
    using i by (simp add: Let_def i_def upd_def)
  ultimately show ?case using upd by auto
qed simp

text \<open>A receiver always acknowledges, and the bitmap names exactly the chunks it holds.\<close>

lemma receiver_ack_held:
  assumes "receiver_ok cr transfer data csize count r"
  shows "\<exists>bitmap. receiver_ack r = Some (r\<lparr>r_ack_seq := r_ack_seq r + 1\<rparr>,
      \<lparr>af_transfer_id = transfer, af_ack_seq = r_ack_seq r + 1, received_mask = bitmap\<rparr>) \<and>
    length bitmap = div_ceil count 8 \<and> set (mask_seqs count bitmap) = held r"
proof -
  have bound: "\<forall>k \<in> set (map fst (chunks r)). unat k < 8 * length (replicate (div_ceil count 8) (0 :: byte))"
    using assms div_ceil_le [of 8 count] by (fastforce simp: receiver_ok_def)
  obtain bitmap where bitmap: "set_mask (replicate (div_ceil count 8) 0) (map fst (chunks r)) = Some bitmap"
    "length bitmap = div_ceil count 8"
    "\<forall>seq < 8 * div_ceil count 8. bit (bitmap ! (seq div 8)) (seq mod 8) \<longleftrightarrow> seq \<in> held r"
    using set_mask_bits [OF bound] by (auto simp: held_def)
  have "seq < 8 * div_ceil count 8 \<and> seq div 8 < div_ceil count 8" if "seq < count" for seq
    using that div_ceil_le [of 8 count] by (simp add: less_mult_imp_div_less)
  then have "set (mask_seqs count bitmap) = held r"
    using bitmap(2,3) held_bound [OF assms] unfolding set_mask_seqs by (auto simp: subset_iff)
  then show ?thesis
    using bitmap assms by (simp add: receiver_ack_def receiver_ok_def Let_def)
qed

section \<open>A sender and a receiver over a lossy channel\<close>

text \<open>
  The two ends of a transfer and everything they have emitted. The channel may deliver any datagram
  emitted so far, in any order and any number of times, or never; the same holds for the
  acknowledgements. The receiver stops after it has delivered, as \<open>recv_rldp\<close> does. A step responds
  \<open>None\<close> where the code panics.
\<close>

record exchange =
  x_sender :: sender
  x_receiver :: "receiver option"
  x_sent :: "bytes list"
  x_acks :: "ack_frame list"
  x_delivered :: "bytes option"

datatype channel_event = Transmit | Deliver nat | Acknowledge nat

fun exchange_step :: "crypto \<Rightarrow> exchange \<Rightarrow> channel_event \<Rightarrow> exchange \<times> (network_error + unit) option" where
  "exchange_step cr x Transmit =
     (case next_round (x_sender x) of
        None \<Rightarrow> (x, None)
      | Some (s, packets) \<Rightarrow> (x\<lparr>x_sender := s, x_sent := x_sent x @ packets\<rparr>, Some (Inr ())))"
| "exchange_step cr x (Deliver i) =
     (if i \<ge> length (x_sent x) \<or> x_delivered x \<noteq> None then (x, Some (Inr ()))
      else case data_decode (x_sent x ! i) of
             Inl e \<Rightarrow> (x, Some (Inl e))
           | Inr f \<Rightarrow>
               (case (case x_receiver x of None \<Rightarrow> receiver_from_frame f | Some r \<Rightarrow> Inr r) of
                  Inl e \<Rightarrow> (x, Some (Inl e))
                | Inr r \<Rightarrow>
                    (case ingest cr r f of
                       (r', Inl e) \<Rightarrow> (x\<lparr>x_receiver := Some r'\<rparr>, Some (Inl e))
                     | (r', Inr result) \<Rightarrow>
                         (case receiver_ack r' of
                            None \<Rightarrow> (x, None)
                          | Some (r'', ack) \<Rightarrow>
                              (x\<lparr>x_receiver := Some r'', x_acks := x_acks x @ [ack], x_delivered := result\<rparr>,
                               Some (Inr ()))))))"
| "exchange_step cr x (Acknowledge i) =
     (if i \<ge> length (x_acks x) then (x, Some (Inr ()))
      else let (s, result) = apply_ack (x_sender x) (x_acks x ! i) in (x\<lparr>x_sender := s\<rparr>, Some result))"

definition exchange_init :: "sender \<Rightarrow> exchange" where
  "exchange_init s = \<lparr>x_sender = s, x_receiver = None, x_sent = [], x_acks = [], x_delivered = None\<rparr>"

definition held_there :: "exchange \<Rightarrow> nat set" where
  "held_there x = (case x_receiver x of None \<Rightarrow> {} | Some r \<Rightarrow> held r)"

definition ack_from :: "hash32 \<Rightarrow> nat \<Rightarrow> nat set \<Rightarrow> ack_frame \<Rightarrow> bool" where
  "ack_from transfer count H a \<longleftrightarrow> af_transfer_id a = transfer \<and>
     length (received_mask a) = div_ceil count 8 \<and> set (mask_seqs count (received_mask a)) \<subseteq> H"

definition sender_ok :: "crypto \<Rightarrow> hash32 \<Rightarrow> bytes \<Rightarrow> nat \<Rightarrow> nat \<Rightarrow> sender \<Rightarrow> bool" where
  "sender_ok cr transfer data csize count s \<longleftrightarrow>
     s_frames s = frames_of cr transfer data csize count \<and> s_transfer_id s = transfer \<and> s_cursor s < count"

definition exchange_inv :: "crypto \<Rightarrow> hash32 \<Rightarrow> bytes \<Rightarrow> nat \<Rightarrow> nat \<Rightarrow> exchange \<Rightarrow> bool" where
  "exchange_inv cr transfer data csize count x \<longleftrightarrow>
     sender_ok cr transfer data csize count (x_sender x) \<and>
     set (x_sent x) \<subseteq> data_wire ` frame_at cr transfer data csize count ` {..<count} \<and>
     (\<forall>r. x_receiver x = Some r \<longrightarrow> receiver_ok cr transfer data csize count r) \<and>
     (\<forall>a \<in> set (x_acks x). ack_from transfer count (held_there x) a) \<and>
     acknowledged (x_sender x) \<subseteq> word_of_nat ` held_there x \<and>
     x_delivered x = (if held_there x = {..<count} then Some data else None)"

lemma frame_encodes:
  "transfer_ok data csize count \<Longrightarrow> i < count \<Longrightarrow>
     data_encode (frame_at cr transfer data csize count i) = Inr (data_wire (frame_at cr transfer data csize count i))"
  by (simp add: data_encode_wire frame_at_ok)

lemma round_loop_ok:
  assumes "transfer_ok data csize count" "sender_ok cr transfer data csize count s" "cur < count"
  shows "\<exists>cur' new. round_loop s remaining cur packets = Some (cur', packets @ new) \<and> cur' < count \<and>
    set new \<subseteq> data_wire ` frame_at cr transfer data csize count ` {..<count}"
  using assms(3)
proof (induction remaining arbitrary: cur packets)
  case (Suc remaining)
  let ?cur = "(cur + 1) mod count"
  let ?wire = "data_wire (frame_at cr transfer data csize count cur)"
  let ?copies = "replicate (min (redundancy (s_config s)) (packets_per_round (s_config s) - length packets)) ?wire"
  have frames: "s_frames s = frames_of cr transfer data csize count"
    using assms(2) by (simp add: sender_ok_def)
  have next_cur: "?cur < count" using Suc.prems by simp
  have copies: "set ?copies \<subseteq> data_wire ` frame_at cr transfer data csize count ` {..<count}"
    using Suc.prems by auto
  show ?case
    using Suc.IH [OF next_cur, of packets] Suc.IH [OF next_cur, of "packets @ ?copies"] Suc.prems copies
    by (auto simp: frames Let_def frame_encodes [OF assms(1)])
qed simp

lemma next_round_ok:
  assumes "transfer_ok data csize count" "sender_ok cr transfer data csize count s"
  shows "\<exists>cur packets. next_round s = Some (s\<lparr>s_cursor := cur\<rparr>, packets) \<and>
    sender_ok cr transfer data csize count (s\<lparr>s_cursor := cur\<rparr>) \<and>
    set packets \<subseteq> data_wire ` frame_at cr transfer data csize count ` {..<count}"
  using round_loop_ok [OF assms, of "s_cursor s" "length (s_frames s)" "[]"] assms(2)
  by (auto simp: next_round_def sender_ok_def)

definition seq_there :: "exchange \<Rightarrow> u32" where
  "seq_there x = (case x_receiver x of None \<Rightarrow> 0 | Some r \<Rightarrow> r_ack_seq r)"

lemma deliver_frame:
  assumes ok: "transfer_ok data csize count" and inv: "exchange_inv cr transfer data csize count x"
    and i: "i < length (x_sent x)" "x_sent x ! i = data_wire (frame_at cr transfer data csize count j)" "j < count"
    and open': "x_delivered x = None"
  shows "\<exists>r ack. exchange_step cr x (Deliver i) =
      (x\<lparr>x_receiver := Some r, x_acks := x_acks x @ [ack],
         x_delivered := if held r = {..<count} then Some data else None\<rparr>, Some (Inr ())) \<and>
    receiver_ok cr transfer data csize count r \<and> held r = insert j (held_there x) \<and>
    ack_from transfer count (held r) ack \<and> set (mask_seqs count (received_mask ack)) = held r \<and>
    af_ack_seq ack = seq_there x + 1 \<and> r_ack_seq r = seq_there x + 1"
proof -
  let ?f = "frame_at cr transfer data csize count j"
  have decode: "data_decode (x_sent x ! i) = Inr ?f"
    using i ok by (simp add: data_decode_wire frame_at_ok)
  obtain r0 where r0: "(case x_receiver x of None \<Rightarrow> receiver_from_frame ?f | Some r \<Rightarrow> Inr r) = Inr r0"
    "receiver_ok cr transfer data csize count r0" "held r0 = held_there x" "r_ack_seq r0 = seq_there x"
    using empty_receiver_ok [OF ok i(3), of cr transfer] inv
    by (cases "x_receiver x") (auto simp: exchange_inv_def held_there_def seq_there_def)
  obtain r1 result where step: "ingest cr r0 ?f = (r1, result)" by fastforce
  note r1 = ingest_frame [OF ok r0(2) i(3) step]
  obtain bitmap where ack: "receiver_ack r1 = Some (r1\<lparr>r_ack_seq := r_ack_seq r1 + 1\<rparr>,
      \<lparr>af_transfer_id = transfer, af_ack_seq = r_ack_seq r1 + 1, received_mask = bitmap\<rparr>)"
    "length bitmap = div_ceil count 8" "set (mask_seqs count bitmap) = held r1"
    using receiver_ack_held [OF r1(1)] by blast
  have same: "held (r1\<lparr>r_ack_seq := q\<rparr>) = held r1"
    "receiver_ok cr transfer data csize count (r1\<lparr>r_ack_seq := q\<rparr>)" for q
    using r1(1) by (simp_all add: held_def receiver_ok_def)
  show ?thesis
    using i(1) open' decode r0 step r1 ack same
    by (intro exI [of _ "r1\<lparr>r_ack_seq := r_ack_seq r1 + 1\<rparr>"]
        exI [of _ "\<lparr>af_transfer_id = transfer, af_ack_seq = r_ack_seq r1 + 1, received_mask = bitmap\<rparr>"])
      (simp add: ack_from_def)
qed

lemma ack_from_mono: "ack_from transfer count H a \<Longrightarrow> H \<subseteq> G \<Longrightarrow> ack_from transfer count G a"
  by (auto simp: ack_from_def)

lemma deliver_inv:
  assumes ok: "transfer_ok data csize count" and inv: "exchange_inv cr transfer data csize count x"
  shows "exchange_inv cr transfer data csize count (fst (exchange_step cr x (Deliver i))) \<and>
    snd (exchange_step cr x (Deliver i)) = Some (Inr ())"
proof (cases "i \<ge> length (x_sent x) \<or> x_delivered x \<noteq> None")
  case True
  then show ?thesis using inv by auto
next
  case False
  then have "x_sent x ! i \<in> set (x_sent x)" by simp
  then obtain j where j: "x_sent x ! i = data_wire (frame_at cr transfer data csize count j)" "j < count"
    using inv unfolding exchange_inv_def by blast
  obtain r ack where step: "exchange_step cr x (Deliver i) =
      (x\<lparr>x_receiver := Some r, x_acks := x_acks x @ [ack],
         x_delivered := if held r = {..<count} then Some data else None\<rparr>, Some (Inr ()))"
    and r: "receiver_ok cr transfer data csize count r" "held r = insert j (held_there x)"
      "ack_from transfer count (held r) ack"
    using deliver_frame [OF ok inv _ j] False by auto
  have "\<forall>a \<in> set (x_acks x @ [ack]). ack_from transfer count (held r) a"
    using inv r(2,3) by (auto simp: exchange_inv_def intro: ack_from_mono)
  then show ?thesis
    unfolding step using inv r(1,2) by (auto simp: exchange_inv_def held_there_def)
qed

lemma apply_ack_known:
  assumes "sender_ok cr transfer data csize count s" "ack_from transfer count H a"
  shows "\<exists>s'. apply_ack s a = (s', Inr ()) \<and> sender_ok cr transfer data csize count s' \<and>
    s_config s' = s_config s \<and> s_cursor s' = s_cursor s \<and>
    (acknowledged s' = acknowledged s \<and> af_ack_seq a \<le> last_ack_seq s \<and> last_ack_seq s' = last_ack_seq s \<or>
     last_ack_seq s < af_ack_seq a \<and> last_ack_seq s' = af_ack_seq a \<and>
     acknowledged s' = acknowledged s \<union> word_of_nat ` set (mask_seqs count (received_mask a)))"
  using assms by (auto simp: apply_ack_def sender_ok_def ack_from_def)

lemma exchange_step_ok:
  assumes ok: "transfer_ok data csize count" and inv: "exchange_inv cr transfer data csize count x"
  shows "exchange_inv cr transfer data csize count (fst (exchange_step cr x ev)) \<and>
    snd (exchange_step cr x ev) = Some (Inr ())"
proof (cases ev)
  case Transmit
  then show ?thesis
    using next_round_ok [OF ok, of cr transfer "x_sender x"] inv
    by (auto simp: exchange_inv_def held_there_def)
next
  case (Deliver i)
  then show ?thesis using deliver_inv [OF ok inv] by simp
next
  case (Acknowledge i)
  show ?thesis
  proof (cases "i < length (x_acks x)")
    case True
    then have from': "ack_from transfer count (held_there x) (x_acks x ! i)"
      using inv by (auto simp: exchange_inv_def)
    have "sender_ok cr transfer data csize count (x_sender x)" using inv by (simp add: exchange_inv_def)
    from apply_ack_known [OF this from'] obtain s' where
      s': "apply_ack (x_sender x) (x_acks x ! i) = (s', Inr ())" "sender_ok cr transfer data csize count s'"
      and acked: "acknowledged s' \<subseteq> acknowledged (x_sender x) \<union>
        word_of_nat ` set (mask_seqs count (received_mask (x_acks x ! i)))"
      by auto
    have "acknowledged s' \<subseteq> word_of_nat ` held_there x"
      using acked inv from' unfolding exchange_inv_def ack_from_def by blast
    then show ?thesis using inv True s' by (simp add: Acknowledge exchange_inv_def held_there_def)
  qed (use inv in \<open>simp add: Acknowledge\<close>)
qed

interpretation transfer: component "exchange_step cr"
  "\<lambda>x. transfer_ok data csize count \<and> exchange_inv cr transfer data csize count x" "\<lambda>_. True"
  for cr transfer data csize count
  using exchange_step_ok by unfold_locales blast

section \<open>Whatever arrives, only a payload with the announced digest is returned\<close>

lemma receive_frame_digest:
  assumes "receive_frame cr t n r f = Some (n', Inr (r', result))"
  shows "r_digest r' = r_digest r \<and> (\<forall>data. result = Some data \<longrightarrow> sha256_digest cr data = r_digest r)"
  using assms
  by (auto simp: receive_frame_def ingest_def receiver_ack_def bindR_Inr Let_def
      split: prod.splits sum.splits option.splits if_splits)

lemma receive_loop_result:
  "receive_loop cr t n r = Some res \<Longrightarrow> (case res of (n', Inr data) \<Rightarrow> sha256_digest cr data = r_digest r | _ \<Rightarrow> True)"
proof (erule receive_loop.raw_induct [rotated])
  fix loop :: "crypto \<Rightarrow> 'a transport \<Rightarrow> 'a \<Rightarrow> receiver \<Rightarrow> ('a \<times> (network_error + bytes)) option" and cr t n r res
  assume loop: "\<And>cr t n r res. loop cr t n r = Some res \<Longrightarrow>
      (case res of (n', Inr data) \<Rightarrow> sha256_digest cr data = r_digest r | _ \<Rightarrow> True)"
    and body: "(case t_recv t n of
        (n', None) \<Rightarrow> None
      | (n', Some (Inl e)) \<Rightarrow> Some (n', Inl e)
      | (n', Some (Inr packet)) \<Rightarrow>
          (case data_decode packet of
             Inl _ \<Rightarrow> loop cr t n' r
           | Inr f \<Rightarrow>
               Option.bind (receive_frame cr t n' r f) (\<lambda>(n'', result).
               case result of
                 Inl e \<Rightarrow> Some (n'', Inl e)
               | Inr (r', Some data) \<Rightarrow> Some (n'', Inr data)
               | Inr (r', None) \<Rightarrow> loop cr t n'' r'))) = Some res"
  from body show "case res of (n', Inr data) \<Rightarrow> sha256_digest cr data = r_digest r | _ \<Rightarrow> True"
    by (fastforce split: prod.splits option.splits sum.splits bind_splits dest!: receive_frame_digest loop)
qed

lemma receive_loop_digest:
  "receive_loop cr t n r = Some (n', Inr data) \<Longrightarrow> sha256_digest cr data = r_digest r"
  by (drule receive_loop_result) simp

lemma recv_rldp_digest:
  assumes "recv_rldp cr t n = Some (n', Inr data)"
  shows "\<exists>n1 p f. t_recv t n = (n1, Some (Inr p)) \<and> data_decode p = Inr f \<and> sha256_digest cr data = payload_digest f"
  using assms
  by (auto simp: recv_rldp_def receiver_from_frame_def bindR_Inr split: prod.splits option.splits sum.splits bind_splits
      dest!: receive_frame_digest receive_loop_digest)

section \<open>Properties\<close>

text \<open>
  Data frames have one encoding: a datagram decodes to a frame exactly when the frame encodes
  to that datagram.
\<close>

theorem data_frame_canonical: "data_decode wire = Inr f \<longleftrightarrow> data_encode f = Inr wire"
  using data_decode_sound data_decode_wire by (auto simp: data_encode_wire)

lemma frame_at_inj: "transfer_ok data csize count \<Longrightarrow> inj_on (frame_at cr transfer data csize count) {..<count}"
proof (rule inj_onI)
  fix i j assume ok: "transfer_ok data csize count" and ij: "i \<in> {..<count}" "j \<in> {..<count}"
    and "frame_at cr transfer data csize count i = frame_at cr transfer data csize count j"
  then have "unat (word_of_nat i :: u16) = unat (word_of_nat j :: u16)"
    by (simp add: frame_at_def)
  then show "i = j" using ok ij by (simp add: small_nat_u16 transfer_ok_def)
qed

text \<open>
  C8. Whatever order the frames of a sender arrive in, and however often each of them arrives, a
  receiver created from the first one accepts all of them: it returns nothing while a frame is
  missing and exactly the payload from the moment every frame has arrived.
\<close>

theorem receiver_delivers_payload:
  assumes new: "sender_new cr transfer data cfg = Inr s" and fs: "fs \<noteq> []" "set fs \<subseteq> set (s_frames s)"
  shows "\<exists>r. receiver_from_frame (hd fs) = Inr r \<and>
    snd (run_ops (ingest cr) r fs) =
      map (\<lambda>k. Inr (if set (take (Suc k) fs) = set (s_frames s) then Some data else None)) [0..<length fs]"
proof -
  define csize where "csize = cfg_chunk_size cfg"
  define frame where "frame = frame_at cr transfer data csize (length (s_frames s))"
  have ok: "transfer_ok data csize (length (s_frames s))"
    and frames: "s_frames s = frames_of cr transfer data csize (length (s_frames s))"
    using new by (auto simp: sender_new_Inr csize_def)
  have all: "set (s_frames s) = frame ` {..<length (s_frames s)}"
    by (subst frames) (simp add: frames_of_def frame_def atLeast0LessThan)
  have "fs \<in> lists (frame ` {..<length (s_frames s)})" using fs(2) all by auto
  then obtain "is" where "is": "fs = map frame is" "set is \<subseteq> {..<length (s_frames s)}"
    by (auto simp: lists_image)
  with fs(1) have hd: "hd fs = frame (hd is)" "hd is < length (s_frames s)"
    by (auto simp: hd_map dest!: hd_in_set)
  obtain r where r: "receiver_from_frame (hd fs) = Inr r" "held r = {}"
    "receiver_ok cr transfer data csize (length (s_frames s)) r"
    using empty_receiver_ok [OF ok hd(2), of cr transfer] by (auto simp: hd frame_def)
  have "set (take k is) = {..<length (s_frames s)} \<longleftrightarrow> set (take k fs) = set (s_frames s)" for k
    using inj_on_image_eq_iff [OF frame_at_inj [OF ok, of cr transfer], of "set (take k is)" "{..<length (s_frames s)}"]
      "is"(2) set_take_subset [of k "is"]
    by (auto simp: all "is"(1) take_map frame_def [symmetric])
  moreover have "length fs = length is" by (simp add: "is"(1))
  ultimately show ?thesis
    using ingest_run [OF ok r(3) "is"(2)] r(1,2) by (simp add: "is"(1) frame_def)
qed

definition sample_config :: rldp_config where
  "sample_config = \<lparr>cfg_chunk_size = 2, redundancy = 2, packets_per_round = 3, max_rounds = 2\<rparr>"

abbreviation sample_frame :: "nat \<Rightarrow> data_frame" where
  "sample_frame \<equiv> frame_at toy_crypto 7 [1, 2, 3] 2 2"

definition sample_sender :: sender where
  "sample_sender = \<lparr>s_frames = [sample_frame 0, sample_frame 1], s_transfer_id = 7, acknowledged = {},
     last_ack_seq = 0, s_config = sample_config, s_cursor = 0\<rparr>"

lemma sample_sender_new: "sender_new toy_crypto 7 [1, 2, 3] sample_config = Inr sample_sender"
  by (simp add: sender_new_def sample_sender_def sample_config_def MAX_TRANSFER_SIZE_def div_ceil_def
      Let_def upt_rec flip: numeral_2_eq_2)

theorem receiver_delivers_payload_witness:
  "\<exists>r. receiver_from_frame (sample_frame 1) = Inr r \<and>
    snd (run_ops (ingest toy_crypto) r [sample_frame 1, sample_frame 0]) = [Inr None, Inr (Some [1, 2, 3])]"
proof -
  have "set [sample_frame 1] \<noteq> set [sample_frame 0, sample_frame 1]"
    by (simp add: frame_at_def)
  moreover have "set [sample_frame 1, sample_frame 0] = set [sample_frame 0, sample_frame 1]"
    by auto
  ultimately show ?thesis
    using receiver_delivers_payload [OF sample_sender_new, of "[sample_frame 1, sample_frame 0]"]
    by (simp add: sample_sender_def upt_rec)
qed

lemma exchange_start:
  assumes "sender_new cr transfer data cfg = Inr s"
  shows "transfer_ok data (cfg_chunk_size cfg) (length (s_frames s))"
    "exchange_inv cr transfer data (cfg_chunk_size cfg) (length (s_frames s)) (exchange_init s)"
proof -
  obtain count where count: "transfer_ok data (cfg_chunk_size cfg) count"
    and s: "s = \<lparr>s_frames = frames_of cr transfer data (cfg_chunk_size cfg) count, s_transfer_id = transfer,
      acknowledged = {}, last_ack_seq = 0, s_config = cfg, s_cursor = 0\<rparr>"
    using assms by (auto simp: sender_new_Inr)
  show "transfer_ok data (cfg_chunk_size cfg) (length (s_frames s))" using count by (simp add: s)
  have pos: "0 < count" by (rule transfer_count_pos [OF count])
  then have "{} \<noteq> {..<count}" by auto
  then show "exchange_inv cr transfer data (cfg_chunk_size cfg) (length (s_frames s)) (exchange_init s)"
    using pos by (simp add: exchange_inv_def exchange_init_def sender_ok_def held_there_def s)
qed

lemma complete_full:
  assumes ok: "transfer_ok data csize count" and inv: "exchange_inv cr transfer data csize count x"
    and complete: "is_complete (x_sender x)"
  shows "held_there x = {..<count}"
proof -
  have bound: "held_there x \<subseteq> {..<count}"
    using inv by (cases "x_receiver x") (auto simp: exchange_inv_def held_there_def dest: subsetD [OF held_bound])
  then have fin: "finite (held_there x)" by (rule finite_subset) simp
  have "count = card (acknowledged (x_sender x))"
    using complete inv by (simp add: is_complete_def exchange_inv_def sender_ok_def)
  also have "\<dots> \<le> card ((word_of_nat :: nat \<Rightarrow> u16) ` held_there x)"
    using inv fin by (intro card_mono) (auto simp: exchange_inv_def)
  also have "\<dots> \<le> card (held_there x)" using fin by (rule card_image_le)
  finally show ?thesis
    using card_seteq [OF finite_lessThan bound] by simp
qed

text \<open>
  C9. A transfer over a channel that loses, repeats and reorders datagrams and acknowledgements: no
  step fails or panics, the receiver delivers nothing but the payload, and when the sender holds
  the transfer for complete the receiver has delivered it.
\<close>

theorem complete_means_delivered:
  assumes "sender_new cr transfer data cfg = Inr s"
    and "run_ops (exchange_step cr) (exchange_init s) events = (x, responses)"
  shows "(is_complete (x_sender x) \<longrightarrow> x_delivered x = Some data) \<and>
    x_delivered x \<in> {None, Some data} \<and> set responses \<subseteq> {Some (Inr ())}"
proof -
  note start = exchange_start [OF assms(1)]
  let ?inv = "exchange_inv cr transfer data (cfg_chunk_size cfg) (length (s_frames s))"
  have inv: "?inv x"
    using transfer.run_inv [of data "cfg_chunk_size cfg" "length (s_frames s)" cr transfer "exchange_init s" events]
      start assms(2) by (simp add: list_all_iff)
  have "list_all (\<lambda>res. res = Some (Inr ())) responses"
    using transfer.run_responses [of data "cfg_chunk_size cfg" "length (s_frames s)" cr transfer
        "\<lambda>res. res = Some (Inr ())" "exchange_init s" events] start assms(2) exchange_step_ok
    by (simp add: list_all_iff)
  then show ?thesis
    using inv complete_full [OF start(1) inv] by (auto simp: exchange_inv_def list_all_iff)
qed

theorem complete_means_delivered_witness:
  "\<exists>x responses. run_ops (exchange_step toy_crypto) (exchange_init sample_sender)
      [Transmit, Deliver 2, Deliver 0, Acknowledge 1] = (x, responses) \<and>
    (is_complete (x_sender x) \<longrightarrow> x_delivered x = Some [1, 2, 3]) \<and> set responses \<subseteq> {Some (Inr ())}"
proof -
  obtain x responses where "run_ops (exchange_step toy_crypto) (exchange_init sample_sender)
      [Transmit, Deliver 2, Deliver 0, Acknowledge 1] = (x, responses)"
    by fastforce
  with complete_means_delivered [OF sample_sender_new this] show ?thesis by blast
qed

text \<open>
  A transport that, in its live states, transmits the given packets and brings back nothing but
  acknowledgements, in a bounded number. No such datagram decodes, so the sender waits in vain.
\<close>

definition brings_acks :: "'n transport \<Rightarrow> ('n \<Rightarrow> bool) \<Rightarrow> ('n \<Rightarrow> nat) \<Rightarrow> bool" where
  "brings_acks t live pending \<longleftrightarrow> (\<forall>n n' x. live n \<and> t_recv t n = (n', x) \<longrightarrow>
     live n' \<and> (\<forall>p. x = Some (Inr p) \<longrightarrow> (\<exists>a. p = ack_encode a) \<and> pending n' < pending n))"

definition transmits :: "'n transport \<Rightarrow> ('n \<Rightarrow> bool) \<Rightarrow> bytes set \<Rightarrow> bool" where
  "transmits t live packets \<longleftrightarrow>
     (\<forall>n p. live n \<and> p \<in> packets \<longrightarrow> (\<exists>n'. t_send t n p = Some (n', Inr ()) \<and> live n'))"

lemma await_acks_ignores:
  assumes "brings_acks t live pending"
  shows "live n \<Longrightarrow> \<exists>n'. await_acks t n s = Some (n', Inr s) \<and> live n'"
proof (induction "pending n" arbitrary: n rule: less_induct)
  case less
  obtain n' incoming where recv: "t_recv t n = (n', incoming)" by fastforce
  note arrives = assms [unfolded brings_acks_def, rule_format, OF conjI [OF less.prems recv]]
  show ?case
  proof (cases "\<exists>p. incoming = Some (Inr p)")
    case True
    then obtain p a where p: "incoming = Some (Inr p)" "p = ack_encode a" "pending n' < pending n"
      using arrives by blast
    then have "await_acks t n s = await_acks t n' s"
      by (subst await_acks.simps) (simp add: recv ack_decode_encode)
    then show ?thesis using less.hyps [OF p(3)] arrives by simp
  next
    case False
    then show ?thesis
      using arrives by (subst await_acks.simps) (auto simp: recv split: option.splits sum.splits)
  qed
qed

lemma send_packets_ok:
  assumes "transmits t live packets"
  shows "live n \<Longrightarrow> set ps \<subseteq> packets \<Longrightarrow> \<exists>n'. send_packets t n ps = Some (n', Inr ()) \<and> live n'"
proof (induction ps arbitrary: n)
  case (Cons p ps)
  obtain n' where "t_send t n p = Some (n', Inr ())" "live n'"
    using assms Cons.prems unfolding transmits_def by (metis list.set_intros(1) subsetD)
  then show ?case using Cons.IH [of n'] Cons.prems by simp
qed simp

lemma send_rounds_time_out:
  assumes recv: "brings_acks t live pending"
    and send: "transmits t live (data_wire ` set (frames_of cr transfer data csize count))"
    and ok: "transfer_ok data csize count"
  shows "sender_ok cr transfer data csize count s \<Longrightarrow> acknowledged s = {} \<Longrightarrow> live n \<Longrightarrow>
    \<exists>n'. send_rounds t rounds n s = Some (n', Inl RldpTimeout) \<and> live n'"
proof (induction rounds arbitrary: n s)
  case (Suc rounds)
  obtain cur ps where round: "next_round s = Some (s\<lparr>s_cursor := cur\<rparr>, ps)"
    "sender_ok cr transfer data csize count (s\<lparr>s_cursor := cur\<rparr>)"
    "set ps \<subseteq> data_wire ` set (frames_of cr transfer data csize count)"
    using next_round_ok [OF ok Suc.prems(1)] by (auto simp: frames_of_def atLeast0LessThan)
  define s' where "s' = s\<lparr>s_cursor := cur\<rparr>"
  obtain n1 where sent: "send_packets t n ps = Some (n1, Inr ())" "live n1"
    using send_packets_ok [OF send Suc.prems(3) round(3)] by blast
  obtain n2 where await: "await_acks t n1 s' = Some (n2, Inr s')" "live n2"
    using await_acks_ignores [OF recv sent(2)] by blast
  have open': "\<not> is_complete s'"
    using Suc.prems transfer_count_pos [OF ok] by (simp add: is_complete_def s'_def sender_ok_def)
  have "\<exists>n'. send_rounds t rounds n2 s' = Some (n', Inl RldpTimeout) \<and> live n'"
    using Suc.prems(2) round(2) await(2) by (intro Suc.IH) (simp_all add: s'_def)
  then show ?case using round(1) sent await open' by (simp flip: s'_def)
qed simp

lemma send_rldp_time_out:
  assumes "sender_new cr transfer data cfg = Inr s" "brings_acks t live pending"
    "transmits t live (data_wire ` set (s_frames s))" "live n"
  shows "\<exists>n'. send_rldp cr t n transfer data cfg = Some (n', Inl RldpTimeout) \<and> live n'"
proof -
  have ok: "transfer_ok data (cfg_chunk_size cfg) (length (s_frames s))"
    and s: "sender_ok cr transfer data (cfg_chunk_size cfg) (length (s_frames s)) s" "acknowledged s = {}"
    using assms(1) exchange_start [OF assms(1)] by (auto simp: exchange_inv_def exchange_init_def sender_new_Inr)
  have "transmits t live (data_wire ` set (frames_of cr transfer data (cfg_chunk_size cfg) (length (s_frames s))))"
    using assms(3) s(1) by (simp add: sender_ok_def)
  from send_rounds_time_out [OF assms(2) this ok s assms(4)] show ?thesis
    using assms(1) by (simp add: send_rldp_def)
qed

lemma frames_encode:
  assumes "sender_new cr transfer data cfg = Inr s"
  shows "{p. \<exists>f \<in> set (s_frames s). data_encode f = Inr p} = data_wire ` set (s_frames s)"
  using assms by (auto simp: sender_new_Inr frames_of_def data_encode_wire frame_at_ok)

text \<open>
  C11. Over a transport that transmits every frame and brings back only acknowledgements, as the
  receiver of this module encodes them, every transfer fails with a timeout: the decoder asks for
  a header of 44 bytes where the encoder writes 42, so no acknowledgement is ever applied.
\<close>

theorem every_transfer_times_out:
  assumes "sender_new cr transfer data cfg = Inr s" "live n"
    and "\<forall>n p. live n \<and> (\<exists>f \<in> set (s_frames s). data_encode f = Inr p) \<longrightarrow> (\<exists>n'. t_send t n p = Some (n', Inr ()) \<and> live n')"
    and "\<forall>n n' x. live n \<and> t_recv t n = (n', x) \<longrightarrow>
      live n' \<and> (\<forall>p. x = Some (Inr p) \<longrightarrow> (\<exists>a. p = ack_encode a) \<and> pending n' < (pending n :: nat))"
  shows "\<exists>n'. send_rldp cr t n transfer data cfg = Some (n', Inl RldpTimeout)"
proof -
  have "transmits t live {p. \<exists>f \<in> set (s_frames s). data_encode f = Inr p}" "brings_acks t live pending"
    using assms(3,4) by (simp_all add: transmits_def brings_acks_def)
  then show ?thesis
    using send_rldp_time_out [OF assms(1), of t live pending n] assms(2) unfolding frames_encode [OF assms(1)] by blast
qed

text \<open>A transport whose peer runs the receiver on every datagram and returns its acknowledgements.\<close>

definition peer_transport :: "crypto \<Rightarrow> (receiver option \<times> ack_frame list) transport" where
  "peer_transport cr = \<lparr>t_send = (\<lambda>(peer, inbox) packet.
       (case data_decode packet of
          Inl _ \<Rightarrow> Some ((peer, inbox), Inr ())
        | Inr f \<Rightarrow>
            (case (case peer of None \<Rightarrow> receiver_from_frame f | Some r \<Rightarrow> Inr r) of
               Inl _ \<Rightarrow> Some ((peer, inbox), Inr ())
             | Inr r \<Rightarrow>
                 (case receiver_ack (fst (ingest cr r f)) of
                    None \<Rightarrow> Some ((peer, inbox), Inr ())
                  | Some (r', ack) \<Rightarrow> Some ((Some r', inbox @ [ack]), Inr ()))))),
     t_recv = (\<lambda>(peer, inbox).
       case inbox of [] \<Rightarrow> ((peer, []), None) | a # as \<Rightarrow> ((peer, as), Some (Inr (ack_encode a))))\<rparr>"

theorem every_transfer_times_out_witness:
  "\<exists>n'. send_rldp toy_crypto (peer_transport toy_crypto) (None, []) 7 [1, 2, 3] sample_config =
    Some (n', Inl RldpTimeout)"
proof (rule every_transfer_times_out [OF sample_sender_new, where live = "\<lambda>_. True" and pending = "\<lambda>n. length (snd n)"])
  show "\<forall>n p. True \<and> (\<exists>f \<in> set (s_frames sample_sender). data_encode f = Inr p) \<longrightarrow>
      (\<exists>n'. t_send (peer_transport toy_crypto) n p = Some (n', Inr ()) \<and> True)"
    by (auto simp: peer_transport_def split: sum.splits option.splits)
  show "\<forall>n n' x. True \<and> t_recv (peer_transport toy_crypto) n = (n', x) \<longrightarrow>
      True \<and> (\<forall>p. x = Some (Inr p) \<longrightarrow> (\<exists>a. p = ack_encode a) \<and> length (snd n') < length (snd n))"
    by (auto simp: peer_transport_def split: list.splits)
qed simp

end
