(* ===== verification/Rldp_Rounds.thy ===== *)
theory Rldp_Rounds
  imports Rldp
begin

text \<open>
  What the rounds of a transfer of \<open>crates/node/onx-networking/src/rldp.rs\<close> put on the network: the
  datagrams of one round, of which the cursor decides the frames, and those of a whole \<open>send_rldp\<close>,
  recorded at the transport. No acknowledgement is ever applied (theory \<open>Rldp\<close>), so the cursor
  alone determines which frames are transmitted before the timeout.
\<close>

section \<open>The frames of a round\<close>

text \<open>The frames one round has room for.\<close>

definition frames_per_round :: "rldp_config \<Rightarrow> nat" where
  "frames_per_round cfg = div_ceil (packets_per_round cfg) (redundancy cfg)"

lemma div_ceil_0 [simp]: "div_ceil 0 b = 0"
  by (cases b) (simp_all add: div_ceil_def)

lemma div_ceil_step:
  assumes "0 < a" "0 < b"
  shows "div_ceil a b = Suc (div_ceil (a - b) b)"
proof (cases "a \<le> b")
  case True
  have "div_ceil a b = Suc 0"
    unfolding div_ceil_def by (rule div_nat_eqI) (use True assms in auto)
  then show ?thesis using True by simp
next
  case False
  then have "a + b - 1 - b = a - b + b - 1" "b \<le> a + b - 1" using assms by auto
  then have "div_ceil a b = Suc (div_ceil (a - b) b)"
    unfolding div_ceil_def using le_div_geq [of b "a + b - 1"] assms(2) by metis
  then show ?thesis using False by simp
qed

text \<open>The copies that fit: so many packets of a list of frames, each repeated.\<close>

definition copies :: "nat \<Rightarrow> nat \<Rightarrow> bytes list \<Rightarrow> bytes list" where
  "copies room red wires = take room (concat (map (replicate red) wires))"

lemma copies_Cons: "copies room red (w # ws) = replicate (min red room) w @ copies (room - red) red ws"
  by (simp add: copies_def min.commute)

lemma copies_simps [simp]: "copies 0 red ws = []" "copies room red [] = []"
  by (simp_all add: copies_def)

lemma set_copies: "0 < red \<Longrightarrow> set (copies room red ws) = set (take (div_ceil room red) ws)"
proof (induction ws arbitrary: room)
  case (Cons w ws)
  then show ?case by (cases "room = 0") (simp_all add: copies_Cons div_ceil_step)
qed simp

lemma length_copies: "length (copies room red ws) = min room (red * length ws)"
  by (simp add: copies_def length_concat comp_def sum_list_triv mult.commute)

abbreviation wire_at :: "crypto \<Rightarrow> hash32 \<Rightarrow> bytes \<Rightarrow> nat \<Rightarrow> nat \<Rightarrow> nat \<Rightarrow> bytes" where
  "wire_at cr transfer data csize count i \<equiv> data_wire (frame_at cr transfer data csize count (i mod count))"

text \<open>A round without acknowledgements goes on from the cursor, wrapping around after the last frame.\<close>

lemma round_loop_open:
  assumes ok: "transfer_ok data csize count" and s: "sender_ok cr transfer data csize count s" "acknowledged s = {}"
    and red: "0 < redundancy (s_config s)"
  shows "round_loop s remaining (c mod count) packets =
    (let room = packets_per_round (s_config s) - length packets in
     Some ((c + min remaining (div_ceil room (redundancy (s_config s)))) mod count,
       packets @ copies room (redundancy (s_config s)) (map (wire_at cr transfer data csize count) [c..<c + remaining])))"
proof (induction remaining arbitrary: c packets)
  case (Suc remaining)
  let ?ppr = "packets_per_round (s_config s)" and ?red = "redundancy (s_config s)"
  have count: "0 < count" by (rule transfer_count_pos [OF ok])
  have frames: "s_frames s = frames_of cr transfer data csize count" using s(1) by (simp add: sender_ok_def)
  show ?case
  proof (cases "?ppr \<le> length packets")
    case False
    define room where "room = ?ppr - length packets"
    have room: "0 < room" "?ppr - (length packets + min ?red room) = room - ?red" using False by (auto simp: room_def)
    have "round_loop s (Suc remaining) (c mod count) packets =
        round_loop s remaining (Suc c mod count) (packets @ replicate (min ?red room) (wire_at cr transfer data csize count c))"
      using False count s(2) by (simp add: frames Let_def frame_encodes [OF ok] room_def mod_Suc_eq)
    also have "\<dots> = Some ((Suc c + min remaining (div_ceil (room - ?red) ?red)) mod count,
        packets @ copies room ?red (map (wire_at cr transfer data csize count) [c..<c + Suc remaining]))"
      unfolding Suc.IH Let_def using room by (simp add: upt_conv_Cons copies_Cons del: upt_Suc)
    also have "Suc c + min remaining (div_ceil (room - ?red) ?red) = c + min (Suc remaining) (div_ceil room ?red)"
      using div_ceil_step [OF room(1) red] by simp
    finally show ?thesis by (simp add: room_def Let_def del: upt_Suc)
  qed simp
qed simp

lemma next_round_open:
  assumes "transfer_ok data csize count" "sender_ok cr transfer data csize count s" "acknowledged s = {}"
    and "0 < redundancy (s_config s)" "s_cursor s = c mod count"
  shows "next_round s = Some
    (s\<lparr>s_cursor := (c + min count (frames_per_round (s_config s))) mod count\<rparr>,
     copies (packets_per_round (s_config s)) (redundancy (s_config s))
       (map (wire_at cr transfer data csize count) [c..<c + count]))"
proof -
  have "length (s_frames s) = count" using assms(2) by (simp add: sender_ok_def)
  then show ?thesis
    by (simp add: next_round_def assms(5) round_loop_open [OF assms(1-4)] frames_per_round_def Let_def)
qed

lemma take_upt_min: "take k [c..<c + n] = [c..<c + min n k]"
  by (cases "k \<le> n") (simp_all add: min_def)

lemma set_round:
  "0 < redundancy cfg \<Longrightarrow>
     set (copies (packets_per_round cfg) (redundancy cfg) (map f [c..<c + count])) = f ` {c..<c + min count (frames_per_round cfg)}"
  by (simp add: set_copies take_map frames_per_round_def take_upt_min)

section \<open>The datagrams of a transfer\<close>

text \<open>A transport that records what it is given to send.\<close>

definition recorded :: "'n transport \<Rightarrow> ('n \<times> bytes list) transport" where
  "recorded t = \<lparr>
     t_send = (\<lambda>(n, log) p. map_option (\<lambda>(n', x). ((n', log @ [p]), x)) (t_send t n p)),
     t_recv = (\<lambda>(n, log). case t_recv t n of (n', x) \<Rightarrow> ((n', log), x))\<rparr>"

lemma recorded_brings_acks:
  "brings_acks t live pending \<Longrightarrow> brings_acks (recorded t) (\<lambda>(n, l). live n \<and> l = log) (\<lambda>(n, l). pending n)"
  unfolding brings_acks_def recorded_def by (auto split: prod.splits)

lemma recorded_packets:
  assumes "transmits t live packets"
  shows "live n \<Longrightarrow> set ps \<subseteq> packets \<Longrightarrow> \<exists>n'. send_packets (recorded t) (n, log) ps = Some ((n', log @ ps), Inr ()) \<and> live n'"
proof (induction ps arbitrary: n log)
  case (Cons p ps)
  obtain n' where sent: "t_send t n p = Some (n', Inr ())" "live n'"
    using assms Cons.prems unfolding transmits_def by (metis list.set_intros(1) subsetD)
  then show ?case using Cons.IH [of n' "log @ [p]"] Cons.prems by (simp add: recorded_def)
qed simp

lemma recorded_rounds:
  assumes ok: "transfer_ok data csize count" and recv: "brings_acks t live pending"
    and send: "transmits t live (data_wire ` set (frames_of cr transfer data csize count))"
  shows "sender_ok cr transfer data csize count s \<Longrightarrow> acknowledged s = {} \<Longrightarrow> s_config s = cfg \<Longrightarrow> 0 < redundancy cfg \<Longrightarrow>
    s_cursor s = c mod count \<Longrightarrow> live n \<Longrightarrow>
    \<exists>n' sent. send_rounds (recorded t) rounds (n, log) s = Some ((n', log @ sent), Inl RldpTimeout) \<and>
      set sent = wire_at cr transfer data csize count ` {c..<c + rounds * min count (frames_per_round cfg)} \<and>
      length sent = rounds * min (packets_per_round cfg) (redundancy cfg * count)"
proof (induction rounds arbitrary: n s c log)
  case (Suc rounds)
  let ?step = "min count (frames_per_round cfg)" and ?wire = "wire_at cr transfer data csize count"
  define ps where "ps = copies (packets_per_round cfg) (redundancy cfg) (map ?wire [c..<c + count])"
  define s' where "s' = s\<lparr>s_cursor := (c + ?step) mod count\<rparr>"
  have count: "0 < count" by (rule transfer_count_pos [OF ok])
  have round: "next_round s = Some (s', ps)"
    using next_round_open [OF ok Suc.prems(1,2) _ Suc.prems(5)] Suc.prems(3,4) by (simp add: s'_def ps_def)
  have ps: "set ps = ?wire ` {c..<c + ?step}" "length ps = min (packets_per_round cfg) (redundancy cfg * count)"
    using set_round [OF Suc.prems(4)] by (simp_all add: ps_def length_copies)
  have "set ps \<subseteq> data_wire ` set (frames_of cr transfer data csize count)"
    using count by (auto simp: ps(1) frames_of_def)
  then obtain n1 where sent: "send_packets (recorded t) (n, log) ps = Some ((n1, log @ ps), Inr ())" "live n1"
    using recorded_packets [OF send Suc.prems(6)] by blast
  obtain n2 where await: "await_acks (recorded t) (n1, log @ ps) s' = Some ((n2, log @ ps), Inr s')" "live n2"
    using await_acks_ignores [OF recorded_brings_acks [OF recv, of "log @ ps"], of "(n1, log @ ps)" s'] sent(2) by auto
  have s': "sender_ok cr transfer data csize count s'" "acknowledged s' = {}" "s_config s' = cfg"
    "s_cursor s' = (c + ?step) mod count" "\<not> is_complete s'"
    using Suc.prems(1-3) count by (simp_all add: s'_def sender_ok_def is_complete_def)
  obtain n' rest where rest: "send_rounds (recorded t) rounds (n2, log @ ps) s' = Some ((n', (log @ ps) @ rest), Inl RldpTimeout)"
    "set rest = ?wire ` {c + ?step..<c + ?step + rounds * ?step}"
    "length rest = rounds * min (packets_per_round cfg) (redundancy cfg * count)"
    using Suc.IH [OF s'(1-3) Suc.prems(4) s'(4) await(2), of "log @ ps"] by blast
  have "{c..<c + Suc rounds * ?step} = {c..<c + ?step} \<union> {c + ?step..<c + ?step + rounds * ?step}" by auto
  then have "set (ps @ rest) = ?wire ` {c..<c + Suc rounds * ?step}" by (simp add: ps(1) rest(2) image_Un)
  moreover have "send_rounds (recorded t) (Suc rounds) (n, log) s = Some ((n', log @ (ps @ rest)), Inl RldpTimeout)"
    using round sent(1) await(1) s'(5) rest(1) by simp
  ultimately show ?case using ps(2) rest(3) by (intro exI [of _ n'] exI [of _ "ps @ rest"]) simp
qed simp

lemma mod_image: "0 < (count :: nat) \<Longrightarrow> (\<lambda>i. i mod count) ` {0..<m} = {0..<min m count}"
proof (intro equalityI subsetI)
  fix i assume "0 < count" "i \<in> {0..<min m count}"
  then show "i \<in> (\<lambda>i. i mod count) ` {0..<m}" by (intro image_eqI [of _ _ i]) auto
next
  fix i assume i: "0 < count" "i \<in> (\<lambda>i. i mod count) ` {0..<m}"
  then obtain j where "j < m" "i = j mod count" by auto
  with i(1) show "i \<in> {0..<min m count}" using le_less_trans [OF mod_less_eq_dividend [of j count]] by auto
qed

text \<open>Distinct frames have distinct datagrams.\<close>

lemma frame_wire_inj:
  assumes ok: "transfer_ok data csize count"
  shows "inj_on (\<lambda>i. data_wire (frame_at cr transfer data csize count i)) {..<count}"
proof (rule inj_onI)
  fix i j assume ij: "i \<in> {..<count}" "j \<in> {..<count}"
    "data_wire (frame_at cr transfer data csize count i) = data_wire (frame_at cr transfer data csize count j)"
  then have "frame_at cr transfer data csize count i = frame_at cr transfer data csize count j"
    using frame_at_ok [OF ok] data_decode_wire by (metis lessThan_iff Inr_inject)
  then show "i = j" using inj_onD [OF frame_at_inj [OF ok]] ij by blast
qed

lemma recorded_transfer:
  assumes new: "sender_new cr transfer data cfg = Inr s" and recv: "brings_acks t live pending"
    and send: "transmits t live (data_wire ` set (s_frames s))" and n: "live n"
  shows "\<exists>n' sent. send_rldp cr (recorded t) (n, []) transfer data cfg = Some ((n', sent), Inl RldpTimeout) \<and>
    set sent = data_wire ` set (take (max_rounds cfg * frames_per_round cfg) (s_frames s)) \<and>
    length sent = max_rounds cfg * min (packets_per_round cfg) (redundancy cfg * length (s_frames s))"
proof -
  let ?n = "length (s_frames s)" and ?csize = "cfg_chunk_size cfg"
  let ?frame = "frame_at cr transfer data ?csize ?n"
  have ok: "transfer_ok data ?csize ?n" and s: "sender_ok cr transfer data ?csize ?n s" "acknowledged s = {}"
    and cfg: "s_config s = cfg" "0 < redundancy cfg" "s_cursor s = 0 mod ?n"
    using new exchange_start [OF new] by (auto simp: exchange_inv_def exchange_init_def sender_new_Inr)
  have frames: "s_frames s = frames_of cr transfer data ?csize ?n" using s(1) by (simp add: sender_ok_def)
  have count: "0 < ?n" by (rule transfer_count_pos [OF ok])
  have "transmits t live (data_wire ` set (frames_of cr transfer data ?csize ?n))" using send by (simp flip: frames)
  from recorded_rounds [OF ok recv this s cfg(1,2,3) n, of "max_rounds cfg" "[]"] obtain n' sent where
    run: "send_rounds (recorded t) (max_rounds cfg) (n, []) s = Some ((n', sent), Inl RldpTimeout)"
    "set sent = wire_at cr transfer data ?csize ?n ` {0..<max_rounds cfg * min ?n (frames_per_round cfg)}"
    "length sent = max_rounds cfg * min (packets_per_round cfg) (redundancy cfg * ?n)" by auto
  have "min (max_rounds cfg * min ?n (frames_per_round cfg)) ?n = min (max_rounds cfg * frames_per_round cfg) ?n"
    by (cases "max_rounds cfg") (auto simp: min_def)
  then have "set sent = data_wire ` ?frame ` {0..<min (max_rounds cfg * frames_per_round cfg) ?n}"
    using mod_image [OF count, of "max_rounds cfg * min ?n (frames_per_round cfg)"]
    by (simp add: run(2) image_image [of "\<lambda>i. data_wire (?frame i)" "\<lambda>i. i mod ?n", symmetric] image_image [of data_wire])
  also have "?frame ` {0..<min (max_rounds cfg * frames_per_round cfg) ?n} =
      set (take (max_rounds cfg * frames_per_round cfg) (s_frames s))"
    by (subst (3) frames) (simp add: frames_of_def take_map take_upt_min [of _ 0, simplified] min.commute)
  finally show ?thesis using run(1,3) new by (auto simp: send_rldp_def)
qed

text \<open>Every frame is among those of the first rounds exactly if the rounds have room for all.\<close>

lemma all_frames_sent:
  assumes new: "sender_new cr transfer data cfg = Inr s"
  shows "data_wire ` set (take m (s_frames s)) = data_wire ` set (s_frames s) \<longleftrightarrow> length (s_frames s) \<le> m"
proof
  let ?n = "length (s_frames s)" and ?csize = "cfg_chunk_size cfg"
  have ok: "transfer_ok data ?csize ?n" and "sender_ok cr transfer data ?csize ?n s"
    using exchange_start [OF new] by (auto simp: exchange_inv_def exchange_init_def)
  then have frames: "s_frames s = frames_of cr transfer data ?csize ?n" by (simp add: sender_ok_def)
  let ?wire = "\<lambda>i. data_wire (frame_at cr transfer data ?csize ?n i)"
  assume eq: "data_wire ` set (take m (s_frames s)) = data_wire ` set (s_frames s)"
  have sets: "data_wire ` set (take m (s_frames s)) = ?wire ` {..<min m ?n}" for m
    by (subst frames) (simp add: frames_of_def take_map image_image lessThan_atLeast0 take_upt_min [of _ 0, simplified] min.commute)
  have "?wire ` {..<min m ?n} = ?wire ` {..<?n}" using eq sets [of m] sets [of ?n] by simp
  then have "{..<min m ?n} = {..<?n}" using inj_on_image_eq_iff [OF frame_wire_inj [OF ok, of cr transfer]] by auto
  then show "?n \<le> m" by (metis lessThan_eq_iff min.commute min.absorb_iff1)
qed simp

text \<open>
  With the default configuration twenty rounds have room for 860 frames: of a payload of more than
  880640 bytes some frames are never transmitted, although transfers of up to 16 MiB are accepted.
\<close>

lemma default_config_too_few_rounds:
  assumes "sender_new cr transfer data rldp_config_default = Inr s" "880640 < length data"
    "brings_acks t live pending" "transmits t live (data_wire ` set (s_frames s))" "live n"
  shows "\<exists>n' sent f. send_rldp cr (recorded t) (n, []) transfer data rldp_config_default = Some ((n', sent), Inl RldpTimeout) \<and>
    f \<in> set (s_frames s) \<and> data_wire f \<notin> set sent"
proof -
  let ?m = "max_rounds rldp_config_default * frames_per_round rldp_config_default"
  obtain n' sent where sent: "send_rldp cr (recorded t) (n, []) transfer data rldp_config_default = Some ((n', sent), Inl RldpTimeout)"
    "set sent = data_wire ` set (take ?m (s_frames s))"
    using recorded_transfer [OF assms(1,3-5)] by blast
  have "length (s_frames s) = div_ceil (length data) 1024"
    using exchange_start(1) [OF assms(1)] by (simp add: transfer_ok_def rldp_config_default_def DEFAULT_CHUNK_SIZE_def)
  then have "860 < length (s_frames s)"
    using div_ceil_le [of 1024 "length data"] assms(2) by simp
  moreover have "?m = 860" by (simp add: rldp_config_default_def frames_per_round_def div_ceil_def)
  ultimately have "data_wire ` set (take ?m (s_frames s)) \<noteq> data_wire ` set (s_frames s)"
    using all_frames_sent [OF assms(1), of ?m] by simp
  moreover have "data_wire ` set (take ?m (s_frames s)) \<subseteq> data_wire ` set (s_frames s)" by (auto dest: in_set_takeD)
  ultimately show ?thesis using sent by blast
qed

section \<open>Properties\<close>

text \<open>
  C10. What \<open>send_rldp\<close> puts on the network. Over a transport that transmits every frame and brings back
  only acknowledgements, finitely many, as the receiver of this module encodes them, a transfer transmits in its
  rounds the frames from the first one on, as many as the rounds have room for, each round holding
  the configured number of packets divided by the redundancy, rounded up; no other datagram is sent,
  their number is exactly that of the rounds times the packets of one, and then the transfer times
  out. So every frame has been transmitted exactly if the rounds have room for all of them.
\<close>

theorem transfer_transmits_frames:
  assumes "sender_new cr transfer data cfg = Inr s" "live n"
    and "\<forall>n p. live n \<and> (\<exists>f \<in> set (s_frames s). data_encode f = Inr p) \<longrightarrow> (\<exists>n'. t_send t n p = Some (n', Inr ()) \<and> live n')"
    and "\<forall>n n' x. live n \<and> t_recv t n = (n', x) \<longrightarrow>
      live n' \<and> (\<forall>p. x = Some (Inr p) \<longrightarrow> (\<exists>a. p = ack_encode a) \<and> pending n' < (pending n :: nat))"
  shows "\<exists>n' sent. send_rldp cr (recorded t) (n, []) transfer data cfg = Some ((n', sent), Inl RldpTimeout) \<and>
    (\<forall>p. p \<in> set sent \<longleftrightarrow> (\<exists>f \<in> set (take (max_rounds cfg * frames_per_round cfg) (s_frames s)). data_encode f = Inr p)) \<and>
    length sent = max_rounds cfg * min (packets_per_round cfg) (redundancy cfg * length (s_frames s)) \<and>
    ((\<forall>f \<in> set (s_frames s). \<exists>p \<in> set sent. data_encode f = Inr p) \<longleftrightarrow>
       length (s_frames s) \<le> max_rounds cfg * frames_per_round cfg)"
proof -
  let ?m = "max_rounds cfg * frames_per_round cfg"
  have "transmits t live {p. \<exists>f \<in> set (s_frames s). data_encode f = Inr p}" "brings_acks t live pending"
    using assms(3,4) by (simp_all add: transmits_def brings_acks_def)
  then obtain n' sent where run: "send_rldp cr (recorded t) (n, []) transfer data cfg = Some ((n', sent), Inl RldpTimeout)"
    and sent: "set sent = data_wire ` set (take ?m (s_frames s))"
      "length sent = max_rounds cfg * min (packets_per_round cfg) (redundancy cfg * length (s_frames s))"
    using recorded_transfer [of cr transfer data cfg s t live pending n] assms(1,2) unfolding frames_encode [OF assms(1)] by blast
  have enc: "data_encode f = Inr p \<longleftrightarrow> p = data_wire f" if "f \<in> set (s_frames s)" for f p
    using that assms(1) by (auto simp: sender_new_Inr frames_of_def data_encode_wire frame_at_ok)
  have part: "set (take ?m (s_frames s)) \<subseteq> set (s_frames s)" by (rule set_take_subset)
  have "p \<in> set sent \<longleftrightarrow> (\<exists>f \<in> set (take ?m (s_frames s)). data_encode f = Inr p)" for p
    using enc part by (auto simp: sent(1))
  moreover have "(\<forall>f \<in> set (s_frames s). \<exists>p \<in> set sent. data_encode f = Inr p) \<longleftrightarrow> set sent = data_wire ` set (s_frames s)"
    using part by (auto simp: sent(1) enc)
  ultimately show ?thesis using run sent all_frames_sent [OF assms(1), of ?m] by auto
qed

text \<open>Two frames and one round, with a receiver that answers every datagram.\<close>

theorem transfer_transmits_frames_witness:
  "\<exists>n' sent. send_rldp toy_crypto (recorded (peer_transport toy_crypto)) ((None, []), []) 7 [1, 2, 3] sample_config =
      Some ((n', sent), Inl RldpTimeout) \<and>
    (\<forall>f \<in> set (s_frames sample_sender). \<exists>p \<in> set sent. data_encode f = Inr p)"
proof -
  have room: "length (s_frames sample_sender) \<le> max_rounds sample_config * frames_per_round sample_config"
    by (simp add: sample_sender_def sample_config_def frames_per_round_def div_ceil_def)
  have send: "\<forall>n p. True \<and> (\<exists>f \<in> set (s_frames sample_sender). data_encode f = Inr p) \<longrightarrow>
      (\<exists>n'. t_send (peer_transport toy_crypto) n p = Some (n', Inr ()) \<and> True)"
    by (auto simp: peer_transport_def split: sum.splits option.splits)
  have recv: "\<forall>n n' x. True \<and> t_recv (peer_transport toy_crypto) n = (n', x) \<longrightarrow>
      True \<and> (\<forall>p. x = Some (Inr p) \<longrightarrow> (\<exists>a. p = ack_encode a) \<and> length (snd n') < length (snd n))"
    by (auto simp: peer_transport_def split: list.splits)
  show ?thesis
    using transfer_transmits_frames [OF sample_sender_new _ send recv, of "(None, [])"] room by blast
qed

end
