(* ===== verification/Adnl.thy ===== *)
theory Adnl
  imports Networking
begin

unbundle bit_operations_syntax

text \<open>
  \<open>crates/node/onx-networking/src/adnl_transport.rs\<close>: the encrypted datagrams of the transport, the
  sessions of a node and the datagrams it sends and receives. The key agreement and the cipher are
  packages outside the repository and enter as the fields of the record \<open>cipher\<close>; random bytes and
  the socket are arguments.
\<close>

section \<open>Keys and cipher\<close>

text \<open>
  The packages \<open>ed25519-dalek\<close> (conversion of keys), \<open>x25519-dalek\<close> and \<open>aes\<close>/\<open>ctr\<close>: the Montgomery
  form of a public key, the scalar of a secret key, the public key and the shared secret of X25519,
  and the key stream of AES-256-CTR by position, which is combined with a buffer by exclusive or.
\<close>

record cipher =
  to_montgomery :: "public_key \<Rightarrow> 256 word"
  to_scalar_bytes :: "256 word \<Rightarrow> 256 word"
  x_public :: "256 word \<Rightarrow> 256 word"
  diffie_hellman :: "256 word \<Rightarrow> 256 word \<Rightarrow> 256 word"
  aes_keystream :: "256 word \<Rightarrow> 128 word \<Rightarrow> nat \<Rightarrow> byte"

text \<open>
  What the packages document: both sides of an exchange compute the same secret, and the conversions
  of a secret key and of its public key belong together.
\<close>

definition agrees :: "crypto \<Rightarrow> cipher \<Rightarrow> bool" where
  "agrees cr ci \<longleftrightarrow>
     (\<forall>a b. diffie_hellman ci a (x_public ci b) = diffie_hellman ci b (x_public ci a)) \<and>
     (\<forall>sk. to_montgomery ci (sk_verifying_key cr sk) = x_public ci (to_scalar_bytes ci sk)) \<and>
     (\<forall>sk. vk_from_bytes cr (sk_verifying_key cr sk))"

definition ADNL_SHARED_SECRET_TAG :: domain_tag where
  "ADNL_SHARED_SECRET_TAG = tag_of ''ONX_ADNL_SHARED_SECRET_V1''"

definition ADNL_PAYLOAD_TAG :: domain_tag where
  "ADNL_PAYLOAD_TAG = tag_of ''ONX_ADNL_PAYLOAD_V1''"

definition ed25519_to_x25519_public :: "crypto \<Rightarrow> cipher \<Rightarrow> public_key \<Rightarrow> network_error + 256 word" where
  "ed25519_to_x25519_public cr ci pk =
     (if vk_from_bytes cr pk then Inr (to_montgomery ci pk) else Inl InvalidPacketSignature)"

definition ed25519_to_x25519_secret :: "cipher \<Rightarrow> 256 word \<Rightarrow> 256 word" where
  "ed25519_to_x25519_secret ci sk = to_scalar_bytes ci sk"

definition derive_symmetric_key_iv :: "crypto \<Rightarrow> 256 word \<Rightarrow> 256 word \<Rightarrow> 256 word \<times> 128 word" where
  "derive_symmetric_key_iv cr shared_secret nonce =
     (let key_hash = domain_hash cr ADNL_SHARED_SECRET_TAG (encode shared_secret @ encode nonce);
          iv_hash = domain_hash cr ADNL_SHARED_SECRET_TAG (encode nonce @ encode shared_secret)
      in (key_hash, from_be (take 16 (encode iv_hash))))"

definition apply_aes256_ctr :: "cipher \<Rightarrow> 256 word \<times> 128 word \<Rightarrow> bytes \<Rightarrow> bytes" where
  "apply_aes256_ctr ci key_iv buf =
     map2 (\<lambda>i b. b XOR aes_keystream ci (fst key_iv) (snd key_iv) i) [0..<length buf] buf"

section \<open>Full packets\<close>

record full_packet =
  fp_recipient_address :: hash32
  fp_sender_address :: hash32
  fp_timestamp :: u32
  fp_nonce :: u32
  fp_payload :: bytes
  fp_signature :: signature

definition full_signable_bytes :: "hash32 \<Rightarrow> u32 \<Rightarrow> u32 \<Rightarrow> bytes \<Rightarrow> bytes" where
  "full_signable_bytes sender timestamp nonce data =
     encode sender @ to_be timestamp @ to_be nonce @ to_be (word_of_nat (length data) :: u16) @ data"

text \<open>The ephemeral secret and the nonce are drawn at random; \<open>None\<close> is the panic of \<open>unwrap\<close>.\<close>

definition full_encode :: "crypto \<Rightarrow> cipher \<Rightarrow> 256 word \<Rightarrow> 256 word \<Rightarrow> full_packet \<Rightarrow> public_key \<Rightarrow> bytes option" where
  "full_encode cr ci ephemeral_secret nonce p recipient_public_key =
     (let plain = full_signable_bytes (fp_sender_address p) (fp_timestamp p) (fp_nonce p) (fp_payload p) @
            encode (fp_signature p);
          ephemeral_public = x_public ci ephemeral_secret
      in case ed25519_to_x25519_public cr ci recipient_public_key of
           Inl _ \<Rightarrow> None
         | Inr recipient_x25519 \<Rightarrow>
             (let shared_secret = diffie_hellman ci ephemeral_secret recipient_x25519;
                  encrypted = apply_aes256_ctr ci (derive_symmetric_key_iv cr shared_secret nonce) plain
              in Some (encode (fp_recipient_address p) @ encode ephemeral_public @ encode nonce @ encrypted)))"

definition full_decode :: "crypto \<Rightarrow> cipher \<Rightarrow> bytes \<Rightarrow> 256 word \<Rightarrow> network_error + full_packet" where
  "full_decode cr ci wire recipient_secret_key =
     (if length wire < 32 + 32 + 32 + 32 + 4 + 4 + 2 + 64 then Inl TruncatedPacket
      else
        let recipient_address = from_be (subslice 0 32 wire);
            ephemeral_public = from_be (subslice 32 64 wire);
            nonce = from_be (subslice 64 96 wire);
            encrypted = drop 96 wire;
            shared_secret = diffie_hellman ci (ed25519_to_x25519_secret ci recipient_secret_key) ephemeral_public;
            decrypted = apply_aes256_ctr ci (derive_symmetric_key_iv cr shared_secret nonce) encrypted
        in if length decrypted < 32 + 4 + 4 + 2 + 64 then Inl TruncatedPacket
           else
             let sender_address = from_be (subslice 0 32 decrypted);
                 timestamp = from_be (subslice 32 36 decrypted);
                 packet_nonce = from_be (subslice 36 40 decrypted);
                 payload_len = unat (from_be (subslice 40 42 decrypted) :: u16)
             in if length decrypted < 42 + payload_len + 64 then Inl TruncatedPacket
                else
                  bindR (map_err (\<lambda>_. InvalidPacketSignature)
                    (sig_decode_exact (subslice (42 + payload_len) (42 + payload_len + 64) decrypted))) (\<lambda>sg.
                  Inr \<lparr>fp_recipient_address = recipient_address, fp_sender_address = sender_address,
                    fp_timestamp = timestamp, fp_nonce = packet_nonce,
                    fp_payload = subslice 42 (42 + payload_len) decrypted, fp_signature = sg\<rparr>))"

section \<open>Fast packets\<close>

record fast_packet =
  channel_or_recipient_id :: hash32
  pk_sender_address :: hash32
  pk_nonce :: "256 word"
  pk_payload :: bytes

definition fast_plaintext :: "crypto \<Rightarrow> bytes \<Rightarrow> bytes" where
  "fast_plaintext cr data =
     encode (domain_hash cr ADNL_PAYLOAD_TAG data) @ to_be (word_of_nat (length data) :: u16) @ data"

definition fast_encode :: "crypto \<Rightarrow> cipher \<Rightarrow> fast_packet \<Rightarrow> 256 word \<Rightarrow> bytes" where
  "fast_encode cr ci p shared_secret =
     encode (channel_or_recipient_id p) @ encode (pk_sender_address p) @ encode (pk_nonce p) @
     apply_aes256_ctr ci (derive_symmetric_key_iv cr shared_secret (pk_nonce p)) (fast_plaintext cr (pk_payload p))"

definition fast_decode :: "crypto \<Rightarrow> cipher \<Rightarrow> bytes \<Rightarrow> 256 word \<Rightarrow> network_error + fast_packet" where
  "fast_decode cr ci wire shared_secret =
     (if length wire < 32 + 32 + 32 + 32 + 2 then Inl TruncatedPacket
      else
        let channel = from_be (subslice 0 32 wire);
            sender_address = from_be (subslice 32 64 wire);
            nonce = from_be (subslice 64 96 wire);
            encrypted = drop 96 wire;
            decrypted = apply_aes256_ctr ci (derive_symmetric_key_iv cr shared_secret nonce) encrypted
        in if length decrypted < 34 then Inl TruncatedPacket
           else
             let expected_hash = from_be (subslice 0 32 decrypted);
                 payload_len = unat (from_be (subslice 32 34 decrypted) :: u16)
             in if length decrypted < 34 + payload_len then Inl TruncatedPacket
                else
                  let data = subslice 34 (34 + payload_len) decrypted
                  in if domain_hash cr ADNL_PAYLOAD_TAG data \<noteq> expected_hash then Inl DecryptionFailed
                     else Inr \<lparr>channel_or_recipient_id = channel, pk_sender_address = sender_address,
                            pk_nonce = nonce, pk_payload = data\<rparr>)"

section \<open>Sessions\<close>

record 'a peer_session =
  peer_address :: hash32
  peer_public_key :: public_key
  remote_endpoint :: 'a
  channel_id :: hash32
  shared_secret :: "256 word"

record 'a adnl_node =
  nd_secret_key :: "256 word"
  nd_public_key :: public_key
  nd_key_description :: key_description
  nd_abstract_address :: hash32
  sessions :: "hash32 \<Rightarrow> 'a peer_session option"
  channel_to_peer :: "hash32 \<Rightarrow> hash32 option"

text \<open>A node after \<open>bind\<close>, whose socket is not part of the model.\<close>

definition adnl_bind :: "crypto \<Rightarrow> 256 word \<Rightarrow> 'a adnl_node" where
  "adnl_bind cr sk =
     (let pk = sk_public_key cr sk; kd = new_ed25519 pk
      in \<lparr>nd_secret_key = sk, nd_public_key = pk, nd_key_description = kd,
          nd_abstract_address = compute_abstract_address cr kd, sessions = Map.empty, channel_to_peer = Map.empty\<rparr>)"

definition connect_peer ::
  "crypto \<Rightarrow> cipher \<Rightarrow> 'a adnl_node \<Rightarrow> public_key \<Rightarrow> 'a \<Rightarrow> ('a adnl_node \<times> 'a peer_session) option" where
  "connect_peer cr ci nd peer_key endpoint =
     (let peer_addr = compute_abstract_address cr (new_ed25519 peer_key) in
      case sessions nd peer_addr of
        Some session \<Rightarrow> Some (nd, session)
      | None \<Rightarrow>
          (case ed25519_to_x25519_public cr ci peer_key of
             Inl _ \<Rightarrow> None
           | Inr peer_x25519 \<Rightarrow>
               (let secret = diffie_hellman ci (ed25519_to_x25519_secret ci (nd_secret_key nd)) peer_x25519;
                    channel = (if nd_abstract_address nd < peer_addr
                               then derive_channel_id cr secret (nd_abstract_address nd) peer_addr
                               else derive_channel_id cr secret peer_addr (nd_abstract_address nd));
                    session = \<lparr>peer_address = peer_addr, peer_public_key = peer_key, remote_endpoint = endpoint,
                      channel_id = channel, shared_secret = secret\<rparr>
                in Some (nd\<lparr>sessions := (sessions nd)(peer_addr \<mapsto> session),
                           channel_to_peer := (channel_to_peer nd)(channel \<mapsto> peer_addr)\<rparr>, session))))"

text \<open>The socket transmits a datagram or fails; the nonce of the packet is random.\<close>

definition send_datagram ::
  "crypto \<Rightarrow> cipher \<Rightarrow> ('n \<Rightarrow> bytes \<Rightarrow> 'a \<Rightarrow> 'n \<times> bool) \<Rightarrow> 'n \<Rightarrow> 256 word \<Rightarrow> 'a adnl_node \<Rightarrow> public_key \<Rightarrow> 'a \<Rightarrow>
   bytes \<Rightarrow> ('a adnl_node \<times> 'n \<times> (network_error + unit)) option" where
  "send_datagram cr ci send_to n nonce nd peer_key endpoint data =
     (case connect_peer cr ci nd peer_key endpoint of
        None \<Rightarrow> None
      | Some (nd', session) \<Rightarrow>
          (let wire = fast_encode cr ci \<lparr>channel_or_recipient_id = channel_id session,
                 pk_sender_address = nd_abstract_address nd', pk_nonce = nonce, pk_payload = data\<rparr> (shared_secret session);
               (n', ok) = send_to n wire endpoint
           in Some (nd', n', if ok then Inr () else Inl DecryptionFailed)))"

text \<open>
  What \<open>recv_datagram\<close> makes of a datagram from an endpoint; the buffer holds 65535 bytes, and the
  failure of the socket is \<open>None\<close>.
\<close>

definition recv_datagram ::
  "crypto \<Rightarrow> cipher \<Rightarrow> 'a adnl_node \<Rightarrow> (bytes \<times> 'a) option \<Rightarrow> network_error + hash32 \<times> bytes \<times> 'a" where
  "recv_datagram cr ci nd datagram =
     (case datagram of
        None \<Rightarrow> Inl TruncatedPacket
      | Some (sent, src_addr) \<Rightarrow>
          (let wire = take 65535 sent in
           if length wire < 32 then Inl TruncatedPacket
           else
             let header_id = from_be (subslice 0 32 wire);
                 full = (if header_id = nd_abstract_address nd
                         then case full_decode cr ci wire (nd_secret_key nd) of
                                Inr p \<Rightarrow> Some (fp_sender_address p, fp_payload p, src_addr)
                              | Inl _ \<Rightarrow> None
                         else None)
             in case full of
                  Some result \<Rightarrow> Inr result
                | None \<Rightarrow>
                    (case Option.bind (channel_to_peer nd header_id) (sessions nd) of
                       Some session \<Rightarrow>
                         bindR (fast_decode cr ci wire (shared_secret session)) (\<lambda>p.
                         Inr (pk_sender_address p, pk_payload p, src_addr))
                     | None \<Rightarrow> Inl DecryptionFailed)))"

section \<open>The cipher\<close>

lemma length_apply_aes [simp]: "length (apply_aes256_ctr ci k buf) = length buf"
  by (simp add: apply_aes256_ctr_def)

lemma nth_apply_aes:
  "i < length buf \<Longrightarrow> apply_aes256_ctr ci k buf ! i = buf ! i XOR aes_keystream ci (fst k) (snd k) i"
  by (simp add: apply_aes256_ctr_def)

text \<open>Applying the key stream twice gives back the buffer, and it commutes with exclusive or.\<close>

lemma apply_aes_involution [simp]: "apply_aes256_ctr ci k (apply_aes256_ctr ci k buf) = buf"
  by (rule nth_equalityI) (simp_all add: nth_apply_aes xor.assoc)

lemma apply_aes_xor:
  "length buf = length mask' \<Longrightarrow>
     apply_aes256_ctr ci k (map2 (XOR) buf mask') = map2 (XOR) (apply_aes256_ctr ci k buf) mask'"
  by (rule nth_equalityI) (simp_all add: nth_apply_aes xor.assoc xor.commute xor.left_commute)

section \<open>Packets round-trip\<close>

lemma u16_len: "n < 65536 \<Longrightarrow> unat (word_of_nat n :: u16) = n"
  by (simp add: unsigned_of_nat take_bit_eq_mod)

lemma length_fast_plaintext [simp]: "length (fast_plaintext cr data) = 34 + length data"
  by (simp add: fast_plaintext_def)

lemma fast_plaintext_fields:
  "subslice 0 32 (fast_plaintext cr data) = encode (domain_hash cr ADNL_PAYLOAD_TAG data)"
  "subslice 32 34 (fast_plaintext cr data) = to_be (word_of_nat (length data) :: u16)"
  "subslice 34 (34 + length data) (fast_plaintext cr data) = data"
  by (simp_all add: fast_plaintext_def subslice_simps)

lemma fast_decode_wire:
  assumes "length data < 65536"
  shows "fast_decode cr ci (encode channel @ encode sender @ encode nonce @
      apply_aes256_ctr ci (derive_symmetric_key_iv cr secret nonce) (fast_plaintext cr data)) secret =
    Inr \<lparr>channel_or_recipient_id = channel, pk_sender_address = sender, pk_nonce = nonce, pk_payload = data\<rparr>"
  using assms
  by (simp add: fast_decode_def subslice_simps Let_def fast_plaintext_fields from_be_to_be u16_len)

lemma fast_decode_encode:
  "length (pk_payload p) < 65536 \<Longrightarrow> fast_decode cr ci (fast_encode cr ci p secret) secret = Inr p"
  by (simp add: fast_encode_def fast_decode_wire)

lemma full_fields:
  "subslice 0 32 (full_signable_bytes sender timestamp nonce data @ encode (sg :: signature)) = encode sender"
  "subslice 32 36 (full_signable_bytes sender timestamp nonce data @ encode (sg :: signature)) = to_be timestamp"
  "subslice 36 40 (full_signable_bytes sender timestamp nonce data @ encode (sg :: signature)) = to_be nonce"
  "subslice 40 42 (full_signable_bytes sender timestamp nonce data @ encode (sg :: signature)) = to_be (word_of_nat (length data) :: u16)"
  "subslice 42 (42 + length data) (full_signable_bytes sender timestamp nonce data @ encode (sg :: signature)) = data"
  "subslice (42 + length data) (42 + length data + 64) (full_signable_bytes sender timestamp nonce data @ encode (sg :: signature)) = encode sg"
  "length (full_signable_bytes sender timestamp nonce data) = 42 + length data"
  by (simp_all add: full_signable_bytes_def subslice_simps)

lemma full_decode_encode:
  assumes "agrees cr ci" "length (fp_payload p) < 65536"
  shows "\<exists>wire. full_encode cr ci ephemeral nonce p (sk_verifying_key cr sk) = Some wire \<and>
    full_decode cr ci wire sk = Inr p \<and> length wire = 202 + length (fp_payload p) \<and>
    subslice 0 32 wire = encode (fp_recipient_address p)"
proof -
  have agree: "diffie_hellman ci ephemeral (to_montgomery ci (sk_verifying_key cr sk)) =
      diffie_hellman ci (to_scalar_bytes ci sk) (x_public ci ephemeral)"
    "vk_from_bytes cr (sk_verifying_key cr sk)"
    using assms(1) unfolding agrees_def by metis+
  show ?thesis
    using assms(2)
    by (simp add: full_encode_def full_decode_def ed25519_to_x25519_public_def ed25519_to_x25519_secret_def
        agree subslice_simps Let_def full_fields from_be_to_be u16_len)
qed

section \<open>Two nodes\<close>

definition address_of :: "crypto \<Rightarrow> 256 word \<Rightarrow> hash32" where
  "address_of cr sk = compute_abstract_address cr (new_ed25519 (sk_public_key cr sk))"

definition pair_secret :: "cipher \<Rightarrow> 256 word \<Rightarrow> 256 word \<Rightarrow> 256 word" where
  "pair_secret ci a b = diffie_hellman ci (to_scalar_bytes ci a) (x_public ci (to_scalar_bytes ci b))"

definition pair_channel :: "crypto \<Rightarrow> cipher \<Rightarrow> 256 word \<Rightarrow> 256 word \<Rightarrow> hash32" where
  "pair_channel cr ci a b =
     (if address_of cr a < address_of cr b
      then derive_channel_id cr (pair_secret ci a b) (address_of cr a) (address_of cr b)
      else derive_channel_id cr (pair_secret ci a b) (address_of cr b) (address_of cr a))"

lemma pair_symmetric:
  assumes "agrees cr ci"
  shows "pair_secret ci a b = pair_secret ci b a" "pair_channel cr ci a b = pair_channel cr ci b a"
proof -
  show secret: "pair_secret ci a b = pair_secret ci b a"
    using assms unfolding agrees_def pair_secret_def by blast
  show "pair_channel cr ci a b = pair_channel cr ci b a"
    by (auto simp: pair_channel_def secret)
qed

definition pair_session :: "crypto \<Rightarrow> cipher \<Rightarrow> 256 word \<Rightarrow> 256 word \<Rightarrow> 'a \<Rightarrow> 'a peer_session" where
  "pair_session cr ci a b endpoint =
     \<lparr>peer_address = address_of cr b, peer_public_key = sk_public_key cr b, remote_endpoint = endpoint,
      channel_id = pair_channel cr ci a b, shared_secret = pair_secret ci a b\<rparr>"

lemma connect_fresh:
  assumes "agrees cr ci" "nd_secret_key nd = a" "nd_abstract_address nd = address_of cr a"
    "sessions nd (address_of cr b) = None"
  shows "connect_peer cr ci nd (sk_public_key cr b) endpoint =
    Some (nd\<lparr>sessions := (sessions nd)(address_of cr b \<mapsto> pair_session cr ci a b endpoint),
             channel_to_peer := (channel_to_peer nd)(pair_channel cr ci a b \<mapsto> address_of cr b)\<rparr>,
          pair_session cr ci a b endpoint)"
proof -
  have "vk_from_bytes cr (sk_public_key cr b)"
    "to_montgomery ci (sk_public_key cr b) = x_public ci (to_scalar_bytes ci b)"
    using assms(1) by (simp_all add: agrees_def sk_public_key_def)
  then show ?thesis
    using assms(2-4)
    by (simp add: connect_peer_def ed25519_to_x25519_public_def ed25519_to_x25519_secret_def address_of_def [symmetric]
        pair_session_def pair_channel_def pair_secret_def Let_def)
qed

lemma connect_again:
  "sessions nd (address_of cr b) = Some session \<Longrightarrow>
     connect_peer cr ci nd (sk_public_key cr b) endpoint = Some (nd, session)"
  by (simp add: connect_peer_def address_of_def Let_def)

text \<open>A node that holds its session with a peer, and the datagrams it sends over the channel.\<close>

definition linked :: "crypto \<Rightarrow> cipher \<Rightarrow> 'a adnl_node \<Rightarrow> 256 word \<Rightarrow> 256 word \<Rightarrow> bool" where
  "linked cr ci nd own peer \<longleftrightarrow>
     nd_abstract_address nd = address_of cr own \<and>
     channel_to_peer nd (pair_channel cr ci own peer) = Some (address_of cr peer) \<and>
     (\<exists>endpoint. sessions nd (address_of cr peer) = Some (pair_session cr ci own peer endpoint))"

definition channel_wire :: "crypto \<Rightarrow> cipher \<Rightarrow> 256 word \<Rightarrow> 256 word \<Rightarrow> 256 word \<Rightarrow> bytes \<Rightarrow> bytes" where
  "channel_wire cr ci own peer nonce data =
     fast_encode cr ci \<lparr>channel_or_recipient_id = pair_channel cr ci own peer, pk_sender_address = address_of cr own,
       pk_nonce = nonce, pk_payload = data\<rparr> (pair_secret ci own peer)"

lemma bind_fields [simp]:
  "nd_secret_key (adnl_bind cr k) = k" "nd_abstract_address (adnl_bind cr k) = address_of cr k"
  "sessions (adnl_bind cr k) = Map.empty"
  by (simp_all add: adnl_bind_def address_of_def Let_def)

lemma connect_linked:
  assumes "agrees cr ci" "connect_peer cr ci (adnl_bind cr a) (sk_public_key cr b) endpoint = Some (nd, session)"
  shows "linked cr ci nd a b" "session = pair_session cr ci a b endpoint" "nd_abstract_address nd = address_of cr a"
  using connect_fresh [OF assms(1), of "adnl_bind cr a" a b endpoint] assms(2) by (auto simp: linked_def)

lemma linked_send:
  assumes "linked cr ci nd a b"
  shows "send_datagram cr ci send_to n nonce nd (sk_public_key cr b) endpoint data =
    (case send_to n (channel_wire cr ci a b nonce data) endpoint of
       (n', ok) \<Rightarrow> Some (nd, n', if ok then Inr () else Inl DecryptionFailed))"
proof -
  obtain e where "sessions nd (address_of cr b) = Some (pair_session cr ci a b e)"
    using assms by (auto simp: linked_def)
  then show ?thesis
    using assms connect_again [of nd cr b "pair_session cr ci a b e" ci endpoint]
    by (simp add: send_datagram_def channel_wire_def linked_def pair_session_def Let_def)
qed

lemma linked_recv:
  assumes "agrees cr ci" "linked cr ci nd b a" "pair_channel cr ci a b \<noteq> address_of cr b" "length data \<le> 65405"
  shows "recv_datagram cr ci nd (Some (channel_wire cr ci a b nonce data, source)) = Inr (address_of cr a, data, source)"
proof -
  define wire where "wire = channel_wire cr ci a b nonce data"
  obtain e where nd: "channel_to_peer nd (pair_channel cr ci a b) = Some (address_of cr a)"
    "sessions nd (address_of cr a) = Some (pair_session cr ci b a e)" "nd_abstract_address nd = address_of cr b"
    using assms(2) pair_symmetric [OF assms(1), of a b] by (auto simp: linked_def)
  have known: "Option.bind (channel_to_peer nd (pair_channel cr ci a b)) (sessions nd) = Some (pair_session cr ci b a e)"
    using nd by simp
  have secret: "shared_secret (pair_session cr ci b a e) = pair_secret ci a b"
    using pair_symmetric [OF assms(1), of a b] by (simp add: pair_session_def)
  have whole: "take 65535 wire = wire" "\<not> length wire < 32" and id: "from_be (subslice 0 32 wire) = pair_channel cr ci a b"
    using assms(4) by (simp_all add: wire_def channel_wire_def fast_encode_def subslice_simps)
  have other: "pair_channel cr ci a b \<noteq> nd_abstract_address nd" using assms(3) nd(3) by simp
  have decoded: "fast_decode cr ci wire (pair_secret ci a b) = Inr \<lparr>channel_or_recipient_id = pair_channel cr ci a b,
      pk_sender_address = address_of cr a, pk_nonce = nonce, pk_payload = data\<rparr>"
    using assms(4) by (simp add: wire_def channel_wire_def fast_decode_encode)
  show ?thesis
    unfolding recv_datagram_def wire_def [symmetric] option.case prod.case whole(1) Let_def id if_not_P [OF whole(2)]
      if_not_P [OF other] known secret decoded
    by simp
qed

text \<open>
  Two nodes that have connected to each other share a channel: every datagram of up to 65405
  bytes the first one sends over it, any number of times and with any nonce, is received by the
  second one as sent, with the address of the first, unless the identifier of the channel
  collides with the address of the second.
\<close>

theorem connected_nodes_exchange:
  assumes "agrees cr ci"
    and "connect_peer cr ci (adnl_bind cr a) (sk_public_key cr b) endpoint_b = Some (node_a, session_a)"
    and "connect_peer cr ci (adnl_bind cr b) (sk_public_key cr a) endpoint_a = Some (node_b, session_b)"
    and "channel_id session_a \<noteq> nd_abstract_address node_b" "length data \<le> 65405"
  shows "\<exists>wire. send_datagram cr ci (\<lambda>log w e. ((w, e) # log, True)) log nonce node_a (sk_public_key cr b) endpoint data =
      Some (node_a, (wire, endpoint) # log, Inr ()) \<and>
    recv_datagram cr ci node_b (Some (wire, source)) = Inr (nd_abstract_address node_a, data, source)"
proof -
  note a = connect_linked [OF assms(1,2)] and b = connect_linked [OF assms(1,3)]
  have "pair_channel cr ci a b \<noteq> address_of cr b" using assms(4) by (simp add: a(2) b(3) pair_session_def)
  then show ?thesis
    using linked_recv [OF assms(1) b(1) _ assms(5)]
    by (intro exI [of _ "channel_wire cr ci a b nonce data"]) (simp add: a(3) linked_send [OF a(1)])
qed

text \<open>A cipher without secrets, for concrete instances.\<close>

definition toy_cipher :: cipher where
  "toy_cipher = \<lparr>to_montgomery = (\<lambda>k. k), to_scalar_bytes = (\<lambda>k. k), x_public = (\<lambda>k. k),
     diffie_hellman = (\<lambda>a b. a XOR b), aes_keystream = (\<lambda>_ _ i. word_of_nat i)\<rparr>"

lemma toy_agrees: "agrees toy_crypto toy_cipher"
  by (simp add: agrees_def toy_crypto_def toy_cipher_def xor.commute)

text \<open>In the toy instance the channel of the keys 1 and 2 does not collide with an address.\<close>

lemma toy_channel: "pair_channel toy_crypto toy_cipher 1 2 \<noteq> address_of toy_crypto 2"
proof -
  have "length (tag_of ''ONX_ADNL_CHANNEL_V1'') = 32" "length KEY_DESC_TAG = 32"
    by (simp_all add: tag_of_def ascii_def KEY_DESC_TAG_def)
  then show ?thesis
    by (simp add: pair_channel_def derive_channel_id_def domain_hash_def toy_crypto_def address_of_def
        compute_abstract_address_def key_description_to_bytes_def)
qed

lemma toy_connected:
  "\<exists>nd. connect_peer toy_crypto toy_cipher (adnl_bind toy_crypto a) (sk_public_key toy_crypto b) endpoint =
    Some (nd, pair_session toy_crypto toy_cipher a b endpoint)"
  using connect_fresh [OF toy_agrees, of "adnl_bind toy_crypto a" a b endpoint] by simp

section \<open>What the packets do not protect\<close>

text \<open>
  C15. A full packet is never checked for its signature or its timestamp: whoever knows the public key
  of a node makes it accept any payload of up to 65333 bytes as coming from any address, with any
  signature and any time.
\<close>

theorem full_packet_sender_forgeable:
  assumes "agrees cr ci" "length data \<le> 65333"
  shows "\<exists>wire. full_encode cr ci ephemeral nonce
      \<lparr>fp_recipient_address = address_of cr sk, fp_sender_address = anyone, fp_timestamp = time, fp_nonce = guard,
       fp_payload = data, fp_signature = sg\<rparr> (sk_public_key cr sk) = Some wire \<and>
    recv_datagram cr ci (adnl_bind cr sk) (Some (wire, source)) = Inr (anyone, data, source)"
proof -
  let ?p = "\<lparr>fp_recipient_address = address_of cr sk, fp_sender_address = anyone, fp_timestamp = time,
    fp_nonce = guard, fp_payload = data, fp_signature = sg\<rparr>"
  obtain wire where wire: "full_encode cr ci ephemeral nonce ?p (sk_public_key cr sk) = Some wire"
    "full_decode cr ci wire sk = Inr ?p" "length wire = 202 + length data" "subslice 0 32 wire = encode (address_of cr sk)"
    using full_decode_encode [OF assms(1), of ?p ephemeral nonce sk] assms(2) by (auto simp: sk_public_key_def)
  have whole: "take 65535 wire = wire" "\<not> length wire < 32" using wire(3) assms(2) by auto
  have node: "nd_abstract_address (adnl_bind cr sk) = address_of cr sk" "nd_secret_key (adnl_bind cr sk) = sk"
    by (simp_all add: adnl_bind_def address_of_def Let_def)
  have header: "(from_be (subslice 0 32 wire) :: hash32) = address_of cr sk" by (simp add: wire(4))
  have "recv_datagram cr ci (adnl_bind cr sk) (Some (wire, source)) = Inr (anyone, data, source)"
    unfolding recv_datagram_def option.case prod.case whole(1) Let_def if_not_P [OF whole(2)] header node
    using wire(2) by simp
  then show ?thesis using wire(1) by (intro exI [of _ wire] conjI)
qed

theorem full_packet_sender_forgeable_witness:
  "\<exists>wire. recv_datagram toy_crypto toy_cipher (adnl_bind toy_crypto 2) (Some (wire, ''x'')) = Inr (99, [7], ''x'')"
  using full_packet_sender_forgeable [OF toy_agrees, of "[7]" 5 6 2 99 0 0 0 "''x''"] by auto

text \<open>
  The sender address of a fast packet is neither encrypted nor covered by its hash, and the hash has
  no key: a third party that sees a datagram replaces the sender, and one that also knows its payload
  replaces the payload by any other of the same length.
\<close>

definition xor_bytes :: "bytes \<Rightarrow> bytes \<Rightarrow> bytes" where
  "xor_bytes a b = map2 (XOR) a b"

lemma fast_packet_malleable:
  assumes "length (pk_payload p) < 65536" "length forged = length (pk_payload p)"
    and wire_def: "wire = fast_encode cr ci p secret"
  shows "fast_decode cr ci (take 32 wire @ encode anyone @ subslice 64 96 wire @
      xor_bytes (drop 96 wire) (xor_bytes (fast_plaintext cr (pk_payload p)) (fast_plaintext cr forged))) secret =
    Inr (p\<lparr>pk_sender_address := anyone, pk_payload := forged\<rparr>)"
proof -
  let ?key = "derive_symmetric_key_iv cr secret (pk_nonce p)"
  have parts: "take 32 wire = encode (channel_or_recipient_id p)" "subslice 64 96 wire = encode (pk_nonce p)"
    "drop 96 wire = apply_aes256_ctr ci ?key (fast_plaintext cr (pk_payload p))"
    by (simp_all add: wire_def fast_encode_def subslice_simps)
  have "xor_bytes (apply_aes256_ctr ci ?key (fast_plaintext cr (pk_payload p)))
      (xor_bytes (fast_plaintext cr (pk_payload p)) (fast_plaintext cr forged)) =
      apply_aes256_ctr ci ?key (map2 (XOR) (fast_plaintext cr (pk_payload p))
        (map2 (XOR) (fast_plaintext cr (pk_payload p)) (fast_plaintext cr forged)))"
    using assms(2) by (simp add: xor_bytes_def apply_aes_xor)
  also have "map2 (XOR) (fast_plaintext cr (pk_payload p))
      (map2 (XOR) (fast_plaintext cr (pk_payload p)) (fast_plaintext cr forged)) = fast_plaintext cr forged"
    using assms(2) by (intro nth_equalityI) (simp_all flip: xor.assoc)
  finally show ?thesis
    using assms(1,2) by (simp add: parts fast_decode_wire)
qed

end
