(* ===== verification/Transfers.thy ===== *)
theory Transfers
  imports Rldp_Rounds Adnl
begin

text \<open>
  Reliable transfers over encrypted channels: \<open>send_rldp\<close> and \<open>recv_rldp\<close> of
  \<open>crates/node/onx-networking/src/rldp.rs\<close> are methods of the node of \<open>adnl_transport.rs\<close>, and exchange
  their frames by its \<open>send_datagram\<close> and \<open>recv_datagram\<close>. The two locales are what the loops rely on
  from a datagram transport; the transport of an ADNL node with a peer is defined here and provides
  both. The lemmas show that a payload crosses the channel unchanged whatever the network does to
  the order and the number of the datagrams, as long as one copy of every frame arrives, and what a
  datagram from elsewhere does to the receiver.
\<close>

section \<open>What the receiver relies on\<close>

abbreviation frame_wire :: "crypto \<Rightarrow> hash32 \<Rightarrow> bytes \<Rightarrow> nat \<Rightarrow> nat \<Rightarrow> nat \<Rightarrow> bytes" where
  "frame_wire cr transfer data csize n i \<equiv> data_wire (frame_at cr transfer data csize n i)"

text \<open>
  A transport that yields the payloads of its inbox one by one and transmits datagrams up to the
  size of the largest acknowledgement, in its live states.
\<close>

locale datagram_inbox =
  fixes t :: "'n transport" and inbox :: "'n \<Rightarrow> bytes list" and live :: "'n \<Rightarrow> bool"
  assumes recv_next: "live n \<Longrightarrow> inbox n = p # ps \<Longrightarrow>
      \<exists>n'. t_recv t n = (n', Some (Inr p)) \<and> live n' \<and> inbox n' = ps"
    and send_keeps: "live n \<Longrightarrow> length p \<le> 8234 \<Longrightarrow>
      \<exists>n'. t_send t n p = Some (n', Inr ()) \<and> live n' \<and> inbox n' = inbox n"
begin

lemma receive_frame_accepts:
  assumes ok: "transfer_ok data csize m" "receiver_ok cr transfer data csize m r" and i: "i < m" and "live n"
  shows "\<exists>n' r'. receive_frame cr t n r (frame_at cr transfer data csize m i) =
      Some (n', Inr (r', if held r' = {..<m} then Some data else None)) \<and>
    receiver_ok cr transfer data csize m r' \<and> held r' = insert i (held r) \<and> live n' \<and> inbox n' = inbox n"
proof -
  obtain r' result where step: "ingest cr r (frame_at cr transfer data csize m i) = (r', result)" by fastforce
  note ingested = ingest_frame [OF ok i step]
  obtain bitmap where ack: "receiver_ack r' = Some (r'\<lparr>r_ack_seq := r_ack_seq r' + 1\<rparr>,
      \<lparr>af_transfer_id = transfer, af_ack_seq = r_ack_seq r' + 1, received_mask = bitmap\<rparr>)" "length bitmap = div_ceil m 8"
    using receiver_ack_held [OF ingested(1)] by blast
  have "length bitmap \<le> 8192" using ok(1) by (auto simp: ack(2) div_ceil_def transfer_ok_def)
  then have "length (ack_encode \<lparr>af_transfer_id = transfer, af_ack_seq = r_ack_seq r' + 1, received_mask = bitmap\<rparr>) \<le> 8234"
    by (simp add: ack_encode_def)
  from send_keeps [OF \<open>live n\<close> this] obtain n' where "t_send t n
      (ack_encode \<lparr>af_transfer_id = transfer, af_ack_seq = r_ack_seq r' + 1, received_mask = bitmap\<rparr>) = Some (n', Inr ())"
    "live n'" "inbox n' = inbox n" by blast
  then show ?thesis
    using step ack(1) ingested by (auto simp: receive_frame_def receiver_ok_def held_def)
qed

text \<open>
  The loop returns the payload once every frame was held or arrives; frames that repeat and
  datagrams that are no data frames do not matter.
\<close>

lemma receive_loop_delivers:
  assumes ok: "transfer_ok data csize m"
  shows "receiver_ok cr transfer data csize m r \<Longrightarrow> live n \<Longrightarrow> inbox n = ps \<Longrightarrow> held r \<noteq> {..<m} \<Longrightarrow>
    \<forall>p \<in> set ps. p \<in> frame_wire cr transfer data csize m ` {..<m} \<or> (\<exists>e. data_decode p = Inl e) \<Longrightarrow>
    \<forall>i < m. i \<in> held r \<or> frame_wire cr transfer data csize m i \<in> set ps \<Longrightarrow>
    \<exists>n'. receive_loop cr t n r = Some (n', Inr data)"
proof (induction ps arbitrary: n r)
  case Nil
  then show ?case using held_bound [OF Nil.prems(1)] by auto
next
  case (Cons p ps)
  let ?frame = "frame_at cr transfer data csize m"
  obtain n1 where recv: "t_recv t n = (n1, Some (Inr p))" "live n1" "inbox n1 = ps"
    using recv_next [OF Cons.prems(2,3)] by blast
  show ?case
  proof (cases "\<exists>e. data_decode p = Inl e")
    case True
    then have skip: "receive_loop cr t n r = receive_loop cr t n1 r"
      by (subst receive_loop.simps) (auto simp: recv(1))
    have "p \<noteq> data_wire (?frame i)" if "i < m" for i
      using True data_decode_wire [OF frame_at_ok [OF ok that, of cr transfer]] by auto
    then show ?thesis
      unfolding skip using Cons.prems recv by (intro Cons.IH) auto
  next
    case False
    then obtain i where i: "i < m" "p = data_wire (?frame i)" using Cons.prems(5) by auto
    obtain n2 r' where step: "receive_frame cr t n1 r (?frame i) =
        Some (n2, Inr (r', if held r' = {..<m} then Some data else None))"
      and r': "receiver_ok cr transfer data csize m r'" "held r' = insert i (held r)" "live n2" "inbox n2 = ps"
      using receive_frame_accepts [OF ok Cons.prems(1) i(1) recv(2)] recv(3) by blast
    have unfolded: "receive_loop cr t n r =
        (if held r' = {..<m} then Some (n2, Inr data) else receive_loop cr t n2 r')"
      by (subst receive_loop.simps) (simp add: recv(1) i(2) data_decode_wire [OF frame_at_ok [OF ok i(1)]] step)
    have "j \<in> held r' \<or> data_wire (?frame j) \<in> set ps" if "j < m" for j
    proof (cases "data_wire (?frame j) = p")
      case True
      then have "j = i" using inj_onD [OF frame_wire_inj [OF ok, of cr transfer]] that i by simp
      then show ?thesis by (simp add: r'(2))
    next
      case False
      then show ?thesis using Cons.prems(6) that r'(2) by auto
    qed
    then have "\<exists>n'. receive_loop cr t n2 r' = Some (n', Inr data)" if "held r' \<noteq> {..<m}"
      using Cons.IH [OF r'(1,3,4) that] Cons.prems(5) by simp
    then show ?thesis unfolding unfolded by simp
  qed
qed

lemma recv_rldp_delivers:
  assumes ok: "transfer_ok data csize m" and n: "live n" "inbox n = frame_wire cr transfer data csize m i # ps" "i < m"
    and ps: "\<forall>p \<in> set ps. p \<in> frame_wire cr transfer data csize m ` {..<m} \<or> (\<exists>e. data_decode p = Inl e)"
    and all: "\<forall>j < m. j = i \<or> frame_wire cr transfer data csize m j \<in> set ps"
  shows "\<exists>n'. recv_rldp cr t n = Some (n', Inr data)"
proof -
  let ?frame = "frame_at cr transfer data csize m"
  obtain n1 where recv: "t_recv t n = (n1, Some (Inr (data_wire (?frame i))))" "live n1" "inbox n1 = ps"
    using recv_next [OF n(1,2)] by blast
  obtain r where r: "receiver_from_frame (?frame i) = Inr r" "receiver_ok cr transfer data csize m r" "held r = {}"
    using empty_receiver_ok [OF ok n(3)] by blast
  obtain n2 r' where step: "receive_frame cr t n1 r (?frame i) =
      Some (n2, Inr (r', if held r' = {..<m} then Some data else None))"
    and r': "receiver_ok cr transfer data csize m r'" "held r' = {i}" "live n2" "inbox n2 = ps"
    using receive_frame_accepts [OF ok r(2) n(3) recv(2)] recv(3) r(3) by auto
  have unfolded: "recv_rldp cr t n = (if held r' = {..<m} then Some (n2, Inr data) else receive_loop cr t n2 r')"
    by (simp add: recv_rldp_def recv(1) data_decode_wire [OF frame_at_ok [OF ok n(3)]] r(1) step)
  show ?thesis
    unfolding unfolded using receive_loop_delivers [OF ok r'(1,3,4) _ ps] all r'(2) by auto
qed

end

section \<open>What the sender relies on\<close>

text \<open>
  A property of the transport's state that receiving keeps, and that transmitting the packets of a
  given set keeps.
\<close>

locale datagram_outbox =
  fixes t :: "'n transport" and sound :: "'n \<Rightarrow> bool" and packets :: "bytes set"
  assumes recv_sound: "sound n \<Longrightarrow> sound (fst (t_recv t n))"
    and send_sound: "sound n \<Longrightarrow> p \<in> packets \<Longrightarrow> t_send t n p = Some (n', result) \<Longrightarrow> sound n'"
begin

lemma send_packets_sound:
  "sound n \<Longrightarrow> set ps \<subseteq> packets \<Longrightarrow> send_packets t n ps = Some (n', result) \<Longrightarrow> sound n'"
proof (induction ps arbitrary: n)
  case (Cons p ps)
  then show ?case by (auto split: option.splits prod.splits sum.splits dest: send_sound)
qed simp

end

text \<open>Waiting for acknowledgements only receives, and keeps the frames and the cursor of the sender.\<close>

definition same_transfer :: "sender \<Rightarrow> sender \<Rightarrow> bool" where
  "same_transfer s s' \<longleftrightarrow> s_frames s' = s_frames s \<and> s_transfer_id s' = s_transfer_id s \<and> s_cursor s' = s_cursor s"

definition awaited :: "('n \<Rightarrow> bool) \<Rightarrow> sender \<Rightarrow> 'n \<times> (network_error + sender) \<Rightarrow> bool" where
  "awaited sound s res \<longleftrightarrow> sound (fst res) \<and> (\<forall>s'. snd res = Inr s' \<longrightarrow> same_transfer s s')"

lemma apply_ack_same: "apply_ack s ack = (s', x) \<Longrightarrow> same_transfer s s'"
  by (auto simp: apply_ack_def same_transfer_def Let_def split: if_splits)

lemma awaited_same: "same_transfer s s' \<Longrightarrow> awaited sound s' res \<Longrightarrow> awaited sound s res"
  unfolding awaited_def same_transfer_def by metis

lemma await_acks_result:
  "await_acks t n s = Some res \<Longrightarrow> (\<forall>n. sound n \<longrightarrow> sound (fst (t_recv t n))) \<longrightarrow> sound n \<longrightarrow> awaited sound s res"
proof (erule await_acks.raw_induct [rotated])
  fix loop :: "'a transport \<Rightarrow> 'a \<Rightarrow> sender \<Rightarrow> ('a \<times> (network_error + sender)) option" and t n s res
  assume loop: "\<And>t n s res. loop t n s = Some res \<Longrightarrow>
      (\<forall>n. sound n \<longrightarrow> sound (fst (t_recv t n))) \<longrightarrow> sound n \<longrightarrow> awaited sound s res"
    and body: "(case t_recv t n of
        (n', None) \<Rightarrow> Some (n', Inr s)
      | (n', Some (Inl e)) \<Rightarrow> Some (n', Inr s)
      | (n', Some (Inr packet)) \<Rightarrow>
          (case ack_decode packet of
             Inl _ \<Rightarrow> loop t n' s
           | Inr ack \<Rightarrow>
               (case apply_ack s ack of
                  (s', Inl e) \<Rightarrow> Some (n', Inl e)
                | (s', Inr _) \<Rightarrow> if is_complete s' then Some (n', Inr s') else loop t n' s'))) = Some res"
  show "(\<forall>n. sound n \<longrightarrow> sound (fst (t_recv t n))) \<longrightarrow> sound n \<longrightarrow> awaited sound s res"
  proof (intro impI)
    assume recv: "\<forall>n. sound n \<longrightarrow> sound (fst (t_recv t n))" and n: "sound n"
    obtain n' x where tr: "t_recv t n = (n', x)" by fastforce
    then have n': "sound n'" using recv n by (metis fst_conv)
    have again: "awaited sound s res" if "loop t n' s' = Some res" "same_transfer s s'" for s'
      using loop [OF that(1)] recv n' awaited_same [OF that(2)] by blast
    have stop: "awaited sound s (n', Inr s)" "awaited sound s (n', Inl e)" for e
      using n' by (simp_all add: awaited_def same_transfer_def)
    have finish: "awaited sound s (n', Inr s')" if "same_transfer s s'" for s'
      using n' that by (simp add: awaited_def)
    have refl: "same_transfer s s" by (simp add: same_transfer_def)
    show "awaited sound s res"
    proof (cases x)
      case None
      then show ?thesis using body stop by (auto simp: tr)
    next
      case (Some y)
      show ?thesis
      proof (cases y)
        case (Inl e)
        then show ?thesis using body stop by (auto simp: tr Some)
      next
        case (Inr packet)
        show ?thesis
        proof (cases "ack_decode packet")
          case (Inl e)
          then show ?thesis using body again [OF _ refl] by (simp add: tr Some \<open>y = Inr packet\<close>)
        next
          case ack: (Inr ack)
          obtain s' z where applied: "apply_ack s ack = (s', z)" by fastforce
          note same = apply_ack_same [OF applied]
          show ?thesis
            using body again [OF _ same] finish [OF same] stop
            by (cases z) (auto simp: tr Some \<open>y = Inr packet\<close> ack applied split: if_splits)
        qed
      qed
    qed
  qed
qed

context datagram_outbox
begin

lemma send_rounds_sound:
  assumes ok: "transfer_ok data csize m" and wires: "frame_wire cr transfer data csize m ` {..<m} \<subseteq> packets"
  shows "sender_ok cr transfer data csize m s \<Longrightarrow> sound n \<Longrightarrow> send_rounds t rounds n s = Some (n', result) \<Longrightarrow> sound n'"
proof (induction rounds arbitrary: n s)
  case (Suc rounds)
  obtain cur ps where round: "next_round s = Some (s\<lparr>s_cursor := cur\<rparr>, ps)"
    "sender_ok cr transfer data csize m (s\<lparr>s_cursor := cur\<rparr>)" "set ps \<subseteq> packets"
    using next_round_ok [OF ok Suc.prems(1)] wires by (auto simp: image_image)
  define s' where "s' = s\<lparr>s_cursor := cur\<rparr>"
  obtain n1 x where sent: "send_packets t n ps = Some (n1, x)" "sound n1"
    using Suc.prems(2,3) round send_packets_sound [of n ps] by (auto split: option.splits)
  have kept: "awaited sound s' res" if "await_acks t n1 s' = Some res" for res
    using await_acks_result [OF that, of sound] recv_sound sent(2) by blast
  have next_ok: "sender_ok cr transfer data csize m s''" if "same_transfer s' s''" for s''
    using that round(2) by (simp add: same_transfer_def sender_ok_def s'_def)
  show ?case
    using Suc.prems(3) round(1) sent kept
    by (auto simp: s'_def [symmetric] awaited_def split: sum.splits option.splits prod.splits if_splits
        dest!: next_ok intro: Suc.IH)
qed simp

lemma send_rldp_sound:
  assumes "sender_new cr transfer data cfg = Inr s" "data_wire ` set (s_frames s) \<subseteq> packets" "sound n"
    "send_rldp cr t n transfer data cfg = Some (n', result)"
  shows "sound n'"
proof -
  let ?m = "length (s_frames s)" and ?csize = "cfg_chunk_size cfg"
  have s: "sender_ok cr transfer data ?csize ?m s"
    using exchange_start(2) [OF assms(1)] by (simp add: exchange_inv_def exchange_init_def)
  then have "frame_wire cr transfer data ?csize ?m ` {..<?m} \<subseteq> packets"
    using assms(2) unfolding sender_ok_def frames_of_def by (metis image_image image_set lessThan_atLeast0 set_upt)
  from send_rounds_sound [OF exchange_start(1) [OF assms(1)] this s assms(3)] show ?thesis
    using assms(1,4) by (simp add: send_rldp_def)
qed

end

section \<open>The transport of a node with a peer\<close>

text \<open>
  A node with the datagrams that will arrive at its socket, each with the endpoint it comes from, and
  those it has handed to it. The socket refuses a datagram above a maximal size; the nonce of every
  packet is fresh, taken from a sequence.
\<close>

record 'a link =
  lk_node :: "'a adnl_node"
  lk_inbox :: "(bytes \<times> 'a) list"
  lk_outbox :: "(bytes \<times> 'a) list"

definition adnl_transport ::
  "crypto \<Rightarrow> cipher \<Rightarrow> nat \<Rightarrow> (nat \<Rightarrow> 256 word) \<Rightarrow> public_key \<Rightarrow> 'a \<Rightarrow> 'a link transport" where
  "adnl_transport cr ci mtu nonces peer_key endpoint =
     \<lparr>t_send = (\<lambda>l packet.
        case send_datagram cr ci (\<lambda>out w e. if length w \<le> mtu then (out @ [(w, e)], True) else (out, False))
               (lk_outbox l) (nonces (length (lk_outbox l))) (lk_node l) peer_key endpoint packet of
          None \<Rightarrow> None
        | Some (nd, out, result) \<Rightarrow> Some (l\<lparr>lk_node := nd, lk_outbox := out\<rparr>, result)),
      t_recv = (\<lambda>l.
        case lk_inbox l of
          [] \<Rightarrow> (l, None)
        | d # ds \<Rightarrow> (l\<lparr>lk_inbox := ds\<rparr>,
            Some (bindR (recv_datagram cr ci (lk_node l) (Some d)) (\<lambda>(_, packet, _). Inr packet))))\<rparr>"

text \<open>The payloads that will arrive, and the states in which all of them do.\<close>

definition carried :: "crypto \<Rightarrow> cipher \<Rightarrow> 'a adnl_node \<Rightarrow> bytes \<times> 'a \<Rightarrow> bytes" where
  "carried cr ci nd d = (case recv_datagram cr ci nd (Some d) of Inr (_, packet, _) \<Rightarrow> packet | Inl _ \<Rightarrow> [])"

definition link_live :: "crypto \<Rightarrow> cipher \<Rightarrow> nat \<Rightarrow> 256 word \<Rightarrow> 256 word \<Rightarrow> 'a link \<Rightarrow> bool" where
  "link_live cr ci mtu own peer l \<longleftrightarrow> 8364 \<le> mtu \<and> linked cr ci (lk_node l) own peer \<and>
     (\<forall>d \<in> set (lk_inbox l). \<exists>x. recv_datagram cr ci (lk_node l) (Some d) = Inr x)"

text \<open>The datagrams that carry one of the packets over the channel, and an outbox of such datagrams.\<close>

definition over_channel :: "crypto \<Rightarrow> cipher \<Rightarrow> nat \<Rightarrow> 256 word \<Rightarrow> 256 word \<Rightarrow> bytes set \<Rightarrow> bytes \<times> 'a \<Rightarrow> bool" where
  "over_channel cr ci mtu own peer packets d \<longleftrightarrow>
     (\<exists>nonce p. p \<in> packets \<and> fst d = channel_wire cr ci own peer nonce p \<and> 130 + length p \<le> mtu)"

definition link_sound :: "crypto \<Rightarrow> cipher \<Rightarrow> nat \<Rightarrow> 256 word \<Rightarrow> 256 word \<Rightarrow> bytes set \<Rightarrow> 'a link \<Rightarrow> bool" where
  "link_sound cr ci mtu own peer packets l \<longleftrightarrow> linked cr ci (lk_node l) own peer \<and>
     list_all (over_channel cr ci mtu own peer packets) (lk_outbox l)"

lemma over_channelI: "p \<in> packets \<Longrightarrow> 130 + length p \<le> mtu \<Longrightarrow>
    over_channel cr ci mtu own peer packets (channel_wire cr ci own peer nonce p, e)"
  by (auto simp: over_channel_def)

lemma length_channel_wire [simp]: "length (channel_wire cr ci own peer nonce p) = 130 + length p"
  by (simp add: channel_wire_def fast_encode_def)

interpretation incoming: datagram_inbox "adnl_transport cr ci mtu nonces (sk_public_key cr peer) endpoint"
  "\<lambda>l. map (carried cr ci (lk_node l)) (lk_inbox l)" "link_live cr ci mtu own peer"
proof unfold_locales
  fix l :: "'a link" and p ps
  assume "link_live cr ci mtu own peer l" "map (carried cr ci (lk_node l)) (lk_inbox l) = p # ps"
  then show "\<exists>l'. t_recv (adnl_transport cr ci mtu nonces (sk_public_key cr peer) endpoint) l = (l', Some (Inr p)) \<and>
      link_live cr ci mtu own peer l' \<and> map (carried cr ci (lk_node l')) (lk_inbox l') = ps"
    by (auto simp: adnl_transport_def link_live_def carried_def Cons_eq_map_conv)
next
  fix l :: "'a link" and p :: bytes
  assume "link_live cr ci mtu own peer l" "length p \<le> 8234"
  then show "\<exists>l'. t_send (adnl_transport cr ci mtu nonces (sk_public_key cr peer) endpoint) l p = Some (l', Inr ()) \<and>
      link_live cr ci mtu own peer l' \<and>
      map (carried cr ci (lk_node l')) (lk_inbox l') = map (carried cr ci (lk_node l)) (lk_inbox l)"
    by (auto simp: adnl_transport_def link_live_def linked_send)
qed

interpretation outgoing: datagram_outbox "adnl_transport cr ci mtu nonces (sk_public_key cr peer) endpoint"
  "link_sound cr ci mtu own peer packets" packets
proof unfold_locales
  fix l :: "'a link"
  assume "link_sound cr ci mtu own peer packets l"
  then show "link_sound cr ci mtu own peer packets
      (fst (t_recv (adnl_transport cr ci mtu nonces (sk_public_key cr peer) endpoint) l))"
    by (auto simp: adnl_transport_def link_sound_def split: list.splits)
next
  fix l l' :: "'a link" and p result
  assume "link_sound cr ci mtu own peer packets l" "p \<in> packets"
    "t_send (adnl_transport cr ci mtu nonces (sk_public_key cr peer) endpoint) l p = Some (l', result)"
  then show "link_sound cr ci mtu own peer packets l'"
    by (auto simp: adnl_transport_def link_sound_def linked_send over_channelI split: if_splits)
qed

section \<open>A payload over the channel\<close>

lemma over_channel_received:
  assumes "agrees cr ci" "linked cr ci nd b a" "pair_channel cr ci a b \<noteq> address_of cr b" "mtu \<le> 65535"
    and d: "over_channel cr ci mtu a b packets d" "fst d' = fst d"
  shows "\<exists>x. recv_datagram cr ci nd (Some d') = Inr x" "carried cr ci nd d' \<in> packets"
proof -
  obtain nonce p where p: "p \<in> packets" "fst d' = channel_wire cr ci a b nonce p" "length p \<le> 65405"
    using d \<open>mtu \<le> 65535\<close> by (auto simp: over_channel_def)
  have "recv_datagram cr ci nd (Some d') = Inr (address_of cr a, p, snd d')"
    using linked_recv [OF assms(1-3) p(3), of nonce "snd d'"] p(2) by (metis prod.collapse)
  then show "\<exists>x. recv_datagram cr ci nd (Some d') = Inr x" "carried cr ci nd d' \<in> packets"
    using p(1) by (simp_all add: carried_def)
qed

lemma sent_frames:
  assumes "sender_new cr transfer data cfg = Inr s"
  shows "set (s_frames s) = frame_at cr transfer data (cfg_chunk_size cfg) (length (s_frames s)) ` {..<length (s_frames s)}"
  using assms by (auto simp: sender_new_Inr frames_of_def)

lemma arrivals_delivered:
  assumes agree: "agrees cr ci" and b: "linked cr ci node_b b a" and channel: "pair_channel cr ci a b \<noteq> address_of cr b"
    and mtu: "8364 \<le> mtu" "mtu \<le> 65535" and new: "sender_new cr transfer data cfg = Inr s"
    and arrivals: "list_all (over_channel cr ci mtu a b (data_wire ` set (s_frames s))) arrivals"
      "data_wire ` set (s_frames s) \<subseteq> carried cr ci node_b ` set arrivals"
  shows "\<exists>l_b. recv_rldp cr (adnl_transport cr ci mtu nonces (sk_public_key cr a) endpoint_a)
    \<lparr>lk_node = node_b, lk_inbox = arrivals, lk_outbox = out\<rparr> = Some (l_b, Inr data)"
proof -
  define m where "m = length (s_frames s)"
  define csize where "csize = cfg_chunk_size cfg"
  let ?wire = "frame_wire cr transfer data csize m"
  let ?l = "\<lparr>lk_node = node_b, lk_inbox = arrivals, lk_outbox = out\<rparr>"
  have ok: "transfer_ok data csize m" using exchange_start(1) [OF new] by (simp add: m_def csize_def)
  have wires: "data_wire ` set (s_frames s) = ?wire ` {..<m}"
    unfolding m_def csize_def by (subst sent_frames [OF new]) (simp add: image_image)
  have each: "(\<exists>x. recv_datagram cr ci node_b (Some d) = Inr x) \<and> carried cr ci node_b d \<in> ?wire ` {..<m}"
    if "d \<in> set arrivals" for d
    using over_channel_received [OF agree b channel mtu(2), of "data_wire ` set (s_frames s)" d d] that arrivals(1)
    unfolding wires list_all_iff by blast
  then have live: "link_live cr ci mtu b a ?l" using mtu(1) b by (simp add: link_live_def)
  have "arrivals \<noteq> []" using arrivals(2) transfer_count_pos [OF ok] by (auto simp: wires)
  then obtain d ds where ds: "arrivals = d # ds" by (cases arrivals) auto
  obtain i where i: "i < m" "carried cr ci node_b d = ?wire i" using each [of d] by (auto simp: ds)
  have inbox: "map (carried cr ci (lk_node ?l)) (lk_inbox ?l) = ?wire i # map (carried cr ci node_b) ds"
    by (simp add: ds i(2))
  have frames: "\<forall>p \<in> set (map (carried cr ci node_b) ds). p \<in> ?wire ` {..<m} \<or> (\<exists>e. data_decode p = Inl e)"
    using each by (simp add: ds)
  have all: "\<forall>j < m. j = i \<or> ?wire j \<in> set (map (carried cr ci node_b) ds)"
  proof (intro allI impI)
    fix j assume "j < m"
    then have "?wire j \<in> insert (?wire i) (set (map (carried cr ci node_b) ds))"
      using arrivals(2) i(2) unfolding wires by (auto simp: ds)
    then show "j = i \<or> ?wire j \<in> set (map (carried cr ci node_b) ds)"
      using inj_onD [OF frame_wire_inj [OF ok, of cr transfer], of j i] \<open>j < m\<close> i(1) by auto
  qed
  show ?thesis by (rule incoming.recv_rldp_delivers [OF ok live inbox i(1) frames all])
qed

section \<open>What the sender sends\<close>

text \<open>
  A node at which nothing but acknowledgements arrives, with packets that its outbox carries to its
  peer.
\<close>

definition link_quiet :: "crypto \<Rightarrow> cipher \<Rightarrow> 256 word \<Rightarrow> 256 word \<Rightarrow> bytes set \<Rightarrow> 'a link \<Rightarrow> bool" where
  "link_quiet cr ci own peer sent l \<longleftrightarrow> linked cr ci (lk_node l) own peer \<and>
     (\<forall>d \<in> set (lk_inbox l). \<forall>x p y. recv_datagram cr ci (lk_node l) (Some d) = Inr (x, p, y) \<longrightarrow> (\<exists>a. p = ack_encode a)) \<and>
     (\<forall>p \<in> sent. \<exists>nonce e. (channel_wire cr ci own peer nonce p, e) \<in> set (lk_outbox l))"

abbreviation peer_link :: "crypto \<Rightarrow> cipher \<Rightarrow> nat \<Rightarrow> (nat \<Rightarrow> 256 word) \<Rightarrow> 256 word \<Rightarrow> 'a \<Rightarrow> 'a link transport" where
  "peer_link cr ci mtu nonces peer endpoint \<equiv> adnl_transport cr ci mtu nonces (sk_public_key cr peer) endpoint"

lemma quiet_recv: "brings_acks (peer_link cr ci mtu nonces peer endpoint) (link_quiet cr ci own peer sent) (\<lambda>l. length (lk_inbox l))"
  unfolding brings_acks_def
proof (intro allI impI, elim conjE)
  fix l l' x
  assume quiet: "link_quiet cr ci own peer sent l" and recv: "t_recv (peer_link cr ci mtu nonces peer endpoint) l = (l', x)"
  show "link_quiet cr ci own peer sent l' \<and> (\<forall>p. x = Some (Inr p) \<longrightarrow> (\<exists>a. p = ack_encode a) \<and> length (lk_inbox l') < length (lk_inbox l))"
  proof (cases "lk_inbox l")
    case Nil
    then show ?thesis using quiet recv by (auto simp: adnl_transport_def)
  next
    case (Cons d ds)
    then show ?thesis using quiet recv by (auto simp: adnl_transport_def link_quiet_def bindR_Inr)
  qed
qed

lemma quiet_send:
  assumes "link_quiet cr ci own peer sent l" "130 + length p \<le> mtu"
  shows "\<exists>l'. t_send (peer_link cr ci mtu nonces peer endpoint) l p = Some (l', Inr ()) \<and> link_quiet cr ci own peer (insert p sent) l'"
proof -
  have "linked cr ci (lk_node l) own peer" using assms(1) by (simp add: link_quiet_def)
  then show ?thesis
    using assms by (auto simp: adnl_transport_def linked_send link_quiet_def) blast
qed

lemma quiet_mono: "link_quiet cr ci own peer sent l \<Longrightarrow> sent' \<subseteq> sent \<Longrightarrow> link_quiet cr ci own peer sent' l"
  by (auto simp: link_quiet_def)

lemma quiet_transmits:
  "\<forall>p \<in> packets. 130 + length p \<le> mtu \<Longrightarrow>
     transmits (peer_link cr ci mtu nonces peer endpoint) (link_quiet cr ci own peer sent) packets"
  unfolding transmits_def by (meson quiet_mono quiet_send subset_insertI)

lemma quiet_packets:
  "link_quiet cr ci own peer sent l \<Longrightarrow> \<forall>p \<in> set ps. 130 + length p \<le> mtu \<Longrightarrow>
     \<exists>l'. send_packets (peer_link cr ci mtu nonces peer endpoint) l ps = Some (l', Inr ()) \<and>
       link_quiet cr ci own peer (set ps \<union> sent) l'"
proof (induction ps arbitrary: l sent)
  case (Cons p ps)
  then obtain l' where "t_send (peer_link cr ci mtu nonces peer endpoint) l p = Some (l', Inr ())"
    "link_quiet cr ci own peer (insert p sent) l'"
    using quiet_send [of cr ci own peer sent l p mtu nonces endpoint] by auto
  then show ?case using Cons.IH [of "insert p sent" l'] Cons.prems(2) by simp
qed simp

text \<open>The first round transmits every frame when it has room for all of them.\<close>

lemma first_round_complete:
  assumes new: "sender_new cr transfer data cfg = Inr s" and room: "length (s_frames s) \<le> frames_per_round cfg"
  shows "\<exists>cur ps. next_round s = Some (s\<lparr>s_cursor := cur\<rparr>, ps) \<and> set ps = data_wire ` set (s_frames s)"
proof -
  let ?m = "length (s_frames s)" and ?csize = "cfg_chunk_size cfg"
  have ok: "transfer_ok data ?csize ?m" and s: "sender_ok cr transfer data ?csize ?m s"
    using exchange_start [OF new] by (auto simp: exchange_inv_def exchange_init_def)
  have fields: "0 < redundancy (s_config s)" "acknowledged s = {}" "s_config s = cfg" "s_cursor s = 0 mod ?m"
    using new by (auto simp: sender_new_Inr)
  have "(\<lambda>i. i mod ?m) ` {0..<?m} = {..<?m}"
    using mod_image [OF transfer_count_pos [OF ok], of ?m] by (simp add: lessThan_atLeast0)
  then have "set (copies (packets_per_round cfg) (redundancy cfg) (map (wire_at cr transfer data ?csize ?m) [0..<0 + ?m])) =
      data_wire ` set (s_frames s)"
    using fields(1,3) room by (subst set_round)
      (simp_all add: sent_frames [OF new] image_image [of "\<lambda>i. data_wire (frame_at cr transfer data ?csize ?m i)" "\<lambda>i. i mod ?m", symmetric],
        simp add: image_image)
  then show ?thesis using next_round_open [OF ok s fields(2,1,4)] by (auto simp: fields(3))
qed

lemma one_round_sends_all:
  assumes new: "sender_new cr transfer data cfg = Inr s" and room: "length (s_frames s) \<le> frames_per_round cfg" "0 < max_rounds cfg"
    and l: "link_quiet cr ci own peer {} l" and mtu: "210 + cfg_chunk_size cfg \<le> mtu"
  shows "\<exists>l'. send_rldp cr (peer_link cr ci mtu nonces peer endpoint) l transfer data cfg = Some (l', Inl RldpTimeout) \<and>
    link_quiet cr ci own peer (data_wire ` set (s_frames s)) l'"
proof -
  let ?m = "length (s_frames s)" and ?csize = "cfg_chunk_size cfg"
  let ?t = "peer_link cr ci mtu nonces peer endpoint" and ?wires = "data_wire ` set (s_frames s)"
  have ok: "transfer_ok data ?csize ?m" and s: "sender_ok cr transfer data ?csize ?m s" "acknowledged s = {}"
    using exchange_start [OF new] new by (auto simp: exchange_inv_def exchange_init_def sender_new_Inr)
  have frames: "s_frames s = frames_of cr transfer data ?csize ?m" using s(1) by (simp add: sender_ok_def)
  have small: "\<forall>p \<in> ?wires. 130 + length p \<le> mtu"
    using mtu by (subst sent_frames [OF new]) (auto simp: data_wire_fields frame_at_def)
  obtain rounds where rounds: "max_rounds cfg = Suc rounds" using room(2) gr0_conv_Suc by blast
  obtain cur ps where round: "next_round s = Some (s\<lparr>s_cursor := cur\<rparr>, ps)" "set ps = ?wires"
    using first_round_complete [OF new room(1)] by blast
  have next_ok: "sender_ok cr transfer data ?csize ?m (s\<lparr>s_cursor := cur\<rparr>)"
    using next_round_ok [OF ok s(1)] round(1) by (metis option.inject prod.inject)
  obtain l1 where sent: "send_packets ?t l ps = Some (l1, Inr ())" "link_quiet cr ci own peer ?wires l1"
    using quiet_packets [OF l, of ps mtu nonces endpoint] small round(2) by auto
  obtain l2 where await: "await_acks ?t l1 (s\<lparr>s_cursor := cur\<rparr>) = Some (l2, Inr (s\<lparr>s_cursor := cur\<rparr>))"
    "link_quiet cr ci own peer ?wires l2"
    using await_acks_ignores [OF quiet_recv sent(2)] by blast
  have "transmits ?t (link_quiet cr ci own peer ?wires) (data_wire ` set (frames_of cr transfer data ?csize ?m))"
    using quiet_transmits [OF small] by (simp flip: frames)
  from send_rounds_time_out [OF quiet_recv this ok next_ok _ await(2)] s(2)
  obtain l' where "send_rounds ?t rounds l2 (s\<lparr>s_cursor := cur\<rparr>) = Some (l', Inl RldpTimeout)"
    "link_quiet cr ci own peer ?wires l'" by auto
  moreover have "\<not> is_complete (s\<lparr>s_cursor := cur\<rparr>)"
    using s(2) transfer_count_pos [OF ok] by (simp add: is_complete_def)
  ultimately show ?thesis
    using new rounds round(1) sent(1) await(1) by (simp add: send_rldp_def)
qed

section \<open>Properties\<close>

text \<open>
  C14. Two nodes have connected to each other and one of them sends a payload, whatever arrives at
  it meanwhile. If the datagrams that arrive at the other one are among those the first one sent, in
  any order, any number of times and with any of them lost, and carry every frame of the payload,
  then the other one returns exactly the payload. The sockets carry datagrams of up to 8364 to 65535
  bytes, and the identifier of the channel does not collide with the address of the receiver.
\<close>

theorem payload_crosses_channel:
  assumes "agrees cr ci"
    and "connect_peer cr ci (adnl_bind cr a) (sk_public_key cr b) endpoint_b = Some (node_a, session_a)"
    and "connect_peer cr ci (adnl_bind cr b) (sk_public_key cr a) endpoint_a = Some (node_b, session_b)"
    and "channel_id session_a \<noteq> nd_abstract_address node_b" "8364 \<le> mtu" "mtu \<le> 65535"
    and "sender_new cr transfer data cfg = Inr s"
    and "send_rldp cr (adnl_transport cr ci mtu nonces_a (sk_public_key cr b) endpoint_b)
      \<lparr>lk_node = node_a, lk_inbox = inbox_a, lk_outbox = []\<rparr> transfer data cfg = Some (l_a, result)"
    and "fst ` set arrivals \<subseteq> fst ` set (lk_outbox l_a)"
    and "\<forall>f \<in> set (s_frames s). \<exists>d \<in> set arrivals. data_encode f = Inr (carried cr ci node_b d)"
  shows "\<exists>l_b. recv_rldp cr (adnl_transport cr ci mtu nonces_b (sk_public_key cr a) endpoint_a)
    \<lparr>lk_node = node_b, lk_inbox = arrivals, lk_outbox = []\<rparr> = Some (l_b, Inr data)"
proof -
  note a = connect_linked [OF assms(1,2)] and b = connect_linked [OF assms(1,3)]
  let ?packets = "data_wire ` set (s_frames s)"
  have channel: "pair_channel cr ci a b \<noteq> address_of cr b" using assms(4) by (simp add: a(2) b(3) pair_session_def)
  have "link_sound cr ci mtu a b ?packets l_a"
    using outgoing.send_rldp_sound [OF assms(7) _ _ assms(8), of ?packets a] a(1) by (simp add: link_sound_def)
  then have sent: "\<forall>d \<in> set (lk_outbox l_a). over_channel cr ci mtu a b ?packets d"
    by (simp add: link_sound_def list_all_iff)
  have "over_channel cr ci mtu a b ?packets d" if "d \<in> set arrivals" for d
  proof -
    have "fst d \<in> fst ` set (lk_outbox l_a)" using assms(9) that by blast
    then obtain d' where "d' \<in> set (lk_outbox l_a)" "fst d = fst d'" by blast
    then show ?thesis using sent by (simp add: over_channel_def)
  qed
  moreover have "?packets \<subseteq> carried cr ci node_b ` set arrivals"
  proof (rule image_subsetI)
    fix f assume "f \<in> set (s_frames s)"
    then obtain d where d: "d \<in> set arrivals" "data_encode f = Inr (carried cr ci node_b d)"
      using assms(10) by blast
    then show "data_wire f \<in> carried cr ci node_b ` set arrivals"
      by (intro image_eqI [OF _ d(1)]) (simp add: data_encode_wire)
  qed
  ultimately show ?thesis
    using arrivals_delivered [OF assms(1) b(1) channel assms(5-7), of arrivals] by (simp add: list_all_iff)
qed

text \<open>A transfer of three bytes in the toy instance: the sender times out, the receiver has the payload.\<close>

theorem payload_crosses_channel_witness:
  "\<exists>node_a node_b l_a l_b.
    send_rldp toy_crypto (peer_link toy_crypto toy_cipher 65507 (\<lambda>_. 4) 2 ''b'')
      \<lparr>lk_node = node_a, lk_inbox = [], lk_outbox = []\<rparr> 7 [1, 2, 3] sample_config = Some (l_a, Inl RldpTimeout) \<and>
    recv_rldp toy_crypto (peer_link toy_crypto toy_cipher 65507 (\<lambda>_. 5) 1 ''a'')
      \<lparr>lk_node = node_b, lk_inbox = rev (lk_outbox l_a), lk_outbox = []\<rparr> = Some (l_b, Inr [1, 2, 3])"
proof -
  let ?wires = "data_wire ` set (s_frames sample_sender)"
  obtain node_a where connect_a: "connect_peer toy_crypto toy_cipher (adnl_bind toy_crypto 1) (sk_public_key toy_crypto 2) ''b'' =
      Some (node_a, pair_session toy_crypto toy_cipher 1 2 ''b'')"
    using toy_connected [of 1 2 "''b''"] by (elim exE)
  obtain node_b where connect_b: "connect_peer toy_crypto toy_cipher (adnl_bind toy_crypto 2) (sk_public_key toy_crypto 1) ''a'' =
      Some (node_b, pair_session toy_crypto toy_cipher 2 1 ''a'')"
    using toy_connected [of 2 1 "''a''"] by (elim exE)
  note a = connect_linked [OF toy_agrees connect_a] and b = connect_linked [OF toy_agrees connect_b]
  have channel: "channel_id (pair_session toy_crypto toy_cipher 1 2 ''b'') \<noteq> nd_abstract_address node_b"
    using toy_channel by (simp add: b(3) pair_session_def)
  have quiet: "link_quiet toy_crypto toy_cipher 1 2 {} \<lparr>lk_node = node_a, lk_inbox = [], lk_outbox = []\<rparr>"
    using a(1) by (simp add: link_quiet_def)
  have room: "length (s_frames sample_sender) \<le> frames_per_round sample_config" "0 < max_rounds sample_config"
    "210 + cfg_chunk_size sample_config \<le> 65507"
    by (simp_all add: sample_sender_def sample_config_def frames_per_round_def div_ceil_def)
  obtain l_a where sent: "send_rldp toy_crypto (peer_link toy_crypto toy_cipher 65507 (\<lambda>_. 4) 2 ''b'')
      \<lparr>lk_node = node_a, lk_inbox = [], lk_outbox = []\<rparr> 7 [1, 2, 3] sample_config = Some (l_a, Inl RldpTimeout)"
    "link_quiet toy_crypto toy_cipher 1 2 ?wires l_a"
    using one_round_sends_all [OF sample_sender_new room(1,2) quiet room(3)] by blast
  have carried: "\<forall>f \<in> set (s_frames sample_sender). \<exists>d \<in> set (rev (lk_outbox l_a)).
      data_encode f = Inr (carried toy_crypto toy_cipher node_b d)"
  proof
    fix f assume f: "f \<in> set (s_frames sample_sender)"
    then obtain nonce e where "(channel_wire toy_crypto toy_cipher 1 2 nonce (data_wire f), e) \<in> set (lk_outbox l_a)"
      using sent(2) by (auto simp: link_quiet_def)
    moreover have "frame_ok f" "length (data_wire f) \<le> 65405"
      using f sent_frames [OF sample_sender_new] frame_at_ok [OF exchange_start(1) [OF sample_sender_new]]
      by (auto simp: data_wire_fields frame_at_def sample_config_def)
    ultimately show "\<exists>d \<in> set (rev (lk_outbox l_a)). data_encode f = Inr (carried toy_crypto toy_cipher node_b d)"
      using linked_recv [OF toy_agrees b(1) toy_channel]
      by (intro bexI [of _ "(channel_wire toy_crypto toy_cipher 1 2 nonce (data_wire f), e)"])
        (simp_all add: data_encode_wire carried_def)
  qed
  have "\<exists>l_b. recv_rldp toy_crypto (peer_link toy_crypto toy_cipher 65507 (\<lambda>_. 5) 1 ''a'')
      \<lparr>lk_node = node_b, lk_inbox = rev (lk_outbox l_a), lk_outbox = []\<rparr> = Some (l_b, Inr [1, 2, 3])"
    by (rule payload_crosses_channel [OF toy_agrees connect_a connect_b channel _ _ sample_sender_new sent(1) _ carried]) simp_all
  then show ?thesis using sent(1) by blast
qed

text \<open>
  Any datagram that is too short, from whatever endpoint, ends a transfer with an error: the loop that
  skips payloads that are no frames returns the errors of the transport.
\<close>

lemma stray_datagram_aborts:
  assumes "lk_inbox l = (w, source) # ds" "length w < 32"
  shows "recv_rldp cr (adnl_transport cr ci mtu nonces peer_key endpoint) l = Some (l\<lparr>lk_inbox := ds\<rparr>, Inl TruncatedPacket)"
    "receive_loop cr (adnl_transport cr ci mtu nonces peer_key endpoint) l r = Some (l\<lparr>lk_inbox := ds\<rparr>, Inl TruncatedPacket)"
proof -
  have recv: "t_recv (adnl_transport cr ci mtu nonces peer_key endpoint) l = (l\<lparr>lk_inbox := ds\<rparr>, Some (Inl TruncatedPacket))"
    using assms by (simp add: adnl_transport_def recv_datagram_def Let_def)
  show "recv_rldp cr (adnl_transport cr ci mtu nonces peer_key endpoint) l = Some (l\<lparr>lk_inbox := ds\<rparr>, Inl TruncatedPacket)"
    by (simp add: recv_rldp_def recv)
  show "receive_loop cr (adnl_transport cr ci mtu nonces peer_key endpoint) l r = Some (l\<lparr>lk_inbox := ds\<rparr>, Inl TruncatedPacket)"
    by (subst receive_loop.simps) (simp add: recv)
qed

end
