(* ===== verification/Dht.thy ===== *)
theory Dht
  imports Networking Machines "HOL-Library.Multiset"
begin

unbundle bit_operations_syntax

text \<open>
  \<open>crates/node/onx-networking/src/dht_daemon.rs\<close>: the node of the distributed hash table, its routing
  buckets and record cache, the handler of incoming requests, the iterative lookup of nodes and
  values, and signed records. Requests to other nodes go through a transport, which is an argument,
  as is the clock.
\<close>

section \<open>Contacts and requests\<close>

definition K_BUCKET_SIZE :: nat where
  "K_BUCKET_SIZE = 20"

definition LOOKUP_ALPHA :: nat where
  "LOOKUP_ALPHA = 3"

record contact =
  node_id :: hash32
  contact_key :: public_key

definition from_public_key :: "crypto \<Rightarrow> public_key \<Rightarrow> contact" where
  "from_public_key cr pk = \<lparr>node_id = compute_abstract_address cr (new_ed25519 pk), contact_key = pk\<rparr>"

datatype dht_rpc =
    Ping contact
  | Store contact dht_record public_key
  | FindNode contact hash32
  | FindValue contact hash32

datatype dht_response =
    Pong
  | Stored
  | Nodes "contact list"
  | Value dht_record public_key

text \<open>
  The environment of a node, with a state of its own: a call to another node, which returns its
  response or an error, and the clock in seconds.
\<close>

record 'n dht_env =
  call :: "'n \<Rightarrow> contact \<Rightarrow> dht_rpc \<Rightarrow> 'n \<times> (network_error + dht_response)"
  unix_time_secs :: "'n \<Rightarrow> u64"

record stored_record =
  st_record :: dht_record
  st_owner :: public_key

record dht_daemon =
  local_contact :: contact
  buckets :: "contact list list"
  records :: "hash32 \<Rightarrow> stored_record option"

definition dht_new :: "crypto \<Rightarrow> public_key \<Rightarrow> dht_daemon" where
  "dht_new cr pk = \<lparr>local_contact = from_public_key cr pk, buckets = replicate 256 [], records = Map.empty\<rparr>"

section \<open>The routing table\<close>

text \<open>The loop of \<open>bucket_index\<close> over the bytes of the distance, the first one at index \<open>i\<close>.\<close>

fun first_set_bit :: "nat \<Rightarrow> bytes \<Rightarrow> nat option" where
  "first_set_bit i [] = None"
| "first_set_bit i (b # bs) = (if b \<noteq> 0 then Some (i * 8 + leading_zeros b) else first_set_bit (Suc i) bs)"

definition bucket_index :: "hash32 \<Rightarrow> hash32 \<Rightarrow> nat option" where
  "bucket_index local remote = first_set_bit 0 (encode (xor_distance local remote))"

text \<open>A contact moves to the end of its bucket; a bucket that grows too long loses its first entry.\<close>

definition touch :: "contact list \<Rightarrow> contact \<Rightarrow> contact list" where
  "touch bucket c =
     (let without = (case find (\<lambda>e. node_id e = node_id c) bucket of
                       None \<Rightarrow> bucket
                     | Some e \<Rightarrow> remove1 e bucket);
          pushed = without @ [c]
      in if length pushed > K_BUCKET_SIZE then tl pushed else pushed)"

definition add_contact :: "crypto \<Rightarrow> dht_daemon \<Rightarrow> contact \<Rightarrow> dht_daemon" where
  "add_contact cr d c =
     (if node_id c = node_id (local_contact d) \<or>
         compute_abstract_address cr (new_ed25519 (contact_key c)) \<noteq> node_id c
      then d
      else case bucket_index (node_id (local_contact d)) (node_id c) of
             None \<Rightarrow> d
           | Some i \<Rightarrow> d\<lparr>buckets := (buckets d)[i := touch (buckets d ! i) c]\<rparr>)"

definition closest_contacts :: "dht_daemon \<Rightarrow> hash32 \<Rightarrow> nat \<Rightarrow> contact list" where
  "closest_contacts d target limit =
     take limit (sort_key (\<lambda>c. xor_distance (node_id c) target) (concat (buckets d)))"

section \<open>Records\<close>

definition validate_record ::
  "crypto \<Rightarrow> u64 \<Rightarrow> dht_record \<Rightarrow> public_key \<Rightarrow> hash32 option \<Rightarrow> network_error + unit" where
  "validate_record cr now r owner requested_key =
     (if (case requested_key of None \<Rightarrow> False | Some key \<Rightarrow> key \<noteq> rec_key r) then Inl DhtMalformedRecord
      else if rec_expiry r \<le> now then Inl DhtRecordExpired
      else if compute_abstract_address cr (new_ed25519 owner) \<noteq> rec_owner_address r then Inl InvalidPacketSignature
      else record_verify_signature cr r owner)"

definition remove_expired :: "u64 \<Rightarrow> dht_daemon \<Rightarrow> dht_daemon" where
  "remove_expired now d =
     d\<lparr>records := (\<lambda>key. case records d key of
        Some item \<Rightarrow> if rec_expiry (st_record item) > now then Some item else None
      | None \<Rightarrow> None)\<rparr>"

definition sign_record :: "crypto \<Rightarrow> 256 word \<Rightarrow> hash32 \<Rightarrow> bytes \<Rightarrow> u64 \<Rightarrow> dht_record" where
  "sign_record cr owner key value expiry =
     (let owner_address = compute_abstract_address cr (new_ed25519 (sk_public_key cr owner));
          bs = record_signable_bytes key value expiry owner_address;
          sg = sign cr owner VALIDATOR_SIGN_V1 (encode (domain_hash cr DHT_RECORD_TAG bs))
      in \<lparr>rec_key = key, rec_value = value, rec_expiry = expiry, rec_owner_address = owner_address,
          rec_signature = sg\<rparr>)"

definition insert_record :: "dht_daemon \<Rightarrow> hash32 \<Rightarrow> dht_record \<Rightarrow> public_key \<Rightarrow> dht_daemon" where
  "insert_record d key r owner = d\<lparr>records := (records d)(key \<mapsto> \<lparr>st_record = r, st_owner = owner\<rparr>)\<rparr>"

section \<open>Requests from other nodes\<close>

fun rpc_sender :: "dht_rpc \<Rightarrow> contact" where
  "rpc_sender (Ping c) = c"
| "rpc_sender (FindNode c _) = c"
| "rpc_sender (FindValue c _) = c"
| "rpc_sender (Store c _ _) = c"

definition handle_rpc :: "crypto \<Rightarrow> u64 \<Rightarrow> dht_daemon \<Rightarrow> dht_rpc \<Rightarrow> dht_daemon \<times> (network_error + dht_response)" where
  "handle_rpc cr now d request =
     (let d1 = add_contact cr d (rpc_sender request) in
      case request of
        Ping _ \<Rightarrow> (d1, Inr Pong)
      | FindNode _ target \<Rightarrow> (d1, Inr (Nodes (closest_contacts d1 target K_BUCKET_SIZE)))
      | FindValue _ key \<Rightarrow>
          (let d2 = remove_expired now d1 in
           case records d2 key of
             Some item \<Rightarrow> (d2, Inr (Value (st_record item) (st_owner item)))
           | None \<Rightarrow> (d2, Inr (Nodes (closest_contacts d2 key K_BUCKET_SIZE))))
      | Store _ r owner \<Rightarrow>
          (case validate_record cr now r owner None of
             Inl e \<Rightarrow> (d1, Inl e)
           | Inr _ \<Rightarrow> (insert_record d1 (rec_key r) r owner, Inr Stored)))"

section \<open>Lookups\<close>

fun learn_nodes :: "crypto \<Rightarrow> dht_daemon \<Rightarrow> contact list \<Rightarrow> contact list \<Rightarrow> dht_daemon \<times> contact list" where
  "learn_nodes cr d known [] = (d, known)"
| "learn_nodes cr d known (c # cs) =
     learn_nodes cr (add_contact cr d c) (if c \<in> set known then known else known @ [c]) cs"

fun query_round ::
  "crypto \<Rightarrow> 'n dht_env \<Rightarrow> hash32 \<Rightarrow> dht_daemon \<Rightarrow> 'n \<Rightarrow> contact list \<Rightarrow> contact list \<Rightarrow> dht_daemon \<times> 'n \<times> contact list" where
  "query_round cr env target d n known [] = (d, n, known)"
| "query_round cr env target d n known (peer # peers) =
     (case call env n peer (FindNode (local_contact d) target) of
        (n', Inr (Nodes nodes)) \<Rightarrow>
          (let (d', known') = learn_nodes cr d known nodes in query_round cr env target d' n' known' peers)
      | (n', _) \<Rightarrow> query_round cr env target d n' known peers)"

definition best :: "hash32 \<Rightarrow> contact list \<Rightarrow> hash32 option" where
  "best target known = (case known of [] \<Rightarrow> None | c # _ \<Rightarrow> Some (xor_distance (node_id c) target))"

function lookup_loop ::
  "crypto \<Rightarrow> 'n dht_env \<Rightarrow> hash32 \<Rightarrow> dht_daemon \<Rightarrow> 'n \<Rightarrow> contact list \<Rightarrow> contact list \<Rightarrow>
   dht_daemon \<times> 'n \<times> contact list" where
  "lookup_loop cr env target d n known queried =
     (let round = take LOOKUP_ALPHA (filter (\<lambda>c. c \<notin> set queried) known) in
      if round = [] then (d, n, known)
      else
        let (d', n', learned) = query_round cr env target d n known round;
            known' = take K_BUCKET_SIZE (sort_key (\<lambda>c. xor_distance (node_id c) target) learned);
            queried' = queried @ round
        in if best target known = best target known' \<and> length queried' \<ge> length known' then (d', n', known')
           else lookup_loop cr env target d' n' known' queried')"
  by pat_completeness auto

text \<open>Every round asks contacts that have not been asked before, and there are finitely many.\<close>

lemma finite_contacts: "finite (UNIV :: contact set)"
proof -
  have "c \<in> range (\<lambda>(i, k). \<lparr>node_id = i, contact_key = k\<rparr>)" for c
    by (rule range_eqI [of _ _ "(node_id c, contact_key c)"]) simp
  then have "UNIV \<subseteq> range (\<lambda>(i, k). \<lparr>node_id = i, contact_key = k\<rparr>)" by blast
  then show ?thesis by (rule finite_subset) simp
qed

termination lookup_loop
proof (relation "measure (\<lambda>(cr, env, target, d, n, known, queried). card (UNIV - set queried))")
  fix cr :: crypto and env :: "'n dht_env" and target d n m d' n' qr learned
    and known queried round known' queried' :: "contact list"
  assume round: "round = take LOOKUP_ALPHA (filter (\<lambda>c. c \<notin> set queried) known)" "round \<noteq> []"
    and queried': "queried' = queried @ round"
  obtain c where "c \<in> set round" using round(2) by (cases round) auto
  moreover from this have "c \<notin> set queried" using round(1) set_take_subset by fastforce
  ultimately have "UNIV - set queried' \<subset> UNIV - set queried" by (auto simp: queried')
  then have "card (UNIV - set queried') < card (UNIV - set queried)"
    using finite_contacts by (intro psubset_card_mono) (auto intro: finite_subset)
  then show "((cr, env, target, d', n', known', queried'), cr, env, target, d, n, known, queried)
      \<in> measure (\<lambda>(cr, env, target, d, n, known, queried). card (UNIV - set queried))"
    by simp
qed simp

declare lookup_loop.simps [simp del]

definition find_node :: "crypto \<Rightarrow> 'n dht_env \<Rightarrow> dht_daemon \<Rightarrow> 'n \<Rightarrow> hash32 \<Rightarrow> dht_daemon \<times> 'n \<times> contact list" where
  "find_node cr env d n target = lookup_loop cr env target d n (closest_contacts d target K_BUCKET_SIZE) []"

fun ask_value ::
  "crypto \<Rightarrow> 'n dht_env \<Rightarrow> hash32 \<Rightarrow> dht_daemon \<Rightarrow> 'n \<Rightarrow> contact list \<Rightarrow>
   dht_daemon \<times> 'n \<times> (network_error + dht_record option)" where
  "ask_value cr env key d n [] = (d, n, Inr None)"
| "ask_value cr env key d n (peer # peers) =
     (case call env n peer (FindValue (local_contact d) key) of
        (n', Inr (Value r owner)) \<Rightarrow>
          (case validate_record cr (unix_time_secs env n') r owner (Some key) of
             Inl e \<Rightarrow> (d, n', Inl e)
           | Inr _ \<Rightarrow> (insert_record d key r owner, n', Inr (Some r)))
      | (n', _) \<Rightarrow> ask_value cr env key d n' peers)"

definition find_value ::
  "crypto \<Rightarrow> 'n dht_env \<Rightarrow> dht_daemon \<Rightarrow> 'n \<Rightarrow> hash32 \<Rightarrow> dht_daemon \<times> 'n \<times> (network_error + dht_record option)" where
  "find_value cr env d n key =
     (let d1 = remove_expired (unix_time_secs env n) d in
      case records d1 key of
        Some item \<Rightarrow> (d1, n, Inr (Some (st_record item)))
      | None \<Rightarrow> (let (d2, n', peers) = find_node cr env d1 n key in ask_value cr env key d2 n' peers))"

fun send_store ::
  "'n dht_env \<Rightarrow> contact \<Rightarrow> dht_record \<Rightarrow> public_key \<Rightarrow> 'n \<Rightarrow> contact list \<Rightarrow> 'n \<times> (network_error + unit)" where
  "send_store env local r owner n [] = (n, Inr ())"
| "send_store env local r owner n (peer # peers) =
     (case call env n peer (Store local r owner) of
        (n', Inl e) \<Rightarrow> (n', Inl e)
      | (n', Inr _) \<Rightarrow> send_store env local r owner n' peers)"

definition store_record ::
  "crypto \<Rightarrow> 'n dht_env \<Rightarrow> dht_daemon \<Rightarrow> 'n \<Rightarrow> dht_record \<Rightarrow> public_key \<Rightarrow> dht_daemon \<times> 'n \<times> (network_error + unit)" where
  "store_record cr env d n r owner =
     (case validate_record cr (unix_time_secs env n) r owner None of
        Inl e \<Rightarrow> (d, n, Inl e)
      | Inr _ \<Rightarrow>
          (let d1 = insert_record d (rec_key r) r owner;
               (d2, n1, peers) = find_node cr env d1 n (rec_key r);
               (n2, result) = send_store env (local_contact d2) r owner n1 (take LOOKUP_ALPHA peers)
           in (d2, n2, result)))"

section \<open>Buckets\<close>

lemma leading_zeros_le: "leading_zeros (w :: 'a::len word) \<le> LENGTH('a)"
  unfolding leading_zeros_def by (rule order_trans [OF length_takeWhile_le]) simp

lemma leading_zeros_less: "w \<noteq> 0 \<Longrightarrow> leading_zeros (w :: 'a::len word) < LENGTH('a)"
proof (rule ccontr)
  assume "w \<noteq> 0" "\<not> leading_zeros w < LENGTH('a)"
  then have "length (takeWhile (\<lambda>i. \<not> bit w i) (rev [0..<LENGTH('a)])) = length (rev [0..<LENGTH('a)])"
    using leading_zeros_le [of w] by (simp add: leading_zeros_def)
  then have "\<forall>i < LENGTH('a). \<not> bit w i"
    by (metis takeWhile_eq_all_conv takeWhile_eq_take take_all order_refl atLeastLessThan_iff set_rev set_upt zero_le)
  with \<open>w \<noteq> 0\<close> show False using bit_word_eqI [of w 0] by auto
qed

lemma first_set_bit_bound: "first_set_bit i bs = Some k \<Longrightarrow> k < (i + length bs) * 8"
proof (induction i bs rule: first_set_bit.induct)
  case (2 i b bs)
  then show ?case using leading_zeros_less [of b] by (auto split: if_splits)
qed simp

lemma bucket_index_less: "bucket_index a b = Some i \<Longrightarrow> i < 256"
  using first_set_bit_bound [of 0 "encode (xor_distance a b)"] by (auto simp: bucket_index_def)

definition bucket_ok :: "crypto \<Rightarrow> hash32 \<Rightarrow> nat \<Rightarrow> contact list \<Rightarrow> bool" where
  "bucket_ok cr local i bucket \<longleftrightarrow> length bucket \<le> K_BUCKET_SIZE \<and> distinct (map node_id bucket) \<and>
     (\<forall>c \<in> set bucket. c = from_public_key cr (contact_key c) \<and> bucket_index local (node_id c) = Some i)"

definition routing_ok :: "crypto \<Rightarrow> dht_daemon \<Rightarrow> bool" where
  "routing_ok cr d \<longleftrightarrow> length (buckets d) = 256 \<and>
     (\<forall>i < 256. bucket_ok cr (node_id (local_contact d)) i (buckets d ! i))"

definition records_ok :: "crypto \<Rightarrow> dht_daemon \<Rightarrow> bool" where
  "records_ok cr d \<longleftrightarrow> (\<forall>key item. records d key = Some item \<longrightarrow>
     rec_key (st_record item) = key \<and>
     rec_owner_address (st_record item) = compute_abstract_address cr (new_ed25519 (st_owner item)) \<and>
     record_verify_signature cr (st_record item) (st_owner item) = Inr ())"

lemma find_None_ids: "find (\<lambda>e. node_id e = x) bucket = None \<Longrightarrow> x \<notin> node_id ` set bucket"
  by (auto simp: find_None_iff)

lemma remove1_distinct_ids:
  assumes "distinct (map node_id bucket)" "e \<in> set bucket"
  shows "node_id e \<notin> node_id ` set (remove1 e bucket)"
proof -
  have "inj_on node_id (set bucket)" "distinct bucket" using assms(1) by (auto simp: distinct_map)
  then show ?thesis using assms(2) by (auto dest: inj_onD)
qed

lemma touch_ok:
  assumes ok: "bucket_ok cr local i bucket"
    and c: "c = from_public_key cr (contact_key c)" "bucket_index local (node_id c) = Some i"
  shows "bucket_ok cr local i (touch bucket c)"
proof -
  define without where "without = (case find (\<lambda>e. node_id e = node_id c) bucket of
      None \<Rightarrow> bucket | Some e \<Rightarrow> remove1 e bucket)"
  have ids: "distinct (map node_id bucket)" using ok by (simp add: bucket_ok_def)
  have w: "set without \<subseteq> set bucket" "length without \<le> length bucket" "distinct (map node_id without)"
    "node_id c \<notin> node_id ` set without"
  proof -
    show "set without \<subseteq> set bucket" "length without \<le> length bucket"
      by (auto simp: without_def length_remove1 split: option.splits dest: subsetD [OF set_remove1_subset])
    show "distinct (map node_id without)"
      using ids by (auto simp: without_def distinct_map split: option.splits dest: notin_set_remove1 inj_onD intro!: inj_onI)
    show "node_id c \<notin> node_id ` set without"
    proof (cases "find (\<lambda>e. node_id e = node_id c) bucket")
      case None
      then show ?thesis using find_None_ids by (simp add: without_def)
    next
      case (Some e)
      then have "e \<in> set bucket" "node_id e = node_id c" by (auto simp: find_Some_iff)
      then show ?thesis using remove1_distinct_ids [OF ids, of e] Some by (simp add: without_def)
    qed
  qed
  have pushed: "distinct (map node_id (without @ [c]))"
    "\<forall>x \<in> set (without @ [c]). x = from_public_key cr (contact_key x) \<and> bucket_index local (node_id x) = Some i"
    using w c ok by (auto simp: bucket_ok_def)
  have tl: "distinct (map node_id (tl xs))" if "distinct (map node_id xs)" for xs :: "contact list"
    using that by (metis distinct_tl map_tl)
  have len: "length (without @ [c]) \<le> Suc K_BUCKET_SIZE" using w(2) ok by (simp add: bucket_ok_def)
  have "set (tl (without @ [c])) \<subseteq> set (without @ [c])" by (cases without) auto
  then have "bucket_ok cr local i (tl (without @ [c]))"
    unfolding bucket_ok_def using pushed(2) tl [OF pushed(1)] len by (intro conjI) (simp, simp, blast)
  moreover have "bucket_ok cr local i (without @ [c])" if "length (without @ [c]) \<le> K_BUCKET_SIZE"
    using that pushed by (simp add: bucket_ok_def)
  ultimately show ?thesis
    by (auto simp: touch_def without_def [symmetric] Let_def)
qed

lemma add_contact_routing: "routing_ok cr d \<Longrightarrow> routing_ok cr (add_contact cr d c)"
proof -
  assume ok: "routing_ok cr d"
  show ?thesis
  proof (cases "node_id c = node_id (local_contact d) \<or> compute_abstract_address cr (new_ed25519 (contact_key c)) \<noteq> node_id c")
    case True
    then show ?thesis using ok by (simp add: add_contact_def)
  next
    case False
    then have c: "c = from_public_key cr (contact_key c)" by (simp add: from_public_key_def)
    show ?thesis
    proof (cases "bucket_index (node_id (local_contact d)) (node_id c)")
      case None
      then show ?thesis using ok by (simp add: add_contact_def)
    next
      case (Some i)
      then have "bucket_ok cr (node_id (local_contact d)) i (touch (buckets d ! i) c)"
        using ok c bucket_index_less [OF Some] by (intro touch_ok) (auto simp: routing_ok_def)
      then show ?thesis
        using ok Some False bucket_index_less [OF Some]
        by (auto simp: add_contact_def routing_ok_def nth_list_update)
    qed
  qed
qed

section \<open>Every operation keeps the tables sound\<close>

text \<open>
  What a node may rely on after any step: the same local contact, sound buckets and records.
\<close>

definition dht_ok :: "crypto \<Rightarrow> contact \<Rightarrow> dht_daemon \<Rightarrow> bool" where
  "dht_ok cr local d \<longleftrightarrow> local_contact d = local \<and> routing_ok cr d \<and> records_ok cr d"

lemma add_contact_local [simp]: "local_contact (add_contact cr d c) = local_contact d"
  "records (add_contact cr d c) = records d"
  by (simp_all add: add_contact_def split: option.splits)

lemma add_contact_ok: "dht_ok cr local d \<Longrightarrow> dht_ok cr local (add_contact cr d c)"
  by (simp add: dht_ok_def add_contact_routing records_ok_def)

lemma remove_expired_ok: "dht_ok cr local d \<Longrightarrow> dht_ok cr local (remove_expired now d)"
  by (auto simp: dht_ok_def remove_expired_def routing_ok_def records_ok_def split: option.splits if_splits)

lemma validate_record_Inr:
  "validate_record cr now r owner requested = Inr () \<longleftrightarrow>
     (\<forall>key. requested = Some key \<longrightarrow> rec_key r = key) \<and> now < rec_expiry r \<and>
     rec_owner_address r = compute_abstract_address cr (new_ed25519 owner) \<and>
     record_verify_signature cr r owner = Inr ()"
  by (auto simp: validate_record_def split: option.splits)

lemma insert_record_ok:
  "dht_ok cr local d \<Longrightarrow> validate_record cr now r owner requested = Inr () \<Longrightarrow> key = rec_key r \<Longrightarrow>
     dht_ok cr local (insert_record d key r owner)"
  by (auto simp: dht_ok_def insert_record_def routing_ok_def records_ok_def validate_record_Inr)

lemma handle_rpc_ok: "dht_ok cr local d \<Longrightarrow> dht_ok cr local (fst (handle_rpc cr now d request))"
  using add_contact_ok [of cr local d "rpc_sender request"]
  by (auto simp: handle_rpc_def Let_def intro: remove_expired_ok insert_record_ok
      split: dht_rpc.splits option.splits sum.splits)

lemma learn_nodes_ok: "dht_ok cr local d \<Longrightarrow> dht_ok cr local (fst (learn_nodes cr d known cs))"
  by (induction cs arbitrary: d known) (auto simp: add_contact_ok)

lemma query_round_ok: "dht_ok cr local d \<Longrightarrow> dht_ok cr local (fst (query_round cr env target d n known peers))"
proof (induction peers arbitrary: d n known)
  case (Cons peer peers)
  show ?case
    using Cons.prems learn_nodes_ok [OF Cons.prems]
    by (auto simp: case_prod_unfold Let_def intro: Cons.IH split: prod.splits sum.splits dht_response.splits)
qed simp

lemma lookup_loop_ok: "dht_ok cr local d \<Longrightarrow> dht_ok cr local (fst (lookup_loop cr env target d n known queried))"
proof (induction cr env target d n known queried rule: lookup_loop.induct)
  case (1 cr env target d n known queried)
  let ?round = "take LOOKUP_ALPHA (filter (\<lambda>c. c \<notin> set queried) known)"
  have "dht_ok cr local (fst (query_round cr env target d n known ?round))"
    using "1.prems" by (rule query_round_ok)
  then show ?case
    using "1.prems" "1.IH" [OF refl _ _ _ refl refl]
    by (subst lookup_loop.simps) (auto simp: Let_def split: prod.splits)
qed

lemma find_node_ok: "dht_ok cr local d \<Longrightarrow> dht_ok cr local (fst (find_node cr env d n target))"
  by (simp add: find_node_def lookup_loop_ok)

lemma ask_value_ok: "dht_ok cr local d \<Longrightarrow> dht_ok cr local (fst (ask_value cr env key d n peers))"
  by (induction peers arbitrary: n)
    (auto simp: validate_record_Inr intro: insert_record_ok split: prod.splits sum.splits dht_response.splits)

lemma find_value_ok:
  assumes "dht_ok cr local d"
  shows "dht_ok cr local (fst (find_value cr env d n key))"
proof -
  let ?d = "remove_expired (unix_time_secs env n) d"
  have d: "dht_ok cr local ?d" using assms by (rule remove_expired_ok)
  obtain d' n' peers where "find_node cr env ?d n key = (d', n', peers)" by (metis prod_cases3)
  moreover from this have "dht_ok cr local d'" using find_node_ok [OF d, of env n key] by simp
  ultimately show ?thesis
    using d ask_value_ok [of cr local d' env key n' peers] by (simp add: find_value_def Let_def split: option.splits)
qed

lemma store_record_ok:
  assumes "dht_ok cr local d"
  shows "dht_ok cr local (fst (store_record cr env d n r owner))"
proof (cases "validate_record cr (unix_time_secs env n) r owner None")
  case (Inr u)
  then have "dht_ok cr local (insert_record d (rec_key r) r owner)"
    using insert_record_ok [OF assms] by simp
  then have "dht_ok cr local (fst (find_node cr env (insert_record d (rec_key r) r owner) n (rec_key r)))"
    by (rule find_node_ok)
  then show ?thesis by (simp add: store_record_def Inr Let_def case_prod_unfold)
qed (simp add: store_record_def assms)

text \<open>The operations of a node, on its state and that of its environment.\<close>

datatype dht_op =
    HandleRpc dht_rpc
  | AddContact contact
  | LookupNode hash32
  | LookupValue hash32
  | Publish dht_record public_key

definition dht_step :: "crypto \<Rightarrow> 'n dht_env \<Rightarrow> dht_daemon \<times> 'n \<Rightarrow> dht_op \<Rightarrow> (dht_daemon \<times> 'n) \<times> unit" where
  "dht_step cr env s op =
     (let (d, n) = s in
      (case op of
         HandleRpc request \<Rightarrow> (fst (handle_rpc cr (unix_time_secs env n) d request), n)
       | AddContact c \<Rightarrow> (add_contact cr d c, n)
       | LookupNode target \<Rightarrow> (let (d', n', _) = find_node cr env d n target in (d', n'))
       | LookupValue key \<Rightarrow> (let (d', n', _) = find_value cr env d n key in (d', n'))
       | Publish r owner \<Rightarrow> (let (d', n', _) = store_record cr env d n r owner in (d', n')), ()))"

lemma dht_step_ok: "dht_ok cr local (fst s) \<Longrightarrow> dht_ok cr local (fst (fst (dht_step cr env s op)))"
  using handle_rpc_ok add_contact_ok find_node_ok find_value_ok store_record_ok
  by (cases op) (auto simp: dht_step_def case_prod_unfold Let_def)

interpretation dht: component "dht_step cr env" "\<lambda>s. dht_ok cr local (fst s)" "\<lambda>_. True" for cr env local
  by unfold_locales (rule dht_step_ok)

lemma dht_new_ok: "dht_ok cr (from_public_key cr pk) (dht_new cr pk)"
  by (simp add: dht_ok_def dht_new_def routing_ok_def bucket_ok_def records_ok_def)

section \<open>Properties\<close>

text \<open>
  C12. Whatever requests a node handles and whatever answers it receives in its own lookups, its
  routing table has 256 buckets of at most twenty contacts with different identifiers, each in the
  bucket of its distance and each with the identifier of its public key; and every record it
  holds is stored under its own key and signed by the owner whose address it carries.
\<close>

theorem dht_tables_sound:
  assumes "run_ops (dht_step cr env) (dht_new cr pk, n) ops = ((d, n'), responses)"
  shows "length (buckets d) = 256 \<and>
    (\<forall>i < 256. length (buckets d ! i) \<le> 20 \<and> distinct (map node_id (buckets d ! i)) \<and>
       (\<forall>c \<in> set (buckets d ! i). node_id c = compute_abstract_address cr (new_ed25519 (contact_key c)) \<and>
          bucket_index (compute_abstract_address cr (new_ed25519 pk)) (node_id c) = Some i)) \<and>
    (\<forall>key item. records d key = Some item \<longrightarrow> rec_key (st_record item) = key \<and>
       rec_owner_address (st_record item) = compute_abstract_address cr (new_ed25519 (st_owner item)) \<and>
       record_verify_signature cr (st_record item) (st_owner item) = Inr ())"
proof -
  have ok: "dht_ok cr (from_public_key cr pk) d"
    using dht.run_inv [of cr "from_public_key cr pk" "(dht_new cr pk, n)" ops env] assms dht_new_ok
    by (simp add: list_all_iff)
  have node: "c = from_public_key cr (contact_key c) \<longleftrightarrow>
      node_id c = compute_abstract_address cr (new_ed25519 (contact_key c))" for c
    by (cases c) (simp add: from_public_key_def)
  have here: "node_id (local_contact d) = compute_abstract_address cr (new_ed25519 pk)"
    using ok by (simp add: dht_ok_def from_public_key_def)
  from ok show ?thesis
    unfolding dht_ok_def routing_ok_def bucket_ok_def records_ok_def K_BUCKET_SIZE_def node here by blast
qed

text \<open>A node and an environment whose calls all fail, at second 5.\<close>

definition silent_env :: "unit dht_env" where
  "silent_env = \<lparr>call = (\<lambda>n _ _. (n, Inl DhtRpcFailed)), unix_time_secs = (\<lambda>_. 5)\<rparr>"

theorem dht_tables_sound_witness:
  "\<exists>d responses. run_ops (dht_step toy_crypto silent_env) (dht_new toy_crypto 1, ())
      [HandleRpc (Ping (from_public_key toy_crypto 2)), LookupNode 9] = ((d, ()), responses) \<and>
    length (buckets d) = 256 \<and> (\<forall>i < 256. length (buckets d ! i) \<le> 20)"
proof -
  obtain s responses where "run_ops (dht_step toy_crypto silent_env) (dht_new toy_crypto 1, ())
      [HandleRpc (Ping (from_public_key toy_crypto 2)), LookupNode 9] = (s, responses)"
    by (rule prod.exhaust)
  moreover have "s = (fst s, ())" by (simp add: prod_eq_iff)
  ultimately have run: "run_ops (dht_step toy_crypto silent_env) (dht_new toy_crypto 1, ())
      [HandleRpc (Ping (from_public_key toy_crypto 2)), LookupNode 9] = ((fst s, ()), responses)"
    by simp
  then show ?thesis using dht_tables_sound [OF run] by blast
qed

text \<open>
  The contacts closest to a target are those of the routing table with the least distance: the
  answer lists them by increasing distance, has as many as were asked for or all there are, and
  no contact left out is closer than one listed.
\<close>

theorem closest_contacts_nearest:
  "sorted (map (\<lambda>c. xor_distance (node_id c) target) (closest_contacts d target limit)) \<and>
   length (closest_contacts d target limit) = min limit (length (concat (buckets d))) \<and>
   (\<exists>rest. mset (concat (buckets d)) = mset (closest_contacts d target limit) + mset rest \<and>
      (\<forall>c \<in> set (closest_contacts d target limit). \<forall>e \<in> set rest.
         xor_distance (node_id c) target \<le> xor_distance (node_id e) target))"
proof -
  let ?dist = "\<lambda>c. xor_distance (node_id c) target"
  define ordered where "ordered = sort_key ?dist (concat (buckets d))"
  have sorted: "sorted (map ?dist ordered)" by (simp add: ordered_def)
  have split: "ordered = take limit ordered @ drop limit ordered" by simp
  have "mset (concat (buckets d)) = mset (take limit ordered) + mset (drop limit ordered)"
    by (metis mset_append mset_sort ordered_def split)
  moreover have "\<forall>c \<in> set (take limit ordered). \<forall>e \<in> set (drop limit ordered). ?dist c \<le> ?dist e"
    using sorted by (subst (asm) split) (simp only: map_append sorted_append, auto)
  ultimately show ?thesis
    using sorted sorted_wrt_take [of "(\<le>)" "map ?dist ordered" limit]
    by (auto simp: closest_contacts_def ordered_def [symmetric] take_map) (auto simp: ordered_def)
qed

lemma sign_record_valid:
  assumes "signs_correctly cr" "now < expiry"
  shows "validate_record cr now (sign_record cr sk key value expiry) (sk_public_key cr sk) None = Inr ()"
  using assms
  by (simp add: validate_record_Inr sign_record_def record_verify_signature_def verify_def sign_def
      signs_correctly_def sk_public_key_def Let_def)

lemma sign_record_fields [simp]:
  "rec_key (sign_record cr sk key value expiry) = key"
  "rec_expiry (sign_record cr sk key value expiry) = expiry"
  by (simp_all add: sign_record_def Let_def)

text \<open>
  A record signed by its owner is accepted by every node before it expires, and is then returned
  with the key of its owner to whoever asks for it before it expires; once it has expired it
  is neither accepted nor returned.
\<close>

theorem signed_record_served:
  assumes "signs_correctly cr"
  shows "(let r = sign_record cr sk key value expiry; owner = sk_public_key cr sk;
              (d1, stored) = handle_rpc cr now d (Store c r owner);
              (d2, found) = handle_rpc cr later d1 (FindValue c' key)
          in (now < expiry \<longrightarrow> stored = Inr Stored \<and>
               (later < expiry \<longrightarrow> found = Inr (Value r owner)) \<and>
               (expiry \<le> later \<longrightarrow> records d2 key = None \<and> (\<exists>nodes. found = Inr (Nodes nodes)))) \<and>
             (expiry \<le> now \<longrightarrow> stored = Inl DhtRecordExpired))"
proof (cases "now < expiry")
  case True
  then show ?thesis
    by (auto simp: handle_rpc_def sign_record_valid [OF assms True] insert_record_def remove_expired_def Let_def)
next
  case False
  then have "validate_record cr now (sign_record cr sk key value expiry) (sk_public_key cr sk) None = Inl DhtRecordExpired"
    by (simp add: validate_record_def not_less)
  with False show ?thesis by (simp add: handle_rpc_def Let_def case_prod_unfold)
qed

theorem signed_record_served_witness:
  "snd (handle_rpc toy_crypto 3 (dht_new toy_crypto 1) (Store (from_public_key toy_crypto 2)
      (sign_record toy_crypto 4 7 [1, 2] 9) (sk_public_key toy_crypto 4))) = Inr Stored"
proof -
  have "signs_correctly toy_crypto" by (simp add: signs_correctly_def toy_crypto_def)
  from signed_record_served [OF this, of 4 7 "[1, 2]" 9 3 "dht_new toy_crypto 1" "from_public_key toy_crypto 2" 5
      "from_public_key toy_crypto 2"]
  show ?thesis by (simp add: Let_def case_prod_unfold)
qed

text \<open>A record does not belong to its key: another owner replaces it.\<close>

lemma record_replaced_by_any_owner:
  assumes "signs_correctly cr" "now < expiry" "later < expiry'" "later < expiry''" "final < expiry'"
  shows "(let (d1, _) = handle_rpc cr now d (Store c (sign_record cr sk key value expiry) (sk_public_key cr sk));
              (d2, _) = handle_rpc cr later d1 (Store c' (sign_record cr sk' key value' expiry') (sk_public_key cr sk'))
          in snd (handle_rpc cr final d2 (FindValue c'' key)) =
               Inr (Value (sign_record cr sk' key value' expiry') (sk_public_key cr sk')))"
  using assms
  by (simp add: handle_rpc_def sign_record_valid insert_record_def remove_expired_def Let_def)

section \<open>What a lookup returns\<close>

definition nearest_first :: "hash32 \<Rightarrow> contact list \<Rightarrow> bool" where
  "nearest_first target cs \<longleftrightarrow>
     sorted (map (\<lambda>c. xor_distance (node_id c) target) cs) \<and> length cs \<le> K_BUCKET_SIZE"

lemma nearest_first_cut:
  "nearest_first target (take K_BUCKET_SIZE (sort_key (\<lambda>c. xor_distance (node_id c) target) xs))"
proof -
  let ?dist = "\<lambda>c. xor_distance (node_id c) target"
  have "sorted (take K_BUCKET_SIZE (map ?dist (sort_key ?dist xs)))" by (rule sorted_wrt_take) simp
  then show ?thesis by (simp add: nearest_first_def take_map)
qed

lemma lookup_loop_nearest:
  "nearest_first target known \<Longrightarrow> nearest_first target (snd (snd (lookup_loop cr env target d n known queried)))"
proof (induction cr env target d n known queried rule: lookup_loop.induct)
  case (1 cr env target d n known queried)
  let ?round = "take LOOKUP_ALPHA (filter (\<lambda>c. c \<notin> set queried) known)"
  obtain d' n' learned where round: "query_round cr env target d n known ?round = (d', n', learned)"
    by (metis prod_cases3)
  let ?known = "take K_BUCKET_SIZE (sort_key (\<lambda>c. xor_distance (node_id c) target) learned)"
  have next_round: "nearest_first target (snd (snd (lookup_loop cr env target d' n' ?known (queried @ ?round))))"
    if "?round \<noteq> []" "\<not> (best target known = best target ?known \<and> length ?known \<le> length (queried @ ?round))"
    using that by (intro "1.IH" [OF refl that(1) round [symmetric] refl refl refl]) (simp_all add: nearest_first_cut)
  show ?case
    using "1.prems" next_round nearest_first_cut [of target learned]
    by (subst lookup_loop.simps) (simp only: Let_def round prod.case snd_conv split: if_split, blast)
qed

lemma find_node_nearest: "nearest_first target (snd (snd (find_node cr env d n target)))"
  unfolding find_node_def closest_contacts_def by (intro lookup_loop_nearest nearest_first_cut)

lemma xor_distance_zero: "a XOR b = 0 \<longleftrightarrow> a = (b :: hash32)"
proof
  assume "a XOR b = 0"
  moreover have "a = (a XOR b) XOR b" by (simp add: xor.assoc)
  ultimately show "a = b" by simp
qed simp

text \<open>
  A contact a peer names is kept for the answer without a look at its key, although the routing
  table refuses it: a peer can name any key for the identifier that is looked up.
\<close>

lemma lookup_returns_unverified:
  assumes env: "call env = (\<lambda>n peer request. (n, Inr (Nodes [forged])))"
    and known: "closest_contacts d target K_BUCKET_SIZE = [peer]"
    and ids: "node_id forged = target" "node_id peer \<noteq> target"
  shows "snd (snd (find_node cr env d n target)) = [forged, peer]"
proof -
  have neq: "forged \<noteq> peer" using ids by auto
  have dist: "xor_distance (node_id forged) target = 0" "xor_distance (node_id peer) target \<noteq> 0"
    using ids xor_distance_zero by (simp_all add: xor_distance_word)
  then have less: "xor_distance (node_id forged) target < xor_distance (node_id peer) target"
    by (simp add: word_gt_0)
  have sorted: "sort_key (\<lambda>c. xor_distance (node_id c) target) [peer, forged] = [forged, peer]"
    "sort_key (\<lambda>c. xor_distance (node_id c) target) [forged, peer] = [forged, peer]"
    using less by (simp_all add: not_le)
  show ?thesis
    unfolding find_node_def known
    using neq dist less
    by (subst lookup_loop.simps, subst lookup_loop.simps)
      (simp add: env Let_def LOOKUP_ALPHA_def K_BUCKET_SIZE_def sorted best_def)
qed

end
