(* ===== verification/Dht_Network.thy ===== *)
theory Dht_Network
  imports Dht
begin

text \<open>
  Several nodes of the hash table of \<open>crates/node/onx-networking/src/dht_daemon.rs\<close> that reach each other, as
  over the \<open>SimulatedTransport\<close> of its tests: a call is handled by the node with the identifier of the
  recipient. The lemmas follow a lookup and a publication through a network of at most twenty nodes
  that know each other: no node forgets another one, a lookup returns every node, and a published record
  is found by every lookup, whatever else the nodes do, until it expires or another record
  is stored under its key.
\<close>

section \<open>The network\<close>

record dht_network =
  net_nodes :: "hash32 \<Rightarrow> dht_daemon option"
  net_time :: u64

definition network_call ::
  "crypto \<Rightarrow> dht_network \<Rightarrow> contact \<Rightarrow> dht_rpc \<Rightarrow> dht_network \<times> (network_error + dht_response)" where
  "network_call cr net recipient request =
     (case net_nodes net (node_id recipient) of
        None \<Rightarrow> (net, Inl DhtRpcFailed)
      | Some d \<Rightarrow>
          (let (d', response) = handle_rpc cr (net_time net) d request
           in (net\<lparr>net_nodes := (net_nodes net)(node_id recipient \<mapsto> d')\<rparr>, response)))"

definition network_env :: "crypto \<Rightarrow> dht_network dht_env" where
  "network_env cr = \<lparr>call = network_call cr, unix_time_secs = net_time\<rparr>"

text \<open>
  An operation of a node of the network. While it runs, calls of the node to itself are handled by its
  entry in the network; they leave nothing there that the node does not have, so the node's
  own state replaces the entry at the end.
\<close>

definition node_publish :: "crypto \<Rightarrow> dht_network \<Rightarrow> hash32 \<Rightarrow> dht_record \<Rightarrow> public_key \<Rightarrow>
    dht_network \<times> (network_error + unit)" where
  "node_publish cr net p r owner =
     (case net_nodes net p of
        None \<Rightarrow> (net, Inl DhtRpcFailed)
      | Some d \<Rightarrow>
          (let (d', net', result) = store_record cr (network_env cr) d net r owner
           in (net'\<lparr>net_nodes := (net_nodes net')(p \<mapsto> d')\<rparr>, result)))"

definition node_lookup :: "crypto \<Rightarrow> dht_network \<Rightarrow> hash32 \<Rightarrow> hash32 \<Rightarrow>
    dht_network \<times> (network_error + dht_record option)" where
  "node_lookup cr net p key =
     (case net_nodes net p of
        None \<Rightarrow> (net, Inl DhtRpcFailed)
      | Some d \<Rightarrow>
          (let (d', net', result) = find_value cr (network_env cr) d net key
           in (net'\<lparr>net_nodes := (net_nodes net')(p \<mapsto> d')\<rparr>, result)))"

section \<open>Nodes that know each other\<close>

definition knows :: "crypto \<Rightarrow> contact set \<Rightarrow> dht_daemon \<Rightarrow> bool" where
  "knows cr members d \<longleftrightarrow> dht_ok cr (local_contact d) d \<and> local_contact d \<in> members \<and>
     set (concat (buckets d)) = members - {local_contact d}"

lemma set_concat_nth: "set (concat xss) = (\<Union>i < length xss. set (xss ! i))"
proof -
  have "set xss = (!) xss ` {..<length xss}" by (auto simp: set_conv_nth)
  then show ?thesis by (simp add: image_image)
qed

lemma touch_known:
  assumes "bucket_ok cr local i bucket" "c \<in> set bucket"
  shows "set (touch bucket c) = set bucket"
proof -
  have ids: "distinct (map node_id bucket)" and len: "length bucket \<le> K_BUCKET_SIZE"
    using assms(1) by (auto simp: bucket_ok_def)
  obtain e where e: "find (\<lambda>e. node_id e = node_id c) bucket = Some e"
    using assms(2) by (cases "find (\<lambda>e. node_id e = node_id c) bucket") (auto simp: find_None_iff)
  then have "e \<in> set bucket" "node_id e = node_id c" by (auto simp: find_Some_iff)
  then have "e = c" using ids assms(2) by (auto simp: distinct_map dest: inj_onD)
  have "distinct bucket" using ids by (simp add: distinct_map)
  have "length (remove1 c bucket @ [c]) = length bucket"
    using assms(2) length_pos_if_in_set [OF assms(2)] by (simp add: length_remove1)
  then have "touch bucket c = remove1 c bucket @ [c]"
    using e \<open>e = c\<close> len by (simp add: touch_def Let_def)
  then show ?thesis using \<open>distinct bucket\<close> assms(2) by (auto simp: set_remove1_eq)
qed

lemma in_bucket:
  assumes "routing_ok cr d" "c \<in> set (concat (buckets d))"
  shows "\<exists>i < 256. bucket_index (node_id (local_contact d)) (node_id c) = Some i \<and> c \<in> set (buckets d ! i) \<and>
    c = from_public_key cr (contact_key c)"
proof -
  have "length (buckets d) = 256" using assms(1) by (simp add: routing_ok_def)
  then obtain i where "i < 256" "c \<in> set (buckets d ! i)"
    using assms(2) unfolding set_concat_nth by auto
  then show ?thesis using assms(1) by (auto simp: routing_ok_def bucket_ok_def)
qed

lemma update_same_set:
  assumes "i < length xss" "set ys = set (xss ! i)"
  shows "set (concat (xss[i := ys])) = set (concat xss)"
proof -
  have "set (xss[i := ys] ! j) = set (xss ! j)" if "j < length xss" for j
    using assms that by (cases "j = i") auto
  then show ?thesis unfolding set_concat_nth by simp
qed

lemma add_contact_known:
  assumes "routing_ok cr d" "c \<in> insert (local_contact d) (set (concat (buckets d)))"
  shows "set (concat (buckets (add_contact cr d c))) = set (concat (buckets d))"
proof (cases "c = local_contact d")
  case True
  then show ?thesis by (simp add: add_contact_def)
next
  case False
  then obtain i where i: "i < 256" "bucket_index (node_id (local_contact d)) (node_id c) = Some i" "c \<in> set (buckets d ! i)"
    using in_bucket [OF assms(1), of c] assms(2) by auto
  have "bucket_ok cr (node_id (local_contact d)) i (buckets d ! i)" "i < length (buckets d)"
    using assms(1) i(1) by (simp_all add: routing_ok_def)
  then have "set (concat ((buckets d)[i := touch (buckets d ! i) c])) = set (concat (buckets d))"
    using touch_known [OF _ i(3)] by (intro update_same_set) auto
  then show ?thesis by (simp add: add_contact_def i(2))
qed

lemma knows_add_contact:
  assumes "knows cr members d" "c \<in> members"
  shows "knows cr members (add_contact cr d c)"
proof -
  have "c \<in> insert (local_contact d) (set (concat (buckets d)))" "routing_ok cr d"
    using assms by (auto simp: knows_def dht_ok_def)
  from add_contact_known [OF this(2,1)] show ?thesis
    using assms(1) add_contact_ok [of cr "local_contact d" d c] by (simp add: knows_def)
qed

text \<open>The contacts of a sound table are different, so the twenty closest of at most twenty are all.\<close>

lemma routing_length:
  assumes "routing_ok cr d"
  shows "length (concat (buckets d)) = card (set (concat (buckets d)))"
proof -
  have len: "length (buckets d) = 256" using assms by (simp add: routing_ok_def)
  have bucket: "length (buckets d ! i) = card (set (buckets d ! i))" if "i < 256" for i
    using assms that by (simp add: routing_ok_def bucket_ok_def distinct_map distinct_card)
  have "set (buckets d ! i) \<inter> set (buckets d ! j) = {}" if "i < 256" "j < 256" "i \<noteq> j" for i j
  proof -
    have index: "bucket_index (node_id (local_contact d)) (node_id c) = Some k" if "c \<in> set (buckets d ! k)" "k < 256" for c k
      using assms that by (simp add: routing_ok_def bucket_ok_def)
    show ?thesis
    proof (rule equals0I)
      fix c assume "c \<in> set (buckets d ! i) \<inter> set (buckets d ! j)"
      then show False using index [of c i] index [of c j] that by simp
    qed
  qed
  then have "card (\<Union>i<256. set (buckets d ! i)) = (\<Sum>i<256. card (set (buckets d ! i)))"
    by (intro card_UN_disjoint) auto
  moreover have "set (concat (buckets d)) = (\<Union>i<256. set (buckets d ! i))"
    unfolding set_concat_nth len ..
  moreover have "length (concat (buckets d)) = (\<Sum>i<256. length (buckets d ! i))"
    by (simp add: length_concat sum_list_sum_nth len atLeast0LessThan)
  ultimately show ?thesis using bucket by simp
qed

lemma closest_all:
  assumes "knows cr members d" "finite members" "card members \<le> 20"
  shows "set (closest_contacts d target K_BUCKET_SIZE) = members - {local_contact d}"
    "distinct (closest_contacts d target K_BUCKET_SIZE)"
proof -
  have r: "routing_ok cr d" "set (concat (buckets d)) = members - {local_contact d}"
    using assms(1) by (simp_all add: knows_def dht_ok_def)
  have "card (members - {local_contact d}) \<le> 20" using assms(2,3) by (metis card_Diff1_le le_trans)
  then have len: "length (concat (buckets d)) \<le> K_BUCKET_SIZE"
    using routing_length [OF r(1)] r(2) by (simp add: K_BUCKET_SIZE_def)
  have "distinct (concat (buckets d))" using routing_length [OF r(1)] by (metis card_distinct)
  then show "set (closest_contacts d target K_BUCKET_SIZE) = members - {local_contact d}"
    "distinct (closest_contacts d target K_BUCKET_SIZE)"
    using len r(2) by (simp_all add: closest_contacts_def)
qed


section \<open>Requests in a network whose nodes know each other\<close>

definition network_ok :: "crypto \<Rightarrow> contact set \<Rightarrow> dht_network \<Rightarrow> bool" where
  "network_ok cr members net \<longleftrightarrow> finite members \<and> card members \<le> 20 \<and> inj_on node_id members \<and>
     (\<forall>i. net_nodes net i \<noteq> None \<longleftrightarrow> i \<in> node_id ` members) \<and>
     (\<forall>i d. net_nodes net i = Some d \<longrightarrow> node_id (local_contact d) = i \<and> knows cr members d)"

text \<open>The records of every node.\<close>

definition holdings :: "dht_network \<Rightarrow> hash32 \<Rightarrow> (hash32 \<Rightarrow> stored_record option) option" where
  "holdings net i = map_option records (net_nodes net i)"

lemma member_node:
  assumes "network_ok cr members net" "c \<in> members"
  shows "\<exists>d. net_nodes net (node_id c) = Some d \<and> local_contact d = c \<and> knows cr members d"
proof -
  have "net_nodes net (node_id c) \<noteq> None" using assms by (simp add: network_ok_def)
  then obtain d where d: "net_nodes net (node_id c) = Some d" by blast
  then have "node_id (local_contact d) = node_id c" "knows cr members d" using assms(1) by (simp_all add: network_ok_def)
  moreover from this have "local_contact d = c"
    using assms by (auto simp: network_ok_def knows_def dest: inj_onD)
  ultimately show ?thesis using d by blast
qed

lemma network_ok_update:
  assumes "network_ok cr members net" "knows cr members d"
  shows "network_ok cr members (net\<lparr>net_nodes := (net_nodes net)(node_id (local_contact d) \<mapsto> d)\<rparr>)"
  using assms by (auto simp: network_ok_def knows_def)

lemma handle_rpc_local [simp]: "local_contact (fst (handle_rpc cr now d request)) = local_contact d"
  by (auto simp: handle_rpc_def remove_expired_def insert_record_def Let_def split: dht_rpc.splits option.splits sum.splits)

lemma handle_rpc_buckets: "buckets (fst (handle_rpc cr now d request)) = buckets (add_contact cr d (rpc_sender request))"
  by (auto simp: handle_rpc_def remove_expired_def insert_record_def Let_def split: dht_rpc.splits option.splits sum.splits)

lemma knows_handle_rpc:
  assumes "knows cr members d" "rpc_sender request \<in> members"
  shows "knows cr members (fst (handle_rpc cr now d request))"
  using assms knows_add_contact [OF assms] handle_rpc_ok [of cr "local_contact d" d now request]
  by (simp add: knows_def handle_rpc_buckets)

lemma network_call_member:
  assumes "network_ok cr members net" "peer \<in> members" "rpc_sender request \<in> members"
  shows "\<exists>d. net_nodes net (node_id peer) = Some d \<and> local_contact d = peer \<and> knows cr members d \<and>
    network_call cr net peer request =
      (net\<lparr>net_nodes := (net_nodes net)(node_id peer \<mapsto> fst (handle_rpc cr (net_time net) d request))\<rparr>,
       snd (handle_rpc cr (net_time net) d request)) \<and>
    network_ok cr members (net\<lparr>net_nodes := (net_nodes net)(node_id peer \<mapsto> fst (handle_rpc cr (net_time net) d request))\<rparr>)"
proof -
  obtain d where d: "net_nodes net (node_id peer) = Some d" "local_contact d = peer" "knows cr members d"
    using member_node [OF assms(1,2)] by blast
  have "network_ok cr members
      (net\<lparr>net_nodes := (net_nodes net)(node_id peer \<mapsto> fst (handle_rpc cr (net_time net) d request))\<rparr>)"
    using network_ok_update [OF assms(1) knows_handle_rpc [OF d(3) assms(3), of "net_time net"]] by (simp add: d(2))
  then show ?thesis using d by (simp add: network_call_def case_prod_unfold Let_def)
qed

text \<open>A lookup changes no record; what it leaves of the node and the network.\<close>

definition undisturbed :: "crypto \<Rightarrow> contact set \<Rightarrow> dht_daemon \<Rightarrow> dht_network \<Rightarrow> dht_daemon \<Rightarrow> dht_network \<Rightarrow> bool" where
  "undisturbed cr members d net d' net' \<longleftrightarrow> network_ok cr members net' \<and> net_time net' = net_time net \<and>
     holdings net' = holdings net \<and> knows cr members d' \<and> local_contact d' = local_contact d \<and> records d' = records d"

lemma undisturbed_trans:
  "undisturbed cr members d net d' net' \<Longrightarrow> undisturbed cr members d' net' d'' net'' \<Longrightarrow>
     undisturbed cr members d net d'' net''"
  by (simp add: undisturbed_def)

lemma call_find_node:
  assumes "network_ok cr members net" "peer \<in> members" "source \<in> members"
  shows "\<exists>net' cs. network_call cr net peer (FindNode source target) = (net', Inr (Nodes cs)) \<and>
    network_ok cr members net' \<and> net_time net' = net_time net \<and> holdings net' = holdings net \<and> set cs = members - {peer}"
proof -
  let ?request = "FindNode source target"
  obtain d where d: "net_nodes net (node_id peer) = Some d" "local_contact d = peer" "knows cr members d"
    "network_call cr net peer ?request =
      (net\<lparr>net_nodes := (net_nodes net)(node_id peer \<mapsto> fst (handle_rpc cr (net_time net) d ?request))\<rparr>,
       snd (handle_rpc cr (net_time net) d ?request))"
    "network_ok cr members (net\<lparr>net_nodes := (net_nodes net)(node_id peer \<mapsto> fst (handle_rpc cr (net_time net) d ?request))\<rparr>)"
    using network_call_member [OF assms(1,2), of ?request] assms(3) by auto
  have "set (closest_contacts (add_contact cr d source) target K_BUCKET_SIZE) = members - {peer}"
    using closest_all(1) [OF knows_add_contact [OF d(3) assms(3)]] assms(1) d(2) by (simp add: network_ok_def)
  moreover have "handle_rpc cr (net_time net) d ?request =
      (add_contact cr d source, Inr (Nodes (closest_contacts (add_contact cr d source) target K_BUCKET_SIZE)))"
    by (simp add: handle_rpc_def Let_def)
  ultimately show ?thesis
    using d(1,4,5) by (auto simp: holdings_def fun_eq_iff)
qed

lemma learn_nodes_known:
  "knows cr members d \<Longrightarrow> set cs \<subseteq> members \<Longrightarrow> distinct known \<Longrightarrow>
     \<exists>d' known'. learn_nodes cr d known cs = (d', known') \<and> knows cr members d' \<and>
       local_contact d' = local_contact d \<and> records d' = records d \<and> set known' = set known \<union> set cs \<and> distinct known'"
proof (induction cs arbitrary: d known)
  case (Cons c cs)
  have "knows cr members (add_contact cr d c)" using Cons.prems by (intro knows_add_contact) simp_all
  then show ?case
    using Cons.IH [of "add_contact cr d c" "if c \<in> set known then known else known @ [c]"] Cons.prems
    by (auto split: if_splits)
qed simp

lemma query_round_known:
  "network_ok cr members net \<Longrightarrow> knows cr members d \<Longrightarrow> set peers \<subseteq> members \<Longrightarrow> distinct known \<Longrightarrow>
     \<exists>d' net' known'. query_round cr (network_env cr) target d net known peers = (d', net', known') \<and>
       undisturbed cr members d net d' net' \<and> distinct known' \<and>
       set known' = set known \<union> (\<Union>peer \<in> set peers. members - {peer})"
proof (induction peers arbitrary: d net known)
  case Nil
  then show ?case by (simp add: undisturbed_def)
next
  case (Cons peer peers)
  have source: "local_contact d \<in> members" using Cons.prems(2) by (simp add: knows_def)
  obtain net1 cs where called: "network_call cr net peer (FindNode (local_contact d) target) = (net1, Inr (Nodes cs))"
    "network_ok cr members net1" "net_time net1 = net_time net" "holdings net1 = holdings net" "set cs = members - {peer}"
    using call_find_node [OF Cons.prems(1) _ source, of peer target] Cons.prems(3) by auto
  obtain d1 known1 where learnt: "learn_nodes cr d known cs = (d1, known1)" "knows cr members d1"
    "local_contact d1 = local_contact d" "records d1 = records d" "set known1 = set known \<union> set cs" "distinct known1"
    using learn_nodes_known [OF Cons.prems(2) _ Cons.prems(4), of cs] called(5) by auto
  have here: "undisturbed cr members d net d1 net1" using called learnt by (simp add: undisturbed_def)
  obtain d' net' known' where rest: "query_round cr (network_env cr) target d1 net1 known1 peers = (d', net', known')"
    "undisturbed cr members d1 net1 d' net'" "distinct known'"
    "set known' = set known1 \<union> (\<Union>peer \<in> set peers. members - {peer})"
    using Cons.IH [OF called(2) learnt(2) _ learnt(6)] Cons.prems(3) by auto
  have "query_round cr (network_env cr) target d net known (peer # peers) = (d', net', known')"
    using called(1) learnt(1) rest(1) by (simp add: network_env_def)
  then show ?case
    using undisturbed_trans [OF here rest(2)] rest(3,4) learnt(5) called(5) by auto
qed


section \<open>A lookup returns the whole network\<close>

text \<open>With at most twenty members no contact is cut off; the first peer asked names the searching node itself.\<close>

lemma lookup_loop_known:
  "network_ok cr members net \<Longrightarrow> knows cr members d \<Longrightarrow> distinct known \<Longrightarrow>
   members - {local_contact d} \<subseteq> set known \<Longrightarrow> set known \<subseteq> members \<Longrightarrow>
     \<exists>d' net' known'. lookup_loop cr (network_env cr) target d net known queried = (d', net', known') \<and>
       undisturbed cr members d net d' net' \<and> distinct known' \<and> set known \<subseteq> set known' \<and> set known' \<subseteq> members \<and>
       (queried = [] \<and> known \<noteq> [] \<and> local_contact d \<notin> set known \<longrightarrow> set known' = members)"
proof (induction cr "network_env cr" target d net known queried rule: lookup_loop.induct)
  case (1 cr target d net known queried)
  let ?round = "take LOOKUP_ALPHA (filter (\<lambda>c. c \<notin> set queried) known)"
  have round: "set ?round \<subseteq> set known" by (auto dest: in_set_takeD)
  show ?case
  proof (cases "?round = []")
    case True
    then have "queried = [] \<Longrightarrow> known = []" by (simp add: LOOKUP_ALPHA_def)
    then show ?thesis using True "1.prems" by (subst lookup_loop.simps) (auto simp: undisturbed_def Let_def)
  next
    case False
    obtain d1 net1 learned where asked: "query_round cr (network_env cr) target d net known ?round = (d1, net1, learned)"
      "undisturbed cr members d net d1 net1" "distinct learned"
      "set learned = set known \<union> (\<Union>peer \<in> set ?round. members - {peer})"
      using query_round_known [OF "1.prems"(1,2) order_trans [OF round "1.prems"(5)] "1.prems"(3), of target] by blast
    define known1 where "known1 = take K_BUCKET_SIZE (sort_key (\<lambda>c. xor_distance (node_id c) target) learned)"
    have "set learned \<subseteq> members" using asked(4) "1.prems"(5) by auto
    moreover have "finite members" "card members \<le> 20" using "1.prems"(1) by (simp_all add: network_ok_def)
    ultimately have "length learned \<le> K_BUCKET_SIZE"
      using asked(3) card_mono [of members "set learned"] by (simp add: distinct_card K_BUCKET_SIZE_def)
    then have known1: "set known1 = set learned" "distinct known1" using asked(3) by (simp_all add: known1_def)
    have grown: "set known \<subseteq> set known1" "set known1 \<subseteq> members"
      using known1 asked(4) \<open>set learned \<subseteq> members\<close> by auto
    have whole: "set known1 = members" if "local_contact d \<notin> set known"
    proof -
      obtain c where "c \<in> set ?round" using False by (cases ?round) auto
      then have "c \<noteq> local_contact d" "c \<in> set ?round" using round that by auto
      moreover have "local_contact d \<in> members" using "1.prems"(2) by (simp add: knows_def)
      ultimately have "local_contact d \<in> set learned" using asked(4) by auto
      then show ?thesis using known1(1) grown "1.prems"(4) by auto
    qed
    have now: "network_ok cr members net1" "knows cr members d1" "local_contact d1 = local_contact d"
      using asked(2) by (simp_all add: undisturbed_def)
    show ?thesis
    proof (cases "best target known = best target known1 \<and> length known1 \<le> length (queried @ ?round)")
      case True
      then have "lookup_loop cr (network_env cr) target d net known queried = (d1, net1, known1)"
        using False asked(1) by (subst lookup_loop.simps) (simp add: Let_def known1_def)
      then show ?thesis using asked(2) known1(2) grown whole by auto
    next
      case again: False
      have unfolded: "lookup_loop cr (network_env cr) target d net known queried =
          lookup_loop cr (network_env cr) target d1 net1 known1 (queried @ ?round)"
        using False again asked(1) by (subst lookup_loop.simps) (auto simp: Let_def known1_def)
      have others: "members - {local_contact d1} \<subseteq> set known1" using now(3) grown(1) "1.prems"(4) by auto
      then obtain d' net' known' where rest:
        "lookup_loop cr (network_env cr) target d1 net1 known1 (queried @ ?round) = (d', net', known')"
        "undisturbed cr members d1 net1 d' net'" "distinct known'" "set known1 \<subseteq> set known'" "set known' \<subseteq> members"
        using "1.hyps" [OF refl False refl asked(1) [symmetric] refl known1_def refl again now(1,2) known1(2) others grown(2)] by blast
      then show ?thesis
        unfolding unfolded using undisturbed_trans [OF asked(2) rest(2)] grown whole by auto
    qed
  qed
qed

lemma find_node_known:
  assumes net: "network_ok cr members net" and d: "knows cr members d" and two: "members \<noteq> {local_contact d}"
  shows "\<exists>d' net' peers. find_node cr (network_env cr) d net target = (d', net', peers) \<and>
    undisturbed cr members d net d' net' \<and> distinct peers \<and> set peers = members"
proof -
  have small: "finite members" "card members \<le> 20" using net by (simp_all add: network_ok_def)
  have all: "set (closest_contacts d target K_BUCKET_SIZE) = members - {local_contact d}"
    "distinct (closest_contacts d target K_BUCKET_SIZE)"
    using closest_all [OF d small] by simp_all
  have others: "members - {local_contact d} \<subseteq> set (closest_contacts d target K_BUCKET_SIZE)"
    "set (closest_contacts d target K_BUCKET_SIZE) \<subseteq> members"
    using all(1) by auto
  have "local_contact d \<in> members" using d by (simp add: knows_def)
  then have "members - {local_contact d} \<noteq> {}" using two by blast
  then have "closest_contacts d target K_BUCKET_SIZE \<noteq> []" by (metis all(1) set_empty2)
  moreover have "local_contact d \<notin> set (closest_contacts d target K_BUCKET_SIZE)" by (simp add: all(1))
  ultimately show ?thesis
    using lookup_loop_known [OF net d all(2) others, of target "[]"] unfolding find_node_def by (elim exE conjE) simp
qed


section \<open>Publication and retrieval\<close>

text \<open>A key under which the nodes hold one record at most, and a node that holds it.\<close>

definition only_copies :: "stored_record \<Rightarrow> hash32 \<Rightarrow> dht_network \<Rightarrow> bool" where
  "only_copies item key net \<longleftrightarrow> (\<forall>i h. holdings net i = Some h \<longrightarrow> h key = None \<or> h key = Some item)"

definition holds :: "stored_record \<Rightarrow> hash32 \<Rightarrow> dht_network \<Rightarrow> contact \<Rightarrow> bool" where
  "holds item key net c \<longleftrightarrow> (\<exists>h. holdings net (node_id c) = Some h \<and> h key = Some item)"

lemma holdings_update:
  "holdings (net\<lparr>net_nodes := (net_nodes net)(i \<mapsto> d)\<rparr>) j = (if j = i then Some (records d) else holdings net j)"
  by (simp add: holdings_def)

lemma only_copies_update:
  "only_copies item key net \<Longrightarrow> records d key = None \<or> records d key = Some item \<Longrightarrow>
     only_copies item key (net\<lparr>net_nodes := (net_nodes net)(i \<mapsto> d)\<rparr>)"
  by (simp add: only_copies_def holdings_update)

lemma only_copies_node:
  assumes "only_copies item key net" "net_nodes net i = Some d"
  shows "records d key = None \<or> records d key = Some item"
proof -
  have "holdings net i = Some (records d)" using assms(2) by (simp add: holdings_def)
  then show ?thesis using assms(1) unfolding only_copies_def by blast
qed

lemma send_store_network:
  assumes valid: "validate_record cr now r owner None = Inr ()" and source: "source \<in> members"
  shows "network_ok cr members net \<Longrightarrow> net_time net = now \<Longrightarrow> set peers \<subseteq> members \<Longrightarrow>
     only_copies \<lparr>st_record = r, st_owner = owner\<rparr> (rec_key r) net \<Longrightarrow>
     \<exists>net'. send_store (network_env cr) source r owner net peers = (net', Inr ()) \<and> network_ok cr members net' \<and>
       net_time net' = now \<and> only_copies \<lparr>st_record = r, st_owner = owner\<rparr> (rec_key r) net'"
proof (induction peers arbitrary: net)
  case (Cons peer peers)
  let ?request = "Store source r owner"
  obtain d where d: "net_nodes net (node_id peer) = Some d"
    "network_call cr net peer ?request =
      (net\<lparr>net_nodes := (net_nodes net)(node_id peer \<mapsto> fst (handle_rpc cr (net_time net) d ?request))\<rparr>,
       snd (handle_rpc cr (net_time net) d ?request))"
    "network_ok cr members (net\<lparr>net_nodes := (net_nodes net)(node_id peer \<mapsto> fst (handle_rpc cr (net_time net) d ?request))\<rparr>)"
    using network_call_member [OF Cons.prems(1), of peer ?request] Cons.prems(3) source by auto
  let ?net = "net\<lparr>net_nodes := (net_nodes net)(node_id peer \<mapsto> fst (handle_rpc cr (net_time net) d ?request))\<rparr>"
  have handled: "handle_rpc cr (net_time net) d ?request =
      (insert_record (add_contact cr d source) (rec_key r) r owner, Inr Stored)"
    using valid Cons.prems(2) by (simp add: handle_rpc_def Let_def)
  have "only_copies \<lparr>st_record = r, st_owner = owner\<rparr> (rec_key r) ?net"
    using Cons.prems(4) by (intro only_copies_update) (simp_all add: handled insert_record_def)
  then show ?case
    using Cons.IH [of ?net] Cons.prems(2,3) d handled by (simp add: network_env_def)
qed simp

lemma knows_records: "knows cr members d \<Longrightarrow> dht_ok cr (local_contact d) (d\<lparr>records := h\<rparr>) \<Longrightarrow> knows cr members (d\<lparr>records := h\<rparr>)"
  by (simp add: knows_def)

lemma node_publish_network:
  assumes net: "network_ok cr members net" and p: "p \<in> members" "members \<noteq> {p}"
    and valid: "validate_record cr (net_time net) r owner None = Inr ()"
    and free: "only_copies \<lparr>st_record = r, st_owner = owner\<rparr> (rec_key r) net"
  shows "\<exists>net'. node_publish cr net (node_id p) r owner = (net', Inr ()) \<and> network_ok cr members net' \<and>
    net_time net' = net_time net \<and>
    only_copies \<lparr>st_record = r, st_owner = owner\<rparr> (rec_key r) net' \<and>
    holds \<lparr>st_record = r, st_owner = owner\<rparr> (rec_key r) net' p"
proof -
  let ?item = "\<lparr>st_record = r, st_owner = owner\<rparr>"
  obtain d where d: "net_nodes net (node_id p) = Some d" "local_contact d = p" "knows cr members d"
    using member_node [OF net p(1)] by blast
  define d1 where "d1 = insert_record d (rec_key r) r owner"
  have d1: "knows cr members d1" "local_contact d1 = p" "records d1 (rec_key r) = Some ?item"
    using knows_records [OF d(3)] insert_record_ok [of cr p d "net_time net" r owner None] valid d(2,3)
    by (auto simp: d1_def insert_record_def knows_def)
  obtain d2 net1 peers where found: "find_node cr (network_env cr) d1 net (rec_key r) = (d2, net1, peers)"
    "undisturbed cr members d1 net d2 net1" "set peers = members"
    using find_node_known [OF net d1(1)] p(2) d1(2) by metis
  have net1: "network_ok cr members net1" "net_time net1 = net_time net" "holdings net1 = holdings net"
    and d2: "knows cr members d2" "local_contact d2 = p" "records d2 (rec_key r) = Some ?item"
    using found(2) d1 by (simp_all add: undisturbed_def)
  have "only_copies ?item (rec_key r) net1" using free net1(3) by (simp add: only_copies_def)
  moreover have "set (take LOOKUP_ALPHA peers) \<subseteq> members" using found(3) set_take_subset by fastforce
  ultimately obtain net2 where sent: "send_store (network_env cr) p r owner net1 (take LOOKUP_ALPHA peers) = (net2, Inr ())"
    "network_ok cr members net2" "net_time net2 = net_time net" "only_copies ?item (rec_key r) net2"
    using send_store_network [OF valid p(1) net1(1,2)] by blast
  let ?net = "net2\<lparr>net_nodes := (net_nodes net2)(node_id p \<mapsto> d2)\<rparr>"
  have "node_publish cr net (node_id p) r owner = (?net, Inr ())"
    using d(1) valid found(1) sent(1) d2(2)
    by (simp add: node_publish_def store_record_def network_env_def d1_def Let_def)
  moreover have "network_ok cr members ?net" using network_ok_update [OF sent(2) d2(1)] d2(2) by simp
  moreover have "only_copies ?item (rec_key r) ?net" using only_copies_update [OF sent(4)] d2(3) by blast
  moreover have "holds ?item (rec_key r) ?net p" by (simp add: holds_def holdings_update d2(3))
  moreover have "net_time ?net = net_time net" by (simp add: sent(3))
  ultimately show ?thesis by blast
qed

lemma ask_value_network:
  assumes valid: "validate_record cr now r owner (Some key) = Inr ()"
  shows "network_ok cr members net \<Longrightarrow> net_time net = now \<Longrightarrow> knows cr members d \<Longrightarrow> set peers \<subseteq> members \<Longrightarrow>
     only_copies \<lparr>st_record = r, st_owner = owner\<rparr> key net \<Longrightarrow>
     \<exists>c \<in> set peers. holds \<lparr>st_record = r, st_owner = owner\<rparr> key net c \<Longrightarrow>
     \<exists>d' net'. ask_value cr (network_env cr) key d net peers = (d', net', Inr (Some r))"
proof (induction peers arbitrary: net)
  case (Cons peer peers)
  let ?item = "\<lparr>st_record = r, st_owner = owner\<rparr>" and ?request = "FindValue (local_contact d) key"
  have source: "local_contact d \<in> members" using Cons.prems(3) by (simp add: knows_def)
  obtain dp where dp: "net_nodes net (node_id peer) = Some dp"
    "network_call cr net peer ?request =
      (net\<lparr>net_nodes := (net_nodes net)(node_id peer \<mapsto> fst (handle_rpc cr (net_time net) dp ?request))\<rparr>,
       snd (handle_rpc cr (net_time net) dp ?request))"
    "network_ok cr members (net\<lparr>net_nodes := (net_nodes net)(node_id peer \<mapsto> fst (handle_rpc cr (net_time net) dp ?request))\<rparr>)"
    using network_call_member [OF Cons.prems(1), of peer ?request] Cons.prems(4) source by auto
  let ?net = "net\<lparr>net_nodes := (net_nodes net)(node_id peer \<mapsto> fst (handle_rpc cr (net_time net) dp ?request))\<rparr>"
  have fresh: "now < rec_expiry r" using valid by (simp add: validate_record_Inr)
  show ?case
  proof (cases "records dp key = None")
    case False
    then have "records dp key = Some ?item" using only_copies_node [OF Cons.prems(5) dp(1)] by metis
    then have "snd (handle_rpc cr (net_time net) dp ?request) = Inr (Value r owner)"
      using fresh Cons.prems(2) by (simp add: handle_rpc_def remove_expired_def Let_def)
    then show ?thesis using dp(2) valid Cons.prems(2) by (simp add: network_env_def)
  next
    case True
    have handled: "records (fst (handle_rpc cr (net_time net) dp ?request)) key = None"
      "\<exists>nodes. snd (handle_rpc cr (net_time net) dp ?request) = Inr (Nodes nodes)"
      using True by (simp_all add: handle_rpc_def remove_expired_def Let_def)
    have "only_copies ?item key ?net" using only_copies_update [OF Cons.prems(5)] handled(1) by blast
    moreover have "\<exists>c \<in> set peers. holds ?item key ?net c"
    proof -
      obtain c where c: "c \<in> set (peer # peers)" "holds ?item key net c" using Cons.prems(6) by blast
      then have "node_id c \<noteq> node_id peer" using True dp(1) by (auto simp: holds_def holdings_def)
      then show ?thesis using c by (auto simp: holds_def holdings_update)
    qed
    ultimately obtain d' net' where "ask_value cr (network_env cr) key d ?net peers = (d', net', Inr (Some r))"
      using Cons.IH [OF dp(3)] Cons.prems(2-4) by auto
    then show ?thesis using dp(2) handled(2) by (auto simp: network_env_def)
  qed
qed simp

lemma node_lookup_network:
  assumes net: "network_ok cr members net" and q: "q \<in> members" and p: "p \<in> members" "members \<noteq> {q}"
    and valid: "validate_record cr (net_time net) r owner (Some key) = Inr ()"
    and copies: "only_copies \<lparr>st_record = r, st_owner = owner\<rparr> key net" "holds \<lparr>st_record = r, st_owner = owner\<rparr> key net p"
  shows "\<exists>net'. node_lookup cr net (node_id q) key = (net', Inr (Some r))"
proof -
  obtain d where d: "net_nodes net (node_id q) = Some d" "local_contact d = q" "knows cr members d"
    using member_node [OF net q] by blast
  define d1 where "d1 = remove_expired (net_time net) d"
  have d1: "knows cr members d1" "local_contact d1 = q"
    using d(2,3) remove_expired_ok [of cr q d "net_time net"] by (simp_all add: d1_def knows_def remove_expired_def)
  show ?thesis
  proof (cases "records d1 key")
    case (Some item)
    then have "item = \<lparr>st_record = r, st_owner = owner\<rparr>"
      using only_copies_node [OF copies(1) d(1)] by (auto simp: d1_def remove_expired_def split: option.splits if_splits)
    then show ?thesis using d(1) Some by (simp add: node_lookup_def find_value_def network_env_def d1_def Let_def)
  next
    case None
    have "members \<noteq> {local_contact d1}" using p(2) d1(2) by simp
    then obtain d2 net1 peers where found: "find_node cr (network_env cr) d1 net key = (d2, net1, peers)"
      "undisturbed cr members d1 net d2 net1" "set peers = members"
      using find_node_known [OF net d1(1), of key] by blast
    have net1: "network_ok cr members net1" "net_time net1 = net_time net" "holdings net1 = holdings net" "knows cr members d2"
      using found(2) by (simp_all add: undisturbed_def)
    have "only_copies \<lparr>st_record = r, st_owner = owner\<rparr> key net1" "\<exists>c \<in> set peers. holds \<lparr>st_record = r, st_owner = owner\<rparr> key net1 c"
      using copies p(1) found(3) net1(3) by (auto simp: only_copies_def holds_def)
    then obtain d' net' where "ask_value cr (network_env cr) key d2 net1 peers = (d', net', Inr (Some r))"
      using ask_value_network [OF valid net1(1,2,4)] found(3) by blast
    then show ?thesis
      using d(1) None found(1) by (simp add: node_lookup_def find_value_def network_env_def d1_def Let_def)
  qed
qed


section \<open>Operations of the network\<close>

text \<open>
  What can happen in the network: a member publishes a record or looks a key up, a member is sent a
  request by another one outside of these operations, and time goes on.
\<close>

datatype net_op =
    Publish contact dht_record public_key
  | Lookup contact hash32
  | Request contact dht_rpc
  | TimeIs u64

datatype net_response =
    Published "network_error + unit"
  | Found "network_error + dht_record option"
  | Answered "network_error + dht_response"
  | TimePassed

fun network_step :: "crypto \<Rightarrow> dht_network \<Rightarrow> net_op \<Rightarrow> dht_network \<times> net_response" where
  "network_step cr net (Publish c r owner) = map_prod id Published (node_publish cr net (node_id c) r owner)"
| "network_step cr net (Lookup c key) = map_prod id Found (node_lookup cr net (node_id c) key)"
| "network_step cr net (Request c request) = map_prod id Answered (network_call cr net c request)"
| "network_step cr net (TimeIs t) = (net\<lparr>net_time := t\<rparr>, TimePassed)"

text \<open>A record that the nodes have under its key, and no other; \<open>p\<close> is the node that published it.\<close>

abbreviation item_key :: "stored_record \<Rightarrow> hash32" where
  "item_key item \<equiv> rec_key (st_record item)"

abbreviation same_or_other :: "stored_record \<Rightarrow> dht_record \<Rightarrow> public_key \<Rightarrow> bool" where
  "same_or_other item r owner \<equiv> rec_key r = item_key item \<longrightarrow> \<lparr>st_record = r, st_owner = owner\<rparr> = item"

definition sound_net :: "crypto \<Rightarrow> contact set \<Rightarrow> stored_record \<Rightarrow> contact \<Rightarrow> dht_network \<Rightarrow> bool" where
  "sound_net cr members item p net \<longleftrightarrow> network_ok cr members net \<and> net_time net < rec_expiry (st_record item) \<and>
     only_copies item (item_key item) net \<and> holds item (item_key item) net p"

definition sound_node :: "crypto \<Rightarrow> contact set \<Rightarrow> stored_record \<Rightarrow> contact \<Rightarrow> dht_daemon \<Rightarrow> bool" where
  "sound_node cr members item p d \<longleftrightarrow> knows cr members d \<and>
     (records d (item_key item) = None \<or> records d (item_key item) = Some item) \<and>
     (local_contact d = p \<longrightarrow> records d (item_key item) = Some item)"

fun harmless :: "stored_record \<Rightarrow> dht_rpc \<Rightarrow> bool" where
  "harmless item (Store _ r owner) \<longleftrightarrow> same_or_other item r owner"
| "harmless item _ \<longleftrightarrow> True"

lemma sound_net_node:
  assumes "sound_net cr members item p net" "c \<in> members"
  obtains d where "net_nodes net (node_id c) = Some d" "local_contact d = c" "sound_node cr members item p d"
proof -
  have net: "network_ok cr members net" using assms(1) by (simp add: sound_net_def)
  obtain d where d: "net_nodes net (node_id c) = Some d" "local_contact d = c" "knows cr members d"
    using member_node [OF net assms(2)] by blast
  have "records d (item_key item) = None \<or> records d (item_key item) = Some item"
    using assms(1) only_copies_node [OF _ d(1)] by (simp add: sound_net_def)
  moreover have "records d (item_key item) = Some item" if "c = p"
    using assms(1) d(1) that by (auto simp: sound_net_def holds_def holdings_def)
  ultimately show thesis using that d by (simp add: sound_node_def)
qed

lemma sound_net_update:
  assumes "sound_net cr members item p net" "sound_node cr members item p d" "p \<in> members"
  shows "sound_net cr members item p (net\<lparr>net_nodes := (net_nodes net)(node_id (local_contact d) \<mapsto> d)\<rparr>)"
proof -
  have "inj_on node_id members" "local_contact d \<in> members"
    using assms by (simp_all add: sound_net_def sound_node_def network_ok_def knows_def)
  then have "node_id p = node_id (local_contact d) \<Longrightarrow> local_contact d = p" using assms(3) by (auto dest: inj_onD)
  then show ?thesis
    using assms network_ok_update [of cr members net d] only_copies_update [of item "item_key item" net d]
    by (auto simp: sound_net_def sound_node_def holds_def holdings_update)
qed

lemma sound_handle_rpc:
  assumes "sound_node cr members item p d" "rpc_sender request \<in> members" "harmless item request"
    and "now < rec_expiry (st_record item)"
  shows "sound_node cr members item p (fst (handle_rpc cr now d request))"
proof -
  let ?d = "fst (handle_rpc cr now d request)"
  have "knows cr members ?d" using assms(1,2) by (simp add: sound_node_def knows_handle_rpc)
  moreover have "records ?d (item_key item) = records d (item_key item) \<or> records ?d (item_key item) = Some item"
    using assms by (cases request; cases "records d (item_key item)")
      (auto simp: sound_node_def handle_rpc_def remove_expired_def insert_record_def Let_def split: sum.splits option.splits)
  ultimately show ?thesis using assms(1) by (auto simp: sound_node_def)
qed

text \<open>A call to a member that stores nothing else under the key keeps the network sound; a value found there is the record.\<close>

lemma sound_call:
  assumes net: "sound_net cr members item p net" and p: "p \<in> members" and peer: "peer \<in> members"
    and source: "rpc_sender request \<in> members" and request: "harmless item request"
    and called: "network_call cr net peer request = (net', x)"
  shows "sound_net cr members item p net'" "net_time net' = net_time net"
    "request = FindValue c (item_key item) \<Longrightarrow> x = Inr (Value r owner) \<Longrightarrow> \<lparr>st_record = r, st_owner = owner\<rparr> = item"
proof -
  obtain d where d: "net_nodes net (node_id peer) = Some d" "local_contact d = peer" "sound_node cr members item p d"
    by (rule sound_net_node [OF net peer])
  have fresh: "net_time net < rec_expiry (st_record item)" using net by (simp add: sound_net_def)
  have net': "net' = net\<lparr>net_nodes := (net_nodes net)(node_id peer \<mapsto> fst (handle_rpc cr (net_time net) d request))\<rparr>"
    and x: "x = snd (handle_rpc cr (net_time net) d request)"
    using called d(1) by (simp_all add: network_call_def case_prod_unfold Let_def)
  show "sound_net cr members item p net'" "net_time net' = net_time net"
    using sound_net_update [OF net sound_handle_rpc [OF d(3) source request fresh] p] by (simp_all add: net' d(2))
  show "\<lparr>st_record = r, st_owner = owner\<rparr> = item" if "request = FindValue c (item_key item)" "x = Inr (Value r owner)"
    using that d(3) fresh
    by (auto simp: x handle_rpc_def remove_expired_def sound_node_def Let_def split: option.splits if_splits)
qed

lemma sound_undisturbed:
  "undisturbed cr members d net d' net' \<Longrightarrow> sound_net cr members item p net \<Longrightarrow> sound_node cr members item p d \<Longrightarrow>
     sound_net cr members item p net' \<and> sound_node cr members item p d'"
proof -
  assume u: "undisturbed cr members d net d' net'" and sound: "sound_net cr members item p net" "sound_node cr members item p d"
  have eqs: "holdings net' = holdings net" "net_time net' = net_time net" "local_contact d' = local_contact d" "records d' = records d"
    and ok: "network_ok cr members net'" "knows cr members d'"
    using u unfolding undisturbed_def by blast+
  show ?thesis
    using sound ok unfolding sound_net_def sound_node_def only_copies_def holds_def eqs by blast
qed

lemma knows_same_contacts:
  "knows cr members d \<Longrightarrow> dht_ok cr (local_contact d) d' \<Longrightarrow> buckets d' = buckets d \<Longrightarrow> knows cr members d'"
  unfolding knows_def dht_ok_def by metis

lemma sound_insert:
  assumes "sound_node cr members item p d" "same_or_other item r owner" "validate_record cr now r owner requested = Inr ()"
  shows "sound_node cr members item p (insert_record d (rec_key r) r owner)"
proof -
  have d: "knows cr members d" "dht_ok cr (local_contact d) d" using assms(1) by (simp_all only: sound_node_def knows_def)
  have "buckets (insert_record d (rec_key r) r owner) = buckets d" by (simp add: insert_record_def)
  from knows_same_contacts [OF d(1) insert_record_ok [OF d(2) assms(3) refl] this]
  have "knows cr members (insert_record d (rec_key r) r owner)" .
  then show ?thesis using assms(1,2) by (auto simp: sound_node_def insert_record_def)
qed

lemma sound_remove_expired:
  assumes "sound_node cr members item p d" "now < rec_expiry (st_record item)"
  shows "sound_node cr members item p (remove_expired now d)"
proof -
  have d: "knows cr members d" "dht_ok cr (local_contact d) d" using assms(1) by (simp_all only: sound_node_def knows_def)
  have "buckets (remove_expired now d) = buckets d" by (simp add: remove_expired_def)
  from knows_same_contacts [OF d(1) remove_expired_ok [OF d(2)] this]
  have "knows cr members (remove_expired now d)" .
  then show ?thesis using assms by (auto simp: sound_node_def remove_expired_def)
qed

section \<open>A published record stays\<close>

lemma sound_send_store:
  assumes p: "p \<in> members" and source: "source \<in> members" and r: "same_or_other item r owner"
  shows "sound_net cr members item p net \<Longrightarrow> set peers \<subseteq> members \<Longrightarrow>
    send_store (network_env cr) source r owner net peers = (net', x) \<Longrightarrow> sound_net cr members item p net'"
proof (induction peers arbitrary: net)
  case (Cons peer peers)
  obtain net1 y where called: "network_call cr net peer (Store source r owner) = (net1, y)" by fastforce
  have "sound_net cr members item p net1"
    using sound_call(1) [OF Cons.prems(1) p _ _ _ called] Cons.prems(2) source r by simp
  then show ?case
    using Cons.IH [of net1] Cons.prems(2,3) called by (auto simp: network_env_def split: sum.splits)
qed simp

lemma sound_ask_value:
  assumes p: "p \<in> members"
  shows "sound_net cr members item p net \<Longrightarrow> sound_node cr members item p d \<Longrightarrow> set peers \<subseteq> members \<Longrightarrow>
    ask_value cr (network_env cr) key d net peers = (d', net', x) \<Longrightarrow>
    sound_net cr members item p net' \<and> sound_node cr members item p d' \<and> local_contact d' = local_contact d"
proof (induction peers arbitrary: net)
  case (Cons peer peers)
  let ?request = "FindValue (local_contact d) key"
  have source: "local_contact d \<in> members" using Cons.prems(2) by (simp add: sound_node_def knows_def)
  obtain net1 y where called: "network_call cr net peer ?request = (net1, y)" by fastforce
  have net1: "sound_net cr members item p net1"
    and found: "key = item_key item \<Longrightarrow> y = Inr (Value r owner) \<Longrightarrow> \<lparr>st_record = r, st_owner = owner\<rparr> = item" for r owner
    using sound_call [OF Cons.prems(1) p _ _ _ called] Cons.prems(3) source by simp_all
  show ?case
  proof (cases "\<exists>r owner. y = Inr (Value r owner) \<and> validate_record cr (net_time net1) r owner (Some key) = Inr ()")
    case True
    then obtain r owner where y: "y = Inr (Value r owner)"
      and valid: "validate_record cr (net_time net1) r owner (Some key) = Inr ()" by blast
    then have key: "key = rec_key r" by (simp add: validate_record_Inr)
    have "same_or_other item r owner" using found [OF _ y] key by blast
    from sound_insert [OF Cons.prems(2) this valid] show ?thesis
      using Cons.prems(4) called y valid net1 key by (auto simp: network_env_def insert_record_def)
  next
    case False
    then show ?thesis
      using Cons.IH [OF net1 Cons.prems(2)] Cons.prems called net1
      by (auto simp: network_env_def split: sum.splits dht_response.splits)
  qed
qed simp

lemma sound_publish:
  assumes net: "sound_net cr members item p net" and p: "p \<in> members" "members \<noteq> {c}" and c: "c \<in> members"
    and r: "same_or_other item r owner"
  shows "sound_net cr members item p (fst (node_publish cr net (node_id c) r owner))"
proof -
  obtain d where d: "net_nodes net (node_id c) = Some d" "local_contact d = c" "sound_node cr members item p d"
    by (rule sound_net_node [OF net c])
  show ?thesis
  proof (cases "validate_record cr (net_time net) r owner None")
    case (Inl e)
    then show ?thesis
      using d sound_net_update [OF net d(3) p(1)] by (simp add: node_publish_def store_record_def network_env_def Let_def)
  next
    case (Inr u)
    define d1 where "d1 = insert_record d (rec_key r) r owner"
    have d1: "sound_node cr members item p d1" "local_contact d1 = c"
      using sound_insert [OF d(3) r, of "net_time net" None] Inr d(2) by (simp_all add: d1_def insert_record_def)
    obtain d2 net1 peers where found: "find_node cr (network_env cr) d1 net (rec_key r) = (d2, net1, peers)"
      "undisturbed cr members d1 net d2 net1" "set peers = members"
      using find_node_known [of cr members net d1 "rec_key r"] net d1 p(2) by (auto simp: sound_net_def sound_node_def)
    have now: "sound_net cr members item p net1" "sound_node cr members item p d2" "local_contact d2 = c"
      using sound_undisturbed [OF found(2) net d1(1)] found(2) d1(2) by (simp_all add: undisturbed_def)
    obtain net2 x where sent: "send_store (network_env cr) c r owner net1 (take LOOKUP_ALPHA peers) = (net2, x)" by fastforce
    have "set (take LOOKUP_ALPHA peers) \<subseteq> members" using found(3) by (auto dest: in_set_takeD)
    from sound_send_store [OF p(1) c r now(1) this sent] have "sound_net cr members item p net2" .
    from sound_net_update [OF this now(2) p(1)] show ?thesis
      using d(1) Inr found(1) sent now(3)
      by (simp add: node_publish_def store_record_def network_env_def d1_def Let_def)
  qed
qed

lemma sound_lookup:
  assumes net: "sound_net cr members item p net" and p: "p \<in> members" "members \<noteq> {c}" and c: "c \<in> members"
  shows "sound_net cr members item p (fst (node_lookup cr net (node_id c) key))"
proof -
  obtain d where d: "net_nodes net (node_id c) = Some d" "local_contact d = c" "sound_node cr members item p d"
    by (rule sound_net_node [OF net c])
  define d1 where "d1 = remove_expired (net_time net) d"
  have d1: "sound_node cr members item p d1" "local_contact d1 = c"
    using sound_remove_expired [OF d(3)] net d(2) by (simp_all add: d1_def remove_expired_def sound_net_def)
  show ?thesis
  proof (cases "records d1 key")
    case (Some found)
    then show ?thesis
      using d(1) d1 sound_net_update [OF net d1(1) p(1)] by (simp add: node_lookup_def find_value_def network_env_def d1_def Let_def)
  next
    case None
    obtain d2 net1 peers where found: "find_node cr (network_env cr) d1 net key = (d2, net1, peers)"
      "undisturbed cr members d1 net d2 net1" "set peers = members"
      using find_node_known [of cr members net d1 key] net d1 p(2) by (auto simp: sound_net_def sound_node_def)
    have now: "sound_net cr members item p net1" "sound_node cr members item p d2" "local_contact d2 = c"
      using sound_undisturbed [OF found(2) net d1(1)] found(2) d1(2) by (simp_all add: undisturbed_def)
    obtain d3 net2 x where asked: "ask_value cr (network_env cr) key d2 net1 peers = (d3, net2, x)" by (metis prod_cases3)
    have last: "sound_net cr members item p net2" "sound_node cr members item p d3" "local_contact d3 = c"
      using sound_ask_value [OF p(1) now(1,2) _ asked] found(3) now(3) by simp_all
    from sound_net_update [OF last(1,2) p(1)] show ?thesis
      using d(1) None found(1) asked last(3) by (simp add: node_lookup_def find_value_def network_env_def d1_def Let_def)
  qed
qed

text \<open>The operations that leave the record alone: members act, nothing else is stored under its key, and it does not expire.\<close>

fun net_op_ok :: "contact set \<Rightarrow> stored_record \<Rightarrow> net_op \<Rightarrow> bool" where
  "net_op_ok members item (Publish c r owner) \<longleftrightarrow> c \<in> members \<and> same_or_other item r owner"
| "net_op_ok members item (Lookup c key) \<longleftrightarrow> c \<in> members"
| "net_op_ok members item (Request c request) \<longleftrightarrow> c \<in> members \<and> rpc_sender request \<in> members \<and> harmless item request"
| "net_op_ok members item (TimeIs t) \<longleftrightarrow> t < rec_expiry (st_record item)"

lemma network_step_sound:
  assumes "sound_net cr members item p net" "p \<in> members" "\<forall>c. members \<noteq> {c}" "net_op_ok members item op"
  shows "sound_net cr members item p (fst (network_step cr net op))"
proof (cases op)
  case (Publish c r owner)
  then show ?thesis using assms sound_publish [OF assms(1,2)] by simp
next
  case (Lookup c key)
  then show ?thesis using assms sound_lookup [OF assms(1,2)] by simp
next
  case (Request c request)
  then show ?thesis
    using assms sound_call(1) [OF assms(1,2), of c request] by (cases "network_call cr net c request") auto
next
  case (TimeIs t)
  then show ?thesis
    using assms by (simp add: sound_net_def network_ok_def only_copies_def holds_def holdings_def)
qed

interpretation dht_network: component "network_step cr"
  "\<lambda>net. sound_net cr members item p net \<and> p \<in> members \<and> (\<forall>c. members \<noteq> {c})" "net_op_ok members item"
  for cr members item p
  by unfold_locales (simp add: network_step_sound)

text \<open>In a sound network every member finds the record.\<close>

lemma sound_found:
  assumes net: "sound_net cr members item p net" and members: "p \<in> members" "c \<in> members" "members \<noteq> {c}"
    and valid: "validate_record cr (net_time net) (st_record item) (st_owner item) (Some (item_key item)) = Inr ()"
  shows "snd (network_step cr net (Lookup c (item_key item))) = Found (Inr (Some (st_record item)))"
proof -
  have item: "\<lparr>st_record = st_record item, st_owner = st_owner item\<rparr> = item" by simp
  have "network_ok cr members net" "only_copies item (item_key item) net" "holds item (item_key item) net p"
    using net by (simp_all add: sound_net_def)
  then obtain net' where "node_lookup cr net (node_id c) (item_key item) = (net', Inr (Some (st_record item)))"
    using node_lookup_network [OF _ members(2,1,3) valid] unfolding item by blast
  then show ?thesis by simp
qed

text \<open>Two nodes that have added each other.\<close>

definition pair_network :: "crypto \<Rightarrow> public_key \<Rightarrow> public_key \<Rightarrow> u64 \<Rightarrow> dht_network" where
  "pair_network cr a b now =
     \<lparr>net_nodes = [node_id (from_public_key cr a) \<mapsto> add_contact cr (dht_new cr a) (from_public_key cr b),
                   node_id (from_public_key cr b) \<mapsto> add_contact cr (dht_new cr b) (from_public_key cr a)],
      net_time = now\<rparr>"

lemma nat_be_zero: "nat_be n 0 = replicate n 0"
  by (induction n) simp_all

lemma bucket_index_exists: "a \<noteq> b \<Longrightarrow> \<exists>i. bucket_index a b = Some i"
proof -
  assume "a \<noteq> b"
  then have "from_be (encode (xor_distance a b)) \<noteq> (from_be (encode (0 :: hash32)) :: hash32)"
    using xor_distance_zero by (simp add: xor_distance_word)
  then have "encode (xor_distance a b) \<noteq> encode (0 :: hash32)" by metis
  moreover have "encode (0 :: hash32) = replicate (length (encode (xor_distance a b))) 0"
    by (simp add: encode_def to_be_def nat_be_zero)
  moreover have "first_set_bit n bs = None \<Longrightarrow> bs = replicate (length bs) 0" for n bs
    by (induction n bs rule: first_set_bit.induct) (auto split: if_splits)
  ultimately show ?thesis unfolding bucket_index_def by (metis length_encode not_Some_eq length_replicate)
qed


lemma knows_only_contact:
  assumes "node_id (from_public_key cr a) \<noteq> node_id (from_public_key cr b)"
  shows "knows cr {from_public_key cr a, from_public_key cr b} (add_contact cr (dht_new cr a) (from_public_key cr b))"
proof -
  let ?a = "from_public_key cr a" and ?b = "from_public_key cr b"
  obtain i where i: "bucket_index (node_id ?a) (node_id ?b) = Some i" using bucket_index_exists [OF assms] by blast
  have "i < 256" by (rule bucket_index_less [OF i])
  then have "buckets (add_contact cr (dht_new cr a) ?b) = (replicate 256 [])[i := [?b]]"
    using i assms by (simp add: add_contact_def dht_new_def touch_def K_BUCKET_SIZE_def from_public_key_def Let_def)
  moreover have "set (concat ((replicate 256 [])[i := [?b]])) = {?b}"
    using \<open>i < 256\<close> unfolding set_concat_nth by (auto simp: nth_list_update split: if_splits)
  moreover have "local_contact (add_contact cr (dht_new cr a) ?b) = ?a" by (simp add: dht_new_def)
  moreover have "?a \<noteq> ?b" using assms by auto
  ultimately show ?thesis
    using add_contact_ok [OF dht_new_ok, of cr a ?b] by (auto simp: knows_def)
qed

lemma pair_network_ok:
  assumes "node_id (from_public_key cr a) \<noteq> node_id (from_public_key cr b)"
  shows "network_ok cr {from_public_key cr a, from_public_key cr b} (pair_network cr a b now)"
proof -
  have "from_public_key cr a \<noteq> from_public_key cr b" using assms by auto
  moreover have "local_contact (add_contact cr (dht_new cr k) c) = from_public_key cr k" for k c
    by (simp add: dht_new_def)
  ultimately show ?thesis
    using assms knows_only_contact [OF assms] knows_only_contact [OF assms [symmetric]]
    by (auto simp: network_ok_def pair_network_def insert_commute split: if_splits)
qed

text \<open>A toy instance whose hash is the end of its input, so that different keys have different identifiers.\<close>

definition echo_crypto :: crypto where
  "echo_crypto = toy_crypto\<lparr>sha256_digest := (\<lambda>bs. from_be (drop (length bs - 32) bs))\<rparr>"

text \<open>Along every sequence of such operations each lookup of the key finds the record.\<close>

lemma lookups_found:
  assumes "p \<in> members" "\<forall>c. members \<noteq> {c}"
    and valid: "\<And>now. now < rec_expiry (st_record item) \<Longrightarrow>
      validate_record cr now (st_record item) (st_owner item) (Some (item_key item)) = Inr ()"
  shows "sound_net cr members item p net \<Longrightarrow> list_all (net_op_ok members item) ops \<Longrightarrow>
    list_all2 (\<lambda>op response. \<forall>q. op = Lookup q (item_key item) \<longrightarrow> response = Found (Inr (Some (st_record item))))
      ops (snd (run_ops (network_step cr) net ops))"
proof (induction ops arbitrary: net)
  case (Cons op ops)
  have "snd (network_step cr net op) = Found (Inr (Some (st_record item)))" if "op = Lookup q (item_key item)" for q
    using sound_found [OF Cons.prems(1) assms(1)] assms(2) valid Cons.prems that by (simp add: sound_net_def del: network_step.simps)
  moreover have "sound_net cr members item p (fst (network_step cr net op))"
    using network_step_sound [OF Cons.prems(1) assms(1,2)] Cons.prems(2) by simp
  ultimately show ?case
    using Cons.IH Cons.prems(2) by (auto simp: case_prod_unfold Let_def simp del: network_step.simps)
qed simp

section \<open>Properties\<close>

text \<open>
  C13. In a network of two to twenty nodes that know each other, publishing a signed record under a
  key without records succeeds; and whatever the nodes do afterwards, publishing under other keys (or
  the same record again), looking keys up, sending each other requests, in any order and number,
  every lookup of the key by any node gives exactly that record, as long as nobody stores
  another record under the key and the time stays before its expiry. The nodes still know each other at
  the end.
\<close>

theorem published_record_found:
  assumes "signs_correctly cr" "network_ok cr members net" "p \<in> members" "2 \<le> card members"
    and "\<forall>i h. holdings net i = Some h \<longrightarrow> h key = None" "net_time net < expiry"
    and "list_all (net_op_ok members \<lparr>st_record = sign_record cr sk key value expiry, st_owner = sk_public_key cr sk\<rparr>) ops"
  shows "(let r = sign_record cr sk key value expiry;
              (net1, published) = node_publish cr net (node_id p) r (sk_public_key cr sk);
              (net2, responses) = run_ops (network_step cr) net1 ops
          in published = Inr () \<and>
             list_all2 (\<lambda>op response. \<forall>q. op = Lookup q key \<longrightarrow> response = Found (Inr (Some r))) ops responses \<and>
             network_ok cr members net2)"
proof -
  let ?r = "sign_record cr sk key value expiry" and ?owner = "sk_public_key cr sk"
  let ?item = "\<lparr>st_record = ?r, st_owner = ?owner\<rparr>"
  have valid: "validate_record cr now ?r ?owner None = Inr ()" if "now < expiry" for now
    using sign_record_valid [OF assms(1) that] .
  have parts: "rec_key ?r = key" "rec_expiry ?r = expiry" by (simp_all add: sign_record_def Let_def)
  have more: "\<forall>c. members \<noteq> {c}" using assms(4) by auto
  have free: "only_copies ?item (rec_key ?r) net" using assms(5) by (simp add: only_copies_def parts(1))
  obtain net1 where published: "node_publish cr net (node_id p) ?r ?owner = (net1, Inr ())"
    "network_ok cr members net1" "net_time net1 = net_time net"
    "only_copies ?item (rec_key ?r) net1" "holds ?item (rec_key ?r) net1 p"
    using node_publish_network [OF assms(2,3) _ valid [OF assms(6)] free] more by blast
  then have sound: "sound_net cr members ?item p net1" using assms(6) by (simp add: sound_net_def parts(2))
  have "validate_record cr now ?r ?owner (Some key) = Inr ()" if "now < expiry" for now
    using valid [OF that] by (simp add: validate_record_Inr parts(1))
  then have "list_all2 (\<lambda>op response. \<forall>q. op = Lookup q key \<longrightarrow> response = Found (Inr (Some ?r)))
      ops (snd (run_ops (network_step cr) net1 ops))"
    using lookups_found [OF assms(3) more, of ?item cr net1 ops] sound assms(7) by (simp add: parts)
  moreover have "network_ok cr members (fst (run_ops (network_step cr) net1 ops))"
    using dht_network.run_inv [of cr members ?item p net1 ops] sound assms(3,7) more by (simp add: sound_net_def)
  ultimately show ?thesis by (simp add: published(1) case_prod_unfold Let_def)
qed

text \<open>Another node looks the key up twice, time goes on, and a node publishes under another key in between.\<close>

theorem published_record_found_witness:
  "(let a = from_public_key echo_crypto 1; b = from_public_key echo_crypto 2; r = sign_record echo_crypto 4 7 [1, 2] 9;
        (net1, published) = node_publish echo_crypto (pair_network echo_crypto 1 2 3) (node_id a) r (sk_public_key echo_crypto 4);
        (net2, responses) = run_ops (network_step echo_crypto) net1
          [Lookup b 7, Publish b (sign_record echo_crypto 5 8 [3] 9) (sk_public_key echo_crypto 5), TimeIs 5, Lookup b 7]
    in published = Inr () \<and> responses ! 0 = Found (Inr (Some r)) \<and> responses ! 3 = Found (Inr (Some r)))"
proof -
  let ?a = "from_public_key echo_crypto 1" and ?b = "from_public_key echo_crypto 2"
  let ?r = "sign_record echo_crypto 4 7 [1, 2] 9" and ?r' = "sign_record echo_crypto 5 8 [3] 9"
  let ?ops = "[Lookup ?b 7, Publish ?b ?r' (sk_public_key echo_crypto 5), TimeIs 5, Lookup ?b 7]"
  have signs: "signs_correctly echo_crypto" by (simp add: signs_correctly_def echo_crypto_def toy_crypto_def)
  have "length KEY_DESC_TAG = 32" by (simp add: KEY_DESC_TAG_def tag_of_def ascii_def)
  then have ids: "node_id ?a \<noteq> node_id ?b"
    by (simp add: from_public_key_def domain_hash_def echo_crypto_def toy_crypto_def compute_abstract_address_def
        key_description_to_bytes_def new_ed25519_def)
  then have two: "card {?a, ?b} = 2" by (auto simp: card_insert_if)
  have empty: "\<forall>i h. holdings (pair_network echo_crypto 1 2 3) i = Some h \<longrightarrow> h 7 = None"
    by (auto simp: holdings_def pair_network_def dht_new_def split: if_splits)
  have time: "net_time (pair_network echo_crypto 1 2 3) < 9" by (simp add: pair_network_def)
  have ops: "list_all (net_op_ok {?a, ?b} \<lparr>st_record = ?r, st_owner = sk_public_key echo_crypto 4\<rparr>) ?ops"
    by (simp add: sign_record_def Let_def)
  obtain net1 x where net1: "node_publish echo_crypto (pair_network echo_crypto 1 2 3) (node_id ?a) ?r (sk_public_key echo_crypto 4) = (net1, x)"
    by fastforce
  obtain net2 rs where net2: "run_ops (network_step echo_crypto) net1 ?ops = (net2, rs)" by fastforce
  have "x = Inr ()" "list_all2 (\<lambda>op response. \<forall>q. op = Lookup q 7 \<longrightarrow> response = Found (Inr (Some ?r))) ?ops rs"
    using published_record_found [OF signs pair_network_ok [OF ids] _ _ empty time ops, of ?a] two net1 net2
    by (simp_all del: run_ops.simps add: Let_def)
  then show ?thesis using net1 net2 by (auto simp: Let_def list_all2_Cons1 simp del: run_ops.simps)
qed

end
