(* ===== verification/Texts.thy ===== *)
theory Texts
  imports Prelude
begin

text \<open>
  The operations of the Rust standard library on texts that the storage, the node and the tools use:
  lines, splitting, trimming, numbers in decimal notation. A character is a Unicode scalar below
  256, so the white space of \<open>char::is_whitespace\<close> is that of this range.
\<close>

section \<open>Lines\<close>

abbreviation newline :: char where
  "newline \<equiv> CHR 0x0A"

abbreviation carriage_return :: char where
  "carriage_return \<equiv> CHR 0x0D"

text \<open>\<open>str::lines\<close>: lines end with a line feed, which may follow a carriage return.\<close>

definition strip_return :: "string \<Rightarrow> string" where
  "strip_return l = (if l \<noteq> [] \<and> last l = carriage_return then butlast l else l)"

function split_lines :: "string \<Rightarrow> string list" where
  "split_lines s =
     (if s = [] then []
      else let l = takeWhile (\<lambda>c. c \<noteq> newline) s in
           case dropWhile (\<lambda>c. c \<noteq> newline) s of
             [] \<Rightarrow> [l]
           | _ # rest \<Rightarrow> strip_return l # split_lines rest)"
  by pat_completeness auto
termination split_lines
proof (relation "measure length")
  fix s l x and rest :: string
  assume "dropWhile (\<lambda>c. c \<noteq> newline) s = x # rest"
  then have "length (x # rest) \<le> length s" by (metis length_dropWhile_le)
  then show "(rest, s) \<in> measure length" by simp
qed simp

declare split_lines.simps [simp del]

lemma split_first:
  assumes "c \<notin> set xs"
  shows "takeWhile (\<lambda>x. x \<noteq> c) (xs @ c # ys) = xs" "dropWhile (\<lambda>x. x \<noteq> c) (xs @ c # ys) = c # ys"
  using assms by (induction xs) auto

lemma split_none:
  assumes "c \<notin> set xs"
  shows "takeWhile (\<lambda>x. x \<noteq> c) xs = xs" "dropWhile (\<lambda>x. x \<noteq> c) xs = []"
  using assms by (induction xs) auto

lemma split_lines_Cons:
  "newline \<notin> set l \<Longrightarrow> strip_return l = l \<Longrightarrow> split_lines (l @ newline # s) = l # split_lines s"
  by (subst split_lines.simps) (simp add: split_first)

lemma split_lines_concat:
  "\<forall>l \<in> set ls. newline \<notin> set l \<and> strip_return l = l \<Longrightarrow>
     split_lines (concat (map (\<lambda>l. l @ [newline]) ls) @ s) = ls @ split_lines s"
  by (induction ls) (simp_all add: split_lines_Cons)

section \<open>Trimming and splitting\<close>

definition white :: "char \<Rightarrow> bool" where
  "white c \<longleftrightarrow> (let n = of_char c :: nat in 9 \<le> n \<and> n \<le> 13 \<or> n = 32 \<or> n = 133 \<or> n = 160)"

text \<open>\<open>trim_matches\<close> with a predicate, of which \<open>trim\<close> is the case of white space.\<close>

definition trim_matches :: "(char \<Rightarrow> bool) \<Rightarrow> string \<Rightarrow> string" where
  "trim_matches q s = rev (dropWhile q (rev (dropWhile q s)))"

definition trim :: "string \<Rightarrow> string" where
  "trim s = trim_matches white s"

definition ascii_lower :: "char \<Rightarrow> char" where
  "ascii_lower c = (let n = of_char c :: nat in if 65 \<le> n \<and> n \<le> 90 then char_of (n + 32) else c)"

definition to_ascii_lowercase :: "string \<Rightarrow> string" where
  "to_ascii_lowercase s = map ascii_lower s"

definition split_once :: "char \<Rightarrow> string \<Rightarrow> (string \<times> string) option" where
  "split_once c s =
     (case dropWhile (\<lambda>x. x \<noteq> c) s of [] \<Rightarrow> None | _ # rest \<Rightarrow> Some (takeWhile (\<lambda>x. x \<noteq> c) s, rest))"

text \<open>\<open>split\<close>: a text without the separator is its only part.\<close>

fun split_on :: "char \<Rightarrow> string \<Rightarrow> string list" where
  "split_on c [] = [[]]"
| "split_on c (x # xs) =
     (if x = c then [] # split_on c xs else (x # hd (split_on c xs)) # tl (split_on c xs))"

lemma split_on_none: "c \<notin> set s \<Longrightarrow> split_on c s = [s]"
  by (induction s) auto

lemma split_on_Cons: "c \<notin> set s \<Longrightarrow> split_on c (s @ c # t) = s # split_on c t"
  by (induction s) auto

lemma split_once_first: "c \<notin> set k \<Longrightarrow> split_once c (k @ c # v) = Some (k, v)"
  by (simp add: split_once_def split_first)

lemma split_once_None: "c \<notin> set s \<Longrightarrow> split_once c s = None"
  by (simp add: split_once_def split_none)

text \<open>Trimming removes what matches at the ends, and nothing else.\<close>

lemma trim_matches_surround:
  assumes "\<forall>c \<in> set l. q c" "\<forall>c \<in> set r. q c" "s = [] \<or> \<not> q (hd s) \<and> \<not> q (last s)"
  shows "trim_matches q (l @ s @ r) = s"
proof (cases s)
  case Nil
  have "dropWhile q (l @ r) = []" unfolding dropWhile_eq_Nil_conv using assms by auto
  then show ?thesis unfolding trim_matches_def Nil append_Nil by (simp only: rev.simps dropWhile.simps)
next
  case (Cons x xs)
  have "dropWhile q (l @ s @ r) = s @ r" using assms Cons by (simp add: dropWhile_append2)
  moreover have "dropWhile q (rev r @ rev s) = dropWhile q (rev s)" using assms(2) by (intro dropWhile_append2) simp
  moreover have "dropWhile q (rev s) = rev s"
    unfolding dropWhile_eq_self_iff using assms(3) Cons by (simp only: hd_rev) simp
  ultimately show ?thesis by (simp add: trim_matches_def)
qed

lemma trim_matches_id: "s = [] \<or> \<not> q (hd s) \<and> \<not> q (last s) \<Longrightarrow> trim_matches q s = s"
  using trim_matches_surround [of "[]" q "[]" s] by simp

section \<open>Decimal notation\<close>

definition digit_char :: "nat \<Rightarrow> char" where
  "digit_char n = char_of (48 + n)"

definition char_digit :: "char \<Rightarrow> nat option" where
  "char_digit c = (let n = of_char c :: nat in if 48 \<le> n \<and> n \<le> 57 then Some (n - 48) else None)"

fun show_nat :: "nat \<Rightarrow> string" where
  "show_nat n = (if n < 10 then [digit_char n] else show_nat (n div 10) @ [digit_char (n mod 10)])"

declare show_nat.simps [simp del]

fun digits_value :: "nat \<Rightarrow> string \<Rightarrow> nat option" where
  "digits_value acc [] = Some acc"
| "digits_value acc (c # cs) = (case char_digit c of None \<Rightarrow> None | Some d \<Rightarrow> digits_value (10 * acc + d) cs)"

text \<open>\<open>str::parse::<u64>\<close>: an optional plus sign, at least one digit, no overflow.\<close>

definition parse_u64 :: "string \<Rightarrow> u64 option" where
  "parse_u64 s =
     (let digits = (if s \<noteq> [] \<and> hd s = CHR ''+'' then tl s else s) in
      if digits = [] then None
      else case digits_value 0 digits of
             None \<Rightarrow> None
           | Some n \<Rightarrow> if n < 2 ^ 64 then Some (word_of_nat n) else None)"

lemma char_digit_char: "d < 10 \<Longrightarrow> char_digit (digit_char d) = Some d"
  by (simp add: char_digit_def digit_char_def)

lemma digits_value_append:
  "digits_value acc (s @ t) = (case digits_value acc s of None \<Rightarrow> None | Some n \<Rightarrow> digits_value n t)"
  by (induction acc s rule: digits_value.induct) (auto split: option.split)

lemma digits_value_show: "digits_value 0 (show_nat n) = Some n"
proof (induction n rule: show_nat.induct)
  case (1 n)
  then show ?case
    by (cases "n < 10") (simp_all add: show_nat.simps [of n] digits_value_append char_digit_char)
qed

lemma show_nat_inj: "show_nat m = show_nat n \<longleftrightarrow> m = n"
  using digits_value_show option.inject by metis

lemma show_nat_digits: "c \<in> set (show_nat n) \<Longrightarrow> \<exists>d < 10. c = digit_char d"
proof (induction n rule: show_nat.induct)
  case (1 n)
  have "\<exists>d < 10. digit_char (n mod 10) = digit_char d" by (intro exI [of _ "n mod 10"]) simp
  then show ?case using 1 by (cases "n < 10") (auto simp: show_nat.simps [of n])
qed

lemma show_nat_nonempty: "show_nat n \<noteq> []"
  by (simp add: show_nat.simps [of n])

lemma parse_show: "n < 2 ^ 64 \<Longrightarrow> parse_u64 (show_nat n) = Some (word_of_nat n)"
proof -
  assume "n < 2 ^ 64"
  have "hd (show_nat n) \<noteq> CHR ''+''"
    using show_nat_digits [OF hd_in_set [OF show_nat_nonempty [of n]]]
    by (auto simp: digit_char_def simp flip: of_char_eq_iff [where ?'a = nat])
  then show ?thesis
    using \<open>n < 2 ^ 64\<close> by (simp add: parse_u64_def show_nat_nonempty digits_value_show)
qed

end
