(* ===== verification/Journal.thy ===== *)
theory Journal
  imports Texts Machines Cells
begin

text \<open>
  The write-ahead journal of \<open>crates/protocol/onx-state-model/src/storage.rs\<close>: hexadecimal names and
  values, the text of the journal, and its recovery. The directory is a map from relative paths to
  contents, with the journal beside it; a process stops between two operations on files or within
  the write of a file, of which it then leaves the first bytes.
  The lemmas show that what was committed is read back from the text, that a stop between two
  operations leaves a directory from which recovery reaches the old or the new state, that a stop
  within the write of a temporary file does so too, and that a stop within the write of the
  journal makes recovery perform the lines written so far, the last of them as it was cut.
\<close>

section \<open>Hexadecimal\<close>

definition hex_digit :: "nat \<Rightarrow> char" where
  "hex_digit n = char_of (if n < 10 then 48 + n else 87 + n)"

definition hex :: "bytes \<Rightarrow> string" where
  "hex bs = concat (map (\<lambda>b. [hex_digit (unat b div 16), hex_digit (unat b mod 16)]) bs)"

text \<open>\<open>char::to_digit(16)\<close>, and \<open>u8::from_str_radix\<close> on two characters, which accepts a plus sign.\<close>

definition to_digit :: "char \<Rightarrow> nat option" where
  "to_digit c =
     (let n = of_char c :: nat in
      if 48 \<le> n \<and> n \<le> 57 then Some (n - 48)
      else if 97 \<le> n \<and> n \<le> 102 then Some (n - 87)
      else if 65 \<le> n \<and> n \<le> 70 then Some (n - 55)
      else None)"

definition from_str_radix :: "char \<Rightarrow> char \<Rightarrow> u8 option" where
  "from_str_radix c d =
     (if c = CHR ''+'' then map_option word_of_nat (to_digit d)
      else case (to_digit c, to_digit d) of
             (Some i, Some j) \<Rightarrow> Some (word_of_nat (16 * i + j))
           | _ \<Rightarrow> None)"

text \<open>Whether two bytes of a text are valid UTF-8 on their own: two ASCII characters or one of two bytes.\<close>

definition utf8_pair :: "char \<Rightarrow> char \<Rightarrow> bool" where
  "utf8_pair c d \<longleftrightarrow>
     (let i = of_char c :: nat; j = of_char d :: nat in
      i < 128 \<and> j < 128 \<or> 194 \<le> i \<and> i \<le> 223 \<and> 128 \<le> j \<and> j \<le> 191)"

section \<open>Errors\<close>

text \<open>
  The error of the storage without the failures of the file system, which the model leaves out; a
  call may also panic.
\<close>

datatype storage_error =
    StorageState state_model_error
  | Corrupt string
  | RootMismatch hash32 hash32

datatype storage_failure = Failed storage_error | Panics

fun unhex_pairs :: "string \<Rightarrow> storage_failure + bytes" where
  "unhex_pairs (c # d # cs) =
     (if \<not> utf8_pair c d then Inl Panics
      else case from_str_radix c d of
             None \<Rightarrow> Inl (Failed (Corrupt ''invalid hexadecimal storage data''))
           | Some b \<Rightarrow> bindR (unhex_pairs cs) (\<lambda>bs. Inr (b # bs)))"
| "unhex_pairs _ = Inr []"

definition unhex :: "string \<Rightarrow> storage_failure + bytes" where
  "unhex v = (if odd (length v) then Inl (Failed (Corrupt ''invalid hexadecimal storage key'')) else unhex_pairs v)"

section \<open>Files\<close>

text \<open>Paths are relative to the root of the storage.\<close>

record store =
  files :: "string \<Rightarrow> bytes option"
  journal :: "string option"

datatype fs_op =
    WriteFile string bytes
  | RenameFile string string
  | RemoveFile string
  | WriteJournal string
  | RemoveJournal

fun apply_op :: "fs_op \<Rightarrow> store \<Rightarrow> store" where
  "apply_op (WriteFile p v) st = st\<lparr>files := (files st)(p \<mapsto> v)\<rparr>"
| "apply_op (RenameFile p q) st = st\<lparr>files := (files st)(q := files st p, p := None)\<rparr>"
| "apply_op (RemoveFile p) st = st\<lparr>files := (files st)(p := None)\<rparr>"
| "apply_op (WriteJournal t) st = st\<lparr>journal := Some t\<rparr>"
| "apply_op RemoveJournal st = st\<lparr>journal := None\<rparr>"

text \<open>
  A process that stops within an operation: of a write the file has been truncated and holds the
  first \<open>n\<close> bytes, a rename or a removal has not happened. Without a number the operation has not
  begun.
\<close>

fun partial_op :: "nat option \<Rightarrow> fs_op \<Rightarrow> store \<Rightarrow> store" where
  "partial_op (Some n) (WriteFile p v) st = apply_op (WriteFile p (take n v)) st"
| "partial_op (Some n) (WriteJournal t) st = apply_op (WriteJournal (take n t)) st"
| "partial_op _ _ st = st"

definition stopped :: "nat \<Rightarrow> nat option \<Rightarrow> fs_op list \<Rightarrow> store \<Rightarrow> store" where
  "stopped k n ops st =
     (let st' = fold apply_op (take k ops) st in if k < length ops then partial_op n (ops ! k) st' else st')"

text \<open>\<open>Path::with_extension("tmp")\<close>: the extension of the last component is replaced or added.\<close>

definition tmp_path :: "string \<Rightarrow> string" where
  "tmp_path p =
     (let name = rev (takeWhile (\<lambda>c. c \<noteq> CHR ''/'') (rev p));
          dir = take (length p - length name) p;
          stem = (case dropWhile (\<lambda>c. c \<noteq> CHR ''.'') (rev name) of
                    [] \<Rightarrow> name
                  | [_] \<Rightarrow> name
                  | _ # before \<Rightarrow> rev before)
      in dir @ stem @ ''.tmp'')"

section \<open>The text of the journal\<close>

record batch =
  puts :: "(string \<times> bytes) list"
  removes :: "string list"

definition remove_line :: "string \<Rightarrow> string" where
  "remove_line p = ''D '' @ p"

definition put_line :: "string \<times> bytes \<Rightarrow> string" where
  "put_line pv = ''P '' @ fst pv @ '' '' @ hex (snd pv)"

definition journal_text :: "batch \<Rightarrow> string" where
  "journal_text b =
     concat (map (\<lambda>p. remove_line p @ [newline]) (removes b)) @
     concat (map (\<lambda>pv. put_line pv @ [newline]) (puts b))"

text \<open>One step of \<open>splitn(3, ' ')\<close>: the part before the first space and what follows it.\<close>

definition cut :: "string \<Rightarrow> string \<times> string option" where
  "cut s = (takeWhile (\<lambda>c. c \<noteq> CHR '' '') s,
     case dropWhile (\<lambda>c. c \<noteq> CHR '' '') s of [] \<Rightarrow> None | _ # rest \<Rightarrow> Some rest)"

definition line_ops :: "string \<Rightarrow> storage_failure + fs_op list" where
  "line_ops line =
     (case cut line of
        (tag, None) \<Rightarrow> Inl (Failed (Corrupt ''invalid commit journal''))
      | (tag, Some rest) \<Rightarrow>
          (case cut rest of
             (path, val) \<Rightarrow>
               if tag = ''D'' then Inr [RemoveFile path]
               else if tag = ''P'' then
                 (case val of
                    None \<Rightarrow> Inl (Failed (Corrupt ''invalid commit journal''))
                  | Some v \<Rightarrow>
                      bindR (unhex v) (\<lambda>bs. Inr [WriteFile (tmp_path path) bs, RenameFile (tmp_path path) path]))
               else Inl (Failed (Corrupt ''invalid commit journal''))))"

fun recover_lines :: "store \<Rightarrow> string list \<Rightarrow> store \<times> (storage_failure + unit)" where
  "recover_lines st [] = (apply_op RemoveJournal st, Inr ())"
| "recover_lines st (l # ls) =
     (case line_ops l of
        Inl e \<Rightarrow> (st, Inl e)
      | Inr ops \<Rightarrow> recover_lines (fold apply_op ops st) ls)"

definition recover :: "store \<Rightarrow> store \<times> (storage_failure + unit)" where
  "recover st =
     (case journal st of
        None \<Rightarrow> (st, Inr ())
      | Some text \<Rightarrow> recover_lines st (split_lines text))"

definition commit :: "store \<Rightarrow> batch \<Rightarrow> store \<times> (storage_failure + unit)" where
  "commit st b = recover (apply_op (WriteJournal (journal_text b)) st)"

section \<open>Hexadecimal is read back\<close>

lemma of_char_hex_digit: "n < 16 \<Longrightarrow> (of_char (hex_digit n) :: nat) = (if n < 10 then 48 + n else 87 + n)"
  by (simp add: hex_digit_def)

lemma hex_digit_plain: "n < 16 \<Longrightarrow> hex_digit n \<notin> {CHR ''+'', CHR '' '', CHR ''.'', CHR ''/'', newline, carriage_return}"
  using of_char_hex_digit [of n] by (auto split: if_splits)

lemma to_digit_hex_digit: "n < 16 \<Longrightarrow> to_digit (hex_digit n) = Some n"
  by (auto simp: to_digit_def of_char_hex_digit Let_def)

lemma byte_nibbles: "unat (b :: byte) div 16 < 16" "unat b mod 16 < 16"
  using unat_byte_less [of b] by (auto simp: less_mult_imp_div_less)

lemma unhex_pairs_hex: "unhex_pairs (hex bs) = Inr bs"
proof (induction bs)
  case (Cons b bs)
  have "from_str_radix (hex_digit (unat b div 16)) (hex_digit (unat b mod 16)) = Some b"
    using hex_digit_plain [OF byte_nibbles(1), of b]
    by (simp add: from_str_radix_def to_digit_hex_digit byte_nibbles)
  moreover have "utf8_pair (hex_digit (unat b div 16)) (hex_digit (unat b mod 16))"
    using byte_nibbles [of b] by (auto simp: utf8_pair_def of_char_hex_digit Let_def)
  ultimately show ?case using Cons by (simp add: hex_def)
qed (simp add: hex_def)

lemma length_hex [simp]: "length (hex bs) = 2 * length bs"
  by (induction bs) (simp_all add: hex_def)

lemma unhex_hex [simp]: "unhex (hex bs) = Inr bs"
  by (simp add: unhex_def unhex_pairs_hex)

lemma hex_inj: "hex as = hex bs \<Longrightarrow> as = bs"
  using unhex_hex by (metis Inr_inject)

lemma hex_append: "hex (as @ bs) = hex as @ hex bs"
  by (simp add: hex_def)

lemma set_hex:
  assumes "c \<in> set (hex bs)"
  shows "c \<notin> {CHR ''+'', CHR '' '', CHR ''.'', CHR ''/'', newline, carriage_return}"
proof -
  obtain b where "c = hex_digit (unat (b :: byte) div 16) \<or> c = hex_digit (unat b mod 16)"
    using assms by (auto simp: hex_def)
  then show ?thesis
    using hex_digit_plain [OF byte_nibbles(1), of b] hex_digit_plain [OF byte_nibbles(2), of b]
    by (elim disjE) (simp_all only: not_False_eq_True)
qed

section \<open>The journal is read back\<close>

text \<open>The paths of the storage: without spaces, dots and line breaks.\<close>

definition path_ok :: "string \<Rightarrow> bool" where
  "path_ok p \<longleftrightarrow> set p \<inter> {CHR '' '', CHR ''.'', newline, carriage_return} = {}"

definition batch_ok :: "batch \<Rightarrow> bool" where
  "batch_ok b \<longleftrightarrow> (\<forall>p \<in> set (removes b). path_ok p) \<and> (\<forall>(p, v) \<in> set (puts b). path_ok p)"

definition batch_lines :: "batch \<Rightarrow> string list" where
  "batch_lines b = map remove_line (removes b) @ map put_line (puts b)"

lemma line_chars:
  assumes "path_ok p"
  shows "newline \<notin> set (remove_line p)" "newline \<notin> set (put_line (p, v))"
    "strip_return (remove_line p) = remove_line p" "strip_return (put_line (p, v)) = put_line (p, v)"
proof -
  have p: "newline \<notin> set p" "carriage_return \<notin> set p" using assms by (auto simp: path_ok_def)
  have h: "newline \<notin> set (hex v)" "carriage_return \<notin> set (hex v)" using set_hex [of _ v] by auto
  show "newline \<notin> set (remove_line p)" "newline \<notin> set (put_line (p, v))"
    using p h by (auto simp: remove_line_def put_line_def)
  have "carriage_return \<notin> set (remove_line p)" "carriage_return \<notin> set (put_line (p, v))"
    using p h by (auto simp: remove_line_def put_line_def)
  then show "strip_return (remove_line p) = remove_line p" "strip_return (put_line (p, v)) = put_line (p, v)"
    by (metis last_in_set strip_return_def)+
qed

lemma journal_lines:
  assumes "batch_ok b"
  shows "split_lines (journal_text b) = batch_lines b"
proof -
  have "journal_text b = concat (map (\<lambda>l. l @ [newline]) (batch_lines b)) @ []"
    by (simp add: journal_text_def batch_lines_def comp_def)
  moreover have "\<forall>l \<in> set (batch_lines b). newline \<notin> set l \<and> strip_return l = l"
    using assms line_chars by (auto simp: batch_lines_def batch_ok_def)
  ultimately show ?thesis
    using split_lines_concat [of "batch_lines b" "[]"] by (simp add: split_lines.simps)
qed

lemma tmp_path_plain:
  assumes "CHR ''.'' \<notin> set p"
  shows "tmp_path p = p @ ''.tmp''"
proof -
  define name where "name = rev (takeWhile (\<lambda>c. c \<noteq> CHR ''/'') (rev p))"
  have sub: "set name \<subseteq> set p" using set_takeWhileD by (fastforce simp: name_def)
  then have none: "dropWhile (\<lambda>c. c \<noteq> CHR ''.'') (rev name) = []" using assms by auto
  have "take (length p - length name) p @ name = p"
    by (metis append_take_drop_id name_def rev_append rev_rev_ident takeWhile_dropWhile_id append_eq_conv_conj
        length_append add_diff_cancel_right' length_rev)
  then show ?thesis unfolding tmp_path_def name_def [symmetric] Let_def none list.case by simp
qed

lemma remove_line_ops: "path_ok p \<Longrightarrow> line_ops (remove_line p) = Inr [RemoveFile p]"
proof -
  assume "path_ok p"
  then have none: "CHR '' '' \<notin> set p" by (auto simp: path_ok_def)
  have "cut p = (p, None)" by (simp only: cut_def split_none [OF none] list.case)
  then show ?thesis by (simp add: line_ops_def remove_line_def cut_def)
qed

lemma put_line_ops:
  assumes "path_ok p"
  shows "line_ops (put_line (p, v)) = Inr [WriteFile (p @ ''.tmp'') v, RenameFile (p @ ''.tmp'') p]"
proof -
  have "CHR '' '' \<notin> set p" "CHR ''.'' \<notin> set p" using assms by (auto simp: path_ok_def)
  then have "cut (p @ CHR '' '' # hex v) = (p, Some (hex v))" "tmp_path p = p @ ''.tmp''"
    by (simp_all add: cut_def split_first tmp_path_plain)
  moreover have "cut (put_line (p, v)) = (''P'', Some (p @ CHR '' '' # hex v))"
    by (simp add: cut_def put_line_def)
  ultimately show ?thesis by (simp add: line_ops_def)
qed

section \<open>Commits and crashes\<close>

text \<open>The operations on files of a recovery from the journal of a batch, in order.\<close>

definition put_ops :: "string \<times> bytes \<Rightarrow> fs_op list" where
  "put_ops pv = [WriteFile (fst pv @ ''.tmp'') (snd pv), RenameFile (fst pv @ ''.tmp'') (fst pv)]"

definition batch_ops :: "batch \<Rightarrow> fs_op list" where
  "batch_ops b = map RemoveFile (removes b) @ concat (map put_ops (puts b))"

definition commit_ops :: "batch \<Rightarrow> fs_op list" where
  "commit_ops b = WriteJournal (journal_text b) # batch_ops b @ [RemoveJournal]"

lemma recover_lines_ops:
  "list_all2 (\<lambda>l ops. line_ops l = Inr ops) ls opss \<Longrightarrow>
     recover_lines st ls = (apply_op RemoveJournal (fold apply_op (concat opss) st), Inr ())"
  by (induction ls arbitrary: st opss) (auto simp: list_all2_Cons1)

lemma recover_batch:
  assumes "batch_ok b" "journal st = Some (journal_text b)"
  shows "recover st = (apply_op RemoveJournal (fold apply_op (batch_ops b) st), Inr ())"
proof -
  have "list_all2 (\<lambda>l ops. line_ops l = Inr ops) (batch_lines b)
      (map (\<lambda>p. [RemoveFile p]) (removes b) @ map put_ops (puts b))"
    using assms(1)
    by (auto simp: batch_lines_def batch_ok_def list_all2_map1 list_all2_map2 list_all2_same remove_line_ops
        put_ops_def intro!: list_all2_appendI put_line_ops) (drule (1) bspec, simp)
  moreover have "concat (map (\<lambda>p. [RemoveFile p]) (removes b) @ map put_ops (puts b)) = batch_ops b"
    by (simp add: batch_ops_def concat_map_singleton)
  ultimately show ?thesis
    using recover_lines_ops [of "batch_lines b" _ st] assms by (simp add: recover_def journal_lines)
qed

lemma journal_kept: "journal (fold apply_op (take k (batch_ops b)) st) = journal st"
proof -
  have "journal (fold apply_op ops st) = journal st"
    if "\<forall>op \<in> set ops. op \<noteq> RemoveJournal \<and> (\<forall>t. op \<noteq> WriteJournal t)" for ops st
    using that
  proof (induction ops arbitrary: st)
    case (Cons op ops)
    then show ?case by (cases op) auto
  qed simp
  moreover have "\<forall>op \<in> set (batch_ops b). op \<noteq> RemoveJournal \<and> (\<forall>t. op \<noteq> WriteJournal t)"
    by (auto simp: batch_ops_def put_ops_def)
  ultimately show ?thesis by (meson in_set_takeD)
qed

text \<open>The files a batch touches, and the directory it leaves.\<close>

definition touched :: "batch \<Rightarrow> string set" where
  "touched b = set (removes b) \<union> fst ` set (puts b) \<union> (\<lambda>pv. fst pv @ ''.tmp'') ` set (puts b)"

definition committed :: "batch \<Rightarrow> (string \<Rightarrow> bytes option) \<Rightarrow> string \<Rightarrow> bytes option" where
  "committed b f p =
     (case map_of (rev (puts b)) p of
        Some v \<Rightarrow> Some v
      | None \<Rightarrow> if p \<in> touched b then None else f p)"

lemma fold_removes: "files (fold apply_op (map RemoveFile ps) st) p = (if p \<in> set ps then None else files st p)"
  by (induction ps arbitrary: st) auto

lemma dotted_path: "path_ok p \<Longrightarrow> q @ ''.tmp'' \<noteq> p"
  by (auto simp: path_ok_def)

lemma fold_puts:
  "\<forall>(p, v) \<in> set pvs. path_ok p \<Longrightarrow>
     files (fold apply_op (concat (map put_ops pvs)) st) p =
       (case map_of (rev pvs) p of
          Some v \<Rightarrow> Some v
        | None \<Rightarrow> if p \<in> (\<lambda>pv. fst pv @ ''.tmp'') ` set pvs then None else files st p)"
proof (induction pvs arbitrary: st)
  case (Cons pv pvs)
  obtain q v where pv: "pv = (q, v)" by fastforce
  have q: "path_ok q" "\<forall>(p, v) \<in> set pvs. path_ok p" using Cons.prems by (auto simp: pv)
  have later: "q \<noteq> r @ ''.tmp''" for r using dotted_path [OF q(1)] by metis
  show ?case
    using Cons.IH [OF q(2)] later
    by (auto simp: pv put_ops_def map_add_def split: option.splits)
qed simp

lemma fold_batch:
  assumes "batch_ok b"
  shows "files (fold apply_op (batch_ops b) st) = committed b (files st)"
proof
  fix p
  have "map_of (rev (puts b)) p = None \<longleftrightarrow> p \<notin> fst ` set (puts b)"
    by (simp add: map_of_eq_None_iff)
  then show "files (fold apply_op (batch_ops b) st) p = committed b (files st) p"
    using assms fold_puts [of "puts b"]
    by (auto simp: batch_ops_def batch_ok_def fold_removes committed_def touched_def split: option.splits)
qed

lemma op_outside:
  assumes "op \<in> set (batch_ops b)" "p \<notin> touched b"
  shows "files (apply_op op st) p = files st p"
  using assms by (auto simp: batch_ops_def put_ops_def touched_def image_iff) (auto dest: bspec)

lemma ops_outside:
  "set ops \<subseteq> set (batch_ops b) \<Longrightarrow> p \<notin> touched b \<Longrightarrow> files (fold apply_op ops st) p = files st p"
  by (induction ops arbitrary: st) (auto simp: op_outside)

text \<open>Running a batch again after a part of it gives what running it once gives.\<close>

lemma committed_again:
  assumes "batch_ok b"
  shows "committed b (files (fold apply_op (take k (batch_ops b)) st)) = committed b (files st)"
proof
  fix p
  show "committed b (files (fold apply_op (take k (batch_ops b)) st)) p = committed b (files st) p"
    using ops_outside [OF set_take_subset, of p b k st]
    by (auto simp: committed_def split: option.splits)
qed

lemma store_eqI: "files st = files st' \<Longrightarrow> journal st = journal st' \<Longrightarrow> st = (st' :: store)"
  by simp

lemma commit_result:
  assumes "batch_ok b"
  shows "commit st b = (\<lparr>files = committed b (files st), journal = None\<rparr>, Inr ())"
proof -
  let ?st = "apply_op (WriteJournal (journal_text b)) st"
  have "commit st b = (apply_op RemoveJournal (fold apply_op (batch_ops b) ?st), Inr ())"
    unfolding commit_def by (rule recover_batch [OF assms]) simp
  moreover have "apply_op RemoveJournal (fold apply_op (batch_ops b) ?st) = \<lparr>files = committed b (files st), journal = None\<rparr>"
    using fold_batch [OF assms, of ?st] by (intro store_eqI) simp_all
  ultimately show ?thesis by simp
qed

lemma commit_crash:
  assumes "batch_ok b" "journal st = None"
  shows "recover (fold apply_op (take k (commit_ops b)) st) =
    (if k = 0 then st else \<lparr>files = committed b (files st), journal = None\<rparr>, Inr ())"
proof (cases k)
  case 0
  then show ?thesis using assms(2) by (simp add: recover_def)
next
  case (Suc j)
  let ?st = "apply_op (WriteJournal (journal_text b)) st"
  show ?thesis
  proof (cases "j \<le> length (batch_ops b)")
    case True
    let ?mid = "fold apply_op (take j (batch_ops b)) ?st"
    have "journal ?mid = Some (journal_text b)" by (simp add: journal_kept)
    from recover_batch [OF assms(1) this]
    have "recover ?mid = (apply_op RemoveJournal (fold apply_op (batch_ops b) ?mid), Inr ())" .
    moreover have "apply_op RemoveJournal (fold apply_op (batch_ops b) ?mid) = \<lparr>files = committed b (files st), journal = None\<rparr>"
      using fold_batch [OF assms(1), of ?mid] committed_again [OF assms(1), of j ?st] by (intro store_eqI) simp_all
    ultimately show ?thesis using Suc True by (simp add: commit_ops_def)
  next
    case False
    have "fold apply_op (batch_ops b @ [RemoveJournal]) ?st = \<lparr>files = committed b (files st), journal = None\<rparr>"
      using fold_batch [OF assms(1), of ?st] by (intro store_eqI) simp_all
    then show ?thesis using Suc False by (simp add: commit_ops_def recover_def)
  qed
qed

text \<open>
  A commit writes the journal, performs the operations on files the journal lists and removes it;
  a crash within is recovered to the directory before or after the commit.
\<close>

lemma commit_crash_atomic:
  assumes "batch_ok b" "journal st = None"
  shows "commit st b = (fold apply_op (commit_ops b) st, Inr ()) \<and>
    (\<forall>k. recover (fold apply_op (take k (commit_ops b)) st) =
       (if k = 0 then st else fst (commit st b), Inr ())) \<and>
    (\<forall>p. files (fst (commit st b)) p =
       (case map_of (rev (puts b)) p of
          Some v \<Rightarrow> Some v
        | None \<Rightarrow> if p \<in> set (removes b) \<or> p \<in> (\<lambda>pv. fst pv @ ''.tmp'') ` set (puts b) then None else files st p))"
proof (intro conjI allI)
  have "fold apply_op (commit_ops b) st = \<lparr>files = committed b (files st), journal = None\<rparr>"
    using fold_batch [OF assms(1), of "apply_op (WriteJournal (journal_text b)) st"]
    by (intro store_eqI) (simp_all add: commit_ops_def)
  then show "commit st b = (fold apply_op (commit_ops b) st, Inr ())"
    by (simp add: commit_result [OF assms(1)])
  show "recover (fold apply_op (take k (commit_ops b)) st) = (if k = 0 then st else fst (commit st b), Inr ())" for k
    by (simp add: commit_crash [OF assms] commit_result [OF assms(1)])
  fix p
  have "map_of (rev (puts b)) p = None \<longleftrightarrow> p \<notin> fst ` set (puts b)"
    by (simp add: map_of_eq_None_iff)
  then show "files (fst (commit st b)) p =
       (case map_of (rev (puts b)) p of
          Some v \<Rightarrow> Some v
        | None \<Rightarrow> if p \<in> set (removes b) \<or> p \<in> (\<lambda>pv. fst pv @ ''.tmp'') ` set (puts b) then None else files st p)"
    by (auto simp: commit_result [OF assms(1)] committed_def touched_def split: option.splits)
qed

lemma fold_commit_ops:
  assumes "batch_ok b"
  shows "fold apply_op (commit_ops b) st = fst (commit st b)"
proof -
  have "fold apply_op (commit_ops b) st = \<lparr>files = committed b (files st), journal = None\<rparr>"
    using fold_batch [OF assms, of "apply_op (WriteJournal (journal_text b)) st"]
    by (intro store_eqI) (simp_all add: commit_ops_def)
  then show ?thesis by (simp add: commit_result [OF assms])
qed

interpretation wal: journaled apply_op commit_ops "\<lambda>st. fst (recover st)" "\<lambda>st. journal st = None" batch_ok
proof unfold_locales
  fix b :: batch and st :: store and k :: nat
  show "journal st = None \<Longrightarrow> fst (recover st) = st" by (simp add: recover_def)
  show "batch_ok b \<Longrightarrow> journal st = None \<Longrightarrow> 0 < k \<Longrightarrow>
      fst (recover (fold apply_op (take k (commit_ops b)) st)) = fold apply_op (commit_ops b) st"
    by (simp add: commit_crash fold_commit_ops commit_result)
  show "batch_ok b \<Longrightarrow> journal st = None \<Longrightarrow> journal (fold apply_op (commit_ops b) st) = None"
    by (simp add: fold_commit_ops commit_result)
  show "commit_ops b \<noteq> []" by (simp add: commit_ops_def)
qed

section \<open>Properties\<close>

definition commit_all :: "store \<Rightarrow> batch list \<Rightarrow> store" where
  "commit_all st bs = foldl (\<lambda>st b. fst (commit st b)) st bs"

lemma fold_history:
  "list_all batch_ok bs \<Longrightarrow> fold apply_op (concat (map commit_ops bs)) st = commit_all st bs"
  by (induction bs arbitrary: st) (simp_all add: commit_all_def fold_commit_ops)

text \<open>
  C7. Commits are atomic and durable across crashes. If the process stops at any point of a sequence
  of commits, after any number of the operations on files they perform, then the recovery
  at the next start leaves the directory that the first \<open>j\<close> commits give, each applied as a whole:
  every commit that was completed is among them, and at most the interrupted one is added.
\<close>

theorem commits_atomic_and_durable:
  assumes "list_all batch_ok bs" "journal st = None"
  shows "\<exists>j \<le> length bs.
    fst (recover (fold apply_op (take k (concat (map commit_ops bs))) st)) = commit_all st (take j bs) \<and>
    (\<forall>i \<le> length bs. length (concat (map commit_ops (take i bs))) \<le> k \<longrightarrow> i \<le> j)"
proof -
  have "list_all batch_ok (take j bs)" for j using assms(1) by (auto simp: list_all_iff dest: in_set_takeD)
  note runs = fold_history [OF this]
  from wal.recovered_prefix [OF assms(1), of st k] assms(2) show ?thesis
    unfolding wal.history_def by (simp add: runs)
qed

theorem commits_atomic_and_durable_witness:
  "\<exists>j \<le> 2. fst (recover (fold apply_op (take 6 (concat (map commit_ops
      [\<lparr>puts = [(''cells/ab'', [1, 2])], removes = [''accounts/0f'']\<rparr>, \<lparr>puts = [(''cells/cd'', [3])], removes = []\<rparr>])))
      \<lparr>files = [''accounts/0f'' \<mapsto> [7]], journal = None\<rparr>)) =
    commit_all \<lparr>files = [''accounts/0f'' \<mapsto> [7]], journal = None\<rparr>
      (take j [\<lparr>puts = [(''cells/ab'', [1, 2])], removes = [''accounts/0f'']\<rparr>, \<lparr>puts = [(''cells/cd'', [3])], removes = []\<rparr>]) \<and> 1 \<le> j"
proof -
  define bs :: "batch list" where
    "bs = [\<lparr>puts = [(''cells/ab'', [1, 2])], removes = [''accounts/0f'']\<rparr>, \<lparr>puts = [(''cells/cd'', [3])], removes = []\<rparr>]"
  define st :: store where "st = \<lparr>files = [''accounts/0f'' \<mapsto> [7]], journal = None\<rparr>"
  have ok: "list_all batch_ok bs" "journal st = None" "length bs = 2" "length (concat (map commit_ops (take 1 bs))) \<le> 6"
    by (simp_all add: bs_def st_def batch_ok_def path_ok_def commit_ops_def batch_ops_def put_ops_def)
  from commits_atomic_and_durable [OF ok(1,2), of 6] ok(3,4)
  have "\<exists>j \<le> 2. fst (recover (fold apply_op (take 6 (concat (map commit_ops bs))) st)) = commit_all st (take j bs) \<and> 1 \<le> j"
    by (metis one_le_numeral)
  then show ?thesis unfolding bs_def st_def .
qed

section \<open>Stops within a write\<close>

text \<open>A directory with the journal of a batch, in which only files of the batch differ, is recovered to the batch.\<close>

lemma recover_pending:
  assumes "batch_ok b" "journal mid = Some (journal_text b)" "\<forall>p. p \<notin> touched b \<longrightarrow> files mid p = f p"
  shows "recover mid = (\<lparr>files = committed b f, journal = None\<rparr>, Inr ())"
proof -
  have "committed b (files mid) = committed b f" using assms(3) by (auto simp: committed_def split: option.splits)
  then show ?thesis
    using fold_batch [OF assms(1), of mid] unfolding recover_batch [OF assms(1,2)] by (simp add: store_eqI)
qed

lemma partial_batch_op:
  assumes "op \<in> set (batch_ops b)"
  shows "journal (partial_op n op st) = journal st" "p \<notin> touched b \<Longrightarrow> files (partial_op n op st) p = files st p"
  using assms by (cases n; auto simp: batch_ops_def put_ops_def touched_def)+

text \<open>Once the journal is written, a stop at any point, within a write too, leaves a directory that recovery completes.\<close>

lemma commit_stopped:
  assumes "batch_ok b" "0 < k"
  shows "recover (stopped k n (commit_ops b) st) = (\<lparr>files = committed b (files st), journal = None\<rparr>, Inr ())"
proof -
  obtain j where k: "k = Suc j" using assms(2) by (cases k) simp_all
  let ?st = "apply_op (WriteJournal (journal_text b)) st" and ?mid = "fold apply_op (take j (batch_ops b)) (apply_op (WriteJournal (journal_text b)) st)"
  have mid: "journal ?mid = Some (journal_text b)" "\<forall>p. p \<notin> touched b \<longrightarrow> files ?mid p = files st p"
    using ops_outside [OF set_take_subset, of _ b j ?st] by (simp_all add: journal_kept)
  consider "j < length (batch_ops b)" | "j = length (batch_ops b)" | "length (batch_ops b) < j" by linarith
  then show ?thesis
  proof cases
    case 1
    then have "stopped k n (commit_ops b) st = partial_op n (batch_ops b ! j) ?mid"
      by (simp add: stopped_def commit_ops_def k nth_append)
    moreover have "batch_ops b ! j \<in> set (batch_ops b)" using 1 by simp
    ultimately show ?thesis using recover_pending [OF assms(1)] mid partial_batch_op by simp
  next
    case 2
    then have "stopped k n (commit_ops b) st = ?mid" by (cases n) (simp_all add: stopped_def commit_ops_def k nth_append)
    then show ?thesis using recover_pending [OF assms(1) mid] by simp
  next
    case 3
    then have "stopped k n (commit_ops b) st = fold apply_op (commit_ops b) st" by (simp add: stopped_def commit_ops_def k)
    then show ?thesis by (simp add: fold_commit_ops [OF assms(1)] commit_result [OF assms(1)] recover_def)
  qed
qed

text \<open>The lines in the first \<open>n\<close> characters of a text: whole ones, and the last one as it is cut.\<close>

fun torn_lines :: "nat \<Rightarrow> string list \<Rightarrow> string list" where
  "torn_lines n [] = []"
| "torn_lines n (l # ls) =
     (if n = 0 then [] else if n \<le> length l then [take n l] else l # torn_lines (n - Suc (length l)) ls)"

lemma split_lines_torn:
  "\<forall>l \<in> set ls. newline \<notin> set l \<and> strip_return l = l \<Longrightarrow>
     split_lines (take n (concat (map (\<lambda>l. l @ [newline]) ls))) = torn_lines n ls"
proof (induction ls arbitrary: n)
  case (Cons l ls)
  have one: "split_lines xs = [xs]" if "newline \<notin> set xs" "xs \<noteq> []" for xs
    using that by (subst split_lines.simps) (simp add: split_none)
  consider "n = 0" | "n \<noteq> 0" "n \<le> length l" | m where "n = Suc (length l) + m"
    by (metis le_add_diff_inverse not_less_eq_eq)
  then show ?case
  proof cases
    case 2
    have "newline \<notin> set (take n l)" using Cons.prems in_set_takeD [of newline n l] by auto
    moreover have "take n l \<noteq> []" using 2 Cons.prems by (cases l) (auto simp: take_Cons')
    ultimately show ?thesis using 2 one by simp
  next
    case 3
    then show ?thesis using Cons split_lines_Cons by simp
  qed (simp add: split_lines.simps)
qed (simp add: split_lines.simps)

lemma journal_torn:
  assumes "batch_ok b"
  shows "split_lines (take n (journal_text b)) = torn_lines n (batch_lines b)"
proof -
  have "journal_text b = concat (map (\<lambda>l. l @ [newline]) (batch_lines b))"
    by (simp add: journal_text_def batch_lines_def comp_def)
  moreover have "\<forall>l \<in> set (batch_lines b). newline \<notin> set l \<and> strip_return l = l"
    using assms line_chars by (auto simp: batch_lines_def batch_ok_def)
  ultimately show ?thesis by (simp add: split_lines_torn)
qed

text \<open>Within the write of the journal: recovery performs what is there of its lines.\<close>

lemma commit_torn:
  assumes "batch_ok b"
  shows "recover (stopped 0 (Some n) (commit_ops b) st) =
    recover_lines (st\<lparr>journal := Some (take n (journal_text b))\<rparr>) (torn_lines n (batch_lines b))"
  using journal_torn [OF assms] by (simp add: stopped_def commit_ops_def recover_def)

text \<open>
  The journal carries no mark of its end: if the process stops within the write of the journal
  itself, the part that was written is applied, here a value cut after its first byte.
\<close>

lemma torn_journal_applied:
  "journal_text \<lparr>puts = [(''cells/ab'', [1, 2])], removes = []\<rparr> = ''P cells/ab 01'' @ ''02'' @ [newline] \<and>
   recover \<lparr>files = Map.empty, journal = Some ''P cells/ab 01''\<rparr> =
     (\<lparr>files = [''cells/ab'' \<mapsto> [1]], journal = None\<rparr>, Inr ())"
proof
  show "journal_text \<lparr>puts = [(''cells/ab'', [1, 2])], removes = []\<rparr> = ''P cells/ab 01'' @ ''02'' @ [newline]"
    by (simp add: journal_text_def put_line_def hex_def hex_digit_def char_of_def bit_0)
  show "recover \<lparr>files = Map.empty, journal = Some ''P cells/ab 01''\<rparr> =
     (\<lparr>files = [''cells/ab'' \<mapsto> [1]], journal = None\<rparr>, Inr ())"
    by (simp add: recover_def split_lines.simps line_ops_def cut_def unhex_def utf8_pair_def from_str_radix_def
        to_digit_def tmp_path_def fun_upd_def fun_eq_iff)
qed

end
