(* ===== verification/Storage.thy ===== *)
theory Storage
  imports Journal State_Tree Block_Headers
begin

text \<open>
  \<open>crates/protocol/onx-state-model/src/storage.rs\<close>: the durable store of cells with reference counts,
  accounts, block headers and state roots, on the files and the journal of theory \<open>Journal\<close>. The order
  in which a hash map or a directory lists its entries is an argument; failures of the file system
  and the lock are left out.
\<close>

section \<open>Records and names\<close>

definition CELL_REFS_LEN :: nat where
  "CELL_REFS_LEN = 8"

definition COLUMN_FAMILIES :: "string list" where
  "COLUMN_FAMILIES = [''cells'', ''accounts'', ''block_headers'', ''shard_states'']"

definition encode_cell_record :: "u64 \<Rightarrow> cell \<Rightarrow> bytes" where
  "encode_cell_record n c = to_be n @ cell_to_bytes c"

definition decode_cell_record :: "crypto \<Rightarrow> hash32 \<Rightarrow> bytes \<Rightarrow> storage_failure + u64 \<times> cell" where
  "decode_cell_record cr h v =
     (if length v < CELL_REFS_LEN then Inl (Failed (Corrupt ''truncated cell record''))
      else
        bindR (map_err (\<lambda>e. Failed (StorageState e)) (cell_from_bytes (drop 8 v))) (\<lambda>(c, used).
        if used + 8 \<noteq> length v \<or> cell_hash cr c \<noteq> h then Inl (Failed (Corrupt ''invalid cell record''))
        else Inr (from_be (take 8 v), c)))"

definition account_key :: "shard_ident \<Rightarrow> account_id \<Rightarrow> bytes" where
  "account_key s a = shard_to_bytes s @ encode a"

definition decode_account :: "bytes \<Rightarrow> storage_failure + account_state" where
  "decode_account v =
     bindR (map_err (\<lambda>e. Failed (StorageState e)) (account_from_bytes v)) (\<lambda>(s, n).
     if n \<noteq> length v then Inl (Failed (Corrupt ''trailing account bytes'')) else Inr s)"

definition header_hash :: "crypto \<Rightarrow> block_header \<Rightarrow> hash32" where
  "header_hash cr h = domain_hash cr BLOCK_HEADER_V1 (header_to_bytes h)"

definition file_of :: "string \<Rightarrow> bytes \<Rightarrow> string" where
  "file_of cf key = cf @ ''/'' @ hex key"

definition read_file :: "store \<Rightarrow> string \<Rightarrow> bytes \<Rightarrow> bytes option" where
  "read_file st cf key = files st (file_of cf key)"

text \<open>\<open>Option<T>::map(f).transpose()\<close>.\<close>

definition transposed :: "('a \<Rightarrow> 'e + 'b) \<Rightarrow> 'a option \<Rightarrow> 'e + 'b option" where
  "transposed f m = (case m of None \<Rightarrow> Inr None | Some x \<Rightarrow> bindR (f x) (\<lambda>y. Inr (Some y)))"

section \<open>Reading\<close>

definition open_store :: "store \<Rightarrow> store \<times> (storage_failure + unit)" where
  "open_store st = recover st"

definition get_stored_cell :: "crypto \<Rightarrow> store \<Rightarrow> hash32 \<Rightarrow> storage_failure + cell option" where
  "get_stored_cell cr st h =
     transposed (\<lambda>v. bindR (decode_cell_record cr h v) (\<lambda>(_, c). Inr c)) (read_file st ''cells'' (encode h))"

definition cell_refcount :: "crypto \<Rightarrow> store \<Rightarrow> hash32 \<Rightarrow> storage_failure + u64 option" where
  "cell_refcount cr st h =
     transposed (\<lambda>v. bindR (decode_cell_record cr h v) (\<lambda>(n, _). Inr n)) (read_file st ''cells'' (encode h))"

definition get_account :: "store \<Rightarrow> shard_ident \<Rightarrow> account_id \<Rightarrow> storage_failure + account_state option" where
  "get_account st s a = transposed decode_account (read_file st ''accounts'' (account_key s a))"

text \<open>The entries of a directory with their contents, in the order it lists them.\<close>

fun load_entries ::
  "string \<Rightarrow> (string \<times> bytes) list \<Rightarrow> shard_state_tree \<Rightarrow> storage_failure + shard_state_tree" where
  "load_entries pre [] t = Inr t"
| "load_entries pre ((name, content) # entries) t =
     (if take (length pre) name = pre then
        bindR (unhex name) (\<lambda>key.
        if length key \<noteq> 44 then Inl (Failed (Corrupt ''invalid account key''))
        else bindR (decode_account content) (\<lambda>s.
             load_entries pre entries (tree_insert t (from_be (drop 12 key)) s)))
      else load_entries pre entries t)"

definition load_shard_state :: "(string \<times> bytes) list \<Rightarrow> shard_ident \<Rightarrow> storage_failure + shard_state_tree" where
  "load_shard_state entries s = load_entries (hex (shard_to_bytes s)) entries tree_new"

definition shard_state_root :: "store \<Rightarrow> shard_ident \<Rightarrow> storage_failure + hash32 option" where
  "shard_state_root st s =
     transposed (\<lambda>v. if length v \<noteq> 32 then Inl (Failed (Corrupt ''invalid shard root length'')) else Inr (from_be v))
       (read_file st ''shard_states'' (shard_to_bytes s))"

text \<open>The error of the header decoder is kept as a text, which the model shortens.\<close>

definition get_block_header :: "store \<Rightarrow> hash32 \<Rightarrow> storage_failure + block_header option" where
  "get_block_header st h =
     transposed (\<lambda>v. map_err (\<lambda>_. Failed (Corrupt ''invalid block header'')) (header_from_bytes v))
       (read_file st ''block_headers'' (encode h))"

section \<open>Batches of cells\<close>

definition add_put :: "batch \<Rightarrow> string \<Rightarrow> bytes \<Rightarrow> batch" where
  "add_put b p v = b\<lparr>puts := puts b @ [(p, v)]\<rparr>"

definition add_remove :: "batch \<Rightarrow> string \<Rightarrow> batch" where
  "add_remove b p = b\<lparr>removes := removes b @ [p]\<rparr>"

fun put_cells :: "crypto \<Rightarrow> store \<Rightarrow> cell list \<Rightarrow> batch \<Rightarrow> storage_failure + batch" where
  "put_cells cr st [] b = Inr b"
| "put_cells cr st (c # cs) b =
     (let h = cell_hash cr c in
      case read_file st ''cells'' (encode h) of
        Some v \<Rightarrow>
          bindR (decode_cell_record cr h v) (\<lambda>(_, old).
          if old \<noteq> c then Inl (Failed (Corrupt ''cell hash maps to different bytes'')) else put_cells cr st cs b)
      | None \<Rightarrow> put_cells cr st cs (add_put b (file_of ''cells'' (encode h)) (encode_cell_record 0 c)))"

function (sequential) adjust_cell ::
    "crypto \<Rightarrow> store \<Rightarrow> bool \<Rightarrow> hash32 \<Rightarrow> hash32 set \<Rightarrow> batch \<Rightarrow> storage_failure + hash32 set \<times> batch"
  and adjust_refs ::
    "crypto \<Rightarrow> store \<Rightarrow> bool \<Rightarrow> hash32 list \<Rightarrow> hash32 set \<Rightarrow> batch \<Rightarrow> storage_failure + hash32 set \<times> batch" where
  "adjust_cell cr st up h seen b =
     (if h \<in> seen then Inr (seen, b)
      else
        let path = file_of ''cells'' (encode h) in
        bindR (ok_or (case map_of (rev (puts b)) path of Some v \<Rightarrow> Some v | None \<Rightarrow> files st path)
          (Failed (Corrupt ''referenced cell is absent''))) (\<lambda>v.
        bindR (decode_cell_record cr h v) (\<lambda>(n, c).
        if up then
          bindR (ok_or (checked_add n 1) (Failed (Corrupt ''cell refcount overflow''))) (\<lambda>n'.
          adjust_refs cr st True (cell_refs c) (insert h seen) (add_put b path (encode_cell_record n' c)))
        else if n = 0 then Inl (Failed (Corrupt ''cell refcount underflow''))
        else if n = 1 then adjust_refs cr st False (cell_refs c) (insert h seen) (add_remove b path)
        else Inr (insert h seen, add_put b path (encode_cell_record (n - 1) c)))))"
| "adjust_refs cr st up [] seen b = Inr (seen, b)"
| "adjust_refs cr st up (r # rs) seen b =
     bindR (adjust_cell cr st up r seen b) (\<lambda>(seen, b). adjust_refs cr st up rs seen b)"
  by pat_completeness auto

text \<open>The set of cells seen grows, so every call marks a new cell or shortens a list of references.\<close>

lemma adjust_seen:
  "adjust_cell_adjust_refs_dom (Inl (cr, st, up, h, seen, b)) \<Longrightarrow>
     adjust_cell cr st up h seen b = Inr (seen', b') \<Longrightarrow> seen \<subseteq> seen'"
  "adjust_cell_adjust_refs_dom (Inr (cr, st, up, rs, seen, b)) \<Longrightarrow>
     adjust_refs cr st up rs seen b = Inr (seen', b') \<Longrightarrow> seen \<subseteq> seen'"
proof (induction arbitrary: seen' b' and seen' b' rule: adjust_cell_adjust_refs.pinduct)
  case (1 cr st up h seen b)
  show ?case
  proof (cases "h \<in> seen")
    case True
    then show ?thesis using "1.prems" "1.hyps" by (simp add: adjust_cell.psimps)
  next
    case False
    define path where "path = file_of ''cells'' (encode h)"
    obtain v n c where v: "ok_or (case map_of (rev (puts b)) path of Some v \<Rightarrow> Some v | None \<Rightarrow> files st path)
        (Failed (Corrupt ''referenced cell is absent'')) = Inr v" "decode_cell_record cr h v = Inr (n, c)"
      using "1.prems" "1.hyps" False unfolding path_def by (auto simp: adjust_cell.psimps bindR_Inr Let_def)
    have sub: "seen \<subseteq> insert h seen" by blast
    show ?thesis
    proof (cases up)
      case True
      obtain n' where n': "ok_or (checked_add n 1) (Failed (Corrupt ''cell refcount overflow'')) = Inr n'"
        using "1.prems" "1.hyps" False v True unfolding path_def by (auto simp: adjust_cell.psimps bindR_Inr Let_def)
      have "adjust_refs cr st True (cell_refs c) (insert h seen) (add_put b path (encode_cell_record n' c)) = Inr (seen', b')"
        using "1.prems" "1.hyps" False v True n' unfolding path_def by (simp add: adjust_cell.psimps Let_def)
      then show ?thesis using "1.IH"(1) [OF False path_def v refl True n'] sub by blast
    next
      case down: False
      show ?thesis
      proof (cases "n = 1")
        case True
        have "adjust_refs cr st False (cell_refs c) (insert h seen) (add_remove b path) = Inr (seen', b')"
          using "1.prems" "1.hyps" False v True down unfolding path_def by (simp add: adjust_cell.psimps Let_def)
        moreover have "n \<noteq> 0" using True by simp
        ultimately show ?thesis using "1.IH"(2) [OF False path_def v refl down _ True] sub by blast
      next
        case other: False
        have "seen' = insert h seen"
          using "1.prems" "1.hyps" False v other down unfolding path_def by (auto simp: adjust_cell.psimps Let_def split: if_splits)
        then show ?thesis by blast
      qed
    qed
  qed
next
  case (2 cr st up seen b)
  then show ?case by (simp add: adjust_refs.psimps)
next
  case (3 cr st up r rs seen b)
  then show ?case by (fastforce simp: adjust_refs.psimps bindR_Inr)
qed

termination adjust_cell
proof (relation "measures [\<lambda>x. case x of Inl (_, _, _, _, seen, _) \<Rightarrow> card (- seen) | Inr (_, _, _, _, seen, _) \<Rightarrow> card (- seen),
    \<lambda>x. case x of Inl _ \<Rightarrow> 0 | Inr (_, _, _, rs, _, _) \<Rightarrow> Suc (length rs)]", goal_cases)
  case (2 cr st up h seen b)
  then have "card (- insert h seen) < card (- seen)" by (intro psubset_card_mono) auto
  then show ?case by simp
next
  case (3 cr st up h seen b)
  then have "card (- insert h seen) < card (- seen)" by (intro psubset_card_mono) auto
  then show ?case by simp
next
  case (5 cr st up r rs seen b x seen' b')
  then have "seen \<subseteq> seen'" using adjust_seen(1) by fastforce
  then have "card (- seen') \<le> card (- seen)" by (intro card_mono) auto
  then show ?case by (simp add: le_less)
qed auto

declare adjust_cell.simps [simp del]

section \<open>Writing\<close>

definition empty_batch :: batch where
  "empty_batch = \<lparr>puts = [], removes = []\<rparr>"

definition commit_batch :: "store \<Rightarrow> storage_failure + batch \<Rightarrow> store \<times> (storage_failure + unit)" where
  "commit_batch st r = (case r of Inl e \<Rightarrow> (st, Inl e) | Inr b \<Rightarrow> commit st b)"

definition put_cell :: "crypto \<Rightarrow> store \<Rightarrow> cell \<Rightarrow> store \<times> (storage_failure + hash32)" where
  "put_cell cr st c =
     (let (st', r) = commit_batch st (put_cells cr st [c] empty_batch)
      in (st', bindR r (\<lambda>_. Inr (cell_hash cr c))))"

definition put_boc :: "crypto \<Rightarrow> store \<Rightarrow> (bag_of_cells \<Rightarrow> cell list) \<Rightarrow> bag_of_cells \<Rightarrow> store \<times> (storage_failure + unit)" where
  "put_boc cr st order boc =
     (case verify_dag boc of
        Inl e \<Rightarrow> (st, Inl (Failed (StorageState e)))
      | Inr _ \<Rightarrow> commit_batch st (put_cells cr st (order boc) empty_batch))"

definition change_root :: "crypto \<Rightarrow> store \<Rightarrow> hash32 \<Rightarrow> bool \<Rightarrow> store \<times> (storage_failure + unit)" where
  "change_root cr st root up =
     commit_batch st (bindR (adjust_cell cr st up root {} empty_batch) (\<lambda>(_, b). Inr b))"

definition retain_cell_root :: "crypto \<Rightarrow> store \<Rightarrow> hash32 \<Rightarrow> store \<times> (storage_failure + unit)" where
  "retain_cell_root cr st root = change_root cr st root True"

definition release_cell_root :: "crypto \<Rightarrow> store \<Rightarrow> hash32 \<Rightarrow> store \<times> (storage_failure + unit)" where
  "release_cell_root cr st root = change_root cr st root False"

record block_commitment =
  bc_header :: block_header
  bc_state :: shard_state_tree
  bc_cell_bocs :: "bag_of_cells list"

fun verify_bocs :: "bag_of_cells list \<Rightarrow> storage_failure + unit" where
  "verify_bocs [] = Inr ()"
| "verify_bocs (boc # bocs) =
     bindR (map_err (\<lambda>e. Failed (StorageState e)) (verify_dag boc)) (\<lambda>_. verify_bocs bocs)"

fun put_bocs :: "crypto \<Rightarrow> store \<Rightarrow> (bag_of_cells \<Rightarrow> cell list) \<Rightarrow> bag_of_cells list \<Rightarrow> batch \<Rightarrow> storage_failure + batch" where
  "put_bocs cr st order [] b = Inr b"
| "put_bocs cr st order (boc # bocs) b =
     bindR (put_cells cr st (order boc) b) (\<lambda>b. put_bocs cr st order bocs b)"

definition replace_accounts :: "shard_ident \<Rightarrow> shard_state_tree \<Rightarrow> shard_state_tree \<Rightarrow> batch \<Rightarrow> batch" where
  "replace_accounts s old new b =
     b\<lparr>removes := removes b @ map (\<lambda>(a, _). file_of ''accounts'' (account_key s a)) (accounts old),
       puts := puts b @ map (\<lambda>(a, x). (file_of ''accounts'' (account_key s a), account_to_bytes x)) (accounts new)\<rparr>"

definition commit_block_batch ::
  "crypto \<Rightarrow> store \<Rightarrow> (bag_of_cells \<Rightarrow> cell list) \<Rightarrow> (string \<times> bytes) list \<Rightarrow> block_commitment \<Rightarrow> storage_failure + batch" where
  "commit_block_batch cr st order entries c =
     (let actual = tree_state_root_hash cr (bc_state c);
          expected = state_root_hash (bc_header c);
          s = shard (bc_header c)
      in if actual \<noteq> expected then Inl (Failed (RootMismatch expected actual))
      else
        bindR (verify_bocs (bc_cell_bocs c)) (\<lambda>_.
        bindR (map_err (\<lambda>e. Failed (StorageState e)) (generate_proof cr (bc_state c) 0)) (\<lambda>proof.
        bindR (put_bocs cr st order (bc_cell_bocs c) empty_batch) (\<lambda>b1.
        bindR (put_cells cr st (order (proof_boc proof)) b1) (\<lambda>b2.
        bindR (shard_state_root st s) (\<lambda>old_root.
        bindR (load_shard_state entries s) (\<lambda>old.
        bindR (adjust_cell cr st True (proof_root_hash proof) {} (replace_accounts s old (bc_state c) b2)) (\<lambda>(_, b3).
        bindR (case old_root of
                 None \<Rightarrow> Inr b3
               | Some root \<Rightarrow> bindR (adjust_cell cr st False root {} b3) (\<lambda>(_, b). Inr b)) (\<lambda>b4.
        Inr (add_put
          (add_put b4 (file_of ''block_headers'' (encode (header_hash cr (bc_header c)))) (header_to_bytes (bc_header c)))
          (file_of ''shard_states'' (shard_to_bytes s)) (encode actual)))))))))))"

definition commit_block ::
  "crypto \<Rightarrow> store \<Rightarrow> (bag_of_cells \<Rightarrow> cell list) \<Rightarrow> (string \<times> bytes) list \<Rightarrow> block_commitment \<Rightarrow>
   store \<times> (storage_failure + unit)" where
  "commit_block cr st order entries c = commit_batch st (commit_block_batch cr st order entries c)"

section \<open>Paths\<close>

lemma families_plain:
  "cf \<in> set COLUMN_FAMILIES \<Longrightarrow> CHR ''/'' \<notin> set cf \<and> path_ok cf"
  by (auto simp: COLUMN_FAMILIES_def path_ok_def)

lemma file_of_inj:
  assumes "cf \<in> set COLUMN_FAMILIES" "cf' \<in> set COLUMN_FAMILIES"
  shows "file_of cf key = file_of cf' key' \<longleftrightarrow> cf = cf' \<and> key = key'"
proof
  assume eq: "file_of cf key = file_of cf' key'"
  have "takeWhile (\<lambda>c. c \<noteq> CHR ''/'') (file_of f k) = f" "dropWhile (\<lambda>c. c \<noteq> CHR ''/'') (file_of f k) = CHR ''/'' # hex k"
    if "f \<in> set COLUMN_FAMILIES" for f k
    using families_plain [OF that] by (simp_all add: file_of_def split_first)
  with assms eq have "cf = cf'" "hex key = hex key'" by (metis, metis list.inject)
  then show "cf = cf' \<and> key = key'" using hex_inj by blast
qed simp

lemma file_of_ok: "cf \<in> set COLUMN_FAMILIES \<Longrightarrow> path_ok (file_of cf key)"
  using families_plain [of cf] set_hex [of _ key] by (fastforce simp: path_ok_def file_of_def)

definition named :: "string \<Rightarrow> bool" where
  "named p \<longleftrightarrow> (\<exists>cf \<in> set COLUMN_FAMILIES. \<exists>key. p = file_of cf key)"

lemma named_file_of [intro]: "cf \<in> set COLUMN_FAMILIES \<Longrightarrow> named (file_of cf key)"
  by (auto simp: named_def)

definition store_ok :: "store \<Rightarrow> bool" where
  "store_ok st \<longleftrightarrow> (\<forall>p. files st p \<noteq> None \<longrightarrow> named p)"

definition batch_named :: "batch \<Rightarrow> bool" where
  "batch_named b \<longleftrightarrow> (\<forall>p \<in> set (removes b). named p) \<and> (\<forall>(p, v) \<in> set (puts b). named p)"

lemma batch_named_ok: "batch_named b \<Longrightarrow> batch_ok b"
  by (auto simp: batch_named_def batch_ok_def named_def file_of_ok)

lemma families [simp]:
  "''cells'' \<in> set COLUMN_FAMILIES" "''accounts'' \<in> set COLUMN_FAMILIES"
  "''block_headers'' \<in> set COLUMN_FAMILIES" "''shard_states'' \<in> set COLUMN_FAMILIES"
  by (simp_all add: COLUMN_FAMILIES_def)

lemma decode_encode_cell_record:
  "cell_ok c \<Longrightarrow> decode_cell_record cr (cell_hash cr c) (encode_cell_record n c) = Inr (n, c)"
  using cell_from_to [of c "[]"] from_be_to_be [of n]
  by (simp add: decode_cell_record_def encode_cell_record_def CELL_REFS_LEN_def)

lemma batch_commits:
  assumes "batch_named b"
  shows "commit st b = (\<lparr>files = committed b (files st), journal = None\<rparr>, Inr ())"
    "store_ok st \<Longrightarrow> store_ok (fst (commit st b))"
proof -
  show eq: "commit st b = (\<lparr>files = committed b (files st), journal = None\<rparr>, Inr ())"
    by (rule commit_result [OF batch_named_ok [OF assms]])
  assume ok: "store_ok st"
  show "store_ok (fst (commit st b))"
    unfolding eq store_ok_def
  proof (intro allI impI)
    fix p assume "files (fst (\<lparr>files = committed b (files st), journal = None\<rparr>, Inr () :: storage_failure + unit)) p \<noteq> None"
    then have "p \<in> fst ` set (puts b) \<or> files st p \<noteq> None"
      by (auto simp: committed_def split: option.splits if_splits dest!: map_of_SomeD) force?
    then show "named p" using assms ok by (auto simp: batch_named_def store_ok_def)
  qed
qed

section \<open>Cell operations touch cells only\<close>

definition cells_only :: "batch \<Rightarrow> batch \<Rightarrow> bool" where
  "cells_only b b' \<longleftrightarrow> (\<exists>ps rs. puts b' = puts b @ ps \<and> removes b' = removes b @ rs \<and>
     (\<forall>(p, v) \<in> set ps. \<exists>k. p = file_of ''cells'' k) \<and> (\<forall>p \<in> set rs. \<exists>k. p = file_of ''cells'' k))"

lemma cells_only_refl [simp]: "cells_only b b"
  by (simp add: cells_only_def)

lemma cells_only_trans: "cells_only a b \<Longrightarrow> cells_only b c \<Longrightarrow> cells_only a c"
proof -
  assume "cells_only a b" "cells_only b c"
  then obtain ps rs ps' rs' where "puts b = puts a @ ps" "removes b = removes a @ rs"
    "puts c = puts b @ ps'" "removes c = removes b @ rs'"
    "\<forall>(p, v) \<in> set ps. \<exists>k. p = file_of ''cells'' k" "\<forall>p \<in> set rs. \<exists>k. p = file_of ''cells'' k"
    "\<forall>(p, v) \<in> set ps'. \<exists>k. p = file_of ''cells'' k" "\<forall>p \<in> set rs'. \<exists>k. p = file_of ''cells'' k"
    unfolding cells_only_def by blast
  then show ?thesis
    unfolding cells_only_def by (intro exI [of _ "ps @ ps'"] exI [of _ "rs @ rs'"]) (simp add: ball_Un)
qed

lemma cells_only_put: "cells_only b (add_put b (file_of ''cells'' k) v)"
  by (auto simp: cells_only_def add_put_def)

lemma cells_only_remove: "cells_only b (add_remove b (file_of ''cells'' k))"
  by (auto simp: cells_only_def add_remove_def)

lemma put_cells_only: "put_cells cr st cs b = Inr b' \<Longrightarrow> cells_only b b'"
proof (induction cs arbitrary: b)
  case (Cons c cs)
  then show ?case
    by (auto simp: Let_def bindR_Inr split: option.splits if_splits intro: cells_only_trans [OF cells_only_put])
qed simp

lemma put_bocs_only: "put_bocs cr st order bocs b = Inr b' \<Longrightarrow> cells_only b b'"
  by (induction bocs arbitrary: b) (auto simp: bindR_Inr intro: cells_only_trans put_cells_only)

lemma bindR_InrE:
  assumes "bindR r f = Inr y"
  obtains x where "r = Inr x"
  using assms by (cases r) auto

lemma bindR_InrD: "bindR r f = Inr y \<Longrightarrow> r = Inr x \<Longrightarrow> f x = Inr y"
  by simp

text \<open>The ways in which an adjustment succeeds.\<close>

lemma adjust_cell_cases:
  assumes "adjust_cell cr st up h seen b = Inr (seen', b')"
  obtains (seen) "h \<in> seen" "seen' = seen" "b' = b"
  | (retained) v n c n' where "h \<notin> seen" "up"
      "(case map_of (rev (puts b)) (file_of ''cells'' (encode h)) of Some v \<Rightarrow> Some v
        | None \<Rightarrow> files st (file_of ''cells'' (encode h))) = Some v"
      "decode_cell_record cr h v = Inr (n, c)" "checked_add n 1 = Some n'"
      "adjust_refs cr st True (cell_refs c) (insert h seen)
        (add_put b (file_of ''cells'' (encode h)) (encode_cell_record n' c)) = Inr (seen', b')"
  | (removed) v c where "h \<notin> seen" "\<not> up"
      "(case map_of (rev (puts b)) (file_of ''cells'' (encode h)) of Some v \<Rightarrow> Some v
        | None \<Rightarrow> files st (file_of ''cells'' (encode h))) = Some v"
      "decode_cell_record cr h v = Inr (1, c)"
      "adjust_refs cr st False (cell_refs c) (insert h seen) (add_remove b (file_of ''cells'' (encode h))) = Inr (seen', b')"
  | (released) v n c where "h \<notin> seen" "\<not> up"
      "(case map_of (rev (puts b)) (file_of ''cells'' (encode h)) of Some v \<Rightarrow> Some v
        | None \<Rightarrow> files st (file_of ''cells'' (encode h))) = Some v"
      "decode_cell_record cr h v = Inr (n, c)" "n \<noteq> 0" "n \<noteq> 1" "seen' = insert h seen"
      "b' = add_put b (file_of ''cells'' (encode h)) (encode_cell_record (n - 1) c)"
proof (cases "h \<in> seen")
  case True
  then show ?thesis using assms seen unfolding adjust_cell.simps [of cr st up h seen b] if_P [OF True] by blast
next
  case False
  let ?path = "file_of ''cells'' (encode h)"
  let ?look = "case map_of (rev (puts b)) ?path of Some v \<Rightarrow> Some v | None \<Rightarrow> files st ?path"
  let ?body = "\<lambda>n c. if up then
          bindR (ok_or (checked_add n 1) (Failed (Corrupt ''cell refcount overflow''))) (\<lambda>n'.
          adjust_refs cr st True (cell_refs c) (insert h seen) (add_put b ?path (encode_cell_record n' c)))
        else if n = 0 then Inl (Failed (Corrupt ''cell refcount underflow''))
        else if n = 1 then adjust_refs cr st False (cell_refs c) (insert h seen) (add_remove b ?path)
        else Inr (insert h seen, add_put b ?path (encode_cell_record (n - 1) c))"
  have all: "bindR (ok_or ?look (Failed (Corrupt ''referenced cell is absent''))) (\<lambda>v.
      bindR (decode_cell_record cr h v) (\<lambda>(n, c). ?body n c)) = Inr (seen', b')"
    using assms unfolding adjust_cell.simps [of cr st up h seen b] if_not_P [OF False] Let_def .
  obtain v where "ok_or ?look (Failed (Corrupt ''referenced cell is absent'')) = Inr v" by (rule bindR_InrE [OF all])
  note v = ok_or_Inr [THEN iffD1, OF this] and rest = bindR_InrD [OF all this]
  obtain nc where nc: "decode_cell_record cr h v = Inr nc" by (rule bindR_InrE [OF rest])
  note bodync = bindR_InrD [OF rest nc]
  obtain n c where "nc = (n, c)" by (cases nc)
  with nc bodync have dec: "decode_cell_record cr h v = Inr (n, c)" and body: "?body n c = Inr (seen', b')" by simp_all
  show ?thesis
  proof (cases up)
    case True
    then show ?thesis using body retained [OF False True v dec] by (auto simp: bindR_Inr ok_or_Inr)
  next
    case down: False
    then show ?thesis
      using body removed [OF False down v] released [OF False down v dec] dec by (auto split: if_splits)
  qed
qed

lemma adjust_only:
  "adjust_cell cr st up h seen b = Inr (seen', b') \<Longrightarrow> cells_only b b'"
  "adjust_refs cr st up rs seen b = Inr (seen', b') \<Longrightarrow> cells_only b b'"
proof (induction cr st up h seen b and cr st up rs seen b arbitrary: seen' b' and seen' b' rule: adjust_cell_adjust_refs.induct)
  case (1 cr st up h seen b)
  from "1.prems" show ?case
  proof (cases rule: adjust_cell_cases)
    case (retained v n c n')
    then show ?thesis
      using "1.IH"(1) [OF retained(1) refl _ retained(4) refl retained(2) _ retained(6)]
      by (auto simp: ok_or_Inr intro: cells_only_trans [OF cells_only_put])
  next
    case (removed v c)
    then show ?thesis
      using "1.IH"(2) [OF removed(1) refl _ removed(4) refl removed(2) _ refl removed(5)]
      by (auto simp: ok_or_Inr intro: cells_only_trans [OF cells_only_remove])
  qed (auto simp: cells_only_put)
next
  case (3 cr st up r rs seen b)
  then show ?case by (fastforce simp: bindR_Inr intro: cells_only_trans)
qed simp

end
