(* ===== verification/Storage_Commit.thy ===== *)
theory Storage_Commit
  imports Storage
begin

text \<open>
  What a committed block leaves in the store of theory \<open>Storage\<close>: the state root, the header and the
  accounts of its shard, each read back as it was committed, and nothing else of the accounts.
\<close>

section \<open>Keys\<close>

lemma shard_to_bytes_inj: "shard_to_bytes s = shard_to_bytes s' \<Longrightarrow> s = s'"
proof -
  assume eq: "shard_to_bytes s = shard_to_bytes s'"
  have "from_be (take 4 (shard_to_bytes x)) = shard_workchain x" "from_be (drop 4 (shard_to_bytes x)) = shard_prefix_ident x" for x
    by (simp_all add: shard_to_bytes_def workchain_to_bytes_def)
  with eq have "shard_workchain s = shard_workchain s'" "shard_prefix_ident s = shard_prefix_ident s'" by metis+
  then show "s = s'" by simp
qed

lemma account_key_parts: "take 12 (account_key s a) = shard_to_bytes s" "drop 12 (account_key s a) = encode a"
  by (simp_all add: account_key_def)

lemma account_key_inj: "account_key s a = account_key s' a' \<longleftrightarrow> s = s' \<and> a = a'"
proof
  assume eq: "account_key s a = account_key s' a'"
  have "from_be (drop 12 (account_key x y)) = y" for x y by (simp add: account_key_parts)
  with eq have "a = a'" by metis
  moreover have "s = s'" using eq account_key_parts(1) shard_to_bytes_inj by metis
  ultimately show "s = s' \<and> a = a'" by simp
qed simp

lemma account_key_of:
  "length key = 44 \<Longrightarrow> take 12 key = shard_to_bytes s \<Longrightarrow> key = account_key s (from_be (drop 12 key))"
  using append_take_drop_id [of 12 key] encode_from_be [of "drop 12 key", where 'a = 256] by (simp add: account_key_def)

lemma hex_inj_iff: "hex as = hex bs \<longleftrightarrow> as = bs"
  using hex_inj by blast

lemma hex_starts: "take (length (hex p)) (hex key) = hex p \<longleftrightarrow> take (length p) key = p"
proof
  have "hex key = hex (take (length p) key) @ hex (drop (length p) key)" by (simp flip: hex_append)
  then have cut: "take (length (hex p)) (hex key) = hex (take (length p) key)"
    by (cases "length p \<le> length key") (simp_all add: min_def)
  show "take (length p) key = p" if "take (length (hex p)) (hex key) = hex p"
    using that hex_inj unfolding cut by blast
  show "take (length (hex p)) (hex key) = hex p" if "take (length p) key = p"
    unfolding cut that ..
qed

section \<open>Loading the accounts of a shard\<close>

text \<open>A listing of the directory of accounts, with the contents of its files.\<close>

definition listing :: "store \<Rightarrow> (string \<times> bytes) list \<Rightarrow> bool" where
  "listing st entries \<longleftrightarrow> distinct (map fst entries) \<and>
     (\<forall>name. map_of entries name = files st (''accounts/'' @ name))"

definition hex_names :: "(string \<times> bytes) list \<Rightarrow> bool" where
  "hex_names entries \<longleftrightarrow> distinct (map fst entries) \<and> (\<forall>(name, v) \<in> set entries. \<exists>key. name = hex key)"

lemma accounts_file: "file_of ''accounts'' key = ''accounts/'' @ hex key"
  by (simp add: file_of_def)

lemma named_accounts: "named (''accounts/'' @ name) \<Longrightarrow> \<exists>key. name = hex key"
  by (auto simp: named_def COLUMN_FAMILIES_def file_of_def)

lemma listing_hex: "store_ok st \<Longrightarrow> listing st entries \<Longrightarrow> hex_names entries"
proof -
  assume ok: "store_ok st" and l: "listing st entries"
  have "\<exists>key. name = hex key" if "(name, v) \<in> set entries" for name v
  proof -
    have "map_of entries name = Some v" using l that unfolding listing_def by (intro map_of_is_SomeI) blast+
    then have "files st (''accounts/'' @ name) \<noteq> None" using l by (simp add: listing_def)
    then show ?thesis using ok named_accounts by (simp add: store_ok_def)
  qed
  then show ?thesis using l by (auto simp: hex_names_def listing_def)
qed

lemma listing_get: "listing st entries \<Longrightarrow> map_of entries (hex key) = read_file st ''accounts'' key"
  by (simp add: listing_def read_file_def accounts_file)

lemma listing_mem: "listing st entries \<Longrightarrow> (hex key, v) \<in> set entries \<longleftrightarrow> read_file st ''accounts'' key = Some v"
  using listing_get [of st entries key] map_of_SomeD [of entries "hex key" v] map_of_is_SomeI [of entries "hex key" v]
  unfolding listing_def by auto

text \<open>
  Loading inserts the account of every file under the prefix of the shard; it succeeds if and only
  if each of these has a key of 44 bytes and a decodable content.
\<close>

definition loadable :: "shard_ident \<Rightarrow> (string \<times> bytes) list \<Rightarrow> bool" where
  "loadable s entries \<longleftrightarrow> (\<forall>key v. (hex key, v) \<in> set entries \<longrightarrow> take 12 key = shard_to_bytes s \<longrightarrow>
     length key = 44 \<and> (\<exists>x. decode_account v = Inr x))"

lemma load_entries_step:
  "load_entries (hex (shard_to_bytes s)) ((hex key, v) # entries) t =
     (if take 12 key = shard_to_bytes s then
        if length key \<noteq> 44 then Inl (Failed (Corrupt ''invalid account key''))
        else bindR (decode_account v) (\<lambda>x. load_entries (hex (shard_to_bytes s)) entries (tree_insert t (from_be (drop 12 key)) x))
      else load_entries (hex (shard_to_bytes s)) entries t)"
  using hex_starts [of "shard_to_bytes s" key] by simp

lemma load_entries_Inr:
  assumes "hex_names entries" "bt_inv (accounts t)"
  shows "(\<exists>t'. load_entries (hex (shard_to_bytes s)) entries t = Inr t') \<longleftrightarrow> loadable s entries"
    and "load_entries (hex (shard_to_bytes s)) entries t = Inr t' \<Longrightarrow> bt_inv (accounts t') \<and>
      (\<forall>a. bt_get (accounts t') a = (case map_of entries (hex (account_key s a)) of
         None \<Rightarrow> bt_get (accounts t) a
       | Some v \<Rightarrow> (case decode_account v of Inr x \<Rightarrow> Some x | Inl _ \<Rightarrow> None)))"
  using assms
proof (induction entries arbitrary: t)
  case Nil
  { case 1 then show ?case by (simp add: loadable_def) }
  { case 2 then show ?case by simp }
next
  case (Cons e entries)
  have names: "hex_names entries" if "hex_names (e # entries)" using that by (simp add: hex_names_def)
  have ins: "bt_inv (accounts (tree_insert t a x))" if "bt_inv (accounts t)" for t a x
    using that by (simp add: tree_insert_def)
  have split: "\<exists>key v. e = (hex key, v) \<and> hex key \<notin> fst ` set entries" if "hex_names (e # entries)"
    using that by (cases e) (auto simp: hex_names_def)
  { case 1
    then obtain key v where e: "e = (hex key, v)" using split by blast
    have "loadable s (e # entries) \<longleftrightarrow> loadable s entries \<and>
        (take 12 key = shard_to_bytes s \<longrightarrow> length key = 44 \<and> (\<exists>x. decode_account v = Inr x))"
      by (auto simp: loadable_def e dest: hex_inj)
    then show ?case
      using Cons.IH(1) [OF names [OF "1"(1)] "1"(2)] Cons.IH(1) [OF names [OF "1"(1)] ins [OF "1"(2)]]
      unfolding e load_entries_step by (cases "decode_account v") auto }
  { case 2
    then obtain key v where e: "e = (hex key, v)" and new: "hex key \<notin> fst ` set entries" using split by blast
    show ?case
    proof (cases "take 12 key = shard_to_bytes s")
      case False
      then have "hex (account_key s a) \<noteq> hex key" for a using account_key_parts hex_inj by metis
      then show ?thesis
        using "2"(1) Cons.IH(2) [OF _ names [OF "2"(2)] "2"(3)] False unfolding e load_entries_step by simp
    next
      case True
      obtain x where x: "length key = 44" "decode_account v = Inr x"
        and rest: "load_entries (hex (shard_to_bytes s)) entries (tree_insert t (from_be (drop 12 key)) x) = Inr t'"
        using "2"(1) True unfolding e load_entries_step by (auto simp: bindR_Inr split: if_splits)
      define a where "a = (from_be (drop 12 key) :: hash32)"
      have key: "key = account_key s a" using account_key_of x(1) True unfolding a_def by blast
      have same: "hex (account_key s a') = hex key \<longleftrightarrow> a' = a" for a'
        unfolding key hex_inj_iff account_key_inj by auto
      have "map_of entries (hex key) = None" using new by (simp add: map_of_eq_None_iff)
      then have none: "map_of entries (hex (account_key s a)) = None" by (simp add: key)
      show ?thesis
        using Cons.IH(2) [OF rest names [OF "2"(2)] ins [OF "2"(3)]] x(2) none
        unfolding e a_def [symmetric] by (auto simp: same tree_insert_def split: option.split)
    qed }
qed

lemma load_shard_state_Inr:
  assumes "hex_names entries"
  shows "(\<exists>t. load_shard_state entries s = Inr t) \<longleftrightarrow> loadable s entries"
    and "load_shard_state entries s = Inr t \<Longrightarrow> bt_inv (accounts t) \<and>
      (\<forall>a. bt_get (accounts t) a = (case map_of entries (hex (account_key s a)) of
         None \<Rightarrow> None
       | Some v \<Rightarrow> (case decode_account v of Inr x \<Rightarrow> Some x | Inl _ \<Rightarrow> None)))"
proof -
  have new: "bt_inv (accounts tree_new)" "accounts tree_new = []" by (simp_all add: tree_new_def)
  show "(\<exists>t. load_shard_state entries s = Inr t) \<longleftrightarrow> loadable s entries"
    unfolding load_shard_state_def by (rule load_entries_Inr(1) [OF assms new(1)])
  show "load_shard_state entries s = Inr t \<Longrightarrow> bt_inv (accounts t) \<and>
      (\<forall>a. bt_get (accounts t) a = (case map_of entries (hex (account_key s a)) of
         None \<Rightarrow> None
       | Some v \<Rightarrow> (case decode_account v of Inr x \<Rightarrow> Some x | Inl _ \<Rightarrow> None)))"
    using load_entries_Inr(2) [OF assms new(1), of s t] unfolding load_shard_state_def new(2) map_of.simps by simp
qed

lemma decode_account_bytes [simp]: "decode_account (account_to_bytes x) = Inr x"
  using account_from_to [of x "[]"] by (simp add: decode_account_def)

section \<open>The batch of a block\<close>

lemma commit_block_batch_Inr:
  assumes "commit_block_batch cr st order entries c = Inr b"
  obtains old b2 b4 where "tree_state_root_hash cr (bc_state c) = state_root_hash (bc_header c)"
    "load_shard_state entries (shard (bc_header c)) = Inr old"
    "cells_only empty_batch b2" "cells_only (replace_accounts (shard (bc_header c)) old (bc_state c) b2) b4"
    "b = add_put (add_put b4 (file_of ''block_headers'' (encode (header_hash cr (bc_header c)))) (header_to_bytes (bc_header c)))
       (file_of ''shard_states'' (shard_to_bytes (shard (bc_header c)))) (encode (state_root_hash (bc_header c)))"
proof -
  let ?s = "shard (bc_header c)"
  have root: "tree_state_root_hash cr (bc_state c) = state_root_hash (bc_header c)"
    using assms by (auto simp: commit_block_batch_def Let_def split: if_splits)
  obtain p :: merkle_proof and b1 b2 old_root old seen b3 b4 where
    "put_bocs cr st order (bc_cell_bocs c) empty_batch = Inr b1"
    "put_cells cr st (order (proof_boc p)) b1 = Inr b2"
    and old: "load_shard_state entries ?s = Inr old"
    and up: "adjust_cell cr st True (proof_root_hash p) {} (replace_accounts ?s old (bc_state c) b2) = Inr (seen, b3)"
    and down: "(case old_root of None \<Rightarrow> Inr b3
       | Some root \<Rightarrow> bindR (adjust_cell cr st False root {} b3) (\<lambda>(_, b). Inr b)) = Inr b4"
    and b: "b = add_put (add_put b4 (file_of ''block_headers'' (encode (header_hash cr (bc_header c)))) (header_to_bytes (bc_header c)))
       (file_of ''shard_states'' (shard_to_bytes ?s)) (encode (state_root_hash (bc_header c)))"
    using assms root by (auto simp: commit_block_batch_def Let_def bindR_Inr)
  then have "cells_only empty_batch b2" using put_bocs_only put_cells_only cells_only_trans by blast
  moreover have "cells_only b3 b4"
    using down adjust_only(1) by (cases old_root) (fastforce simp: bindR_Inr)+
  then have "cells_only (replace_accounts ?s old (bc_state c) b2) b4"
    using adjust_only(1) [OF up] cells_only_trans by blast
  ultimately show ?thesis using that root old b by blast
qed

definition foreign :: "string \<Rightarrow> (string \<times> bytes) list \<Rightarrow> bool" where
  "foreign cf ps \<longleftrightarrow> (\<forall>(p, v) \<in> set ps. \<exists>cf' k. cf' \<in> set COLUMN_FAMILIES \<and> cf' \<noteq> cf \<and> p = file_of cf' k)"

lemma foreign_None: "foreign cf ps \<Longrightarrow> cf \<in> set COLUMN_FAMILIES \<Longrightarrow> map_of (rev ps) (file_of cf k) = None"
  by (fastforce simp: foreign_def map_of_eq_None_iff file_of_inj)

lemma map_of_account_puts:
  assumes "bt_inv m"
  shows "map_of (rev (map (\<lambda>(a, x). (file_of ''accounts'' (account_key s a), account_to_bytes x)) m)) (file_of ''accounts'' key) =
    (if length key = 44 \<and> take 12 key = shard_to_bytes s
     then map_option account_to_bytes (bt_get m (from_be (drop 12 key))) else None)"
  using assms
proof (induction m)
  case (Cons e m)
  obtain a x where e: "e = (a, x)" by fastforce
  have m: "bt_inv m" "a \<notin> fst ` set m" using Cons.prems by (auto simp: bt_inv_Cons e)
  have none: "bt_get m a = None" using m(2) by (simp add: map_of_eq_None_iff)
  have here: "file_of ''accounts'' (account_key s a) = file_of ''accounts'' key \<longleftrightarrow>
      length key = 44 \<and> take 12 key = shard_to_bytes s \<and> from_be (drop 12 key) = a"
    using account_key_of [of key s] by (auto simp: file_of_inj account_key_parts account_key_def)
  show ?case
    using Cons.IH [OF m(1)] here none by (auto simp: e map_add_def split: option.splits)
qed simp

text \<open>The values a block's batch leaves, family by family.\<close>

lemma block_batch_puts:
  assumes "cells_only empty_batch b2" "cells_only (replace_accounts s old new b2) b4" "bt_inv (accounts new)"
    and b: "b = add_put (add_put b4 (file_of ''block_headers'' hk) hv) (file_of ''shard_states'' sk) sv"
  shows "batch_named b"
    and "map_of (rev (puts b)) (file_of ''accounts'' key) =
      (if length key = 44 \<and> take 12 key = shard_to_bytes s
       then map_option account_to_bytes (bt_get (accounts new) (from_be (drop 12 key))) else None)"
    and "map_of (rev (puts b)) (file_of ''block_headers'' key) = (if key = hk then Some hv else None)"
    and "map_of (rev (puts b)) (file_of ''shard_states'' key) = (if key = sk then Some sv else None)"
    and "cf \<in> {''accounts'', ''block_headers'', ''shard_states''} \<Longrightarrow>
      file_of cf key \<in> set (removes b) \<longleftrightarrow> cf = ''accounts'' \<and> (\<exists>a \<in> fst ` set (accounts old). key = account_key s a)"
proof -
  let ?ap = "map (\<lambda>(a, x). (file_of ''accounts'' (account_key s a), account_to_bytes x)) (accounts new)"
  let ?ar = "map (\<lambda>(a, _). file_of ''accounts'' (account_key s a)) (accounts old)"
  obtain ps rs ps' rs' where b4: "puts b4 = ps @ ?ap @ ps'" "removes b4 = rs @ ?ar @ rs'"
    and cells: "\<forall>(p, v) \<in> set ps. \<exists>k. p = file_of ''cells'' k" "\<forall>p \<in> set rs. \<exists>k. p = file_of ''cells'' k"
      "\<forall>(p, v) \<in> set ps'. \<exists>k. p = file_of ''cells'' k" "\<forall>p \<in> set rs'. \<exists>k. p = file_of ''cells'' k"
    using assms(1,2) unfolding cells_only_def empty_batch_def replace_accounts_def by fastforce
  have far: "foreign cf ps" "foreign cf ps'" if "cf \<noteq> ''cells''" for cf
    using cells(1,3) that families(1) unfolding foreign_def by blast+
  have acc: "foreign cf ?ap" if "cf \<noteq> ''accounts''" for cf
    using that families(2) unfolding foreign_def set_map by (auto simp del: families)
  have puts: "puts b = ps @ ?ap @ ps' @ [(file_of ''block_headers'' hk, hv), (file_of ''shard_states'' sk, sv)]"
    and rem: "removes b = rs @ ?ar @ rs'"
    by (simp_all add: b add_put_def b4)
  note lookups = puts rev_append map_of_append map_add_def
  show "batch_named b"
  proof -
    have cell: "named p" if "\<exists>k. p = file_of ''cells'' k" for p using that by auto
    have "\<forall>(p, v) \<in> set ps \<union> set ps'. named p" "\<forall>p \<in> set rs \<union> set rs'. named p"
      using cells cell by blast+
    then show ?thesis unfolding batch_named_def puts rem by auto
  qed
  show "map_of (rev (puts b)) (file_of ''accounts'' key) =
      (if length key = 44 \<and> take 12 key = shard_to_bytes s
       then map_option account_to_bytes (bt_get (accounts new) (from_be (drop 12 key))) else None)"
    using map_of_account_puts [OF assms(3), of s key]
    by (simp add: lookups foreign_None [OF far(1)] foreign_None [OF far(2)] file_of_inj split: option.split)
  show "map_of (rev (puts b)) (file_of ''block_headers'' key) = (if key = hk then Some hv else None)"
    by (simp add: lookups foreign_None [OF far(1)] foreign_None [OF far(2)] foreign_None [OF acc] file_of_inj)
  show "map_of (rev (puts b)) (file_of ''shard_states'' key) = (if key = sk then Some sv else None)"
    by (simp add: lookups foreign_None [OF far(1)] foreign_None [OF far(2)] foreign_None [OF acc] file_of_inj)
  assume cf: "cf \<in> {''accounts'', ''block_headers'', ''shard_states''}"
  then have fam: "cf \<in> set COLUMN_FAMILIES" "cf \<noteq> ''cells''" by auto
  then have "file_of cf key \<noteq> file_of ''cells'' k" for k by (simp add: file_of_inj)
  then have "file_of cf key \<notin> set rs" "file_of cf key \<notin> set rs'" using cells(2,4) by blast+
  then show "file_of cf key \<in> set (removes b) \<longleftrightarrow> cf = ''accounts'' \<and> (\<exists>a \<in> fst ` set (accounts old). key = account_key s a)"
    using fam(1) by (auto simp: rem file_of_inj image_iff) force+
qed

lemma committed_file:
  assumes "batch_named b" "cf \<in> set COLUMN_FAMILIES"
  shows "committed b f (file_of cf key) =
    (case map_of (rev (puts b)) (file_of cf key) of
       Some v \<Rightarrow> Some v
     | None \<Rightarrow> if file_of cf key \<in> set (removes b) then None else f (file_of cf key))"
proof -
  have "p @ ''.tmp'' \<noteq> file_of cf key" for p using dotted_path file_of_ok [OF assms(2)] by blast
  then have "file_of cf key \<in> touched b \<longleftrightarrow> file_of cf key \<in> set (removes b) \<or> file_of cf key \<in> fst ` set (puts b)"
    by (auto simp: touched_def) (metis)+
  moreover have "map_of (rev (puts b)) (file_of cf key) = None \<longleftrightarrow> file_of cf key \<notin> fst ` set (puts b)"
    by (simp add: map_of_eq_None_iff)
  ultimately show ?thesis by (auto simp: committed_def split: option.split)
qed

text \<open>The account files after a block: those of its shard are the new state's, the others are kept.\<close>

lemma block_accounts_after:
  assumes "store_ok st" "listing st entries" "load_shard_state entries s = Inr old"
    "cells_only empty_batch b2" "cells_only (replace_accounts s old new b2) b4" "bt_inv (accounts new)"
    and b: "b = add_put (add_put b4 (file_of ''block_headers'' hk) hv) (file_of ''shard_states'' sk) sv"
  shows "committed b (files st) (file_of ''accounts'' key) =
    (if take 12 key = shard_to_bytes s then
       if length key = 44 then map_option account_to_bytes (bt_get (accounts new) (from_be (drop 12 key))) else None
     else files st (file_of ''accounts'' key))"
proof -
  note batch = block_batch_puts [OF assms(4,5,6) b]
  have names: "hex_names entries" by (rule listing_hex [OF assms(1,2)])
  have load: "loadable s entries" using load_shard_state_Inr(1) [OF names] assms(3) by blast
  have old: "bt_get (accounts old) a = (case read_file st ''accounts'' (account_key s a) of
      None \<Rightarrow> None | Some v \<Rightarrow> (case decode_account v of Inr x \<Rightarrow> Some x | Inl _ \<Rightarrow> None))" for a
    using load_shard_state_Inr(2) [OF names assms(3)] by (simp add: listing_get [OF assms(2)])
  have present: "length key = 44 \<and> from_be (drop 12 key) \<in> fst ` set (accounts old)"
    if "take 12 key = shard_to_bytes s" "files st (file_of ''accounts'' key) = Some v" for v
  proof -
    have v: "read_file st ''accounts'' key = Some v" using that(2) by (simp add: read_file_def)
    then have "(hex key, v) \<in> set entries" by (simp add: listing_mem [OF assms(2)])
    with load that(1) obtain x where x: "length key = 44" "decode_account v = Inr x" by (auto simp: loadable_def)
    have "bt_get (accounts old) (from_be (drop 12 key)) = Some x"
      using old [of "from_be (drop 12 key)"] v x(2) account_key_of [OF x(1) that(1)] by simp
    then show ?thesis using x(1) map_of_SomeD by force
  qed
  have rem: "file_of ''accounts'' key \<in> set (removes b) \<longleftrightarrow> (\<exists>a \<in> fst ` set (accounts old). key = account_key s a)"
    using batch(5) [of "''accounts''" key] by simp
  have gone: "files st (file_of ''accounts'' key) = None \<or> file_of ''accounts'' key \<in> set (removes b)"
    if "take 12 key = shard_to_bytes s"
    using present [OF that] account_key_of [of key s] that unfolding rem by (cases "files st (file_of ''accounts'' key)") (simp, blast)
  have kept: "file_of ''accounts'' key \<notin> set (removes b)" if "take 12 key \<noteq> shard_to_bytes s"
    using that account_key_parts(1) unfolding rem by blast
  show ?thesis
    unfolding committed_file [OF batch(1) families(2)] batch(2)
    using gone kept by (auto split: option.split)
qed

section \<open>Properties\<close>

lemma commit_block_Inr:
  assumes "commit_block cr st order entries c = (st', Inr ())" "bt_inv (accounts (bc_state c))"
  obtains b where "commit_block_batch cr st order entries c = Inr b" "batch_named b"
    "st' = \<lparr>files = committed b (files st), journal = None\<rparr>"
proof -
  obtain b where b: "commit_block_batch cr st order entries c = Inr b" "commit st b = (st', Inr ())"
    using assms(1) by (auto simp: commit_block_def commit_batch_def split: sum.splits)
  have "batch_named b" using block_batch_puts(1) [OF _ _ assms(2)] by (rule commit_block_batch_Inr [OF b(1)]) blast
  then show ?thesis using b batch_commits(1) that by simp
qed

text \<open>What a successful commitment leaves in the files of the column families.\<close>

lemma commit_block_files:
  assumes "store_ok st" "listing st entries" "bt_inv (accounts (bc_state c))"
    and "commit_block cr st order entries c = (st', Inr ())"
  obtains b where "commit_block_batch cr st order entries c = Inr b" "batch_named b"
    and "st' = \<lparr>files = committed b (files st), journal = None\<rparr>"
    and "tree_state_root_hash cr (bc_state c) = state_root_hash (bc_header c)"
    and "\<forall>key. read_file st' ''accounts'' key =
      (if take 12 key = shard_to_bytes (shard (bc_header c)) then
         if length key = 44 then map_option account_to_bytes (bt_get (accounts (bc_state c)) (from_be (drop 12 key))) else None
       else read_file st ''accounts'' key)"
    and "\<forall>key. read_file st' ''shard_states'' key =
      (if key = shard_to_bytes (shard (bc_header c)) then Some (encode (state_root_hash (bc_header c)))
       else read_file st ''shard_states'' key)"
    and "read_file st' ''block_headers'' (encode (header_hash cr (bc_header c))) = Some (header_to_bytes (bc_header c))"
proof -
  let ?s = "shard (bc_header c)"
  obtain b where b: "commit_block_batch cr st order entries c = Inr b" "batch_named b"
    and st': "st' = \<lparr>files = committed b (files st), journal = None\<rparr>"
    by (rule commit_block_Inr [OF assms(4,3)])
  obtain old b2 b4 where root: "tree_state_root_hash cr (bc_state c) = state_root_hash (bc_header c)"
    and old: "load_shard_state entries ?s = Inr old"
    and only: "cells_only empty_batch b2" "cells_only (replace_accounts ?s old (bc_state c) b2) b4"
    and beq: "b = add_put (add_put b4 (file_of ''block_headers'' (encode (header_hash cr (bc_header c)))) (header_to_bytes (bc_header c)))
       (file_of ''shard_states'' (shard_to_bytes ?s)) (encode (state_root_hash (bc_header c)))"
    by (rule commit_block_batch_Inr [OF b(1)])
  note batch = block_batch_puts [OF only assms(3) beq]
  note acc = block_accounts_after [OF assms(1,2) old only assms(3) beq]
  show thesis
    by (rule that [OF b st' root])
      (use acc batch(5) [of "''shard_states''"] in \<open>simp_all add: read_file_def st' committed_file [OF b(2)] batch(3,4)\<close>)
qed

lemma load_shard_state_files:
  assumes "store_ok st" "listing st entries" "bt_inv (accounts t)"
    and "\<And>key. read_file st ''accounts'' key =
      (if take 12 key = shard_to_bytes s then
         if length key = 44 then map_option account_to_bytes (bt_get (accounts t) (from_be (drop 12 key))) else None
       else f key)"
    and "\<And>a. read_file st ''accounts'' (account_key s a) = map_option account_to_bytes (bt_get (accounts t) a)"
  shows "load_shard_state entries s = Inr t"
proof -
  note names = listing_hex [OF assms(1,2)]
  have "loadable s entries"
    by (auto simp: loadable_def listing_mem [OF assms(2)] assms(4) split: if_splits)
  then obtain t' where t': "load_shard_state entries s = Inr t'" using load_shard_state_Inr(1) [OF names] by blast
  have "bt_inv (accounts t')" "bt_get (accounts t') a = bt_get (accounts t) a" for a
    using load_shard_state_Inr(2) [OF names t']
    by (simp_all add: listing_get [OF assms(2)] assms(5) split: option.split)
  then have "accounts t' = accounts t" using bt_eqI assms(3) by blast
  then show ?thesis using t' by simp
qed

lemma encode_cancel: "8 dvd LENGTH('a) \<Longrightarrow> encode x = encode y \<longleftrightarrow> x = (y :: 'a::len word)"
  using from_be_encode by metis

lemma header_to_bytes_inj: "header_to_bytes h = header_to_bytes h' \<Longrightarrow> h = h'"
proof -
  assume eq: "header_to_bytes h = header_to_bytes h'"
  note fields = header_fields [of h, unfolded eq, unfolded header_fields]
  show "h = h'"
    by (rule block_header.equality) (use fields in \<open>simp_all add: encode_cancel shard_to_bytes_inj\<close>)
qed

text \<open>A header that the decoder refuses, one with a wrong magic for instance, is committed and cannot be read back.\<close>

lemma stored_header_decodes:
  "header_from_bytes (header_to_bytes h) = Inr h' \<longleftrightarrow> h' = h \<and> header_ok h"
  using header_from_to header_from_bytes_sound header_to_bytes_inj by blast

text \<open>
  C5. A committed block is what the store answers with. In a store whose files lie in column families
  under hexadecimal names, and for a state whose map of accounts is in order: when the commitment of a block succeeds, the
  state root of its shard is the one in the header, loading the shard gives the committed state
  again, and so does the lookup of each account; the header is found under its hash if the decoder
  accepts it, and otherwise the lookup fails, although the block was committed. Accounts and
  state roots of other shards are as before, and every file still lies in a column family under a
  hexadecimal name. If the process stops once the journal is written, between two operations on
  files or within the write of one, then the recovery at the next start gives the
  same store; if it stops within the write of the journal, recovery performs the
  lines written so far, the last one as it was cut; if it stops before, nothing has changed.
\<close>

theorem committed_block_read_back:
  assumes "store_ok st" "listing st entries" "bt_inv (accounts (bc_state c))"
    and "commit_block cr st order entries c = (st', Inr ())" "listing st' entries'"
  shows "shard_state_root st' (shard (bc_header c)) = Inr (Some (state_root_hash (bc_header c))) \<and>
    tree_state_root_hash cr (bc_state c) = state_root_hash (bc_header c) \<and>
    get_block_header st' (header_hash cr (bc_header c)) =
      (if header_ok (bc_header c) then Inr (Some (bc_header c)) else Inl (Failed (Corrupt ''invalid block header''))) \<and>
    load_shard_state entries' (shard (bc_header c)) = Inr (bc_state c) \<and>
    (\<forall>a. get_account st' (shard (bc_header c)) a = Inr (tree_get (bc_state c) a)) \<and>
    (\<forall>s a. s \<noteq> shard (bc_header c) \<longrightarrow>
       get_account st' s a = get_account st s a \<and> shard_state_root st' s = shard_state_root st s) \<and>
    store_ok st' \<and>
    (\<exists>b. commit_block_batch cr st order entries c = Inr b \<and>
       fold apply_op (commit_ops b) st = st' \<and>
       stopped 0 None (commit_ops b) st = st \<and>
       (\<forall>n. recover (stopped 0 (Some n) (commit_ops b) st) =
          recover_lines (st\<lparr>journal := Some (take n (journal_text b))\<rparr>) (torn_lines n (batch_lines b))) \<and>
       (\<forall>k n. 0 < k \<longrightarrow> recover (stopped k n (commit_ops b) st) = (st', Inr ())))"
proof -
  let ?s = "shard (bc_header c)"
  obtain b where b: "commit_block_batch cr st order entries c = Inr b" "batch_named b"
    and st': "st' = \<lparr>files = committed b (files st), journal = None\<rparr>"
    and root: "tree_state_root_hash cr (bc_state c) = state_root_hash (bc_header c)"
    and acc: "\<forall>key. read_file st' ''accounts'' key =
      (if take 12 key = shard_to_bytes ?s then
         if length key = 44 then map_option account_to_bytes (bt_get (accounts (bc_state c)) (from_be (drop 12 key))) else None
       else read_file st ''accounts'' key)"
    and rootf: "\<forall>key. read_file st' ''shard_states'' key =
      (if key = shard_to_bytes ?s then Some (encode (state_root_hash (bc_header c))) else read_file st ''shard_states'' key)"
    and hdr: "read_file st' ''block_headers'' (encode (header_hash cr (bc_header c))) = Some (header_to_bytes (bc_header c))"
    by (rule commit_block_files [OF assms(1,2,3,4)])
  have acck: "read_file st' ''accounts'' (account_key ?s a) = map_option account_to_bytes (bt_get (accounts (bc_state c)) a)" for a
    using acc [rule_format, of "account_key ?s a"] by (simp add: account_key_parts) (simp add: account_key_def)
  note bok = batch_named_ok [OF b(2)]
  have ok: "store_ok st'" using batch_commits [OF b(2)] assms(1) by (simp add: st')
  have get: "get_account st' ?s a = Inr (tree_get (bc_state c) a)" for a
    by (simp add: get_account_def transposed_def acck tree_get_def split: option.split)
  have other: "get_account st' s a = get_account st s a \<and> shard_state_root st' s = shard_state_root st s" if "s \<noteq> ?s" for s a
    using that shard_to_bytes_inj by (auto simp: get_account_def shard_state_root_def acc rootf account_key_parts)
  have load: "load_shard_state entries' ?s = Inr (bc_state c)"
    by (rule load_shard_state_files [OF ok assms(5,3) acc [rule_format] acck])
  have stops: "fold apply_op (commit_ops b) st = st'" "stopped 0 None (commit_ops b) st = st"
    by (simp_all add: fold_commit_ops [OF bok] commit_result [OF bok] st' stopped_def)
  have torn: "recover (stopped 0 (Some n) (commit_ops b) st) =
      recover_lines (st\<lparr>journal := Some (take n (journal_text b))\<rparr>) (torn_lines n (batch_lines b))" for n
    by (rule commit_torn [OF bok])
  have finished: "recover (stopped k n (commit_ops b) st) = (st', Inr ())" if "0 < k" for k n
    unfolding st' by (rule commit_stopped [OF bok that])
  have "header_from_bytes (header_to_bytes (bc_header c)) = Inr (bc_header c)" if "header_ok (bc_header c)"
    using that by (simp add: stored_header_decodes)
  moreover have "\<exists>e. header_from_bytes (header_to_bytes (bc_header c)) = Inl e" if "\<not> header_ok (bc_header c)"
    using that stored_header_decodes by (cases "header_from_bytes (header_to_bytes (bc_header c))") auto
  ultimately have "get_block_header st' (header_hash cr (bc_header c)) =
      (if header_ok (bc_header c) then Inr (Some (bc_header c)) else Inl (Failed (Corrupt ''invalid block header'')))"
    by (auto simp: get_block_header_def transposed_def hdr)
  moreover have "shard_state_root st' ?s = Inr (Some (state_root_hash (bc_header c)))"
    by (simp add: shard_state_root_def transposed_def rootf)
  ultimately show ?thesis using get other load ok root b(1) stops torn finished by blast
qed

text \<open>A block with one account committed to an empty store.\<close>

lemma listing_exists: "finite (dom (files st)) \<Longrightarrow> \<exists>entries. listing st entries"
proof -
  assume "finite (dom (files st))"
  let ?f = "\<lambda>name. files st (''accounts/'' @ name)"
  have "(\<lambda>name. ''accounts/'' @ name) ` dom ?f \<subseteq> dom (files st)" unfolding dom_def by blast
  then have "finite ((\<lambda>name. ''accounts/'' @ name) ` dom ?f)" using \<open>finite (dom (files st))\<close> by (rule finite_subset)
  then have "finite (dom ?f)" by (rule finite_imageD) (simp add: inj_on_def)
  from finite_distinct_list [OF this] obtain names where names: "set names = dom ?f" "distinct names" by (elim exE conjE)
  let ?es = "map (\<lambda>name. (name, the (?f name))) names"
  have "map_of ?es name = ?f name" for name
  proof (cases "name \<in> set names")
    case True
    then have "?f name \<noteq> None" using names(1) by auto
    then show ?thesis using True by (auto simp: map_of_map_restrict)
  next
    case False
    then show ?thesis using names(1) by (auto simp: map_of_map_restrict)
  qed
  then have "listing st ?es" using names(2) by (simp add: listing_def o_def)
  then show ?thesis by blast
qed

abbreviation leaf_cell :: cell where
  "leaf_cell \<equiv> plain_cell [0] []"

abbreviation root_cell :: cell where
  "root_cell \<equiv> plain_cell (encode (7 :: hash32)) [35]"

definition first_block :: block_commitment where
  "first_block = \<lparr>bc_header = \<lparr>magic_constructor = BLOCK_HEADER_MAGIC, shard = shard_root 0, seq_no = 1, flags = 0,
       gen_utime = 0, start_lt = 0, end_lt = 0, prev_key_block = 0, prev_ref_hash = 0, prev_ref_hash_2 = 0,
       master_ref_hash = 0, state_root_hash = 98, in_msg_root_hash = 0, out_msg_root_hash = 0\<rparr>,
     bc_state = one_account_tree, bc_cell_bocs = []\<rparr>"

definition empty_store :: store where
  "empty_store = \<lparr>files = Map.empty, journal = None\<rparr>"

lemma sample_hashes: "cell_hash toy_crypto leaf_cell = 35" "cell_hash toy_crypto root_cell = 98"
  by (simp_all add: cell_hash_def domain_hash_def toy_crypto_def cell_payload_def descriptor_bytes_def
      ONX_CELL_HASH_V1_TAG_def tag_of_def ascii_def)

lemma sample_trie:
  "build_trie_cells toy_crypto (tree_items one_account_tree) 0 Map.empty = Inr (root_cell, [35 \<mapsto> leaf_cell, 98 \<mapsto> root_cell])"
  by (simp add: build_trie_cells.simps one_account_tree_def tree_insert_def tree_new_def tree_items_def chunks_single
      cell_new_plain sample_hashes)

lemma sample_proof:
  "generate_proof toy_crypto one_account_tree 0 = Inr \<lparr>magic_bytes = MERKLE_PROOF_MAGIC, target_key = 0, proof_root_hash = 98,
     proof_boc = \<lparr>boc_root = 98, boc_cells = [35 \<mapsto> leaf_cell, 98 \<mapsto> root_cell]\<rparr>\<rparr>"
  by (simp add: generate_proof_def sample_trie sample_hashes boc_new_def verify_dag_def dfs.simps Let_def)

lemma root_shard_ok: "shard_ok (shard_root wc)"
  using shard_ok_iff root_prefix_len by blast

lemma adjust_up:
  assumes "h \<notin> seen" "map_of (rev (puts b)) (file_of ''cells'' (encode h)) = Some (encode_cell_record n c)"
    "cell_ok c" "cell_hash cr c = h" "unat n + 1 < 2 ^ 64"
  shows "adjust_cell cr st True h seen b =
    adjust_refs cr st True (cell_refs c) (insert h seen) (add_put b (file_of ''cells'' (encode h)) (encode_cell_record (n + 1) c))"
  using assms decode_encode_cell_record [of c cr n]
  unfolding adjust_cell.simps [of cr st True h seen b] if_not_P [OF assms(1)] Let_def by (simp add: checked_add_def)

lemma sample_batch:
  "\<exists>b. commit_block_batch toy_crypto empty_store (\<lambda>_. [leaf_cell, root_cell]) [] first_block = Inr b"
proof -
  have root: "tree_state_root_hash toy_crypto one_account_tree = 98"
    by (simp add: tree_state_root_hash_def sample_trie sample_hashes)
  have none: "read_file empty_store cf k = None" for cf k by (simp add: read_file_def empty_store_def)
  have "from_be (encode (35 :: hash32)) \<noteq> (from_be (encode (98 :: hash32)) :: hash32)" by simp
  then have ne: "encode (35 :: hash32) \<noteq> encode (98 :: hash32)" by metis
  let ?b = "replace_accounts (shard_root 0) tree_new one_account_tree
    \<lparr>puts = [(file_of ''cells'' (encode (35 :: hash32)), encode_cell_record 0 leaf_cell),
       (file_of ''cells'' (encode (98 :: hash32)), encode_cell_record 0 root_cell)], removes = []\<rparr>"
  have "adjust_cell toy_crypto empty_store True 98 {} ?b =
      adjust_refs toy_crypto empty_store True [35] {98} (add_put ?b (file_of ''cells'' (encode (98 :: hash32))) (encode_cell_record 1 root_cell))"
    using adjust_up [of 98 "{}" ?b 0 root_cell toy_crypto empty_store] ne
    by (simp add: sample_hashes cell_ok_def replace_accounts_def one_account_tree_def tree_insert_def tree_new_def file_of_inj)
  also have "\<exists>seen b3. \<dots> = Inr (seen, b3)"
    using adjust_up [of 35 "{98}" "add_put ?b (file_of ''cells'' (encode (98 :: hash32))) (encode_cell_record 1 root_cell)" 0
        leaf_cell toy_crypto empty_store] ne
    by (simp add: sample_hashes cell_ok_def replace_accounts_def one_account_tree_def tree_insert_def tree_new_def file_of_inj add_put_def)
  finally obtain seen b3 where "adjust_cell toy_crypto empty_store True 98 {} ?b = Inr (seen, b3)" by blast
  then show ?thesis
    by (simp add: commit_block_batch_def first_block_def root Let_def sample_proof none sample_hashes shard_state_root_def
        transposed_def load_shard_state_def add_put_def empty_batch_def)
qed

theorem committed_block_read_back_witness:
  "\<exists>st'. commit_block toy_crypto empty_store (\<lambda>_. [leaf_cell, root_cell]) [] first_block = (st', Inr ()) \<and>
     shard_state_root st' (shard_root 0) = Inr (Some 98) \<and> get_account st' (shard_root 0) 7 = Inr (Some Uninitialized) \<and>
     get_block_header st' (header_hash toy_crypto (bc_header first_block)) = Inr (Some (bc_header first_block))"
proof -
  let ?o = "\<lambda>_ :: bag_of_cells. [leaf_cell, root_cell]"
  have inv: "bt_inv (accounts (bc_state first_block))"
    by (simp add: first_block_def one_account_tree_def tree_insert_def tree_new_def bt_inv_Cons)
  obtain b where b: "commit_block_batch toy_crypto empty_store ?o [] first_block = Inr b" using sample_batch by blast
  have named: "batch_named b" using block_batch_puts(1) [OF _ _ inv] by (rule commit_block_batch_Inr [OF b]) blast
  let ?st = "fst (commit empty_store b)"
  have run: "commit_block toy_crypto empty_store ?o [] first_block = (?st, Inr ())"
    using batch_commits(1) [OF named] by (simp add: commit_block_def commit_batch_def b)
  have "dom (committed b Map.empty) \<subseteq> fst ` set (puts b)"
    by (auto simp: committed_def split: option.splits if_splits dest!: map_of_SomeD) force
  then have "finite (dom (files ?st))" using batch_commits(1) [OF named] by (simp add: empty_store_def finite_subset)
  then obtain entries where l: "listing ?st entries" using listing_exists by blast
  have "store_ok empty_store" "listing empty_store []"
    by (simp_all add: store_ok_def listing_def empty_store_def)
  from committed_block_read_back [OF this inv run l]
  have "shard_state_root ?st (shard_root 0) = Inr (Some 98) \<and> get_account ?st (shard_root 0) 7 = Inr (tree_get one_account_tree 7) \<and>
      get_block_header ?st (header_hash toy_crypto (bc_header first_block)) = Inr (Some (bc_header first_block))"
    using root_shard_ok by (simp add: first_block_def header_ok_def)
  then show ?thesis using run by (auto simp: one_account_tree_def tree_get_def tree_insert_def tree_new_def)
qed

section \<open>Reference counts\<close>

text \<open>The value an adjustment sees for a cell.\<close>

definition seen_value :: "store \<Rightarrow> batch \<Rightarrow> hash32 \<Rightarrow> bytes option" where
  "seen_value st b h =
     (case map_of (rev (puts b)) (file_of ''cells'' (encode h)) of Some v \<Rightarrow> Some v | None \<Rightarrow> files st (file_of ''cells'' (encode h)))"

lemma adjust_found:
  assumes "h \<notin> seen" "seen_value st b h = Some (encode_cell_record n c)" "cell_ok c" "cell_hash cr c = h"
  shows "adjust_cell cr st up h seen b =
    (if up then
       bindR (ok_or (checked_add n 1) (Failed (Corrupt ''cell refcount overflow''))) (\<lambda>n'.
       adjust_refs cr st True (cell_refs c) (insert h seen) (add_put b (file_of ''cells'' (encode h)) (encode_cell_record n' c)))
     else if n = 0 then Inl (Failed (Corrupt ''cell refcount underflow''))
     else if n = 1 then adjust_refs cr st False (cell_refs c) (insert h seen) (add_remove b (file_of ''cells'' (encode h)))
     else Inr (insert h seen, add_put b (file_of ''cells'' (encode h)) (encode_cell_record (n - 1) c)))"
  using assms decode_encode_cell_record [of c cr n]
  unfolding adjust_cell.simps [of cr st up h seen b] if_not_P [OF assms(1)] Let_def seen_value_def by simp

lemma cell_path_eq: "file_of ''cells'' (encode h) = file_of ''cells'' (encode h') \<longleftrightarrow> h = (h' :: hash32)"
proof -
  have "from_be (encode h) = h" "from_be (encode h') = h'" by simp_all
  then show ?thesis unfolding file_of_inj [OF families(1) families(1)] by metis
qed

text \<open>A root with one child, with their counts in a store.\<close>

definition counted :: "crypto \<Rightarrow> store \<Rightarrow> cell \<Rightarrow> cell \<Rightarrow> u64 option \<Rightarrow> u64 \<Rightarrow> bool" where
  "counted cr st p c n m \<longleftrightarrow>
     files st (file_of ''cells'' (encode (cell_hash cr p))) = map_option (\<lambda>n. encode_cell_record n p) n \<and>
     files st (file_of ''cells'' (encode (cell_hash cr c))) = Some (encode_cell_record m c)"

definition parent_child :: "crypto \<Rightarrow> cell \<Rightarrow> cell \<Rightarrow> bool" where
  "parent_child cr p c \<longleftrightarrow> cell_ok p \<and> cell_ok c \<and> cell_refs p = [cell_hash cr c] \<and> cell_refs c = [] \<and>
     cell_hash cr p \<noteq> cell_hash cr c"

lemma cells_batch_committed:
  assumes "cells_only empty_batch b"
  shows "commit_batch st (Inr b) = (\<lparr>files = committed b (files st), journal = None\<rparr>, Inr ())"
    "committed b f (file_of ''cells'' k) =
       (case map_of (rev (puts b)) (file_of ''cells'' k) of
          Some v \<Rightarrow> Some v
        | None \<Rightarrow> if file_of ''cells'' k \<in> set (removes b) then None else f (file_of ''cells'' k))"
proof -
  have "named p" if "\<exists>k. p = file_of ''cells'' k" for p using that by auto
  then have "batch_named b" using assms unfolding batch_named_def cells_only_def empty_batch_def by fastforce
  then show "commit_batch st (Inr b) = (\<lparr>files = committed b (files st), journal = None\<rparr>, Inr ())"
    "committed b f (file_of ''cells'' k) =
       (case map_of (rev (puts b)) (file_of ''cells'' k) of
          Some v \<Rightarrow> Some v
        | None \<Rightarrow> if file_of ''cells'' k \<in> set (removes b) then None else f (file_of ''cells'' k))"
    using batch_commits(1) committed_file families(1) by (simp_all add: commit_batch_def)
qed

lemma change_root_batch:
  assumes "adjust_cell cr st up root {} empty_batch = Inr (seen, b)"
  shows "change_root cr st root up = (\<lparr>files = committed b (files st), journal = None\<rparr>, Inr ())"
  using cells_batch_committed(1) [OF adjust_only(1) [OF assms]] by (simp add: change_root_def assms)

lemma retain_counts:
  assumes "parent_child cr p c" "counted cr st p c (Some n) m" "unat n < 2 ^ 64 - 1" "unat m < 2 ^ 64 - 1"
  shows "\<exists>st'. retain_cell_root cr st (cell_hash cr p) = (st', Inr ()) \<and> counted cr st' p c (Some (n + 1)) (m + 1)"
proof -
  let ?p = "file_of ''cells'' (encode (cell_hash cr p))" and ?c = "file_of ''cells'' (encode (cell_hash cr c))"
  let ?b = "add_put (add_put empty_batch ?p (encode_cell_record (n + 1) p)) ?c (encode_cell_record (m + 1) c)"
  have ne: "?p \<noteq> ?c" using assms(1) by (simp add: cell_path_eq parent_child_def)
  have "adjust_cell cr st True (cell_hash cr c) {cell_hash cr p} (add_put empty_batch ?p (encode_cell_record (n + 1) p)) =
      Inr ({cell_hash cr c, cell_hash cr p}, ?b)"
    using assms ne by (subst adjust_found [of _ _ _ _ m c])
      (auto simp: parent_child_def counted_def seen_value_def add_put_def empty_batch_def checked_add_def)
  then have "adjust_cell cr st True (cell_hash cr p) {} empty_batch = Inr ({cell_hash cr c, cell_hash cr p}, ?b)"
    using assms by (subst adjust_found [of _ _ _ _ n p])
      (auto simp: parent_child_def counted_def seen_value_def empty_batch_def checked_add_def)
  note run = change_root_batch [OF this] cells_batch_committed(2) [OF adjust_only(1) [OF this]]
  show ?thesis
    using ne by (simp add: retain_cell_root_def run(1) counted_def run(2)) (simp add: add_put_def empty_batch_def)
qed

text \<open>
  Retaining counts every descendant once, releasing only the root while others hold it: after a
  root with one child is retained twice and released twice its record is gone, and the child
  keeps a count of one that no release of the root can reach any more.
\<close>

lemma release_shared:
  assumes "parent_child cr p c" "counted cr st p c (Some n) m" "n \<noteq> 0" "n \<noteq> 1"
  shows "\<exists>st'. release_cell_root cr st (cell_hash cr p) = (st', Inr ()) \<and> counted cr st' p c (Some (n - 1)) m"
proof -
  let ?p = "file_of ''cells'' (encode (cell_hash cr p))" and ?c = "file_of ''cells'' (encode (cell_hash cr c))"
  have ne: "?p \<noteq> ?c" using assms(1) by (simp add: cell_path_eq parent_child_def)
  have "adjust_cell cr st False (cell_hash cr p) {} empty_batch =
      Inr ({cell_hash cr p}, add_put empty_batch ?p (encode_cell_record (n - 1) p))"
    using assms by (subst adjust_found [of _ _ _ _ n p]) (auto simp: parent_child_def counted_def seen_value_def empty_batch_def)
  note run = change_root_batch [OF this] cells_batch_committed(2) [OF adjust_only(1) [OF this]]
  show ?thesis
    using ne assms(2) by (simp add: release_cell_root_def run(1) counted_def run(2)) (simp add: add_put_def empty_batch_def)
qed

lemma release_last:
  assumes "parent_child cr p c" "counted cr st p c (Some 1) m" "m \<noteq> 0" "m \<noteq> 1"
  shows "\<exists>st'. release_cell_root cr st (cell_hash cr p) = (st', Inr ()) \<and> counted cr st' p c None (m - 1)"
proof -
  let ?p = "file_of ''cells'' (encode (cell_hash cr p))" and ?c = "file_of ''cells'' (encode (cell_hash cr c))"
  let ?b = "add_put (add_remove empty_batch ?p) ?c (encode_cell_record (m - 1) c)"
  have ne: "?p \<noteq> ?c" using assms(1) by (simp add: cell_path_eq parent_child_def)
  have "adjust_cell cr st False (cell_hash cr c) {cell_hash cr p} (add_remove empty_batch ?p) =
      Inr ({cell_hash cr c, cell_hash cr p}, ?b)"
    using assms ne by (subst adjust_found [of _ _ _ _ m c])
      (auto simp: parent_child_def counted_def seen_value_def add_remove_def empty_batch_def)
  then have "adjust_cell cr st False (cell_hash cr p) {} empty_batch = Inr ({cell_hash cr c, cell_hash cr p}, ?b)"
    using assms by (subst adjust_found [of _ _ _ _ 1 p])
      (auto simp: parent_child_def counted_def seen_value_def empty_batch_def)
  note run = change_root_batch [OF this] cells_batch_committed(2) [OF adjust_only(1) [OF this]]
  show ?thesis
    using ne by (simp add: release_cell_root_def run(1) counted_def run(2)) (simp add: add_put_def add_remove_def empty_batch_def)
qed

lemma release_leaks_children:
  assumes "parent_child cr p c" "counted cr st p c (Some 0) 0"
  shows "\<exists>s1 s2 s3 s4. retain_cell_root cr st (cell_hash cr p) = (s1, Inr ()) \<and> retain_cell_root cr s1 (cell_hash cr p) = (s2, Inr ()) \<and>
    release_cell_root cr s2 (cell_hash cr p) = (s3, Inr ()) \<and> release_cell_root cr s3 (cell_hash cr p) = (s4, Inr ()) \<and>
    counted cr s4 p c None 1"
proof -
  obtain s1 where s1: "retain_cell_root cr st (cell_hash cr p) = (s1, Inr ())" "counted cr s1 p c (Some 1) 1"
    using retain_counts [OF assms] by auto
  obtain s2 where s2: "retain_cell_root cr s1 (cell_hash cr p) = (s2, Inr ())" "counted cr s2 p c (Some 2) 2"
    using retain_counts [OF assms(1) s1(2)] by auto
  obtain s3 where s3: "release_cell_root cr s2 (cell_hash cr p) = (s3, Inr ())" "counted cr s3 p c (Some 1) 2"
    using release_shared [OF assms(1) s2(2)] by auto
  obtain s4 where "release_cell_root cr s3 (cell_hash cr p) = (s4, Inr ())" "counted cr s4 p c None 1"
    using release_last [OF assms(1) s3(2)] by auto
  with s1 s2 s3 show ?thesis by blast
qed

end
