(* ===== verification/Cell_Counts.thy ===== *)
theory Cell_Counts
  imports Storage_Commit "HOL-Library.Multiset"
begin

text \<open>
  The reference counts of the store keep what is in use. A root is in use from the moment it is retained,
  by a client or as the state of a shard, until it is released. The count of a cell is at least the
  number of roots in use that reach it, so an adjustment never removes a cell that one of them needs.
  The counts are not exact: what the lemma \<open>release_leaks_children\<close> shows is that they may stay too large.
\<close>

section \<open>Tables of counted cells\<close>

type_synonym cell_table = "hash32 \<Rightarrow> (u64 \<times> cell) option"

definition points :: "cell_table \<Rightarrow> (hash32 \<times> hash32) set" where
  "points T = {(h, r). \<exists>n c. T h = Some (n, c) \<and> r \<in> set (cell_refs c)}"

definition reaches :: "cell_table \<Rightarrow> hash32 \<Rightarrow> hash32 \<Rightarrow> bool" where
  "reaches T r x \<longleftrightarrow> (r, x) \<in> (points T)\<^sup>*"

definition users :: "cell_table \<Rightarrow> hash32 list \<Rightarrow> hash32 \<Rightarrow> nat" where
  "users T roots x = length (filter (\<lambda>r. reaches T r x) roots)"

definition covered :: "cell_table \<Rightarrow> hash32 list \<Rightarrow> bool" where
  "covered T roots \<longleftrightarrow> (\<forall>x. 0 < users T roots x \<longrightarrow> (\<exists>n c. T x = Some (n, c) \<and> users T roots x \<le> unat n))"

lemma coveredD:
  assumes "covered T roots" "r \<in> set roots" "reaches T r x"
  obtains n c where "T x = Some (n, c)" "users T roots x \<le> unat n"
proof -
  have "filter (\<lambda>r. reaches T r x) roots \<noteq> []" using assms(2,3) by (auto simp: filter_empty_conv)
  then have "0 < users T roots x" by (simp add: users_def)
  then show thesis using assms(1) that unfolding covered_def by blast
qed

lemma reaches_refl [simp]: "reaches T r r"
  by (simp add: reaches_def)

lemma reaches_mono: "points T \<subseteq> points T' \<Longrightarrow> reaches T r x \<Longrightarrow> reaches T' r x"
  unfolding reaches_def using rtrancl_mono by blast

lemma reaches_step: "T h = Some (n, c) \<Longrightarrow> r \<in> set (cell_refs c) \<Longrightarrow> reaches T r x \<Longrightarrow> reaches T h x"
  unfolding reaches_def points_def by (rule converse_rtrancl_into_rtrancl) auto

lemma users_mono: "points T \<subseteq> points T' \<Longrightarrow> users T roots x \<le> users T' roots x"
  unfolding users_def by (induction roots) (auto dest: reaches_mono)

lemma users_Cons: "users T (r # roots) x = (if reaches T r x then 1 else 0) + users T roots x"
  by (simp add: users_def)

lemma users_remove1: "r \<in> set roots \<Longrightarrow> users T roots x = (if reaches T r x then 1 else 0) + users T (remove1 r roots) x"
  by (induction roots) (auto simp: users_Cons)

subsection \<open>More cells\<close>

definition extended :: "cell_table \<Rightarrow> cell_table \<Rightarrow> bool" where
  "extended T T' \<longleftrightarrow> (\<forall>x. T x \<noteq> None \<longrightarrow> T' x = T x)"

lemma extended_reaches:
  assumes "covered T roots" "extended T T'" "r \<in> set roots" "reaches T' r x"
  shows "reaches T r x"
  using assms(4) unfolding reaches_def
proof (induction rule: rtrancl_induct)
  case (step y z)
  then have "T y \<noteq> None" using coveredD [OF assms(1,3)] unfolding reaches_def by (metis option.distinct(1))
  then have "(y, z) \<in> points T" using step.hyps(2) assms(2) by (simp add: points_def extended_def)
  then show ?case using step.IH by simp
qed simp

lemma covered_extended:
  assumes "covered T roots" "extended T T'"
  shows "covered T' roots"
  unfolding covered_def
proof (intro allI impI)
  fix x assume pos: "0 < users T' roots x"
  have "points T \<subseteq> points T'" using assms(2) by (auto simp: points_def extended_def)
  then have same: "users T' roots x = users T roots x"
    unfolding users_def
    by (intro arg_cong [of _ _ length] filter_cong refl) (use extended_reaches [OF assms] reaches_mono in blast)
  then obtain n c where "T x = Some (n, c)" "users T roots x \<le> unat n" using pos assms(1) unfolding covered_def by metis
  then show "\<exists>n c. T' x = Some (n, c) \<and> users T' roots x \<le> unat n" using assms(2) same by (auto simp: extended_def)
qed

subsection \<open>Retaining a root\<close>

text \<open>The cells of a set are counted once more.\<close>

definition raised :: "cell_table \<Rightarrow> cell_table \<Rightarrow> hash32 set \<Rightarrow> bool" where
  "raised T T' S \<longleftrightarrow> (\<forall>x. if x \<in> S then \<exists>n c. T x = Some (n, c) \<and> T' x = Some (n + 1, c) \<and> unat (n + 1) = unat n + 1
     else T' x = T x)"

definition closed_in :: "cell_table \<Rightarrow> hash32 set \<Rightarrow> hash32 set \<Rightarrow> bool" where
  "closed_in T S U \<longleftrightarrow> (\<forall>x \<in> S. \<forall>n c. T x = Some (n, c) \<longrightarrow> set (cell_refs c) \<subseteq> U)"

lemma raised_points: "raised T T' S \<Longrightarrow> points T' = points T"
proof -
  assume r: "raised T T' S"
  have "(\<exists>n. T' x = Some (n, c)) \<longleftrightarrow> (\<exists>n. T x = Some (n, c))" for x c
    using r [unfolded raised_def, rule_format, of x] by (auto split: if_splits)
  then show ?thesis unfolding points_def by blast
qed

lemma closed_reach:
  assumes "closed_in T S S" "r \<in> S" "reaches T r x"
  shows "x \<in> S"
  using assms(3,2) unfolding reaches_def
  by (induction rule: rtrancl_induct) (use assms(1) in \<open>auto simp: closed_in_def points_def\<close>)

lemma covered_raised:
  assumes "covered T roots" "raised T T' S" "closed_in T S S" "r \<in> S"
  shows "covered T' (r # roots)"
  unfolding covered_def
proof (intro allI impI)
  fix x assume pos: "0 < users T' (r # roots) x"
  have u: "users T' (r # roots) x = (if reaches T r x then 1 else 0) + users T roots x"
    unfolding users_Cons by (simp add: users_def reaches_def raised_points [OF assms(2)])
  show "\<exists>n c. T' x = Some (n, c) \<and> users T' (r # roots) x \<le> unat n"
  proof (cases "users T roots x = 0")
    case True
    then have "reaches T r x" using pos u by (simp split: if_splits)
    then have "x \<in> S" using closed_reach [OF assms(3,4)] by blast
    then obtain n c where "T' x = Some (n + 1, c)" "unat (n + 1) = unat n + 1"
      using assms(2) [unfolded raised_def, rule_format, of x] by auto
    then show ?thesis using u True by auto
  next
    case False
    then obtain n c where n: "T x = Some (n, c)" "users T roots x \<le> unat n" using assms(1) unfolding covered_def by blast
    then show ?thesis
      using assms(2) [unfolded raised_def, rule_format, of x] closed_reach [OF assms(3,4), of x] u
      by (cases "x \<in> S") (auto split: if_splits)
  qed
qed

subsection \<open>Releasing a root\<close>

text \<open>
  The cells of a set are counted once less, or are removed when they were counted once; a cell whose record is
  written in the same batch stays.
\<close>

definition lowered :: "cell_table \<Rightarrow> cell_table \<Rightarrow> hash32 set \<Rightarrow> bool" where
  "lowered T T' S \<longleftrightarrow> (\<forall>x. T' x = T x \<or> x \<in> S \<and> (\<exists>n c. T x = Some (n, c) \<and>
     (T' x = Some (n - 1, c) \<and> unat (n - 1) = unat n - 1 \<or> T' x = None \<and> unat n = 1)))"

lemma lowered_points: "lowered T T' S \<Longrightarrow> points T' \<subseteq> points T"
  unfolding points_def lowered_def by (auto, metis option.distinct(1) option.inject prod.inject)

lemma covered_lowered:
  assumes "covered T roots" "lowered T T' S" "r \<in> set roots" "\<forall>x \<in> S. reaches T r x"
  shows "covered T' (remove1 r roots)"
  unfolding covered_def
proof (intro allI impI)
  fix x assume pos: "0 < users T' (remove1 r roots) x"
  have le: "users T' (remove1 r roots) x \<le> users T (remove1 r roots) x"
    by (rule users_mono [OF lowered_points [OF assms(2)]])
  have u: "users T roots x = (if reaches T r x then 1 else 0) + users T (remove1 r roots) x"
    by (rule users_remove1 [OF assms(3)])
  then obtain n c where n: "T x = Some (n, c)" "users T roots x \<le> unat n"
    using pos le assms(1) unfolding covered_def by (metis add_gr_0 less_le_trans)
  show "\<exists>n c. T' x = Some (n, c) \<and> users T' (remove1 r roots) x \<le> unat n"
    using assms(2) [unfolded lowered_def, rule_format, of x] assms(4) n u le pos by (auto split: if_splits)
qed

section \<open>Adjustments of a batch\<close>

text \<open>What a commit of the batch leaves under a path, and the table of cells it leaves.\<close>

definition batch_value :: "store \<Rightarrow> batch \<Rightarrow> string \<Rightarrow> bytes option" where
  "batch_value st b p =
     (case map_of (rev (puts b)) p of Some v \<Rightarrow> Some v | None \<Rightarrow> if p \<in> set (removes b) then None else files st p)"

definition cell_at :: "crypto \<Rightarrow> hash32 \<Rightarrow> bytes option \<Rightarrow> (u64 \<times> cell) option" where
  "cell_at cr h m = (case m of None \<Rightarrow> None | Some v \<Rightarrow> (case decode_cell_record cr h v of Inl _ \<Rightarrow> None | Inr x \<Rightarrow> Some x))"

definition table :: "crypto \<Rightarrow> store \<Rightarrow> batch \<Rightarrow> cell_table" where
  "table cr st b h = cell_at cr h (batch_value st b (file_of ''cells'' (encode h)))"

definition cells_kept :: "batch \<Rightarrow> hash32 set \<Rightarrow> bool" where
  "cells_kept b S \<longleftrightarrow> (\<forall>x \<in> S. file_of ''cells'' (encode x) \<notin> set (removes b))"

lemma decoded_record: "decode_cell_record cr h v = Inr (n, c) \<Longrightarrow> cell_ok c \<and> cell_hash cr c = h"
  by (auto simp: decode_cell_record_def bindR_Inr map_err_Inr cell_from_bytes_Inr(1) split: if_splits prod.splits)

lemma table_put:
  "cell_ok c \<Longrightarrow> cell_hash cr c = h \<Longrightarrow>
     table cr st (add_put b (file_of ''cells'' (encode h)) (encode_cell_record n c)) = (table cr st b)(h := Some (n, c))"
  using decode_encode_cell_record [of c cr n]
  by (auto simp: table_def batch_value_def add_put_def cell_path_eq cell_at_def)

lemma table_remove:
  "table cr st (add_remove b (file_of ''cells'' (encode h))) =
     (if map_of (rev (puts b)) (file_of ''cells'' (encode h)) = None then (table cr st b)(h := None) else table cr st b)"
  by (auto simp: table_def batch_value_def add_remove_def cell_path_eq cell_at_def split: option.split)

lemma seen_in_table:
  assumes "(case map_of (rev (puts b)) (file_of ''cells'' (encode h)) of Some v \<Rightarrow> Some v
        | None \<Rightarrow> files st (file_of ''cells'' (encode h))) = Some v"
    and "decode_cell_record cr h v = Inr (n, c)" "cells_kept b S" "h \<in> S"
  shows "table cr st b h = Some (n, c)"
  using assms by (auto simp: table_def batch_value_def cell_at_def cells_kept_def split: option.splits)

subsection \<open>Upwards\<close>

lemma raised_insert:
  "T h = Some (n, c) \<Longrightarrow> unat (n + 1) = unat n + 1 \<Longrightarrow> raised (T(h := Some (n + 1, c))) T' S \<Longrightarrow> h \<notin> S \<Longrightarrow> raised T T' (insert h S)"
  unfolding raised_def by (metis fun_upd_apply insert_iff)

lemma raised_trans:
  assumes "raised T T1 S1" "raised T1 T2 S2" "S1 \<inter> S2 = {}"
  shows "raised T T2 (S1 \<union> S2)"
  unfolding raised_def
proof
  fix x
  show "if x \<in> S1 \<union> S2 then \<exists>n c. T x = Some (n, c) \<and> T2 x = Some (n + 1, c) \<and> unat (n + 1) = unat n + 1 else T2 x = T x"
    using assms(1,2) [unfolded raised_def, rule_format, of x] assms(3) by (cases "x \<in> S1"; cases "x \<in> S2") auto
qed

lemma closed_insert:
  "T h = Some (n, c) \<Longrightarrow> closed_in (T(h := Some (n', c))) S U \<Longrightarrow> set (cell_refs c) \<subseteq> U \<Longrightarrow> closed_in T (insert h S) U"
  unfolding closed_in_def by (metis fun_upd_apply insert_iff option.inject prod.inject)

lemma closed_trans:
  assumes "closed_in T S1 U1" "U1 \<subseteq> U" "raised T T1 S1" "closed_in T1 S2 U"
  shows "closed_in T (S1 \<union> S2) U"
proof -
  have "set (cell_refs c) \<subseteq> U" if "x \<in> S2" "T x = Some (n, c)" for x n c
  proof -
    have "\<exists>n'. T1 x = Some (n', c)" using assms(3) [unfolded raised_def, rule_format, of x] that(2) by (auto split: if_splits)
    then show ?thesis using assms(4) that(1) unfolding closed_in_def by blast
  qed
  then show ?thesis using assms(1,2) unfolding closed_in_def by blast
qed

definition up_to :: "crypto \<Rightarrow> store \<Rightarrow> batch \<Rightarrow> hash32 set \<Rightarrow> batch \<Rightarrow> hash32 set \<Rightarrow> bool" where
  "up_to cr st b seen b' seen' \<longleftrightarrow> removes b' = removes b \<and> seen \<subseteq> seen' \<and>
     raised (table cr st b) (table cr st b') (seen' - seen) \<and> closed_in (table cr st b) (seen' - seen) seen'"

lemma up_to_refl: "up_to cr st b seen b seen"
  by (simp add: up_to_def raised_def closed_in_def)

lemma up_to_trans:
  assumes "up_to cr st b s b1 s1" "up_to cr st b1 s1 b2 s2"
  shows "up_to cr st b s b2 s2"
proof -
  note u = assms [unfolded up_to_def]
  have S: "s2 - s = (s1 - s) \<union> (s2 - s1)" "(s1 - s) \<inter> (s2 - s1) = {}" using u by auto
  have "raised (table cr st b) (table cr st b2) (s2 - s)" unfolding S(1) using raised_trans S(2) u by blast
  moreover have "closed_in (table cr st b) (s2 - s) s2" unfolding S(1) using closed_trans u by blast
  ultimately show ?thesis using u by (auto simp: up_to_def)
qed

lemma adjust_raises:
  "adjust_cell cr st up h seen b = Inr (seen', b') \<Longrightarrow> up \<Longrightarrow> cells_kept b UNIV \<Longrightarrow> up_to cr st b seen b' seen' \<and> h \<in> seen'"
  "adjust_refs cr st up rs seen b = Inr (seen', b') \<Longrightarrow> up \<Longrightarrow> cells_kept b UNIV \<Longrightarrow> up_to cr st b seen b' seen' \<and> set rs \<subseteq> seen'"
proof (induction cr st up h seen b and cr st up rs seen b arbitrary: seen' b' and seen' b' rule: adjust_cell_adjust_refs.induct)
  case (1 cr st up h seen b)
  from "1.prems"(1) show ?case
  proof (cases rule: adjust_cell_cases)
    case (retained v n c n')
    let ?b = "add_put b (file_of ''cells'' (encode h)) (encode_cell_record n' c)"
    have n': "n' = n + 1" "unat (n + 1) = unat n + 1" using retained(5) unat_add_no_overflow [of n 1] by (auto simp: checked_add_Some)
    have T: "table cr st b h = Some (n, c)" by (rule seen_in_table [OF retained(3,4) "1.prems"(3)]) simp
    have c: "cell_ok c" "cell_hash cr c = h" using decoded_record [OF retained(4)] by simp_all
    have "cells_kept ?b UNIV" using "1.prems"(3) by (simp add: cells_kept_def add_put_def)
    then have IH: "up_to cr st ?b (insert h seen) b' seen'" "set (cell_refs c) \<subseteq> seen'"
      using "1.IH"(1) [OF retained(1) refl _ retained(4) refl retained(2) _ retained(6)] retained(3,5) by (simp_all add: ok_or_Inr)
    have S: "seen' - seen = insert h (seen' - insert h seen)" using IH(1) retained(1) by (auto simp: up_to_def)
    have "raised (table cr st b) (table cr st b') (seen' - seen)" "closed_in (table cr st b) (seen' - seen) seen'"
      using IH raised_insert [where T = "table cr st b", OF T n'(2)] closed_insert [where T = "table cr st b", OF T]
      unfolding S up_to_def table_put [OF c] n'(1) by auto
    then show ?thesis using IH(1) by (auto simp: up_to_def add_put_def)
  qed (use "1.prems"(2) in \<open>auto simp: up_to_refl\<close>)
next
  case (3 cr st up r rs seen b)
  then obtain seen1 b1 where one: "adjust_cell cr st up r seen b = Inr (seen1, b1)"
    and rest: "adjust_refs cr st up rs seen1 b1 = Inr (seen', b')" by (auto simp: bindR_Inr)
  have u1: "up_to cr st b seen b1 seen1" "r \<in> seen1" using "3.IH"(1) [OF one "3.prems"(2,3)] by simp_all
  then have "cells_kept b1 UNIV" using "3.prems"(3) by (simp add: cells_kept_def up_to_def)
  then have u2: "up_to cr st b1 seen1 b' seen'" "set rs \<subseteq> seen'" using "3.IH"(2) [OF one refl rest "3.prems"(2)] by simp_all
  then show ?case using up_to_trans [OF u1(1) u2(1)] u1(2) by (auto simp: up_to_def)
qed (auto simp: up_to_refl)

subsection \<open>Downwards\<close>

lemma lowered_refl [simp]: "lowered T T S"
  by (simp add: lowered_def)

lemma lowered_insert:
  assumes "T h = Some (1, c)" "T1 = T \<or> T1 = T(h := None)" "lowered T1 T' S" "h \<notin> S"
  shows "lowered T T' (insert h S)"
  unfolding lowered_def
proof
  fix x
  show "T' x = T x \<or> x \<in> insert h S \<and> (\<exists>n c. T x = Some (n, c) \<and>
     (T' x = Some (n - 1, c) \<and> unat (n - 1) = unat n - 1 \<or> T' x = None \<and> unat n = 1))"
    using assms(3) [unfolded lowered_def, rule_format, of x] assms(1,2,4) by (cases "x = h") auto
qed

lemma lowered_trans:
  assumes "lowered T T1 S1" "lowered T1 T2 S2" "S1 \<inter> S2 = {}"
  shows "lowered T T2 (S1 \<union> S2)"
  unfolding lowered_def
proof
  fix x
  show "T2 x = T x \<or> x \<in> S1 \<union> S2 \<and> (\<exists>n c. T x = Some (n, c) \<and>
     (T2 x = Some (n - 1, c) \<and> unat (n - 1) = unat n - 1 \<or> T2 x = None \<and> unat n = 1))"
    using assms(1,2) [unfolded lowered_def, rule_format, of x] assms(3) by (cases "x \<in> S1"; cases "x \<in> S2") auto
qed

definition down_to :: "crypto \<Rightarrow> store \<Rightarrow> batch \<Rightarrow> hash32 set \<Rightarrow> batch \<Rightarrow> hash32 set \<Rightarrow> bool" where
  "down_to cr st b seen b' seen' \<longleftrightarrow> seen \<subseteq> seen' \<and> cells_kept b' (- seen') \<and>
     lowered (table cr st b) (table cr st b') (seen' - seen)"

lemma down_to_trans:
  assumes "down_to cr st b s b1 s1" "down_to cr st b1 s1 b2 s2"
  shows "down_to cr st b s b2 s2"
proof -
  note d = assms [unfolded down_to_def]
  have S: "s2 - s = (s1 - s) \<union> (s2 - s1)" "(s1 - s) \<inter> (s2 - s1) = {}" using d by auto
  have "lowered (table cr st b) (table cr st b2) (s2 - s)" unfolding S(1) using lowered_trans S(2) d by blast
  then show ?thesis using d by (auto simp: down_to_def)
qed

lemma adjust_lowers:
  "adjust_cell cr st up h seen b = Inr (seen', b') \<Longrightarrow> \<not> up \<Longrightarrow> cells_kept b (- seen) \<Longrightarrow>
     down_to cr st b seen b' seen' \<and> (\<forall>x \<in> seen' - seen. reaches (table cr st b) h x)"
  "adjust_refs cr st up rs seen b = Inr (seen', b') \<Longrightarrow> \<not> up \<Longrightarrow> cells_kept b (- seen) \<Longrightarrow>
     down_to cr st b seen b' seen' \<and> (\<forall>x \<in> seen' - seen. \<exists>r \<in> set rs. reaches (table cr st b) r x)"
proof (induction cr st up h seen b and cr st up rs seen b arbitrary: seen' b' and seen' b' rule: adjust_cell_adjust_refs.induct)
  case (1 cr st up h seen b)
  from "1.prems"(1) show ?case
  proof (cases rule: adjust_cell_cases)
    case (removed v c)
    let ?b = "add_remove b (file_of ''cells'' (encode h))"
    have T: "table cr st b h = Some (1, c)" by (rule seen_in_table [OF removed(3,4) "1.prems"(3)]) (simp add: removed(1))
    have T1: "table cr st ?b = table cr st b \<or> table cr st ?b = (table cr st b)(h := None)" by (simp add: table_remove)
    have "cells_kept ?b (- insert h seen)" using "1.prems"(3) by (auto simp: cells_kept_def add_remove_def cell_path_eq)
    then have IH: "down_to cr st ?b (insert h seen) b' seen'"
      "\<forall>x \<in> seen' - insert h seen. \<exists>r \<in> set (cell_refs c). reaches (table cr st ?b) r x"
      using "1.IH"(2) [OF removed(1) refl _ removed(4) refl removed(2) _ refl removed(5)] removed(3) by (simp_all add: ok_or_Inr)
    have S: "seen' - seen = insert h (seen' - insert h seen)" using IH(1) removed(1) by (auto simp: down_to_def)
    have "points (table cr st ?b) \<subseteq> points (table cr st b)" using T1 by (auto simp: points_def split: if_splits)
    then have "\<forall>x \<in> seen' - insert h seen. reaches (table cr st b) h x"
      using IH(2) reaches_step [where T = "table cr st b", OF T] reaches_mono by blast
    moreover have "lowered (table cr st b) (table cr st b') (seen' - seen)"
      unfolding S by (rule lowered_insert [where T = "table cr st b", OF T T1]) (use IH(1) in \<open>auto simp: down_to_def\<close>)
    ultimately show ?thesis using IH(1) S by (auto simp: down_to_def)
  next
    case (released v n c)
    have T: "table cr st b h = Some (n, c)" by (rule seen_in_table [OF released(3,4) "1.prems"(3)]) (simp add: released(1))
    have c: "cell_ok c" "cell_hash cr c = h" using decoded_record [OF released(4)] by simp_all
    have n: "unat (n - 1) = unat n - 1" using released(5) by (simp add: unat_minus_one)
    have "lowered (table cr st b) (table cr st b') {h}"
      unfolding released(8) table_put [OF c] using T n by (simp add: lowered_def)
    moreover have "seen' - seen = {h}" "seen \<subseteq> seen'" using released(1,7) by auto
    moreover have "cells_kept b' (- seen')" using "1.prems"(3) released(7,8) by (auto simp: cells_kept_def add_put_def)
    ultimately show ?thesis by (simp add: down_to_def)
  qed (use "1.prems" in \<open>auto simp: down_to_def\<close>)
next
  case (3 cr st up r rs seen b)
  then obtain seen1 b1 where one: "adjust_cell cr st up r seen b = Inr (seen1, b1)"
    and rest: "adjust_refs cr st up rs seen1 b1 = Inr (seen', b')" by (auto simp: bindR_Inr)
  have d1: "down_to cr st b seen b1 seen1" "\<forall>x \<in> seen1 - seen. reaches (table cr st b) r x"
    using "3.IH"(1) [OF one "3.prems"(2,3)] by simp_all
  then have "cells_kept b1 (- seen1)" by (simp add: down_to_def)
  then have d2: "down_to cr st b1 seen1 b' seen'" "\<forall>x \<in> seen' - seen1. \<exists>r \<in> set rs. reaches (table cr st b1) r x"
    using "3.IH"(2) [OF one refl rest "3.prems"(2)] by simp_all
  have "points (table cr st b1) \<subseteq> points (table cr st b)" using d1(1) lowered_points by (auto simp: down_to_def)
  then have "\<forall>x \<in> seen' - seen1. \<exists>r \<in> set rs. reaches (table cr st b) r x" using d2(2) reaches_mono by blast
  then show ?case using down_to_trans [OF d1(1) d2(1)] d1(2) by auto
qed (auto simp: down_to_def)

section \<open>The operations of the store\<close>

text \<open>A committed batch leaves the table of the batch, and other families as they were.\<close>

abbreviation stored :: "crypto \<Rightarrow> store \<Rightarrow> cell_table" where
  "stored cr st \<equiv> table cr st empty_batch"

lemma committed_table:
  "batch_named b \<Longrightarrow> table cr \<lparr>files = committed b (files st), journal = None\<rparr> empty_batch = table cr st b"
  by (intro ext) (simp add: table_def batch_value_def committed_file empty_batch_def)

lemma cells_batch:
  assumes "cells_only empty_batch b"
  shows "batch_named b"
    and "cf \<in> set COLUMN_FAMILIES \<Longrightarrow> cf \<noteq> ''cells'' \<Longrightarrow> committed b f (file_of cf k) = f (file_of cf k)"
proof -
  obtain ps rs where b: "puts b = ps" "removes b = rs" "\<forall>(p, v) \<in> set ps. \<exists>k. p = file_of ''cells'' k"
    "\<forall>p \<in> set rs. \<exists>k. p = file_of ''cells'' k"
    using assms unfolding cells_only_def empty_batch_def by auto
  have "named p" if "\<exists>k. p = file_of ''cells'' k" for p using that by auto
  then show named: "batch_named b" using b unfolding batch_named_def by fastforce
  assume cf: "cf \<in> set COLUMN_FAMILIES" "cf \<noteq> ''cells''"
  then have "foreign cf (puts b)" using b(3) cf(2) families(1) unfolding foreign_def b(1) by blast
  moreover have "file_of cf k \<notin> set (removes b)" using b(2,4) cf by (auto simp: file_of_inj)
  ultimately show "committed b f (file_of cf k) = f (file_of cf k)"
    by (simp add: committed_file [OF named cf(1)] foreign_None [OF _ cf(1)])
qed

subsection \<open>New cells\<close>

definition fresh :: "store \<Rightarrow> batch \<Rightarrow> bool" where
  "fresh st b \<longleftrightarrow> removes b = [] \<and> (\<forall>(p, v) \<in> set (puts b). files st p = None)"

lemma fresh_empty [simp]: "fresh st empty_batch"
  by (simp add: fresh_def empty_batch_def)

lemma put_cells_fresh: "put_cells cr st cs b = Inr b' \<Longrightarrow> fresh st b \<Longrightarrow> fresh st b'"
proof (induction cs arbitrary: b)
  case (Cons c cs)
  show ?case
  proof (cases "read_file st ''cells'' (encode (cell_hash cr c))")
    case None
    then have "fresh st (add_put b (file_of ''cells'' (encode (cell_hash cr c))) (encode_cell_record 0 c))"
      using Cons.prems(2) by (auto simp: fresh_def add_put_def read_file_def)
    then show ?thesis using Cons.IH Cons.prems(1) None by simp
  qed (use Cons in \<open>auto simp: Let_def bindR_Inr split: if_splits\<close>)
qed simp

lemma put_bocs_fresh: "put_bocs cr st order bocs b = Inr b' \<Longrightarrow> fresh st b \<Longrightarrow> fresh st b'"
  by (induction bocs arbitrary: b) (auto simp: bindR_Inr dest: put_cells_fresh)

lemma fresh_extended: "fresh st b \<Longrightarrow> extended (stored cr st) (table cr st b) \<and> cells_kept b UNIV"
proof -
  assume f: "fresh st b"
  have "map_of (rev (puts b)) p = None" if "files st p \<noteq> None" for p
    using f that by (fastforce simp: fresh_def map_of_eq_None_iff)
  then have present: "batch_value st b p = files st p" if "files st p \<noteq> None" for p
    using that f by (simp add: batch_value_def fresh_def)
  have old: "batch_value st empty_batch p = files st p" for p by (simp add: batch_value_def empty_batch_def)
  have "table cr st b x = stored cr st x" if "stored cr st x \<noteq> None" for x
  proof -
    have "files st (file_of ''cells'' (encode x)) \<noteq> None" using that by (auto simp: table_def old cell_at_def split: option.splits)
    from present [OF this] show ?thesis by (simp only: table_def old)
  qed
  then show ?thesis using f by (simp add: extended_def cells_kept_def fresh_def)
qed

text \<open>Files of the other families do not change the table.\<close>

lemma table_other:
  assumes "cf \<in> set COLUMN_FAMILIES" "cf \<noteq> ''cells''"
  shows "table cr st (add_put b (file_of cf k) v) = table cr st b"
  using assms by (intro ext) (simp add: table_def batch_value_def add_put_def file_of_inj)

lemma table_accounts: "table cr st (replace_accounts s old new b) = table cr st b"
proof
  fix x :: hash32
  let ?p = "file_of ''cells'' (encode x)"
  let ?ap = "map (\<lambda>(a, x). (file_of ''accounts'' (account_key s a), account_to_bytes x)) (accounts new)"
  have "map_of (rev ?ap) ?p = None" by (auto simp: map_of_eq_None_iff file_of_inj)
  moreover have "?p \<notin> set (map (\<lambda>(a, _). file_of ''accounts'' (account_key s a)) (accounts old))" by (auto simp: file_of_inj)
  ultimately show "table cr st (replace_accounts s old new b) x = table cr st b x"
    by (simp add: table_def batch_value_def replace_accounts_def map_add_def)
qed

lemma kept_accounts: "cells_kept b S \<Longrightarrow> cells_kept (replace_accounts s old new b) S"
  by (auto simp: cells_kept_def replace_accounts_def file_of_inj)

subsection \<open>Each operation\<close>

lemma retain_covers:
  assumes "adjust_cell cr st True h {} b = Inr (seen, b')" "covered (table cr st b) roots" "cells_kept b UNIV"
  shows "covered (table cr st b') (h # roots)" "cells_kept b' UNIV"
proof -
  have u: "up_to cr st b {} b' seen" "h \<in> seen" using adjust_raises(1) [OF assms(1) _ assms(3)] by simp_all
  then show "covered (table cr st b') (h # roots)"
    by (intro covered_raised [OF assms(2)]) (auto simp: up_to_def)
  show "cells_kept b' UNIV" using u(1) assms(3) by (simp add: cells_kept_def up_to_def)
qed

lemma release_covers:
  assumes "adjust_cell cr st False h {} b = Inr (seen, b')" "covered (table cr st b) roots" "cells_kept b UNIV" "h \<in> set roots"
  shows "covered (table cr st b') (remove1 h roots)"
  using adjust_lowers(1) [OF assms(1)] assms(2-4) covered_lowered by (fastforce simp: down_to_def)

lemma covered_mset: "mset roots = mset roots' \<Longrightarrow> covered T roots \<longleftrightarrow> covered T roots'"
proof -
  assume "mset roots = mset roots'"
  then have "users T roots x = users T roots' x" for x unfolding users_def by (metis mset_filter size_mset)
  then show ?thesis by (simp add: covered_def)
qed

lemma change_root_committed:
  assumes "change_root cr st h up = (st', r)"
  shows "case r of Inl _ \<Rightarrow> st' = st
    | Inr _ \<Rightarrow> \<exists>seen b. adjust_cell cr st up h {} empty_batch = Inr (seen, b) \<and> cells_only empty_batch b \<and>
        st' = \<lparr>files = committed b (files st), journal = None\<rparr>"
proof (cases "adjust_cell cr st up h {} empty_batch")
  case (Inr p)
  obtain seen b where p: "p = (seen, b)" by fastforce
  show ?thesis
    using assms change_root_batch [OF Inr [unfolded p]] adjust_only(1) [OF Inr [unfolded p]] by (auto simp: Inr p)
qed (use assms in \<open>auto simp: change_root_def commit_batch_def\<close>)

lemma put_cells_committed:
  assumes "commit_batch st (put_cells cr st cs empty_batch) = (st', r)"
  shows "case r of Inl _ \<Rightarrow> st' = st
    | Inr _ \<Rightarrow> \<exists>b. cells_only empty_batch b \<and> fresh st b \<and> st' = \<lparr>files = committed b (files st), journal = None\<rparr>"
proof (cases "put_cells cr st cs empty_batch")
  case (Inr b)
  note only = put_cells_only [OF Inr]
  show ?thesis
    using assms cells_batch_committed(1) [OF only, of st] only put_cells_fresh [OF Inr fresh_empty] by (auto simp: Inr)
qed (use assms in \<open>auto simp: commit_batch_def\<close>)

text \<open>The cells of a block: new ones are added, its root is retained and the root before is released.\<close>

lemma block_covers:
  assumes "commit_block_batch cr st order entries c = Inr b" "covered (stored cr st) roots"
    and "shard_state_root st (shard (bc_header c)) = Inr old" "\<forall>r. old = Some r \<longrightarrow> r \<in> set roots"
  shows "covered (table cr st b)
    (case old of None \<Rightarrow> state_root_hash (bc_header c) # roots | Some r \<Rightarrow> remove1 r (state_root_hash (bc_header c) # roots))"
proof -
  let ?s = "shard (bc_header c)" and ?root = "state_root_hash (bc_header c)"
  have root: "tree_state_root_hash cr (bc_state c) = ?root"
    using assms(1) by (auto simp: commit_block_batch_def Let_def split: if_splits)
  obtain p b1 b2 olds seen b3 b4 where
    proof': "generate_proof cr (bc_state c) 0 = Inr p"
    and puts: "put_bocs cr st order (bc_cell_bocs c) empty_batch = Inr b1" "put_cells cr st (order (proof_boc p)) b1 = Inr b2"
    and up: "adjust_cell cr st True (proof_root_hash p) {} (replace_accounts ?s olds (bc_state c) b2) = Inr (seen, b3)"
    and down: "(case old of None \<Rightarrow> Inr b3
       | Some root \<Rightarrow> bindR (adjust_cell cr st False root {} b3) (\<lambda>(_, b). Inr b)) = Inr b4"
    and b: "b = add_put (add_put b4 (file_of ''block_headers'' (encode (header_hash cr (bc_header c)))) (header_to_bytes (bc_header c)))
       (file_of ''shard_states'' (shard_to_bytes ?s)) (encode ?root)"
    using assms(1,3) root by (auto simp: commit_block_batch_def Let_def bindR_Inr)
  have p: "proof_root_hash p = ?root" using generate_proof_verifies [OF proof'] root by simp
  have "fresh st b2" using puts put_bocs_fresh put_cells_fresh fresh_empty by blast
  then have b2: "covered (table cr st b2) roots" "cells_kept b2 UNIV"
    using fresh_extended covered_extended [OF assms(2)] by blast+
  note b3 = retain_covers [OF up [unfolded p] _ kept_accounts [OF b2(2)], unfolded table_accounts, OF b2(1)]
  have b4: "covered (table cr st b4) (case old of None \<Rightarrow> ?root # roots | Some r \<Rightarrow> remove1 r (?root # roots))"
  proof (cases old)
    case (Some r)
    then obtain seen' where "adjust_cell cr st False r {} b3 = Inr (seen', b4)" using down by (auto simp: bindR_Inr)
    from release_covers [OF this b3] show ?thesis using assms(4) Some by simp
  qed (use down b3 in simp)
  then show ?thesis unfolding b by (simp add: table_other)
qed

section \<open>Stores in use\<close>

text \<open>
  A store, from its creation on, with the roots its clients have retained and not released yet, and
  the root of each shard that has committed a block. Clients release only roots they hold; the listing
  of a directory is the one the store has; an operation that fails changes nothing in what is held.
\<close>

inductive store_use :: "crypto \<Rightarrow> store \<Rightarrow> hash32 list \<Rightarrow> (shard_ident \<times> hash32) list \<Rightarrow> bool" for cr where
  created: "store_use cr empty_store [] []"
| cell_put: "store_use cr st held tips \<Longrightarrow> put_cell cr st c = (st', r) \<Longrightarrow> store_use cr st' held tips"
| boc_put: "store_use cr st held tips \<Longrightarrow> put_boc cr st order boc = (st', r) \<Longrightarrow> store_use cr st' held tips"
| retained: "store_use cr st held tips \<Longrightarrow> retain_cell_root cr st h = (st', r) \<Longrightarrow>
    store_use cr st' (if is_ok r then h # held else held) tips"
| released: "store_use cr st held tips \<Longrightarrow> h \<in> set held \<Longrightarrow> release_cell_root cr st h = (st', r) \<Longrightarrow>
    store_use cr st' (if is_ok r then remove1 h held else held) tips"
| block: "store_use cr st held tips \<Longrightarrow> listing st entries \<Longrightarrow> bt_inv (accounts (bc_state c)) \<Longrightarrow>
    commit_block cr st order entries c = (st', r) \<Longrightarrow>
    store_use cr st' held
      (if is_ok r then (shard (bc_header c), state_root_hash (bc_header c)) # filter (\<lambda>(s, _). s \<noteq> shard (bc_header c)) tips
       else tips)"

definition use_ok :: "crypto \<Rightarrow> store \<Rightarrow> hash32 list \<Rightarrow> (shard_ident \<times> hash32) list \<Rightarrow> bool" where
  "use_ok cr st held tips \<longleftrightarrow> covered (stored cr st) (held @ map snd tips) \<and> distinct (map fst tips) \<and>
     (\<forall>s. shard_state_root st s = Inr (map_of tips s)) \<and> store_ok st"

lemma cells_batch_use:
  assumes "use_ok cr st held tips" "cells_only empty_batch b" "covered (table cr st b) (held' @ map snd tips)"
  shows "use_ok cr \<lparr>files = committed b (files st), journal = None\<rparr> held' tips"
proof -
  note named = cells_batch(1) [OF assms(2)]
  have "shard_state_root \<lparr>files = committed b (files st), journal = None\<rparr> s = shard_state_root st s" for s
    by (simp add: shard_state_root_def read_file_def cells_batch(2) [OF assms(2)])
  moreover have "store_ok \<lparr>files = committed b (files st), journal = None\<rparr>"
    using batch_commits [OF named] assms(1) by (simp add: use_ok_def)
  ultimately show ?thesis using assms(1,3) by (simp add: use_ok_def committed_table [OF named])
qed

lemma put_use:
  assumes "use_ok cr st held tips" "commit_batch st (put_cells cr st cs empty_batch) = (st', r)"
  shows "use_ok cr st' held tips"
proof (cases r)
  case (Inr x)
  then obtain b where b: "cells_only empty_batch b" "fresh st b" "st' = \<lparr>files = committed b (files st), journal = None\<rparr>"
    using put_cells_committed [OF assms(2)] by auto
  have "covered (table cr st b) (held @ map snd tips)"
    using covered_extended fresh_extended [OF b(2)] assms(1) by (auto simp: use_ok_def)
  then show ?thesis using cells_batch_use [OF assms(1) b(1)] b(3) by simp
qed (use put_cells_committed [OF assms(2)] assms(1) in simp)

lemma root_use:
  assumes "use_ok cr st held tips" "change_root cr st h up = (st', r)" "\<not> up \<longrightarrow> h \<in> set held"
  shows "use_ok cr st' (if is_ok r then if up then h # held else remove1 h held else held) tips"
proof (cases r)
  case (Inr x)
  then obtain seen b where b: "adjust_cell cr st up h {} empty_batch = Inr (seen, b)" "cells_only empty_batch b"
    "st' = \<lparr>files = committed b (files st), journal = None\<rparr>"
    using change_root_committed [OF assms(2)] by auto
  have cov: "covered (stored cr st) (held @ map snd tips)" "cells_kept empty_batch UNIV"
    using assms(1) by (simp_all add: use_ok_def cells_kept_def empty_batch_def)
  have "covered (table cr st b) ((if up then h # held else remove1 h held) @ map snd tips)"
  proof (cases up)
    case True
    then show ?thesis using retain_covers(1) [OF _ cov] b(1) by simp
  next
    case False
    then show ?thesis using release_covers [OF _ cov, of h seen b] b(1) assms(3) by (simp add: remove1_append)
  qed
  then show ?thesis using cells_batch_use [OF assms(1) b(2)] b(3) Inr by (simp add: is_ok_def)
qed (use change_root_committed [OF assms(2)] assms(1) in \<open>simp add: is_ok_def\<close>)

text \<open>The root of a shard takes the place of the one before.\<close>

lemma tips_split:
  "distinct (map fst tips) \<Longrightarrow> mset (map snd tips) =
     (case map_of tips s of None \<Rightarrow> {#} | Some r \<Rightarrow> {#r#}) + mset (map snd (filter (\<lambda>(s', _). s' \<noteq> s) tips))"
proof (induction tips)
  case (Cons t tips)
  obtain s' r where t: "t = (s', r)" by fastforce
  have "map_of tips s = None" if "s' = s" using Cons.prems that by (auto simp: t map_of_eq_None_iff)
  then show ?case using Cons by (auto simp: t)
qed simp

lemma tips_lookup: "map_of (filter (\<lambda>(s', _). s' \<noteq> s) tips) s'' = (if s'' = s then None else map_of tips s'')"
  by (induction tips) auto

lemma tip_replaced:
  assumes "distinct (map fst tips)"
  shows "mset (case map_of tips s of None \<Rightarrow> x # held @ map snd tips | Some r \<Rightarrow> remove1 r (x # held @ map snd tips)) =
    mset (held @ map snd ((s, x) # filter (\<lambda>(s', _). s' \<noteq> s) tips))"
  using tips_split [OF assms, of s] by (cases "map_of tips s") simp_all

lemma block_use:
  assumes "use_ok cr st held tips" "listing st entries" "bt_inv (accounts (bc_state c))"
    and run: "commit_block cr st order entries c = (st', Inr ())"
  shows "use_ok cr st' held ((shard (bc_header c), state_root_hash (bc_header c)) # filter (\<lambda>(s, _). s \<noteq> shard (bc_header c)) tips)"
    (is "use_ok cr st' held ?tips")
proof -
  let ?s = "shard (bc_header c)" and ?root = "state_root_hash (bc_header c)"
  note inv = assms(1) [unfolded use_ok_def]
  have ok: "store_ok st" using inv by simp
  obtain b where b: "commit_block_batch cr st order entries c = Inr b" "batch_named b"
    "st' = \<lparr>files = committed b (files st), journal = None\<rparr>"
    and roots: "\<forall>key. read_file st' ''shard_states'' key =
      (if key = shard_to_bytes ?s then Some (encode ?root) else read_file st ''shard_states'' key)"
    by (rule commit_block_files [OF ok assms(2,3) run])
  have root: "shard_state_root st s = Inr (map_of tips s)" for s using inv by simp
  have "r \<in> set (held @ map snd tips)" if "map_of tips ?s = Some r" for r
    using map_of_SomeD [OF that] by force
  then have "covered (table cr st b) (case map_of tips ?s of None \<Rightarrow> ?root # held @ map snd tips
      | Some r \<Rightarrow> remove1 r (?root # held @ map snd tips))"
    using block_covers [OF b(1) _ root] inv by blast
  from covered_mset [OF tip_replaced, THEN iffD1, OF _ this] have "covered (stored cr st') (held @ map snd ?tips)"
    using inv by (simp only: b(3) committed_table [OF b(2)])
  moreover have "distinct (map fst ?tips)" using inv by (auto simp: distinct_map_filter)
  moreover have "shard_state_root st' s = Inr (map_of ?tips s)" for s
  proof (cases "s = ?s")
    case False
    then have "shard_to_bytes s \<noteq> shard_to_bytes ?s" using shard_to_bytes_inj by blast
    then have "shard_state_root st' s = shard_state_root st s" by (simp add: shard_state_root_def roots)
    then show ?thesis using False root by (simp add: tips_lookup)
  qed (simp add: shard_state_root_def transposed_def roots)
  moreover have "store_ok st'" using batch_commits [OF b(2)] ok b(3) by simp
  ultimately show ?thesis by (simp add: use_ok_def)
qed

lemma failed_block:
  assumes "commit_block cr st order entries c = (st', Inl e)" "bt_inv (accounts (bc_state c))"
  shows "st' = st"
proof (cases "commit_block_batch cr st order entries c")
  case (Inr b)
  have "batch_named b" using block_batch_puts(1) [OF _ _ assms(2)] by (rule commit_block_batch_Inr [OF Inr]) blast
  then show ?thesis using assms(1) batch_commits(1) by (simp add: commit_block_def commit_batch_def Inr)
qed (use assms(1) in \<open>simp add: commit_block_def commit_batch_def\<close>)

lemma store_use_ok: "store_use cr st held tips \<Longrightarrow> use_ok cr st held tips"
proof (induction rule: store_use.induct)
  case created
  show ?case
    by (simp add: use_ok_def covered_def users_def shard_state_root_def transposed_def read_file_def empty_store_def store_ok_def)
next
  case (cell_put st held tips c st' r)
  then show ?case using put_use by (auto simp: put_cell_def Let_def split: prod.splits simp del: put_cells.simps)
next
  case (boc_put st held tips order boc st' r)
  then show ?case using put_use by (auto simp: put_boc_def split: sum.splits)
next
  case (retained st held tips h st' r)
  then show ?case using root_use [of cr st held tips h True] by (auto simp: retain_cell_root_def split: if_splits)
next
  case (released st held tips h st' r)
  then show ?case using root_use [of cr st held tips h False] by (auto simp: release_cell_root_def split: if_splits)
next
  case (block st held tips entries c order st' r)
  then show ?case using block_use failed_block by (cases r) (fastforce simp: is_ok_def)+
qed

section \<open>Properties\<close>

definition refers :: "crypto \<Rightarrow> store \<Rightarrow> (hash32 \<times> hash32) set" where
  "refers cr st = {(h, r). \<exists>c. get_stored_cell cr st h = Inr (Some c) \<and> r \<in> set (cell_refs c)}"

lemma stored_at:
  "stored cr st h = Some (n, c) \<longleftrightarrow> get_stored_cell cr st h = Inr (Some c) \<and> cell_refcount cr st h = Inr (Some n)"
  by (auto simp: table_def batch_value_def empty_batch_def cell_at_def get_stored_cell_def cell_refcount_def transposed_def
      read_file_def split: option.splits sum.splits)

lemma refers_points: "refers cr st = points (stored cr st)"
proof -
  have "(\<exists>n. stored cr st h = Some (n, c)) \<longleftrightarrow> get_stored_cell cr st h = Inr (Some c)" for h c
    by (auto simp: table_def batch_value_def empty_batch_def cell_at_def get_stored_cell_def transposed_def read_file_def
        split: option.splits sum.splits)
  then show ?thesis unfolding refers_def points_def by blast
qed

text \<open>
  C6. The store never loses a cell in use. Whatever cells and bags were put, roots retained and released and
  blocks committed since its creation, by clients that release only roots they hold, every cell that a
  held root or the current root of a shard reaches is read back under its hash, with a reference
  count of at least the number of those roots that reach it; and the root of a shard is that of the
  last block committed for it.
\<close>

theorem cells_in_use_kept:
  assumes "store_use cr st held tips"
  shows "(\<forall>root \<in> set (held @ map snd tips). \<forall>x. (root, x) \<in> (refers cr st)\<^sup>* \<longrightarrow>
      (\<exists>c n. get_stored_cell cr st x = Inr (Some c) \<and> cell_hash cr c = x \<and> cell_refcount cr st x = Inr (Some n) \<and>
         length (filter (\<lambda>r. (r, x) \<in> (refers cr st)\<^sup>*) (held @ map snd tips)) \<le> unat n)) \<and>
    (\<forall>s. shard_state_root st s = Inr (map_of tips s))"
proof -
  note inv = store_use_ok [OF assms, unfolded use_ok_def]
  have hash: "cell_hash cr c = x" if "stored cr st x = Some (n, c)" for n c x
    using that decoded_record by (auto simp: table_def cell_at_def split: option.splits sum.splits)
  have "\<exists>c n. get_stored_cell cr st x = Inr (Some c) \<and> cell_hash cr c = x \<and> cell_refcount cr st x = Inr (Some n) \<and>
      users (stored cr st) (held @ map snd tips) x \<le> unat n"
    if "root \<in> set (held @ map snd tips)" "reaches (stored cr st) root x" for root x
    using coveredD [OF conjunct1 [OF inv] that] hash stored_at by metis
  then show ?thesis using inv unfolding refers_points users_def reaches_def by blast
qed

theorem cells_in_use_kept_witness:
  "\<exists>st. commit_block toy_crypto empty_store (\<lambda>_. [leaf_cell, root_cell]) [] first_block = (st, Inr ()) \<and>
     (\<exists>c. get_stored_cell toy_crypto st 98 = Inr (Some c) \<and> cell_hash toy_crypto c = 98)"
proof -
  let ?o = "\<lambda>_ :: bag_of_cells. [leaf_cell, root_cell]"
  have inv: "bt_inv (accounts (bc_state first_block))"
    by (simp add: first_block_def one_account_tree_def tree_insert_def tree_new_def bt_inv_Cons)
  obtain b where b: "commit_block_batch toy_crypto empty_store ?o [] first_block = Inr b" using sample_batch by blast
  have "batch_named b" using block_batch_puts(1) [OF _ _ inv] by (rule commit_block_batch_Inr [OF b]) blast
  then have run: "commit_block toy_crypto empty_store ?o [] first_block = (fst (commit empty_store b), Inr ())"
    using batch_commits(1) by (simp add: commit_block_def commit_batch_def b)
  have "listing empty_store []" by (simp add: listing_def empty_store_def)
  from store_use.block [OF store_use.created this inv run]
  have "store_use toy_crypto (fst (commit empty_store b)) [] [(shard_root 0, 98)]" by (simp add: is_ok_def first_block_def)
  from cells_in_use_kept [OF this] run show ?thesis by auto
qed

end
