(* ===== verification/Node_Config.thy ===== *)
theory Node_Config
  imports Texts
begin

text \<open>
  \<open>crates/node/onxd/src/lib.rs\<close>, the part before the daemon: the roles of a node, its configuration
  file and its command line. The file system is an argument, a map from paths to the texts of
  readable files; errors keep the offending text and not the wording of the message.
\<close>

section \<open>Roles and configurations\<close>

datatype node_role = FullNode | ValidatorNode | LiteServerNode

datatype config_error =
    ReadFailed string
  | UnknownRole string
  | InvalidShutdown string
  | ValueRequired string
  | UsageRequested

definition role_parse :: "string \<Rightarrow> config_error + node_role" where
  "role_parse s =
     (let l = to_ascii_lowercase s in
      if l \<in> {''full'', ''full-node'', ''fullnode''} then Inr FullNode
      else if l \<in> {''validator'', ''validator-node'', ''validatornode''} then Inr ValidatorNode
      else if l \<in> {''lite'', ''lite-server'', ''liteserver'', ''lite-server-node''} then Inr LiteServerNode
      else Inl (UnknownRole s))"

record onxd_config =
  role :: node_role
  storage_path :: string
  network_enabled :: bool
  network_bind :: string
  peers :: "string list"
  bootstrap_genesis :: "string option"
  shutdown_after_ms :: "u64 option"

definition onxd_config_default :: onxd_config where
  "onxd_config_default = \<lparr>role = FullNode, storage_path = ''./onx-data'', network_enabled = True,
     network_bind = ''127.0.0.1:0'', peers = [], bootstrap_genesis = None, shutdown_after_ms = None\<rparr>"

section \<open>The configuration file\<close>

definition set_entry :: "onxd_config \<Rightarrow> string \<Rightarrow> string \<Rightarrow> config_error + onxd_config" where
  "set_entry cfg key value =
     (if key = ''role'' then bindR (role_parse value) (\<lambda>r. Inr (cfg\<lparr>role := r\<rparr>))
      else if key = ''storage_path'' then Inr (cfg\<lparr>storage_path := value\<rparr>)
      else if key = ''network_enabled'' then
        Inr (cfg\<lparr>network_enabled := to_ascii_lowercase value \<in> {''1'', ''true'', ''yes'', ''on''}\<rparr>)
      else if key = ''network_bind'' then Inr (cfg\<lparr>network_bind := value\<rparr>)
      else if key = ''peers'' then
        Inr (cfg\<lparr>peers := filter (\<lambda>p. p \<noteq> []) (map trim (split_on (CHR '','') value))\<rparr>)
      else if key = ''bootstrap_genesis'' then Inr (cfg\<lparr>bootstrap_genesis := Some value\<rparr>)
      else if key = ''shutdown_after_ms'' then
        (case parse_u64 value of
           None \<Rightarrow> Inl (InvalidShutdown value)
         | Some ms \<Rightarrow> Inr (cfg\<lparr>shutdown_after_ms := Some ms\<rparr>))
      else Inr cfg)"

definition config_line :: "onxd_config \<Rightarrow> string \<Rightarrow> config_error + onxd_config" where
  "config_line cfg line =
     (let trimmed = trim line in
      if trimmed = [] \<or> hd trimmed = CHR ''#'' then Inr cfg
      else case split_once (CHR ''='') trimmed of
             None \<Rightarrow> Inr cfg
           | Some (key, value) \<Rightarrow>
               set_entry cfg (trim key) (trim_matches (\<lambda>c. c = CHR 0x22) (trim value)))"

fun config_lines :: "onxd_config \<Rightarrow> string list \<Rightarrow> config_error + onxd_config" where
  "config_lines cfg [] = Inr cfg"
| "config_lines cfg (line # lines) = bindR (config_line cfg line) (\<lambda>cfg. config_lines cfg lines)"

definition load_config :: "(string \<Rightarrow> string option) \<Rightarrow> string \<Rightarrow> config_error + onxd_config" where
  "load_config fs path =
     (case fs path of
        None \<Rightarrow> Inl (ReadFailed path)
      | Some raw \<Rightarrow> config_lines onxd_config_default (split_lines raw))"

section \<open>The command line\<close>

text \<open>The first pass takes the last \<open>--config\<close>; the list is what follows the name of the program.\<close>

fun find_config :: "string list \<Rightarrow> string option \<Rightarrow> config_error + string option" where
  "find_config [] path = Inr path"
| "find_config (a # rest) path =
     (if a = ''--config'' then
        (case rest of [] \<Rightarrow> Inl (ValueRequired a) | v # _ \<Rightarrow> find_config rest (Some v))
      else find_config rest path)"

fun cli_loop :: "onxd_config \<Rightarrow> string list \<Rightarrow> config_error + onxd_config" where
  "cli_loop cfg [] = Inr cfg"
| "cli_loop cfg (a # rest) =
     (if a = ''--role'' then
        (case rest of [] \<Rightarrow> Inl (ValueRequired a)
         | v # rest \<Rightarrow> bindR (role_parse v) (\<lambda>r. cli_loop (cfg\<lparr>role := r\<rparr>) rest))
      else if a = ''--storage-path'' then
        (case rest of [] \<Rightarrow> Inl (ValueRequired a) | v # rest \<Rightarrow> cli_loop (cfg\<lparr>storage_path := v\<rparr>) rest)
      else if a = ''--network-bind'' then
        (case rest of [] \<Rightarrow> Inl (ValueRequired a) | v # rest \<Rightarrow> cli_loop (cfg\<lparr>network_bind := v\<rparr>) rest)
      else if a = ''--peer'' then
        (case rest of [] \<Rightarrow> Inl (ValueRequired a) | v # rest \<Rightarrow> cli_loop (cfg\<lparr>peers := peers cfg @ [v]\<rparr>) rest)
      else if a = ''--help'' \<or> a = ''-h'' then Inl UsageRequested
      else cli_loop cfg rest)"

definition parse_cli_args :: "(string \<Rightarrow> string option) \<Rightarrow> string list \<Rightarrow> config_error + onxd_config" where
  "parse_cli_args fs args =
     bindR (find_config (drop 1 args) None) (\<lambda>config_path.
     bindR (case config_path of None \<Rightarrow> Inr onxd_config_default | Some path \<Rightarrow> load_config fs path) (\<lambda>cfg.
     cli_loop cfg (drop 1 args)))"

section \<open>Reading an entry\<close>

text \<open>A value that survives the quotes: no line break inside, no quote at an end.\<close>

definition plain_value :: "string \<Rightarrow> bool" where
  "plain_value v \<longleftrightarrow> newline \<notin> set v \<and> (v = [] \<or> hd v \<noteq> CHR 0x22 \<and> last v \<noteq> CHR 0x22)"

definition plain_key :: "string \<Rightarrow> bool" where
  "plain_key k \<longleftrightarrow> k \<noteq> [] \<and> (\<forall>c \<in> set k. \<not> white c \<and> c \<noteq> CHR ''='') \<and> hd k \<noteq> CHR ''#''"

abbreviation quoted_entry :: "string \<Rightarrow> string \<Rightarrow> string" where
  "quoted_entry k v \<equiv> k @ '' = '' @ [CHR 0x22] @ v @ [CHR 0x22]"

abbreviation bare_entry :: "string \<Rightarrow> string \<Rightarrow> string" where
  "bare_entry k v \<equiv> k @ '' = '' @ v"

lemma white_chars [simp]: "white (CHR '' '')" "\<not> white (CHR 0x22)" "\<not> white (CHR ''='')"
  "white newline" "white carriage_return"
  by (simp_all add: white_def)

lemma trim_id: "s = [] \<or> \<not> white (hd s) \<and> \<not> white (last s) \<Longrightarrow> trim s = s"
  by (simp add: trim_def trim_matches_id)

lemma trim_around: "\<forall>c \<in> set l. white c \<Longrightarrow> \<forall>c \<in> set r. white c \<Longrightarrow> s = [] \<or> \<not> white (hd s) \<and> \<not> white (last s) \<Longrightarrow>
    trim (l @ s @ r) = s"
  by (simp add: trim_def trim_matches_surround)

lemma entry_line:
  assumes "plain_key k" "v \<noteq> []" "\<not> white (hd v)" "\<not> white (last v)"
  shows "config_line cfg (k @ '' = '' @ v) = set_entry cfg k (trim_matches (\<lambda>c. c = CHR 0x22) v)"
proof -
  have k: "k \<noteq> []" "\<not> white (hd k)" "\<not> white (last k)" "CHR ''='' \<notin> set k" "hd k \<noteq> CHR ''#''"
    using assms(1) by (auto simp: plain_key_def)
  have line: "trim (k @ '' = '' @ v) = k @ '' = '' @ v"
    using k assms(2-4) by (intro trim_id) simp
  have key: "trim (k @ '' '') = k" using trim_around [of "[]" "'' ''" k] k by simp
  have val: "trim ('' '' @ v) = v" using trim_around [of "'' ''" "[]" v] assms(2-4) by simp
  have split: "split_once (CHR ''='') (k @ '' = '' @ v) = Some (k @ '' '', '' '' @ v)"
    using split_once_first [of "CHR ''=''" "k @ '' ''" "'' '' @ v"] k(4) by simp
  show ?thesis
    using k unfolding config_line_def Let_def line split by (simp add: key val [simplified])
qed

lemma quoted_line:
  assumes "plain_key k" "plain_value v"
  shows "config_line cfg (quoted_entry k v) = set_entry cfg k v"
proof -
  have "trim_matches (\<lambda>c. c = CHR 0x22) ([CHR 0x22] @ v @ [CHR 0x22]) = v"
    using assms(2) by (intro trim_matches_surround) (auto simp: plain_value_def)
  then show ?thesis using entry_line [OF assms(1), of "[CHR 0x22] @ v @ [CHR 0x22]"] by simp
qed

text \<open>A file of quoted entries is read entry by entry.\<close>

fun set_entries :: "onxd_config \<Rightarrow> (string \<times> string) list \<Rightarrow> config_error + onxd_config" where
  "set_entries cfg [] = Inr cfg"
| "set_entries cfg ((k, v) # kvs) = bindR (set_entry cfg k v) (\<lambda>cfg. set_entries cfg kvs)"

lemma strip_return_keeps: "l = [] \<or> last l \<noteq> carriage_return \<Longrightarrow> strip_return l = l"
  by (auto simp: strip_return_def)

lemma quoted_lines:
  assumes "\<forall>(k, v) \<in> set kvs. plain_key k \<and> plain_value v"
  shows "config_lines cfg (map (\<lambda>(k, v). quoted_entry k v) kvs) = set_entries cfg kvs"
  using assms by (induction kvs arbitrary: cfg) (auto simp: quoted_line [simplified] intro!: arg_cong2 [where f = bindR])

section \<open>Properties\<close>

datatype cli_option =
    ConfigFile string
  | RoleOption string
  | StoragePath string
  | NetworkBind string
  | PeerOption string

fun option_args :: "cli_option \<Rightarrow> string list" where
  "option_args (ConfigFile p) = [''--config'', p]"
| "option_args (RoleOption r) = [''--role'', r]"
| "option_args (StoragePath p) = [''--storage-path'', p]"
| "option_args (NetworkBind b) = [''--network-bind'', b]"
| "option_args (PeerOption p) = [''--peer'', p]"

definition option_names :: "string set" where
  "option_names = {''--config'', ''--role'', ''--storage-path'', ''--network-bind'', ''--peer'', ''--help'', ''-h''}"

fun option_ok :: "cli_option \<Rightarrow> bool" where
  "option_ok (ConfigFile p) \<longleftrightarrow> p \<notin> option_names"
| "option_ok opt \<longleftrightarrow> option_args opt ! 1 \<noteq> ''--config''"

fun apply_option :: "onxd_config \<Rightarrow> cli_option \<Rightarrow> config_error + onxd_config" where
  "apply_option cfg (ConfigFile _) = Inr cfg"
| "apply_option cfg (RoleOption r) = bindR (role_parse r) (\<lambda>x. Inr (cfg\<lparr>role := x\<rparr>))"
| "apply_option cfg (StoragePath p) = Inr (cfg\<lparr>storage_path := p\<rparr>)"
| "apply_option cfg (NetworkBind b) = Inr (cfg\<lparr>network_bind := b\<rparr>)"
| "apply_option cfg (PeerOption p) = Inr (cfg\<lparr>peers := peers cfg @ [p]\<rparr>)"

fun apply_options :: "onxd_config \<Rightarrow> cli_option list \<Rightarrow> config_error + onxd_config" where
  "apply_options cfg [] = Inr cfg"
| "apply_options cfg (opt # opts) = bindR (apply_option cfg opt) (\<lambda>cfg. apply_options cfg opts)"

fun config_file :: "cli_option list \<Rightarrow> string option" where
  "config_file [] = None"
| "config_file (opt # opts) =
     (case config_file opts of
        Some p \<Rightarrow> Some p
      | None \<Rightarrow> (case opt of ConfigFile p \<Rightarrow> Some p | _ \<Rightarrow> None))"

lemma find_config_options:
  "\<forall>opt \<in> set opts. option_ok opt \<Longrightarrow>
     find_config (concat (map option_args opts)) path = Inr (case config_file opts of Some p \<Rightarrow> Some p | None \<Rightarrow> path)"
proof (induction opts arbitrary: path)
  case (Cons opt opts)
  then show ?case by (cases opt) (auto simp: option_names_def split: option.split)
qed simp

lemma cli_loop_options:
  "\<forall>opt \<in> set opts. option_ok opt \<Longrightarrow>
     cli_loop cfg (concat (map option_args opts)) = apply_options cfg opts"
proof (induction opts arbitrary: cfg)
  case (Cons opt opts)
  then show ?case
    by (cases opt) (auto simp: option_names_def bindR_assoc)
qed simp

text \<open>
  A command line made of options with their values, in any order, is understood as written. The
  last \<open>--config\<close> names the file the configuration starts from, the default configuration when
  there is none, and the other options override it one after the other wherever the file is
  named; the first error in the file or in the name of a role is the result. A path of a
  configuration must not be the name of an option, and no other value may be \<open>--config\<close>.
\<close>

theorem cli_options_applied:
  assumes "\<forall>opt \<in> set opts. option_ok opt"
  shows "parse_cli_args fs (program # concat (map option_args opts)) =
    bindR (case config_file opts of None \<Rightarrow> Inr onxd_config_default | Some path \<Rightarrow> load_config fs path) (\<lambda>cfg.
    apply_options cfg opts)"
  using find_config_options [OF assms] cli_loop_options [OF assms]
  by (simp add: parse_cli_args_def split: option.split)

theorem cli_options_applied_witness:
  "parse_cli_args [''a.toml'' \<mapsto> ''role = lite''] [''onxd'', ''--peer'', ''p1'', ''--config'', ''a.toml'', ''--peer'', ''p2''] =
     Inr (onxd_config_default\<lparr>role := LiteServerNode, peers := [''p1'', ''p2'']\<rparr>)"
proof -
  let ?fs = "[''a.toml'' \<mapsto> ''role = lite'']" and ?opts = "[PeerOption ''p1'', ConfigFile ''a.toml'', PeerOption ''p2'']"
  have "load_config ?fs ''a.toml'' = Inr (onxd_config_default\<lparr>role := LiteServerNode\<rparr>)"
    by (simp add: load_config_def split_lines.simps config_line_def trim_def trim_matches_def white_def split_once_def
        set_entry_def role_parse_def to_ascii_lowercase_def ascii_lower_def)
  then show ?thesis
    using cli_options_applied [of ?opts ?fs "''onxd''"] by (simp add: option_names_def onxd_config_default_def)
qed

text \<open>The values of options are searched for \<open>--config\<close> too, so one named like it is taken for it.\<close>

lemma config_found_in_value:
  "parse_cli_args fs [''onxd'', ''--peer'', ''--config''] = Inl (ValueRequired ''--config'')"
  by (simp add: parse_cli_args_def)

end
