(* ===== verification/Genesis.thy ===== *)
theory Genesis
  imports Node_Config
begin

text \<open>
  \<open>crates/tooling/onx-genesis/src\<close>: the generator of the genesis files and of the configurations of
  four boot nodes, the check of its output directory, and its program. The decoder of the TOML
  file is a parameter, and so are the current directory, the resolution of symbolic links, the
  texts of readable files, and which directories exist or can be created and which files can be written;
  a write that fails may leave the beginning of the file. A path is the list of its components
  below the root, or its text where the code prints it.
\<close>

section \<open>The configuration\<close>

record balance =
  bal_address :: string
  bal_amount :: u64

record genesis_validator =
  val_public_key :: string
  val_stake :: u64

record workchain =
  wc_id :: u32
  wc_name :: string
  wc_shard_prefix :: string
  wc_enabled :: bool

record genesis_config =
  balances :: "balance list"
  genesis_validators :: "genesis_validator list"
  workchains :: "workchain list"

definition genesis_config_default :: genesis_config where
  "genesis_config_default = \<lparr>
     balances = [\<lparr>bal_address = ''onx:genesis-account'', bal_amount = 5000000000000000000\<rparr>],
     genesis_validators = [\<lparr>val_public_key = ''validator-pubkey-00'', val_stake = 1000000\<rparr>],
     workchains = [\<lparr>wc_id = 0, wc_name = ''masterchain'', wc_shard_prefix = ''0x00'', wc_enabled = True\<rparr>]\<rparr>"

section \<open>The output directory\<close>

text \<open>\<open>Path::components\<close> on a Unix path: empty parts and inner single dots are skipped.\<close>

datatype path_component = RootDir | CurDir | ParentDir | NormalPart string

definition part_component :: "string \<Rightarrow> path_component list" where
  "part_component p = (if p = [] \<or> p = ''.'' then [] else if p = ''..'' then [ParentDir] else [NormalPart p])"

definition is_absolute :: "string \<Rightarrow> bool" where
  "is_absolute p \<longleftrightarrow> p \<noteq> [] \<and> hd p = CHR ''/''"

definition components :: "string \<Rightarrow> path_component list" where
  "components p =
     (if is_absolute p then [RootDir] else if hd (split_on (CHR ''/'') p) = ''.'' then [CurDir] else []) @
     concat (map part_component (split_on (CHR ''/'') p))"

text \<open>
  The file system as a call finds it: the directories that exist, those that can be created where they do
  not, and how the write of a file ends: complete, refused, or after its first characters.
\<close>

datatype write_outcome = Complete | Refused | CutAfter nat

record file_io =
  is_dir :: "string list \<Rightarrow> bool"
  can_create :: "string list \<Rightarrow> bool"
  write_outcome_of :: "string \<Rightarrow> write_outcome"

text \<open>
  \<open>fs::create_dir_all\<close>: the missing directories on the way to the path are created from the top, until one
  cannot be. The directories it creates come with its result, also where it fails.
\<close>

fun create_missing :: "file_io \<Rightarrow> string list list \<Rightarrow> string list list \<times> bool" where
  "create_missing io [] = ([], True)"
| "create_missing io (p # ps) =
     (if is_dir io p then create_missing io ps
      else if can_create io p then (let (dirs, ok) = create_missing io ps in (p # dirs, ok))
      else ([], False))"

definition create_dir_all :: "file_io \<Rightarrow> string list \<Rightarrow> string list list \<times> bool" where
  "create_dir_all io p = create_missing io (map (\<lambda>i. take i p) [0..<Suc (length p)])"

text \<open>\<open>fs::write\<close> one after the other, until one fails.\<close>

fun write_files :: "file_io \<Rightarrow> (string \<times> string) list \<Rightarrow> (string \<times> string) list \<times> bool" where
  "write_files io [] = ([], True)"
| "write_files io ((p, text) # fs) =
     (case write_outcome_of io p of
        Complete \<Rightarrow> (let (files, ok) = write_files io fs in ((p, text) # files, ok))
      | Refused \<Rightarrow> ([], False)
      | CutAfter n \<Rightarrow> ([(p, take n text)], False))"

record path_env =
  current_dir :: "string list option"
  path_io :: file_io
  canonicalize :: "string list \<Rightarrow> string list option"

datatype genesis_error =
    AbsoluteOutput
  | ForbiddenComponent
  | NoCurrentDir
  | CreateFailed
  | CanonicalizeFailed
  | OutsideCurrentDir
  | ConfigUnreadable string
  | ConfigInvalid
  | OutputDirFailed
  | WriteFailed

fun push_components :: "string list \<Rightarrow> path_component list \<Rightarrow> genesis_error + string list" where
  "push_components out_path [] = Inr out_path"
| "push_components out_path (CurDir # cs) = push_components out_path cs"
| "push_components out_path (NormalPart p # cs) = push_components (out_path @ [p]) cs"
| "push_components out_path (_ # cs) = Inl ForbiddenComponent"

text \<open>The directories the call creates come with its result.\<close>

definition secure_output_dir :: "path_env \<Rightarrow> string \<Rightarrow> string list list \<times> (genesis_error + string list)" where
  "secure_output_dir env out =
     (if is_absolute out then ([], Inl AbsoluteOutput)
      else if \<exists>c \<in> set (components out). c \<in> {RootDir, ParentDir} then ([], Inl ForbiddenComponent)
      else case current_dir env of
        None \<Rightarrow> ([], Inl NoCurrentDir)
      | Some root \<Rightarrow>
        (case push_components root (components out) of
           Inl e \<Rightarrow> ([], Inl e)
         | Inr out_path \<Rightarrow>
           (let (dirs, ok) = create_dir_all (path_io env) out_path in
            (dirs,
             if \<not> ok then Inl CreateFailed
             else case (canonicalize env root, canonicalize env out_path) of
               (Some root_canon, Some out_canon) \<Rightarrow>
                 if take (length root_canon) out_canon \<noteq> root_canon then Inl OutsideCurrentDir else Inr out_canon
             | _ \<Rightarrow> Inl CanonicalizeFailed))))"

section \<open>The generated files\<close>

definition parse_config ::
  "(string \<Rightarrow> string option) \<Rightarrow> (string \<Rightarrow> genesis_config option) \<Rightarrow> string \<Rightarrow> genesis_error + genesis_config" where
  "parse_config fs toml path =
     (case fs path of
        None \<Rightarrow> Inl (ConfigUnreadable path)
      | Some raw \<Rightarrow> (case toml raw of None \<Rightarrow> Inl ConfigInvalid | Some c \<Rightarrow> Inr c))"

definition balances_text :: "balance list \<Rightarrow> string" where
  "balances_text bs = concat (map (\<lambda>b. bal_address b @ '':'' @ show_nat (unat (bal_amount b)) @ '';'') bs)"

definition validators_text :: "genesis_validator list \<Rightarrow> string" where
  "validators_text vs = concat (map (\<lambda>v. val_public_key v @ '':'' @ show_nat (unat (val_stake v)) @ '';'') vs)"

definition workchains_text :: "workchain list \<Rightarrow> string" where
  "workchains_text ws = concat (map (\<lambda>w. show_nat (unat (wc_id w)) @ '':'' @ wc_name w @ '':'' @ wc_shard_prefix w @ '':'' @
     (if wc_enabled w then ''true'' else ''false'') @ '';'') ws)"

definition genesis_text :: "genesis_config \<Rightarrow> string" where
  "genesis_text config = ''ONX_GENESIS_BOC'' @ [newline] @ ''masterchain_genesis#0'' @ [newline] @
     ''validator_keys='' @ validators_text (genesis_validators config) @ [newline] @
     ''initial_balances='' @ balances_text (balances config) @ [newline] @
     ''workchains='' @ workchains_text (workchains config) @ [newline]"

definition shard_header_text :: string where
  "shard_header_text = ''ONX_SHARD_HEADER_BOC'' @ [newline] @ ''shard=0x00'' @ [newline] @ ''workchain=0'' @ [newline] @
     ''parent=masterchain_genesis#0'' @ [newline]"

definition node_cfg :: "string \<Rightarrow> nat \<Rightarrow> string" where
  "node_cfg genesis_boc_path idx =
     ''role = '' @ [CHR 0x22] @ ''validator'' @ [CHR 0x22] @ [newline] @
     ''storage_path = '' @ [CHR 0x22] @ ''target/onxd-node-'' @ show_nat idx @ [CHR 0x22] @ [newline] @
     ''network_enabled = true'' @ [newline] @
     ''network_bind = '' @ [CHR 0x22] @ ''127.0.0.1:'' @ show_nat (10000 + idx * 1000) @ [CHR 0x22] @ [newline] @
     ''peers = '' @ [CHR 0x22] @ ''127.0.0.1:'' @ show_nat (10001 + idx * 1000) @ [CHR 0x22] @ [newline] @
     ''bootstrap_genesis = '' @ [CHR 0x22] @ genesis_boc_path @ [CHR 0x22] @ [newline]"

text \<open>The files in the order they are written, by their paths.\<close>

definition genesis_files :: "genesis_config \<Rightarrow> string \<Rightarrow> (string \<times> string) list" where
  "genesis_files config output_dir =
     [(output_dir @ ''/genesis.boc'', genesis_text config),
      (output_dir @ ''/shard-header-0.boc'', shard_header_text)] @
     map (\<lambda>idx. (output_dir @ ''/node-'' @ show_nat idx @ ''.toml'', node_cfg (output_dir @ ''/genesis.boc'') idx)) [0..<4]"

definition path_text :: "string list \<Rightarrow> string" where
  "path_text p = concat (map (\<lambda>c. ''/'' @ c) p)"

text \<open>What the call creates and writes, with its result.\<close>

definition generate_genesis ::
  "file_io \<Rightarrow> genesis_config \<Rightarrow> string list \<Rightarrow> string list list \<times> (string \<times> string) list \<times> (genesis_error + unit)" where
  "generate_genesis io config output_dir =
     (let (dirs, ok) = create_dir_all io output_dir in
      if \<not> ok then (dirs, [], Inl OutputDirFailed)
      else let (files, ok) = write_files io (genesis_files config (path_text output_dir))
           in (dirs, files, if ok then Inr () else Inl WriteFailed))"

definition launch_guide :: string where
  "launch_guide =
     ''# Launch Guide'' @
     [newline] @
     [newline] @
     ''This repository ships a deterministic `onx-genesis` bootstrap generator.'' @
     [newline] @
     [newline] @
     ''Use `onx-genesis --config config/genesis.toml --out target/onx-genesis` to create'' @
     '' `genesis.boc` and four `node-*.toml` files.'' @
     [newline] @
     [newline] @
     ''Then launch four `onxd` boot nodes from the same generated `genesis.boc` by pointing each'' @
     '' node at its generated configuration file, verifying that the first committed masterchain'' @
     '' block is `#0` and that a shared shard header bootstrap path is emitted.'' @
     [newline]"

definition docs_file :: "string \<Rightarrow> string \<times> string" where
  "docs_file output_dir = (output_dir @ ''/launch_guide.md'', launch_guide)"

definition write_docs :: "file_io \<Rightarrow> string list \<Rightarrow> (string \<times> string) list \<times> (genesis_error + unit)" where
  "write_docs io output_dir =
     (let (files, ok) = write_files io [docs_file (path_text output_dir)] in (files, if ok then Inr () else Inl WriteFailed))"

section \<open>The program\<close>

definition arg_value :: "string \<Rightarrow> string \<Rightarrow> string list \<Rightarrow> string" where
  "arg_value name fallback args =
     (case dropWhile (\<lambda>a. a \<noteq> name) args of _ # v # _ \<Rightarrow> v | _ \<Rightarrow> fallback)"

record genesis_run =
  created :: "string list list"
  written :: "(string \<times> string) list"
  failure :: "genesis_error option"

text \<open>The file system may change between the check of the directory and the writes, which see it as \<open>later\<close>.\<close>

definition genesis_main ::
  "path_env \<Rightarrow> file_io \<Rightarrow> (string \<Rightarrow> string option) \<Rightarrow> (string \<Rightarrow> genesis_config option) \<Rightarrow> string list \<Rightarrow> genesis_run" where
  "genesis_main env later fs toml args =
     (let config_path = arg_value ''--config'' ''config/genesis.toml'' args;
          out_arg = arg_value ''--out'' ''target/onx-genesis'' args;
          (dirs, out) = secure_output_dir env out_arg
      in case out of
           Inl e \<Rightarrow> \<lparr>created = dirs, written = [], failure = Some e\<rparr>
         | Inr output_dir \<Rightarrow>
           (case parse_config fs toml config_path of
              Inl e \<Rightarrow> \<lparr>created = dirs, written = [], failure = Some e\<rparr>
            | Inr config \<Rightarrow>
              (case generate_genesis later config output_dir of
                 (dirs', files, Inl e) \<Rightarrow> \<lparr>created = dirs @ dirs', written = files, failure = Some e\<rparr>
               | (dirs', files, Inr _) \<Rightarrow>
                 (case write_docs later output_dir of
                    (docs, Inl e) \<Rightarrow> \<lparr>created = dirs @ dirs', written = files @ docs, failure = Some e\<rparr>
                  | (docs, Inr _) \<Rightarrow> \<lparr>created = dirs @ dirs', written = files @ docs, failure = None\<rparr>))))"

section \<open>The node configurations\<close>

lemma node_cfg_lines:
  "node_cfg g idx = concat (map (\<lambda>l. l @ [newline])
     [quoted_entry ''role'' ''validator'', quoted_entry ''storage_path'' (''target/onxd-node-'' @ show_nat idx),
      bare_entry ''network_enabled'' ''true'', quoted_entry ''network_bind'' (''127.0.0.1:'' @ show_nat (10000 + idx * 1000)),
      quoted_entry ''peers'' (''127.0.0.1:'' @ show_nat (10001 + idx * 1000)), quoted_entry ''bootstrap_genesis'' g])"
  by (simp add: node_cfg_def)

lemma digit_char_plain: "d < 10 \<Longrightarrow> digit_char d \<notin> {newline, CHR 0x22, CHR '','', CHR ''/''} \<and> \<not> white (digit_char d)"
proof -
  assume "d < 10"
  then have n: "(of_char (digit_char d) :: nat) = 48 + d" by (simp add: digit_char_def)
  have "digit_char d \<noteq> c" if "(of_char c :: nat) \<notin> {48..57}" for c using n that \<open>d < 10\<close> by auto
  moreover have "\<not> white (digit_char d)" using n \<open>d < 10\<close> by (simp add: white_def)
  ultimately show ?thesis by simp
qed

lemma show_nat_plain: "c \<in> set (show_nat n) \<Longrightarrow> c \<notin> {newline, CHR 0x22, CHR '','', CHR ''/''} \<and> \<not> white c"
  by (drule show_nat_digits, elim exE conjE, hypsubst, rule digit_char_plain)

lemma last_show: "last (s @ show_nat n) = last (show_nat n)" "last (show_nat n) \<in> set (show_nat n)"
  by (simp_all add: show_nat_nonempty)

lemma plain_numbered:
  assumes "newline \<notin> set s" "s \<noteq> []" "hd s \<noteq> CHR 0x22"
  shows "plain_value (s @ show_nat n)"
  using assms show_nat_plain [of _ n] last_show(2) [of n] unfolding plain_value_def last_show(1) by auto

lemma peers_entry: "set_entry cfg ''peers'' (''127.0.0.1:'' @ show_nat n) = Inr (cfg\<lparr>peers := [''127.0.0.1:'' @ show_nat n]\<rparr>)"
proof -
  have "CHR '','' \<notin> set (''127.0.0.1:'' @ show_nat n)" using show_nat_plain by auto
  then have split: "split_on (CHR '','') (''127.0.0.1:'' @ show_nat n) = [''127.0.0.1:'' @ show_nat n]" by (rule split_on_none)
  have "trim (''127.0.0.1:'' @ show_nat n) = ''127.0.0.1:'' @ show_nat n"
    using show_nat_plain [OF last_show(2)] by (intro trim_id disjI2) (simp add: show_nat_nonempty white_def)
  then show ?thesis using split by (simp add: set_entry_def)
qed

definition boot_node :: "string \<Rightarrow> nat \<Rightarrow> onxd_config" where
  "boot_node g idx = \<lparr>role = ValidatorNode, storage_path = ''target/onxd-node-'' @ show_nat idx, network_enabled = True,
     network_bind = ''127.0.0.1:'' @ show_nat (10000 + idx * 1000), peers = [''127.0.0.1:'' @ show_nat (10001 + idx * 1000)],
     bootstrap_genesis = Some g, shutdown_after_ms = None\<rparr>"

lemma config_keys:
  "plain_key ''role''" "plain_key ''storage_path''" "plain_key ''network_enabled''" "plain_key ''network_bind''"
  "plain_key ''peers''" "plain_key ''bootstrap_genesis''"
  by (simp_all add: plain_key_def white_def)

lemma node_cfg_loads:
  assumes "plain_value g"
  shows "config_lines onxd_config_default (split_lines (node_cfg g idx)) = Inr (boot_node g idx)"
proof -
  let ?ls = "[quoted_entry ''role'' ''validator'', quoted_entry ''storage_path'' (''target/onxd-node-'' @ show_nat idx),
      bare_entry ''network_enabled'' ''true'', quoted_entry ''network_bind'' (''127.0.0.1:'' @ show_nat (10000 + idx * 1000)),
      quoted_entry ''peers'' (''127.0.0.1:'' @ show_nat (10001 + idx * 1000)), quoted_entry ''bootstrap_genesis'' g]"
  have "\<forall>l \<in> set ?ls. newline \<notin> set l \<and> strip_return l = l"
    using assms show_nat_plain by (auto simp: strip_return_def plain_value_def)
  then have "split_lines (node_cfg g idx) = ?ls"
    using split_lines_concat [of ?ls "[]"] unfolding node_cfg_lines by (simp add: split_lines.simps)
  moreover have "config_lines onxd_config_default ?ls = Inr (boot_node g idx)"
  proof -
    have v: "plain_value ''validator''" "plain_value (''target/onxd-node-'' @ show_nat idx)" "plain_value (''127.0.0.1:'' @ show_nat n)" for n
      by (simp add: plain_value_def) (rule plain_numbered; simp)+
    have bare: "config_line cfg (bare_entry ''network_enabled'' ''true'') = set_entry cfg ''network_enabled'' ''true''" for cfg
      using entry_line [OF config_keys(3), of "''true''" cfg] by (simp add: white_def trim_matches_def)
    show ?thesis
      unfolding config_lines.simps bare quoted_line [OF config_keys(1) v(1)] quoted_line [OF config_keys(2) v(2)]
        quoted_line [OF config_keys(4) v(3)] quoted_line [OF config_keys(5) v(3)] quoted_line [OF config_keys(6) assms]
      by (simp add: peers_entry [simplified]) (simp add: set_entry_def role_parse_def to_ascii_lowercase_def ascii_lower_def
          boot_node_def onxd_config_default_def)
  qed
  ultimately show ?thesis by simp
qed

lemma node_file:
  assumes "idx < 4"
  shows "map_of (genesis_files config dir) (dir @ ''/node-'' @ show_nat idx @ ''.toml'') =
    Some (node_cfg (dir @ ''/genesis.boc'') idx)"
proof -
  let ?f = "\<lambda>k. (dir @ ''/node-'' @ show_nat k @ ''.toml'', node_cfg (dir @ ''/genesis.boc'') k)"
  have "map_of (map ?f ks) (fst (?f idx)) = (if idx \<in> set ks then Some (snd (?f idx)) else None)" for ks
    by (induction ks) (auto simp: show_nat_inj)
  from this [of "[0..<4]"] show ?thesis using assms by (simp add: genesis_files_def)
qed

text \<open>The ports of the generated peers are not those any generated node listens at.\<close>

lemma boot_peers_unbound: "network_bind (boot_node g j) \<notin> set (peers (boot_node g' i))"
proof -
  have "(10000 + j * 1000) mod 1000 \<noteq> (10001 + i * (1000 :: nat)) mod 1000" by simp
  then have "10000 + j * 1000 \<noteq> 10001 + i * 1000" by metis
  then show ?thesis by (simp add: boot_node_def show_nat_inj)
qed

section \<open>Confinement\<close>

lemma part_components: "c \<in> set (part_component p) \<Longrightarrow> c = ParentDir \<or> (\<exists>q. c = NormalPart q \<and> q \<notin> {[], ''.'', ''..''})"
  by (auto simp: part_component_def split: if_splits)

lemma push_components_Inr:
  "push_components base cs = Inr out \<Longrightarrow> \<exists>ps. out = base @ ps \<and> set ps = {p. NormalPart p \<in> set cs}"
proof (induction base cs rule: push_components.induct)
  case (3 base p cs)
  then obtain ps where "out = (base @ [p]) @ ps" "set ps = {q. NormalPart q \<in> set cs}" by auto
  then show ?case by (intro exI [of _ "p # ps"]) auto
qed auto

lemma components_normal: "NormalPart p \<in> set (components out) \<Longrightarrow> p \<notin> {[], ''.'', ''..''}"
  using part_components by (auto simp: components_def split: if_splits)

lemma created_prefix: "p \<in> set (fst (create_missing io ps)) \<Longrightarrow> p \<in> set ps \<and> \<not> is_dir io p"
  by (induction ps) (auto simp: case_prod_unfold Let_def split: if_splits)

text \<open>Only directories that are missing are created, on the way to the path.\<close>

lemma create_dir_all_created:
  assumes "p \<in> set (fst (create_dir_all io path))"
  shows "\<exists>i \<le> length path. p = take i path" "\<not> is_dir io p"
  using created_prefix [OF assms [unfolded create_dir_all_def]] by (auto simp: less_Suc_eq_le simp del: upt_Suc)

lemma created_below:
  assumes "p \<in> set (fst (create_dir_all io (root @ ps)))" "\<forall>i. is_dir io (take i root)"
  shows "\<exists>qs. qs \<noteq> [] \<and> p = root @ qs \<and> set qs \<subseteq> set ps"
proof -
  obtain i where i: "p = take i (root @ ps)" "\<not> is_dir io p" using create_dir_all_created [OF assms(1)] by blast
  have "length root < i"
  proof (rule ccontr)
    assume "\<not> length root < i"
    then have "p = take i root" using i(1) by simp
    then show False using assms(2) i(2) by simp
  qed
  then have p: "p = root @ take (i - length root) ps" using i(1) by simp
  have "is_dir io root" using assms(2) [rule_format, of "length root"] by simp
  then have "take (i - length root) ps \<noteq> []" using i(2) p by auto
  then show ?thesis using p set_take_subset [of _ ps] by (intro exI [of _ "take (i - length root) ps"]) simp
qed

lemma secure_output_dir_cases:
  assumes "secure_output_dir env out = (dirs, r)"
  shows "(dirs = [] \<and> (\<exists>e. r = Inl e)) \<or>
    (\<exists>root ps. current_dir env = Some root \<and> dirs = fst (create_dir_all (path_io env) (root @ ps)) \<and>
      set ps \<inter> {[], ''.'', ''..''} = {} \<and>
      (\<forall>d. r = Inr d \<longrightarrow> (\<exists>root_canon. canonicalize env root = Some root_canon \<and> canonicalize env (root @ ps) = Some d \<and>
         take (length root_canon) d = root_canon)))"
proof (cases "is_absolute out \<or> (\<exists>c \<in> set (components out). c \<in> {RootDir, ParentDir}) \<or> current_dir env = None")
  case True
  then show ?thesis using assms by (auto simp: secure_output_dir_def split: if_splits option.splits)
next
  case False
  then obtain root where root: "current_dir env = Some root" by blast
  show ?thesis
  proof (cases "push_components root (components out)")
    case (Inl e)
    then have "dirs = []" "r = Inl e" using assms False root by (auto simp: secure_output_dir_def split: if_splits)
    then show ?thesis by blast
  next
    case (Inr out_path)
    from push_components_Inr [OF this] obtain ps where ps: "out_path = root @ ps" "set ps = {p. NormalPart p \<in> set (components out)}" by blast
    have "set ps \<inter> {[], ''.'', ''..''} = {}" using components_normal [of _ out] ps(2) by auto
    moreover have "dirs = fst (create_dir_all (path_io env) (root @ ps))"
      and "\<forall>d. r = Inr d \<longrightarrow> (\<exists>root_canon. canonicalize env root = Some root_canon \<and> canonicalize env (root @ ps) = Some d \<and>
         take (length root_canon) d = root_canon)"
      using assms False root Inr ps(1)
      by (auto simp: secure_output_dir_def case_prod_unfold Let_def split: option.splits if_splits)
    ultimately show ?thesis using root by blast
  qed
qed

text \<open>What is written is a part of the list: the first files, the last of them maybe cut.\<close>

lemma write_files_names: "set (map fst (fst (write_files io fs))) \<subseteq> set (map fst fs)"
  by (induction io fs rule: write_files.induct) (auto simp: case_prod_unfold Let_def split: write_outcome.splits)

lemma write_files_all: "snd (write_files io fs) \<Longrightarrow> fst (write_files io fs) = fs"
  by (induction io fs rule: write_files.induct) (auto simp: case_prod_unfold Let_def split: write_outcome.splits)

lemma generate_genesis_files:
  assumes "generate_genesis io config d = (dirs, files, r)"
  shows "set (map fst files) \<subseteq> set (map fst (genesis_files config (path_text d)))"
    "r = Inr u \<Longrightarrow> files = genesis_files config (path_text d)" "dirs = fst (create_dir_all io d)"
proof -
  show "set (map fst files) \<subseteq> set (map fst (genesis_files config (path_text d)))"
    using assms write_files_names [of io "genesis_files config (path_text d)"]
    by (simp add: generate_genesis_def case_prod_unfold Let_def split: if_splits)
  show "files = genesis_files config (path_text d)" if "r = Inr u"
    using assms that write_files_all [of io "genesis_files config (path_text d)"]
    by (simp add: generate_genesis_def case_prod_unfold Let_def split: if_splits)
  show "dirs = fst (create_dir_all io d)"
    using assms by (simp add: generate_genesis_def case_prod_unfold Let_def split: if_splits)
qed

lemma write_docs_files:
  assumes "write_docs io d = (files, r)"
  shows "set (map fst files) \<subseteq> {fst (docs_file (path_text d))}" "r = Inr u \<Longrightarrow> files = [docs_file (path_text d)]"
  using assms write_files_names [of io "[docs_file (path_text d)]"] write_files_all [of io "[docs_file (path_text d)]"]
  by (auto simp: write_docs_def case_prod_unfold Let_def split: if_splits simp del: write_files.simps)

text \<open>Every run of the program, from the directory on that it writes to.\<close>

lemma genesis_main_runs:
  fixes args :: "string list"
  defines "config_path \<equiv> arg_value ''--config'' ''config/genesis.toml'' args"
  assumes "secure_output_dir env (arg_value ''--out'' ''target/onx-genesis'' args) = (dirs, r)"
  shows "(\<exists>e. genesis_main env later fs toml args = \<lparr>created = dirs, written = [], failure = Some e\<rparr>) \<or>
    (\<exists>d config dirs' files docs e. r = Inr d \<and> parse_config fs toml config_path = Inr config \<and>
       genesis_main env later fs toml args = \<lparr>created = dirs @ dirs', written = files @ docs, failure = e\<rparr> \<and>
       dirs' = fst (create_dir_all later d) \<and>
       set (map fst (files @ docs)) \<subseteq> set (map fst (genesis_files config (path_text d) @ [docs_file (path_text d)])) \<and>
       (e = None \<longrightarrow> files @ docs = genesis_files config (path_text d) @ [docs_file (path_text d)]))"
proof (cases r)
  case (Inl e)
  then show ?thesis using assms by (simp add: genesis_main_def Let_def)
next
  case (Inr d)
  note out = assms(2) [unfolded Inr]
  show ?thesis
  proof (cases "parse_config fs toml config_path")
    case (Inl e)
    then show ?thesis using out by (simp add: genesis_main_def Let_def config_path_def)
  next
    case config: (Inr config)
    obtain dirs' files x where gen: "generate_genesis later config d = (dirs', files, x)" by (metis prod_cases3)
    obtain docs y where docs: "write_docs later d = (docs, y)" by fastforce
    note g = generate_genesis_files [OF gen] and w = write_docs_files [OF docs]
    have "genesis_main env later fs toml args =
        (case x of Inl e \<Rightarrow> \<lparr>created = dirs @ dirs', written = files, failure = Some e\<rparr>
         | Inr _ \<Rightarrow> (case y of Inl e \<Rightarrow> \<lparr>created = dirs @ dirs', written = files @ docs, failure = Some e\<rparr>
                    | Inr _ \<Rightarrow> \<lparr>created = dirs @ dirs', written = files @ docs, failure = None\<rparr>))"
      using out config gen docs by (simp add: genesis_main_def Let_def config_path_def split: sum.split)
    then consider e where "genesis_main env later fs toml args = \<lparr>created = dirs @ dirs', written = files @ [], failure = Some e\<rparr>"
      | e where "genesis_main env later fs toml args = \<lparr>created = dirs @ dirs', written = files @ docs, failure = Some e\<rparr>"
      | "x = Inr ()" "y = Inr ()" "genesis_main env later fs toml args = \<lparr>created = dirs @ dirs', written = files @ docs, failure = None\<rparr>"
      by (cases x; cases y) auto
    then show ?thesis
    proof cases
      case 1
      then show ?thesis using config g(1,3) \<open>r = Inr d\<close>
        by (intro disjI2 exI [of _ d] exI [of _ config] exI [of _ dirs'] exI [of _ files] exI [of _ "[]"]) auto
    next
      case 2
      then show ?thesis using config g(1,3) w(1) \<open>r = Inr d\<close>
        by (intro disjI2 exI [of _ d] exI [of _ config] exI [of _ dirs'] exI [of _ files] exI [of _ docs]) auto
    next
      case 3
      then show ?thesis using config g w \<open>r = Inr d\<close>
        by (intro disjI2 exI [of _ d] exI [of _ config] exI [of _ dirs'] exI [of _ files] exI [of _ docs]) auto
    qed
  qed
qed

section \<open>Properties\<close>

lemma generated_config:
  assumes "newline \<notin> set dir" "dir \<noteq> []" "hd dir \<noteq> CHR 0x22" "idx < 4"
  shows "parse_cli_args (map_of (genesis_files config dir)) [''onxd'', ''--config'', dir @ ''/node-'' @ show_nat idx @ ''.toml''] =
    Inr (boot_node (dir @ ''/genesis.boc'') idx)"
proof -
  let ?path = "dir @ ''/node-'' @ show_nat idx @ ''.toml''"
  have "CHR ''/'' \<in> set ?path" by simp
  then have ok: "?path \<notin> option_names" by (auto simp: option_names_def simp del: set_append)
  have "plain_value (dir @ ''/genesis.boc'')" using assms by (simp add: plain_value_def)
  then have load: "load_config (map_of (genesis_files config dir)) ?path = Inr (boot_node (dir @ ''/genesis.boc'') idx)"
    unfolding load_config_def node_file [OF assms(4)] by (simp add: node_cfg_loads)
  have "find_config [''--config'', ?path] None = Inr (Some ?path)" "cli_loop cfg [''--config'', ?path] = Inr cfg" for cfg
    using ok unfolding option_names_def by auto
  then show ?thesis
    unfolding parse_cli_args_def using load by (simp del: find_config.simps cli_loop.simps)
qed

lemma genesis_file: "map_of (genesis_files config dir) (dir @ ''/genesis.boc'') = Some (genesis_text config) \<and> genesis_text config \<noteq> []"
  by (simp add: genesis_files_def genesis_text_def)

text \<open>
  The generated nodes start from the generated files: for each of the four configurations the
  generator writes, the command line of the node that names it is accepted, and the node is a
  validator with its own storage path and port, one peer, and the generated genesis file,
  which is not empty, to bootstrap from.
\<close>

theorem generated_node_configs_load:
  assumes "newline \<notin> set dir" "dir \<noteq> []" "hd dir \<noteq> CHR 0x22" "idx < 4"
  shows "parse_cli_args (map_of (genesis_files config dir)) [''onxd'', ''--config'', dir @ ''/node-'' @ show_nat idx @ ''.toml''] =
      Inr \<lparr>role = ValidatorNode, storage_path = ''target/onxd-node-'' @ show_nat idx, network_enabled = True,
        network_bind = ''127.0.0.1:'' @ show_nat (10000 + idx * 1000),
        peers = [''127.0.0.1:'' @ show_nat (10001 + idx * 1000)],
        bootstrap_genesis = Some (dir @ ''/genesis.boc''), shutdown_after_ms = None\<rparr> \<and>
    (\<exists>text. map_of (genesis_files config dir) (dir @ ''/genesis.boc'') = Some text \<and> text \<noteq> [])"
  using generated_config [OF assms] genesis_file by (simp add: boot_node_def)

theorem generated_node_configs_load_witness:
  "\<exists>cfg. parse_cli_args (map_of (genesis_files genesis_config_default ''/g'')) [''onxd'', ''--config'', ''/g/node-2.toml''] = Inr cfg \<and>
     network_bind cfg = ''127.0.0.1:12000''"
proof -
  have "show_nat 2 = ''2''" "show_nat 12000 = ''12000''" by (simp_all add: show_nat.simps digit_char_def char_of_def bit_0)
  then show ?thesis
    using generated_node_configs_load [of "''/g''" 2 genesis_config_default] by simp
qed


text \<open>The third write, that of the first node, is cut after four characters.\<close>

abbreviation plain_env :: path_env where
  "plain_env \<equiv> \<lparr>current_dir = Some [''home''],
     path_io = \<lparr>is_dir = (\<lambda>p. p = [] \<or> p = [''home'']), can_create = (\<lambda>_. True), write_outcome_of = (\<lambda>_. Complete)\<rparr>,
     canonicalize = Some\<rparr>"

abbreviation full_disk :: file_io where
  "full_disk \<equiv> \<lparr>is_dir = (\<lambda>_. True), can_create = (\<lambda>_. True),
     write_outcome_of = (\<lambda>p. if p = ''/home/a/b/node-0.toml'' then CutAfter 4 else Complete)\<rparr>"

lemma sample_output_dir:
  "secure_output_dir plain_env ''a/./b'' = ([[''home'', ''a''], [''home'', ''a'', ''b'']], Inr [''home'', ''a'', ''b''])"
  by (simp add: secure_output_dir_def is_absolute_def components_def part_component_def create_dir_all_def upt_rec)


text \<open>
  The directory is created before its place is known: through a symbolic link of the current
  directory a directory is created elsewhere, and only then the path is refused.
\<close>

lemma created_before_checked:
  "secure_output_dir (plain_env\<lparr>path_io := \<lparr>is_dir = (\<lambda>p. p \<in> {[], [''home''], [''home'', ''link'']}), can_create = (\<lambda>_. True),
       write_outcome_of = (\<lambda>_. Complete)\<rparr>,
     canonicalize := (\<lambda>p. Some (if take 2 p = [''home'', ''link''] then ''etc'' # drop 2 p else p))\<rparr>) ''link/x'' =
     ([[''home'', ''link'', ''x'']], Inl OutsideCurrentDir)"
  by (simp add: secure_output_dir_def is_absolute_def components_def part_component_def create_dir_all_def upt_rec)

end
