(* ===== verification/Telemetry.thy ===== *)
theory Telemetry
  imports Texts
begin

text \<open>
  \<open>crates/node/onx-telemetry/src/lib.rs\<close>: the metrics of a node and their server. The registry of the metrics
  library and its text encoder are parameters, and so are the socket of the server and the conversion of an \<open>i64\<close> to floating point;
  a gauge is its last value, a histogram the list of what it observed, a counter a number.
\<close>

record telemetry_config =
  metrics_bind :: string
  enable_tracing :: bool

definition telemetry_config_default :: telemetry_config where
  "telemetry_config_default = \<lparr>metrics_bind = ''127.0.0.1:9100'', enable_tracing = True\<rparr>"

record 'f telemetry =
  block_import_duration_ms :: "'f list"
  block_height :: 'f
  connected_peer_count :: 'f
  transaction_pool_size :: 'f
  vm_gas_rate :: "'f list"
  cross_shard_router :: nat
  consensus_rounds :: nat

definition METRIC_NAMES :: "string list" where
  "METRIC_NAMES = [''block_import_duration_ms'', ''current_block_height'', ''connected_peer_count'', ''transaction_pool_size'',
     ''vm_gas_execution_rate'', ''cross_shard_message_routing_total'', ''consensus_round_phases_total'']"

text \<open>Each metric is registered under its name; the first refusal ends the construction.\<close>

fun register_all :: "('r \<Rightarrow> string \<Rightarrow> 'r option) \<Rightarrow> 'r \<Rightarrow> string list \<Rightarrow> 'r \<times> string option" where
  "register_all register reg [] = (reg, None)"
| "register_all register reg (name # names) =
     (case register reg name of None \<Rightarrow> (reg, Some name) | Some reg \<Rightarrow> register_all register reg names)"

definition telemetry_new ::
  "('r \<Rightarrow> string \<Rightarrow> 'r option) \<Rightarrow> (64 word \<Rightarrow> 'f) \<Rightarrow> 'r \<Rightarrow> 'r \<times> (string + 'f telemetry)" where
  "telemetry_new register as_f64 reg =
     (case register_all register reg METRIC_NAMES of
        (reg, Some name) \<Rightarrow> (reg, Inl name)
      | (reg, None) \<Rightarrow>
          (reg, Inr \<lparr>block_import_duration_ms = [], block_height = as_f64 0, connected_peer_count = as_f64 0,
             transaction_pool_size = as_f64 0, vm_gas_rate = [], cross_shard_router = 0, consensus_rounds = 0\<rparr>))"

definition record_block_import_duration :: "'f telemetry \<Rightarrow> 'f \<Rightarrow> 'f telemetry" where
  "record_block_import_duration t millis = t\<lparr>block_import_duration_ms := block_import_duration_ms t @ [millis]\<rparr>"

definition set_block_height :: "(64 word \<Rightarrow> 'f) \<Rightarrow> 'f telemetry \<Rightarrow> 64 word \<Rightarrow> 'f telemetry" where
  "set_block_height as_f64 t height = t\<lparr>block_height := as_f64 height\<rparr>"

definition set_connected_peers :: "(64 word \<Rightarrow> 'f) \<Rightarrow> 'f telemetry \<Rightarrow> 64 word \<Rightarrow> 'f telemetry" where
  "set_connected_peers as_f64 t count = t\<lparr>connected_peer_count := as_f64 count\<rparr>"

definition set_tx_pool_size :: "(64 word \<Rightarrow> 'f) \<Rightarrow> 'f telemetry \<Rightarrow> 64 word \<Rightarrow> 'f telemetry" where
  "set_tx_pool_size as_f64 t n = t\<lparr>transaction_pool_size := as_f64 n\<rparr>"

definition record_gas_execution :: "'f telemetry \<Rightarrow> 'f \<Rightarrow> 'f telemetry" where
  "record_gas_execution t gas = t\<lparr>vm_gas_rate := vm_gas_rate t @ [gas]\<rparr>"

definition track_route_span :: "'f telemetry \<Rightarrow> 'f telemetry" where
  "track_route_span t = t\<lparr>cross_shard_router := cross_shard_router t + 1\<rparr>"

definition track_consensus_phase :: "'f telemetry \<Rightarrow> 'f telemetry" where
  "track_consensus_phase t = t\<lparr>consensus_rounds := consensus_rounds t + 1\<rparr>"

text \<open>The answer to a connection, for a payload of single-byte characters.\<close>

definition metrics_response :: "string \<Rightarrow> string" where
  "metrics_response payload =
     ''HTTP/1.1 200 OK'' @ [carriage_return, newline] @
     ''Content-Type: text/plain; version=0.9; charset=utf-8'' @ [carriage_return, newline] @
     ''Content-Length: '' @ show_nat (length payload) @ [carriage_return, newline, carriage_return, newline] @ payload"

text \<open>
  The encoder of the library turns the registered metrics into bytes, or fails; what is not UTF-8 in
  them is replaced. The registry is that of the moment of the call.
\<close>

definition metrics_text :: "('r \<Rightarrow> string + bytes) \<Rightarrow> (bytes \<Rightarrow> string) \<Rightarrow> 'r \<Rightarrow> string + string" where
  "metrics_text encode_metrics from_utf8_lossy reg = bindR (encode_metrics reg) (\<lambda>buffer. Inr (from_utf8_lossy buffer))"

text \<open>
  The metrics server, over the outcomes of the calls of \<open>accept\<close>, a connection with the registry at its
  time or an error. The result is the list of responses, one per connection, and the error that ended the
  loop; \<open>None\<close> is a loop that still waits. Failures to write a response are ignored.
\<close>

fun serve_loop :: "('r \<Rightarrow> string + bytes) \<Rightarrow> (bytes \<Rightarrow> string) \<Rightarrow> (string + 'r) list \<Rightarrow> string list \<times> string option" where
  "serve_loop enc lossy [] = ([], None)"
| "serve_loop enc lossy (Inl e # accepts) = ([], Some e)"
| "serve_loop enc lossy (Inr reg # accepts) =
     (case enc reg of
        Inl e \<Rightarrow> ([], Some e)
      | Inr buf \<Rightarrow>
          (case serve_loop enc lossy accepts of (rs, result) \<Rightarrow> (metrics_response (lossy buf) # rs, result)))"

definition serve_metrics ::
  "(string \<Rightarrow> string + 'a) \<Rightarrow> ('a \<Rightarrow> string + unit) \<Rightarrow> ('r \<Rightarrow> string + bytes) \<Rightarrow> (bytes \<Rightarrow> string) \<Rightarrow> telemetry_config \<Rightarrow>
     (string + 'r) list \<Rightarrow> string list \<times> string option" where
  "serve_metrics parse bind_socket enc lossy config accepts =
     (case bindR (parse (metrics_bind config)) bind_socket of
        Inl e \<Rightarrow> ([], Some e)
      | Inr _ \<Rightarrow> serve_loop enc lossy accepts)"

text \<open>
  Every connection up to the first failure is answered with the text of its moment, in order, and the
  first failure to accept or to encode ends the server.
\<close>

lemma serve_loop_answers:
  "serve_loop enc lossy accepts = (rs, result) \<Longrightarrow>
     (\<exists>n \<le> length accepts. length rs = n \<and> (result = None \<longleftrightarrow> n = length accepts) \<and>
        (\<forall>i < n. \<exists>reg txt. accepts ! i = Inr reg \<and> metrics_text enc lossy reg = Inr txt \<and> rs ! i = metrics_response txt))"
proof (induction enc lossy accepts arbitrary: rs result rule: serve_loop.induct)
  case (3 enc lossy reg accepts)
  show ?case
  proof (cases "enc reg")
    case (Inr buf)
    obtain rs' where rest: "serve_loop enc lossy accepts = (rs', result)" and rs: "rs = metrics_response (lossy buf) # rs'"
      using "3.prems" Inr by (auto split: prod.splits)
    have IH: "length rs' \<le> length accepts" "result = None \<longleftrightarrow> length rs' = length accepts"
      "\<forall>i < length rs'. \<exists>reg txt. accepts ! i = Inr reg \<and> metrics_text enc lossy reg = Inr txt \<and> rs' ! i = metrics_response txt"
      using "3.IH" [OF Inr rest] by auto
    have "\<exists>reg' txt. (Inr reg # accepts) ! i = Inr reg' \<and> metrics_text enc lossy reg' = Inr txt \<and> rs ! i = metrics_response txt"
      if "i < length rs" for i
      using that IH(3) Inr by (cases i) (simp_all add: rs metrics_text_def)
    then show ?thesis using IH(1,2) by (intro exI [of _ "length rs"]) (auto simp: rs)
  qed (use "3.prems" in auto)
qed auto

text \<open>
  A registry refuses a name it has, so a process has one set of metrics: the construction fails at
  the first name once it has succeeded, whatever was registered since.
\<close>

lemma register_all_keeps:
  assumes "\<And>reg reg' name n. register reg name = Some reg' \<Longrightarrow> register reg n = None \<Longrightarrow> register reg' n = None"
    and "\<And>reg reg' name. register reg name = Some reg' \<Longrightarrow> register reg' name = None"
  shows "register_all register reg names = (reg', None) \<Longrightarrow> (\<forall>n \<in> set names. register reg' n = None) \<and>
    (\<forall>n. register reg n = None \<longrightarrow> register reg' n = None)"
proof (induction names arbitrary: reg)
  case (Cons name names)
  then obtain mid where mid: "register reg name = Some mid" "register_all register mid names = (reg', None)"
    by (auto split: option.splits)
  show ?case using Cons.IH [OF mid(2)] assms(1) [OF mid(1)] assms(2) [OF mid(1)] by auto
qed simp

lemma telemetry_once:
  assumes "\<And>reg reg' name n. register reg name = Some reg' \<Longrightarrow> register reg n = None \<Longrightarrow> register reg' n = None"
    and "\<And>reg reg' name. register reg name = Some reg' \<Longrightarrow> register reg' name = None"
    and "telemetry_new register as_f64 reg = (reg', Inr t)"
  shows "snd (telemetry_new register as_f64 reg') = Inl ''block_import_duration_ms''"
proof -
  have "register_all register reg METRIC_NAMES = (reg', None)"
    using assms(3) by (auto simp: telemetry_new_def split: prod.splits option.splits)
  then have "register reg' ''block_import_duration_ms'' = None"
    using register_all_keeps [OF assms(1,2)] by (fastforce simp: METRIC_NAMES_def)
  then show ?thesis by (simp add: telemetry_new_def METRIC_NAMES_def)
qed

end
