(* ===== verification/Daemon.thy ===== *)
theory Daemon
  imports Node_Config Telemetry Storage Consensus Rldp Dht Adnl
begin

text \<open>
  \<open>run_daemon\<close> of \<open>crates/node/onxd/src/lib.rs\<close>: the start of a node in the order of the code, with
  its errors, and the loop of the network task, one tick after the other until the shutdown. The
  environment of the process is a parameter: directories, files, the metrics registry, the
  parser of socket addresses, sockets and signals. The list of times says when the ticks happen.
\<close>

section \<open>The start\<close>

datatype daemon_error =
    StoragePathFailed string
  | StorageOpenFailed storage_failure
  | GenesisUnreadable string
  | GenesisEmpty string
  | TelemetryFailed string
  | InvalidBindAddress string
  | SecretKeyFailed primitive_error
  | BindFailed
  | EngineFailed consensus_error
  | SenderFailed network_error
  | SigtermFailed

record ('r, 'f, 'a) daemon_env =
  env_create_dir :: "string \<Rightarrow> bool"
  env_storage :: "string \<Rightarrow> store"
  env_read :: "string \<Rightarrow> bytes option"
  env_register :: "'r \<Rightarrow> string \<Rightarrow> 'r option"
  env_registry :: 'r
  env_as_f64 :: "64 word \<Rightarrow> 'f"
  env_parse_addr :: "string \<Rightarrow> 'a option"
  env_bind :: "'a \<Rightarrow> bool"
  env_sigterm :: bool

record 'a network =
  net_adnl :: "'a adnl_node"
  net_dht :: dht_daemon
  net_engine :: consensus_engine
  net_rldp :: sender

definition check_genesis :: "('r, 'f, 'a) daemon_env \<Rightarrow> string option \<Rightarrow> daemon_error + unit" where
  "check_genesis env path =
     (case path of
        None \<Rightarrow> Inr ()
      | Some p \<Rightarrow>
          (case env_read env p of
             None \<Rightarrow> Inl (GenesisUnreadable p)
           | Some genesis \<Rightarrow> if genesis = [] then Inl (GenesisEmpty p) else Inr ()))"

definition start_network :: "crypto \<Rightarrow> ('r, 'f, 'a) daemon_env \<Rightarrow> onxd_config \<Rightarrow> daemon_error + 'a network" where
  "start_network cr env config =
     bindR (ok_or (env_parse_addr env (network_bind config)) (InvalidBindAddress (network_bind config))) (\<lambda>addr.
     bindR (map_err SecretKeyFailed (sk_from_seed (replicate 32 1))) (\<lambda>secret_key.
     let public_key = sk_public_key cr secret_key in
     if \<not> env_bind env addr then Inl BindFailed
     else
       bindR (map_err EngineFailed (engine_new (shard_root BASIC) 0
         [\<lparr>validator_id = 0, v_public_key = public_key, actual_stake = 1\<rparr>] 0 timeouts_default)) (\<lambda>engine.
       bindR (map_err SenderFailed (sender_new cr 0 [0] rldp_config_default)) (\<lambda>rldp.
       Inr \<lparr>net_adnl = adnl_bind cr secret_key, net_dht = dht_new cr public_key, net_engine = engine, net_rldp = rldp\<rparr>))))"

text \<open>The transport the daemon gives to its hash table answers every call itself.\<close>

definition null_dht_transport :: "'n \<Rightarrow> contact \<Rightarrow> dht_rpc \<Rightarrow> 'n \<times> (network_error + dht_response)" where
  "null_dht_transport n recipient request = (n, Inr Pong)"

lemma null_query_round: "call env = null_dht_transport \<Longrightarrow> query_round cr env target d n known contacts = (d, n, known)"
  by (induction contacts) (simp_all add: null_dht_transport_def)

lemma null_lookup:
  "call env = null_dht_transport \<Longrightarrow> lookup_loop cr env target d n known queried = (d', n', found) \<Longrightarrow>
     d' = d \<and> set found \<subseteq> set known"
proof (induction cr env target d n known queried rule: lookup_loop.induct)
  case (1 cr env target d n known queried)
  let ?round = "take LOOKUP_ALPHA (filter (\<lambda>c. c \<notin> set queried) known)"
  let ?known = "take K_BUCKET_SIZE (sort_key (\<lambda>c. xor_distance (node_id c) target) known)"
  have sub: "set ?known \<subseteq> set known" using set_take_subset by fastforce
  show ?case
  proof (cases "?round = []")
    case True
    then show ?thesis using "1.prems"(2) unfolding lookup_loop.simps [of cr env target d n known queried] by (simp add: Let_def)
  next
    case False
    note q = null_query_round [OF "1.prems"(1), of cr target d n known ?round]
    show ?thesis
    proof (cases "best target known = best target ?known \<and> length (queried @ ?round) \<ge> length ?known")
      case True
      then show ?thesis
        using "1.prems"(2) sub False unfolding lookup_loop.simps [of cr env target d n known queried] by (simp add: Let_def q)
    next
      case more: False
      then have "lookup_loop cr env target d n ?known (queried @ ?round) = (d', n', found)"
        using "1.prems"(2) False unfolding lookup_loop.simps [of cr env target d n known queried]
        by (simp only: Let_def q prod.case if_False)
      then have "d' = d \<and> set found \<subseteq> set ?known"
        using "1.IH" [OF refl False refl _ _ refl refl more "1.prems"(1)] q by simp
      then show ?thesis using sub by blast
    qed
  qed
qed

section \<open>The loop\<close>

text \<open>One turn of the network task; \<open>None\<close> is a panic, which ends the task.\<close>

definition tick :: "(64 word \<Rightarrow> 'f) \<Rightarrow> 'f telemetry \<times> 'a network \<Rightarrow> u64 \<Rightarrow> ('f telemetry \<times> 'a network) option" where
  "tick as_f64 tn now =
     (let (t, n) = tn;
          (engine, timed_out) = on_timeout (net_engine n) now;
          t = (if timed_out then track_consensus_phase t else t);
          height = (case e_finalized engine of None \<Rightarrow> 0 | Some block \<Rightarrow> f_height block);
          t = set_block_height as_f64 t height
      in case next_round (net_rldp n) of
           None \<Rightarrow> None
         | Some (rldp, _) \<Rightarrow> Some (t, n\<lparr>net_engine := engine, net_rldp := rldp\<rparr>))"

fun run_ticks :: "(64 word \<Rightarrow> 'f) \<Rightarrow> 'f telemetry \<times> 'a network \<Rightarrow> u64 list \<Rightarrow> ('f telemetry \<times> 'a network) option" where
  "run_ticks as_f64 tn [] = Some tn"
| "run_ticks as_f64 tn (now # nows) =
     (case tick as_f64 tn now of None \<Rightarrow> None | Some tn \<Rightarrow> run_ticks as_f64 tn nows)"

datatype ('f, 'a) daemon_end =
    Idle "'f telemetry"
  | Ran "'f telemetry" "'a network"
  | TaskPanicked

definition run_daemon ::
  "crypto \<Rightarrow> ('r, 'f, 'a) daemon_env \<Rightarrow> onxd_config \<Rightarrow> u64 list \<Rightarrow> daemon_error + ('f, 'a) daemon_end" where
  "run_daemon cr env config nows =
     (if \<not> env_create_dir env (storage_path config) then Inl (StoragePathFailed (storage_path config))
      else
        bindR (map_err StorageOpenFailed (snd (open_store (env_storage env (storage_path config))))) (\<lambda>_.
        bindR (check_genesis env (bootstrap_genesis config)) (\<lambda>_.
        bindR (map_err TelemetryFailed (snd (telemetry_new (env_register env) (env_as_f64 env) (env_registry env)))) (\<lambda>metrics.
        let metrics = set_tx_pool_size (env_as_f64 env)
              (set_connected_peers (env_as_f64 env) metrics (word_of_nat (length (peers config)))) 0
        in bindR (if network_enabled config then bindR (start_network cr env config) (\<lambda>n. Inr (Some n)) else Inr None) (\<lambda>network_loop.
           if \<not> env_sigterm env then Inl SigtermFailed
           else Inr (case network_loop of
                  None \<Rightarrow> Idle metrics
                | Some n \<Rightarrow>
                    (case run_ticks (env_as_f64 env) (metrics, n) nows of
                       None \<Rightarrow> TaskPanicked
                     | Some (t, n) \<Rightarrow> Ran t n)))))))"

text \<open>
  The process: its exit code with what ended it. The command line is that of \<open>main.rs\<close>, and the signals and the
  timer that end a running daemon all end it without an error.
\<close>

definition onxd_main ::
  "crypto \<Rightarrow> ('r, 'f, 'a) daemon_env \<Rightarrow> (string \<Rightarrow> string option) \<Rightarrow> string list \<Rightarrow> u64 list \<Rightarrow>
     nat \<times> (config_error + daemon_error + ('f, 'a) daemon_end)" where
  "onxd_main cr env fs args nows =
     (case parse_cli_args fs args of
        Inl e \<Rightarrow> (2, Inl e)
      | Inr config \<Rightarrow>
          (case run_daemon cr env config nows of
             Inl e \<Rightarrow> (1, Inr (Inl e))
           | Inr ended \<Rightarrow> (0, Inr (Inr ended))))"

section \<open>The start succeeds where the environment does\<close>

definition daemon_secret :: "256 word" where
  "daemon_secret = from_be (replicate 32 1)"

definition daemon_sender :: "crypto \<Rightarrow> sender" where
  "daemon_sender cr = \<lparr>s_frames = frames_of cr 0 [0] 1024 1, s_transfer_id = 0, acknowledged = {}, last_ack_seq = 0,
     s_config = rldp_config_default, s_cursor = 0\<rparr>"

lemma daemon_transfer: "transfer_ok [0] 1024 1"
  by (simp add: transfer_ok_def MAX_TRANSFER_SIZE_def div_ceil_def)

lemma daemon_sender_new: "sender_new cr 0 [0] rldp_config_default = Inr (daemon_sender cr)"
  using daemon_transfer by (auto simp: sender_new_Inr daemon_sender_def rldp_config_default_def DEFAULT_CHUNK_SIZE_def)

definition daemon_engine :: "crypto \<Rightarrow> consensus_engine" where
  "daemon_engine cr =
     (let v = \<lparr>validator_id = 0, v_public_key = sk_public_key cr daemon_secret, actual_stake = 1\<rparr>
      in \<lparr>e_shard = shard_root BASIC, e_height = 0, e_validators = [(0, v)], e_total_stake = 1, e_timeouts = timeouts_default,
          round_started_at = 0, e_round = 0, e_step = SProposal, e_proposal = None, e_votes = [], e_finalized = None\<rparr>)"

definition fresh_network :: "crypto \<Rightarrow> 'a network" where
  "fresh_network cr = \<lparr>net_adnl = adnl_bind cr daemon_secret, net_dht = dht_new cr (sk_public_key cr daemon_secret),
     net_engine = daemon_engine cr, net_rldp = daemon_sender cr\<rparr>"

text \<open>The key, the engine and the transfer are constants of the code, and none of them can fail.\<close>

lemma start_network_result:
  "start_network cr env config =
     (case env_parse_addr env (network_bind config) of
        None \<Rightarrow> Inl (InvalidBindAddress (network_bind config))
      | Some addr \<Rightarrow> if env_bind env addr then Inr (fresh_network cr) else Inl BindFailed)"
proof -
  have key: "sk_from_seed (replicate 32 1) = Inr daemon_secret" by (simp add: sk_from_seed_def daemon_secret_def)
  have "engine_new (shard_root BASIC) 0 [\<lparr>validator_id = 0, v_public_key = sk_public_key cr daemon_secret, actual_stake = 1\<rparr>] 0
      timeouts_default = Inr (daemon_engine cr)"
    by (simp add: engine_new_def daemon_engine_def Let_def saturating_add_def)
  then show ?thesis
    by (auto simp: start_network_def key daemon_sender_new fresh_network_def Let_def split: option.split)
qed

section \<open>What the ticks change\<close>

definition idle :: "crypto \<Rightarrow> (64 word \<Rightarrow> 'f) \<Rightarrow> 'f \<Rightarrow> nat \<Rightarrow> 'f telemetry \<times> 'a network \<Rightarrow> bool" where
  "idle cr as_f64 pc k tn \<longleftrightarrow>
     (let (t, n) = tn; e = net_engine n in
      sender_ok cr 0 [0] 1024 1 (net_rldp n) \<and> e_finalized e = None \<and> e_step e = SProposal \<and>
      unat (e_round e) = min (2 ^ 32 - 1) (consensus_rounds t) \<and> consensus_rounds t \<le> k \<and>
      block_height t = as_f64 0 \<and> connected_peer_count t = pc \<and> transaction_pool_size t = as_f64 0 \<and>
      net_adnl n = adnl_bind cr daemon_secret \<and> net_dht n = dht_new cr (sk_public_key cr daemon_secret))"

lemma next_round_unat: "unat (saturating_add r (1 :: u32)) = min (2 ^ 32 - 1) (unat r + 1)"
  by (simp add: unat_saturating_add min.commute)

lemma tick_idle:
  assumes "idle cr as_f64 pc k tn"
  shows "\<exists>tn'. tick as_f64 tn now = Some tn' \<and> idle cr as_f64 pc (Suc k) tn'"
proof -
  obtain t n where tn: "tn = (t, n)" by fastforce
  obtain cur packets where round: "next_round (net_rldp n) = Some (net_rldp n\<lparr>s_cursor := cur\<rparr>, packets)"
    "sender_ok cr 0 [0] 1024 1 (net_rldp n\<lparr>s_cursor := cur\<rparr>)"
    using next_round_ok [OF daemon_transfer, of cr 0 "net_rldp n"] assms unfolding idle_def tn by (auto simp: Let_def)
  show ?thesis
    using assms round unfolding tn tick_def idle_def
    by (auto simp: Let_def on_timeout_def track_consensus_phase_def set_block_height_def next_round_unat)
qed

lemma run_ticks_idle:
  "idle cr as_f64 pc k tn \<Longrightarrow> \<exists>tn'. run_ticks as_f64 tn nows = Some tn' \<and> idle cr as_f64 pc (k + length nows) tn'"
proof (induction nows arbitrary: k tn)
  case (Cons now nows)
  obtain tn' where "tick as_f64 tn now = Some tn'" "idle cr as_f64 pc (Suc k) tn'" using tick_idle [OF Cons.prems] by blast
  then show ?case using Cons.IH [of "Suc k" tn'] by simp
qed auto

lemma fresh_idle:
  "idle cr as_f64 pc 0 (\<lparr>block_import_duration_ms = [], block_height = as_f64 0, connected_peer_count = pc,
     transaction_pool_size = as_f64 0, vm_gas_rate = [], cross_shard_router = 0, consensus_rounds = 0\<rparr>, fresh_network cr)"
  by (simp add: idle_def fresh_network_def daemon_engine_def daemon_sender_def sender_ok_def Let_def)

section \<open>Properties\<close>

text \<open>
  A started node keeps running and stays alone. With networking enabled, the start fails only for
  its directories, files, metrics, address, socket or signal handler; however long the task then
  runs and at whatever times it is woken, it does not panic. But nothing reaches its
  consensus engine: no block is ever finalized and the height it reports stays zero, rounds only
  time out, one for each phase it counts, its routing table and its sessions stay empty, and
  the number of connected peers it reports is the number of configured ones.
\<close>

theorem daemon_runs_alone:
  fixes env :: "('r, 'f, 'a) daemon_env"
  assumes "network_enabled config" "run_daemon cr env config nows = Inr out"
  shows "\<exists>t n. out = Ran t n \<and>
    e_finalized (net_engine n) = None \<and> block_height t = env_as_f64 env 0 \<and>
    unat (e_round (net_engine n)) = min (2 ^ 32 - 1) (consensus_rounds t) \<and> consensus_rounds t \<le> length nows \<and>
    concat (buckets (net_dht n)) = [] \<and> sessions (net_adnl n) = Map.empty \<and>
    connected_peer_count t = env_as_f64 env (word_of_nat (length (peers config)))"
proof -
  let ?count = "env_as_f64 env (word_of_nat (length (peers config)))"
  let ?t = "\<lparr>block_import_duration_ms = [], block_height = env_as_f64 env 0, connected_peer_count = ?count,
     transaction_pool_size = env_as_f64 env 0, vm_gas_rate = [], cross_shard_router = 0, consensus_rounds = 0\<rparr>"
  obtain metrics where m: "snd (telemetry_new (env_register env) (env_as_f64 env) (env_registry env)) = Inr metrics"
    and out: "out = (case run_ticks (env_as_f64 env) (set_tx_pool_size (env_as_f64 env)
        (set_connected_peers (env_as_f64 env) metrics (word_of_nat (length (peers config)))) 0, fresh_network cr) nows of
          None \<Rightarrow> TaskPanicked | Some (t, n) \<Rightarrow> Ran t n)"
    using assms by (auto simp: run_daemon_def Let_def bindR_Inr start_network_result split: if_splits option.splits)
  have t: "set_tx_pool_size (env_as_f64 env) (set_connected_peers (env_as_f64 env) metrics (word_of_nat (length (peers config)))) 0 = ?t"
    using m by (auto simp: telemetry_new_def set_tx_pool_size_def set_connected_peers_def split: prod.splits option.splits)
  obtain t n where run: "run_ticks (env_as_f64 env) (?t, fresh_network cr :: 'a network) nows = Some (t, n)"
    and idle: "idle cr (env_as_f64 env) ?count (0 + length nows) (t, n)"
    using run_ticks_idle [OF fresh_idle, of "env_as_f64 env" ?count cr nows] by auto
  have "concat (buckets (dht_new cr pk)) = []" "sessions (adnl_bind cr sk) = Map.empty" for pk sk
    by (simp_all add: dht_new_def adnl_bind_def Let_def)
  then show ?thesis using run idle unfolding out t idle_def by (auto simp: Let_def)
qed

definition sample_env :: "(string list, 64 word, string) daemon_env" where
  "sample_env = \<lparr>env_create_dir = (\<lambda>_. True), env_storage = (\<lambda>_. \<lparr>files = Map.empty, journal = None\<rparr>), env_read = (\<lambda>_. None),
     env_register = (\<lambda>reg name. if name \<in> set reg then None else Some (name # reg)), env_registry = [],
     env_as_f64 = (\<lambda>x. x), env_parse_addr = Some, env_bind = (\<lambda>_. True), env_sigterm = True\<rparr>"

theorem daemon_runs_alone_witness:
  "\<exists>t n. run_daemon toy_crypto sample_env (onxd_config_default\<lparr>peers := [''p1'', ''p2'']\<rparr>) [1, 5, 9] = Inr (Ran t n) \<and>
     e_finalized (net_engine n) = None \<and> connected_peer_count t = 2 \<and> sessions (net_adnl n) = Map.empty"
proof -
  let ?cfg = "onxd_config_default\<lparr>peers := [''p1'', ''p2'']\<rparr>"
  have "\<exists>out. run_daemon toy_crypto sample_env ?cfg [1, 5, 9] = Inr out"
    by (simp add: run_daemon_def onxd_config_default_def sample_env_def open_store_def recover_def check_genesis_def
        telemetry_new_def METRIC_NAMES_def Let_def start_network_result)
  then obtain out where out: "run_daemon toy_crypto sample_env ?cfg [1, 5, 9] = Inr out" by blast
  show ?thesis
    using daemon_runs_alone [OF _ out] unfolding out by (auto simp: onxd_config_default_def sample_env_def)
qed

end
