(* ===== verification/Gateway.thy ===== *)
theory Gateway
  imports Texts State_Tree
begin

text \<open>
  \<open>crates/node/onx-rpc/src/lib.rs\<close>: the gateway for clients, its methods, the dispatch of a request and
  the binary answer of the lite endpoint. JSON values and their accessors are a parameter, and so
  is the printing of an account for debugging. The web server that runs the routes is a parameter,
  with the parser of addresses and the listener.
\<close>

section \<open>The gateway\<close>

record 'j json_ops =
  json_get :: "'j \<Rightarrow> string \<Rightarrow> 'j option"
  json_as_str :: "'j \<Rightarrow> string option"
  json_object :: "(string \<times> 'j) list \<Rightarrow> 'j"
  json_string :: "string \<Rightarrow> 'j"
  json_number :: "nat \<Rightarrow> 'j"
  json_bool :: "bool \<Rightarrow> 'j"

record rpc_config =
  rpc_bind :: string
  cors_allowed_origin :: string
  max_rps :: u64

definition rpc_config_default :: rpc_config where
  "rpc_config_default = \<lparr>rpc_bind = ''127.0.0.1:8080'', cors_allowed_origin = ''*'', max_rps = 60\<rparr>"

record rpc_gateway =
  gw_config :: rpc_config
  gw_storage :: "string \<Rightarrow> account_state option"
  gw_throttle :: "string \<Rightarrow> u64 option"

definition gateway_new :: "rpc_config \<Rightarrow> rpc_gateway" where
  "gateway_new config = \<lparr>gw_config = config, gw_storage = Map.empty, gw_throttle = Map.empty\<rparr>"

definition get_account_state ::
  "'j json_ops \<Rightarrow> (account_state \<Rightarrow> string) \<Rightarrow> rpc_gateway \<Rightarrow> string \<Rightarrow> string + 'j" where
  "get_account_state J debug g address =
     Inr (json_object J [(''balance'', json_number J 0), (''address'', json_string J address),
       (''account_state'', json_string J (case gw_storage g address of Some st \<Rightarrow> debug st | None \<Rightarrow> ''uninitialized''))])"

definition send_message :: "'j json_ops \<Rightarrow> rpc_gateway \<Rightarrow> string \<Rightarrow> string + 'j" where
  "send_message J g raw_boc =
     (if trim raw_boc = [] then Inl ''empty raw_boc payload''
      else if (case gw_throttle g raw_boc of Some n \<Rightarrow> n | None \<Rightarrow> 0) \<ge> max_rps (gw_config g) then Inl ''rate limit exceeded''
      else Inr (json_object J [(''accepted'', json_bool J True),
        (''message_hash'', json_string J ''sha256:deterministic-synthetic''), (''fee'', json_number J 0)]))"

definition get_latest_block :: "'j json_ops \<Rightarrow> string + 'j" where
  "get_latest_block J =
     Inr (json_object J [(''block'', json_number J 0), (''workchain'', json_number J 0),
       (''shard'', json_string J ''0x8000_0000_0000_0000''), (''root_hash'', json_string J ''0x00'')])"

definition estimate_fee :: "'j json_ops \<Rightarrow> string \<Rightarrow> string + 'j" where
  "estimate_fee J raw_boc =
     Inr (json_object J [(''fee'', json_number J 0), (''gas_used'', json_number J 0), (''accepted'', json_bool J True)])"

section \<open>Requests\<close>

datatype status_code = StatusOk | BadRequest

record 'j rpc_response =
  http_status :: status_code
  rpc_ok :: bool
  rpc_result :: 'j

definition str_field :: "'j json_ops \<Rightarrow> 'j \<Rightarrow> string \<Rightarrow> string" where
  "str_field J v key =
     (case json_get J v key of
        None \<Rightarrow> []
      | Some x \<Rightarrow> (case json_as_str J x of None \<Rightarrow> [] | Some s \<Rightarrow> s))"

definition health :: "'j json_ops \<Rightarrow> status_code \<times> 'j" where
  "health J = (StatusOk, json_object J [(''ok'', json_bool J True)])"

definition request_params :: "'j json_ops \<Rightarrow> 'j \<Rightarrow> 'j" where
  "request_params J request = (case json_get J request ''params'' of Some p \<Rightarrow> p | None \<Rightarrow> json_object J [])"

definition rpc_json :: "'j json_ops \<Rightarrow> (account_state \<Rightarrow> string) \<Rightarrow> rpc_gateway \<Rightarrow> 'j \<Rightarrow> 'j rpc_response" where
  "rpc_json J debug g request =
     (let meth = str_field J request ''method'';
          params = request_params J request;
          response =
            (if meth = ''getAccountState'' then get_account_state J debug g (str_field J params ''address'')
             else if meth = ''sendMessage'' then send_message J g (str_field J params ''raw_boc'')
             else if meth = ''getLatestBlock'' then get_latest_block J
             else if meth = ''estimateFee'' then estimate_fee J (str_field J params ''raw_boc'')
             else Inr (json_object J [(''error'', json_string J ''unknown_method'')]))
      in case response of
           Inr r \<Rightarrow> \<lparr>http_status = StatusOk, rpc_ok = True, rpc_result = r\<rparr>
         | Inl e \<Rightarrow> \<lparr>http_status = BadRequest, rpc_ok = False, rpc_result = json_object J [(''error'', json_string J e)]\<rparr>)"

text \<open>The proof the lite endpoint answers with; \<open>None\<close> is a panic of \<open>unwrap\<close>.\<close>

definition lite_proof :: "crypto \<Rightarrow> merkle_proof option" where
  "lite_proof cr =
     (case cell_new [] [] of
        Inl _ \<Rightarrow> None
      | Inr c \<Rightarrow>
          (case boc_from_root cr c of
             Inl _ \<Rightarrow> None
           | Inr boc \<Rightarrow> Some \<lparr>magic_bytes = 0x4D505246, target_key = 0, proof_root_hash = 0, proof_boc = boc\<rparr>))"

text \<open>The bag has one cell, so its encoding has one order of entries.\<close>

definition lite_binary :: "crypto \<Rightarrow> bytes option" where
  "lite_binary cr =
     (case lite_proof cr of
        None \<Rightarrow> None
      | Some p \<Rightarrow>
          (case boc_cells (proof_boc p) (boc_root (proof_boc p)) of
             None \<Rightarrow> None
           | Some c \<Rightarrow> Some (proof_to_bytes p [(boc_root (proof_boc p), c)])))"

section \<open>The server\<close>

datatype http_method = Get | Post

datatype 'j http_response =
    JsonResponse status_code 'j
  | RpcResponse "'j rpc_response"
  | BytesResponse status_code string bytes
  | HandlerPanic

datatype cors_layer = CorsPermissive

text \<open>The routes of the application: a path, its method and the handler, which gets the decoded body.\<close>

definition app_routes ::
  "crypto \<Rightarrow> 'j json_ops \<Rightarrow> (account_state \<Rightarrow> string) \<Rightarrow> rpc_gateway \<Rightarrow> (string \<times> http_method \<times> ('j \<Rightarrow> 'j http_response)) list" where
  "app_routes cr J debug g =
     [(''/rpc'', Post, \<lambda>body. RpcResponse (rpc_json J debug g body)),
      (''/lite'', Post, \<lambda>_. case lite_binary cr of None \<Rightarrow> HandlerPanic
         | Some bs \<Rightarrow> BytesResponse StatusOk ''application/octet-stream'' bs),
      (''/health'', Get, \<lambda>_. case health J of (status, v) \<Rightarrow> JsonResponse status v)]"

record ('j, 'a, 'l) web_server =
  parse_socket_addr :: "string \<Rightarrow> string + 'a"
  bind_listener :: "'a \<Rightarrow> string + 'l"
  run_server :: "'l \<Rightarrow> cors_layer \<Rightarrow> (string \<times> http_method \<times> ('j \<Rightarrow> 'j http_response)) list \<Rightarrow> string + unit"

definition serve ::
  "('j, 'a, 'l) web_server \<Rightarrow> crypto \<Rightarrow> 'j json_ops \<Rightarrow> (account_state \<Rightarrow> string) \<Rightarrow> rpc_gateway \<Rightarrow> string + unit" where
  "serve W cr J debug g =
     bindR (parse_socket_addr W (rpc_bind (gw_config g))) (\<lambda>addr.
     bindR (bind_listener W addr) (\<lambda>listener.
     run_server W listener CorsPermissive (app_routes cr J debug g)))"

section \<open>Properties\<close>

text \<open>
  The gateway refuses a request only when it sends a message that is blank or over the limit of
  its text: then it answers with status 400 and an error; every other request, those for
  unknown methods included, is answered with status 200 and marked as a success.
\<close>

theorem rpc_refusals:
  "let send = str_field J request ''method'' = ''sendMessage'';
       raw = str_field J (request_params J request) ''raw_boc'';
       r = rpc_json J debug g request
   in (http_status r = BadRequest \<longleftrightarrow> send \<and> (trim raw = [] \<or> max_rps (gw_config g) \<le> (case gw_throttle g raw of Some n \<Rightarrow> n | None \<Rightarrow> 0))) \<and>
      (rpc_ok r \<longleftrightarrow> http_status r = StatusOk)"
  by (auto simp: rpc_json_def Let_def get_account_state_def send_message_def get_latest_block_def estimate_fee_def
      split: sum.split)

text \<open>
  No operation writes the throttle of a gateway, so the limit acts like a switch: with a limit of
  zero every message is refused, with any other none is, however many are sent.
\<close>

lemma throttle_never_counts:
  "trim raw \<noteq> [] \<Longrightarrow> (\<exists>e. send_message J (gateway_new config) raw = Inl e) \<longleftrightarrow> max_rps config = 0"
  by (simp add: send_message_def gateway_new_def)

text \<open>The proof of the lite endpoint names the root zero and not that of its bag, so it does not verify.\<close>

lemma lite_proof_invalid:
  assumes "cell_hash cr (plain_cell [] []) \<noteq> 0"
  shows "\<exists>p. lite_proof cr = Some p \<and> proof_verify p \<noteq> Inr ()"
  using assms by (simp add: lite_proof_def cell_new_plain boc_from_root_def Let_def proof_verify_Inr)

text \<open>
  The allowed origin of the configuration has no effect: a server with another one runs the same
  routes behind the same permissive layer.
\<close>

lemma allowed_origin_unused:
  "serve W cr J debug (g\<lparr>gw_config := (gw_config g)\<lparr>cors_allowed_origin := origin\<rparr>\<rparr>) = serve W cr J debug g"
proof -
  let ?g = "g\<lparr>gw_config := (gw_config g)\<lparr>cors_allowed_origin := origin\<rparr>\<rparr>"
  have "get_account_state J debug ?g = get_account_state J debug g" "send_message J ?g = send_message J g"
    by (rule ext, simp add: get_account_state_def send_message_def)+
  then have "rpc_json J debug ?g = rpc_json J debug g" by (intro ext) (simp only: rpc_json_def)
  then show ?thesis by (simp add: serve_def app_routes_def)
qed

end
