(* ===== verification/Error_Texts.thy ===== *)
theory Error_Texts
  imports Journal Output_Queue Sync Sharding Payment_Channels Economics Consensus Networking Interpreter
begin

text \<open>
  The texts of the errors: the \<open>Display\<close> implementations of every crate, which is what a node prints and a
  client of the gateway reads. Decimal numbers are \<^const>\<open>show_nat\<close>; the debug form of an array of bytes
  lists them in decimal, \<open>{:#06x}\<close> and its variants print as many hexadecimal digits as the type has.
  The lemmas show that a text determines the error with its numbers, and what wrapping an
  error in another one adds.
\<close>

section \<open>Formatting\<close>

definition show_word :: "'a::len word \<Rightarrow> string" where
  "show_word w = show_nat (unat w)"

text \<open>\<open>{:?}\<close> of \<open>[u8; 32]\<close> and of the newtype \<open>Uint256\<close>.\<close>

fun show_list :: "string list \<Rightarrow> string" where
  "show_list [] = []"
| "show_list [s] = s"
| "show_list (s # ss) = s @ '', '' @ show_list ss"

definition debug_array :: "hash32 \<Rightarrow> string" where
  "debug_array h = ''['' @ show_list (map show_word (encode h)) @ '']''"

definition debug_uint256 :: "hash32 \<Rightarrow> string" where
  "debug_uint256 h = ''Uint256('' @ debug_array h @ '')''"

definition show_hex :: "'a::len word \<Rightarrow> string" where
  "show_hex w = ''0x'' @ hex (encode w)"

fun debug_message_type :: "message_type \<Rightarrow> string" where
  "debug_message_type Internal = ''Internal''"
| "debug_message_type ExternalInbound = ''ExternalInbound''"
| "debug_message_type ExternalOutbound = ''ExternalOutbound''"

fun debug_account_type :: "account_type \<Rightarrow> string" where
  "debug_account_type Uninitialized_t = ''Uninitialized''"
| "debug_account_type Active_t = ''Active''"
| "debug_account_type Frozen_t = ''Frozen''"
| "debug_account_type Destroyed_t = ''Destroyed''"

section \<open>Primitives and data structures\<close>

fun primitive_text :: "primitive_error \<Rightarrow> string" where
  "primitive_text (Truncated expected actual) =
     ''truncated input: expected '' @ show_nat expected @ '' bytes, got '' @ show_nat actual"
| "primitive_text (TrailingBytes consumed actual) =
     ''trailing bytes: consumed '' @ show_nat consumed @ '' of '' @ show_nat actual @ '' available bytes''"
| "primitive_text (LengthOutOfRange declared m) =
     ''length prefix '' @ show_nat declared @ '' exceeds maximum '' @ show_nat m"
| "primitive_text NonCanonicalEncoding = ''non-canonical point or scalar encoding''"
| "primitive_text InvalidDomainTag = ''invalid domain separation tag''"
| "primitive_text SignatureVerificationFailed = ''signature verification failed''"

fun data_structure_text :: "data_structure_error \<Rightarrow> string" where
  "data_structure_text (Primitive e) = ''Primitive error: '' @ primitive_text e"
| "data_structure_text InvalidShardMarker = ''Invalid shard identifier: missing binary '' @ [CHR 0x27] @ ''1'' @ [CHR 0x27] @ '' marker bit''"
| "data_structure_text (ShardPrefixLengthExceeded n) =
     ''Shard prefix length '' @ show_nat n @ '' exceeds maximum of 60 bits''"
| "data_structure_text AddressShardMismatch = ''Account address does not match active shard prefix''"
| "data_structure_text (InvalidMessageType tag) = ''Invalid message type tag: '' @ show_hex tag"
| "data_structure_text (HeaderMagicMismatch magic) =
     ''Header magic constructor mismatch: expected 0x1F2E3D4C, got '' @ show_hex magic"
| "data_structure_text MergeParentReferenceInconsistency =
     ''Merge parent reference inconsistency between prev_ref_hash_2 and MERGE_RESULT flag''"
| "data_structure_text (TruncatedInput expected got) =
     ''Truncated input: expected at least '' @ show_nat expected @ '' bytes, got '' @ show_nat got"
| "data_structure_text (TrailingInput remaining) =
     ''Unexpected trailing bytes: '' @ show_nat remaining @ '' bytes left''"

section \<open>State and storage\<close>

text \<open>The texts the code of the state model formats for three of its errors.\<close>

fun sm_text_string :: "sm_text \<Rightarrow> string" where
  "sm_text_string (Text s) = s"
| "sm_text_string (PrimitiveText e) = primitive_text e"
| "sm_text_string (TruncatedCellText required actual) =
     ''Truncated Cell payload: expected '' @ show_nat required @ '' bytes, got '' @ show_nat actual"
| "sm_text_string (TransitionText cur nxt) =
     ''Invalid state transition from '' @ debug_account_type cur @ '' to '' @ debug_account_type nxt"
| "sm_text_string (BalanceText expected found) =
     ''Expected next state balance '' @ show_word expected @ '', found '' @ show_word found"
| "sm_text_string (MagicText expected got) =
     ''Invalid magic bytes: expected '' @ show_hex expected @ '', got '' @ show_hex got"
| "sm_text_string (RootText proof expected) =
     ''Proof root hash '' @ debug_array proof @ '' does not match expected root hash '' @ debug_array expected"

fun state_model_text :: "state_model_error \<Rightarrow> string" where
  "state_model_text InvalidDescriptor = ''Invalid cell descriptor bytes''"
| "state_model_text (DataTooLarge n m) = ''Cell data length '' @ show_nat n @ '' exceeds maximum allowed '' @ show_nat m"
| "state_model_text (TooManyReferences n m) =
     ''Cell reference count '' @ show_nat n @ '' exceeds maximum allowed '' @ show_nat m"
| "state_model_text (DeserializationError msg) = ''Deserialization error: '' @ sm_text_string msg"
| "state_model_text (CellTrailingBytes remaining) = ''Trailing bytes remaining after deserialization: '' @ show_nat remaining"
| "state_model_text (InvalidStateType code) = ''Invalid account state type u8: '' @ show_hex code"
| "state_model_text (InvalidStateTransition msg) = ''Invalid state transition: '' @ sm_text_string msg"
| "state_model_text (state_model_error.LogicalTimeRegression cur nxt) =
     ''Logical time regression: new lt '' @ show_word nxt @ '' <= current lt '' @ show_word cur"
| "state_model_text BalanceUnderflow = ''Balance underflow: balance cannot be negative''"
| "state_model_text CyclicCellReference = ''Cyclic cell reference detected in Bag-of-Cells''"
| "state_model_text (StateRootMismatch expected actual) =
     ''State root mismatch: expected '' @ debug_array expected @ '', actual '' @ debug_array actual"
| "state_model_text (InvalidMerkleProof msg) = ''Invalid Merkle proof: '' @ sm_text_string msg"

text \<open>Failures of the operating system, whose text is not the program's, are not in the model.\<close>

fun storage_text :: "storage_error \<Rightarrow> string" where
  "storage_text (StorageState e) = ''state error: '' @ state_model_text e"
| "storage_text (Corrupt e) = ''corrupt persisted state: '' @ e"
| "storage_text (storage_error.RootMismatch expected actual) = ''block state root does not match supplied state''"


section \<open>Messages and blocks\<close>

fun transactions_text :: "transactions_error \<Rightarrow> string" where
  "transactions_text (WrongMessageType expected actual) =
     ''message admitted via wrong handler: expected '' @ debug_message_type expected @ '', got '' @ debug_message_type actual"
| "transactions_text NonZeroExternalValue = ''External Inbound message carries non-zero value''"
| "transactions_text UnsortedExtraCurrencies =
     ''extra_currencies pairs are not in strictly ascending currency_id order''"
| "transactions_text (DuplicateCurrencyId currency_id) =
     ''extra_currencies contains duplicate currency_id '' @ show_word currency_id"
| "transactions_text TentativeSignatureInvalid = ''External Inbound message failed tentative signature verification''"
| "transactions_text (TentativeGasLimitExceeded used limit) =
     ''tentative execution gas '' @ show_word used @ '' exceeds MAX_TENTATIVE_GAS '' @ show_word limit"
| "transactions_text InternalSourceNotActive = ''Internal message source account is not Active''"
| "transactions_text DuplicateDelivery = ''message representation hash already present in processed_msg_hashes''"
| "transactions_text (FifoOrderViolation previous_lt next_lt) =
     ''FIFO order violation: lt '' @ show_word next_lt @ '' did not strictly follow lt '' @ show_word previous_lt"
| "transactions_text (LaneTimeRegression previous_lt next_lt) =
     ''logical time regression in output-queue lane: lt '' @ show_word next_lt @ '' <= previous lt '' @ show_word previous_lt"
| "transactions_text IncompatibleRoute = ''hypercube route requires equal-depth shards in one workchain''"
| "transactions_text RouteEndpointMismatch = ''message endpoint does not belong to its routing shard''"
| "transactions_text InvalidHypercubeHop = ''route contains a non-neighboring hypercube hop''"
| "transactions_text (InsufficientTransitFee available required) =
     ''message value '' @ show_word available @ '' is insufficient for transit fee '' @ show_word required"
| "transactions_text ExpiryOverflow = ''cross-workchain message expiry overflows logical time''"

fun blocks_text :: "blocks_error \<Rightarrow> string" where
  "blocks_text (DataStructure e) = ''data structure error: '' @ data_structure_text e"
| "blocks_text UnresolvableParent = ''declared parent reference does not match the resolved parent block''"
| "blocks_text (SequenceDiscontinuity expected actual) =
     ''sequence discontinuity: expected seq_no '' @ show_word expected @ '', got '' @ show_word actual"
| "blocks_text NonMonotonicTime = ''non-monotonic time: gen_utime regressed or start_lt/end_lt is inconsistent''"
| "blocks_text blocks_error.RootMismatch =
     ''recomputed root does not match header'' @ [CHR 0x27] @ ''s declared value''"
| "blocks_text (ConflictingSplitMergeFlags fl) =
     ''more than one split/merge announcement flag set: '' @ show_hex fl"
| "blocks_text (ReservedFlagBitSet fl) = ''reserved flags bit set: '' @ show_hex fl"
| "blocks_text InvalidSuccessorAfterCommit =
     ''block claims an ordinary successor relationship to a SPLIT_COMMIT/MERGE_COMMIT parent''"
| "blocks_text UnsortedShardEntries = ''Masterchain Block Extra shard_entries are not sorted''"
| "blocks_text DuplicateShardEntry = ''Masterchain Block Extra contains more than one entry for the same shard''"
| "blocks_text InvalidMasterchainReference = ''master_ref_hash does not resolve correctly''"

fun sync_text :: "sync_error \<Rightarrow> string" where
  "sync_text (BlockError e) = ''block validation failed: '' @ blocks_text e"
| "sync_text (DuplicateBlock h) = ''block '' @ debug_uint256 h @ '' is already indexed''"
| "sync_text (MissingParent h) = ''parent block '' @ debug_uint256 h @ '' is unavailable''"
| "sync_text (MissingMasterchainProof h) = ''masterchain block '' @ debug_uint256 h @ '' is unavailable''"
| "sync_text MissingMasterchainExtra = ''masterchain block has no shard configuration''"
| "sync_text UnexpectedMasterchainExtra = ''shardchain block carries masterchain-only data''"
| "sync_text MissingCanonicalityProof = ''shardchain block has no canonicality proof''"
| "sync_text UnexpectedCanonicalityProof = ''masterchain block carries a canonicality proof''"
| "sync_text (InvalidCanonicalityProof h) =
     ''masterchain block '' @ debug_uint256 h @ '' does not commit the shard block''"

section \<open>Consensus, shards, economics, channels, execution and network\<close>

fun consensus_text :: "consensus_error \<Rightarrow> string" where
  "consensus_text InvalidCandidateStake = ''Proposed candidate stake must be greater than zero''"
| "consensus_text InvalidLoadFactor = ''Load factor out of valid range''"
| "consensus_text DuplicateCandidate = ''Candidate public key was submitted more than once''"
| "consensus_text EmptyValidatorSet = ''Validator election produced no active validators''"
| "consensus_text InsufficientQuorumStake = ''Signed stake is less than 2/3 BFT quorum threshold''"
| "consensus_text consensus_error.InvalidSignature = ''Invalid validator signature''"
| "consensus_text DuplicateValidatorSignature = ''Duplicate validator signature in vote aggregation''"
| "consensus_text InvalidSignatureDepth = ''Signature depth exceeds block sequence number''"
| "consensus_text InvalidityProofVerificationFailed = ''Invalidity proof verification failed''"
| "consensus_text ChallengeWindowExpired = ''Block age exceeds 2-month challenge window''"
| "consensus_text DoubleSigningDetected = ''Double-signing misconduct detected''"
| "consensus_text UnknownValidator = ''Vote was submitted by a validator outside the task group''"
| "consensus_text InvalidLeader = ''Proposal was not signed by the scheduled leader''"
| "consensus_text InvalidRound = ''Consensus message belongs to a different round''"
| "consensus_text InvalidStep = ''Consensus message is invalid for the current step''"
| "consensus_text ConflictingProposal = ''A different block was proposed for the active round''"

fun sharding_text :: "sharding_error \<Rightarrow> string" where
  "sharding_text InvalidShardPrefixLength = ''Shard prefix length exceeds maximum limit of 60 bits''"
| "sharding_text NonPartitioningLeaves = ''Active shard leaves do not form a non-overlapping partition''"
| "sharding_text AnnouncementSequenceViolation = ''Split or merge announcement commit timing rule violated''"
| "sharding_text TaskGroupDriftExceeded = ''Validator task-group assignment drift exceeds 1 rotation''"
| "sharding_text InvalidMergeSiblings = ''Merging shards are not valid binary siblings''"
| "sharding_text AccountOutsideShard = ''Account does not belong to the source shard''"
| "sharding_text MessageOutsideShard = ''Pending message destination does not belong to the source shard''"

fun economics_text :: "economics_error \<Rightarrow> string" where
  "economics_text ZeroDenominator = ''Denominator in economic rate must not be zero''"
| "economics_text SupplyCapExceeded = ''Total token supply cap exceeded''"
| "economics_text InvalidFeeRate = ''Invalid fee rate or burn ratio''"
| "economics_text InvalidValidatorStake = ''Validator stake must be greater than zero''"
| "economics_text DuplicateValidator = ''Validator identifier appears more than once''"

fun channel_text :: "channel_error \<Rightarrow> string" where
  "channel_text channel_error.InvalidSignature = ''Invalid participant signature''"
| "channel_text NonIncreasingSequence = ''Sequence number is not strictly increasing''"
| "channel_text AllocationExceedsDeposit = ''Total allocation exceeds locked deposit''"
| "channel_text ExpiredCondition = ''Condition or promise has expired''"
| "channel_text MismatchedChannelId = ''Mismatched channel identifier''"
| "channel_text InvalidProof = ''Invalid Merkle proof or pruned cell''"
| "channel_text ChallengePeriodActive = ''Uncooperative challenge period is still active''"
| "channel_text ChallengePeriodExpired = ''Challenge period has already expired''"

fun exception_text :: "exception_kind \<Rightarrow> string" where
  "exception_text OutOfGas = ''OutOfGas''"
| "exception_text IntegerOverflow = ''IntegerOverflow''"
| "exception_text AbsentNode = ''AbsentNode''"
| "exception_text MalformedCell = ''MalformedCell''"
| "exception_text TypeMismatch = ''TypeMismatch''"

fun network_text :: "network_error \<Rightarrow> string" where
  "network_text TruncatedPacket = ''Packet size is smaller than required header length''"
| "network_text AbstractAddressMismatch = ''Abstract address preimage SHA-256 hash mismatch''"
| "network_text DecryptionFailed = ''Payload decryption or integrity check failed''"
| "network_text InvalidPacketSignature = ''Invalid packet digital signature''"
| "network_text ExpiredTimestamp = ''Packet timestamp is outside valid window''"
| "network_text ZeroChannelAbuse = ''Non-bootstrap payload transmitted over zero-channel''"
| "network_text MalformedRldpFrame = ''Malformed RLDP chunk or message frame''"
| "network_text PayloadDigestMismatch = ''RLDP payload SHA-256 digest mismatch''"
| "network_text RldpTimeout = ''RLDP transfer timed out before acknowledgement''"
| "network_text DhtRecordExpired = ''DHT record has expired''"
| "network_text DhtMalformedRecord = ''Malformed DHT record''"
| "network_text DhtUnknownRecordKind = ''Unknown DHT record kind''"
| "network_text DhtRpcFailed = ''DHT RPC failed''"


section \<open>A text determines its error\<close>

definition digit :: "char \<Rightarrow> bool" where
  "digit c \<longleftrightarrow> (\<exists>d < 10. c = digit_char d)"

lemma digit_code: "digit c \<longleftrightarrow> of_char c \<in> {48..57::nat}"
proof
  assume "of_char c \<in> {48..57::nat}"
  then have "of_char c - 48 < (10::nat)" "c = digit_char (of_char c - 48)"
    by (auto simp: digit_char_def)
  then show "digit c" unfolding digit_def by blast
qed (auto simp: digit_def digit_char_def)

text \<open>A number ends where the text goes on with something that is not a digit.\<close>

lemma show_nat_prefix:
  assumes "show_nat a @ x = show_nat b @ y" "x = [] \<or> \<not> digit (hd x)" "y = [] \<or> \<not> digit (hd y)"
  shows "a = b \<and> x = y"
proof -
  have digits: "takeWhile digit (show_nat n @ z) = show_nat n" if "z = [] \<or> \<not> digit (hd z)" for n z
    using that show_nat_digits [of _ n] by (cases z) (auto simp: takeWhile_append2 digit_def)
  have "show_nat a = show_nat b" using digits [OF assms(2), of a] digits [OF assms(3), of b] assms(1) by simp
  then show ?thesis using assms(1) show_nat_inj by auto
qed

lemma show_nat_sep:
  "\<not> digit c \<Longrightarrow> \<not> digit c' \<Longrightarrow> show_nat a @ c # x = show_nat b @ c' # y \<longleftrightarrow> a = b \<and> c = c' \<and> x = y"
  using show_nat_prefix [of a "c # x" b "c' # y"] by auto

lemma digit_chars [simp]: "\<not> digit CHR '' ''" "\<not> digit CHR '',''" "\<not> digit CHR '']''"
  by (simp_all add: digit_code)

lemma show_word_sep:
  "\<not> digit c \<Longrightarrow> \<not> digit c' \<Longrightarrow> show_word a @ c # x = show_word b @ c' # y \<longleftrightarrow> a = b \<and> c = c' \<and> x = y"
  "show_word a = show_word b \<longleftrightarrow> a = b"
  by (auto simp: show_word_def show_nat_sep show_nat_inj word_unat_eq_iff)

lemmas number_ends = show_nat_sep show_nat_inj show_word_sep

lemma primitive_text_inj: "primitive_text e = primitive_text e' \<longleftrightarrow> e = e'"
  by (cases e; cases e') (simp_all add: number_ends)

lemma show_hex_inj: "8 dvd LENGTH('a) \<Longrightarrow> show_hex v = show_hex w \<longleftrightarrow> v = (w :: 'a::len word)"
proof
  assume "8 dvd LENGTH('a)" "show_hex v = show_hex w"
  then have "from_be (encode v) = (from_be (encode w) :: 'a word)"
    using hex_inj [of "encode v" "encode w"] by (simp add: show_hex_def)
  then show "v = w" using \<open>8 dvd LENGTH('a)\<close> by simp
qed simp


lemma data_structure_text_inj: "data_structure_text e = data_structure_text e' \<longleftrightarrow> e = e'"
  by (cases e; cases e') (simp_all add: number_ends show_hex_inj primitive_text_inj)

lemma debug_message_type_inj: "debug_message_type t = debug_message_type t' \<longleftrightarrow> t = t'"
  by (cases t; cases t') simp_all

lemma debug_message_type_sep:
  "debug_message_type t @ CHR '','' # x = debug_message_type t' @ CHR '','' # y \<longleftrightarrow> t = t' \<and> x = y"
  by (cases t; cases t') simp_all

lemma transactions_text_inj: "transactions_text e = transactions_text e' \<longleftrightarrow> e = e'"
  by (cases e; cases e') (auto simp: number_ends debug_message_type_inj debug_message_type_sep)

lemma blocks_text_inj: "blocks_text e = blocks_text e' \<longleftrightarrow> e = e'"
  by (cases e; cases e') (simp_all add: number_ends show_hex_inj data_structure_text_inj)

text \<open>Arrays are read back up to the closing bracket.\<close>

lemma show_word_digit: "show_word w = [] \<longleftrightarrow> False" "digit (hd (show_word w @ x))"
proof -
  obtain c cs where c: "show_nat (unat w) = c # cs" using show_nat_nonempty [of "unat w"] by (cases "show_nat (unat w)") auto
  then have "digit c" using show_nat_digits [of c "unat w"] by (simp add: digit_def)
  then show "show_word w = [] \<longleftrightarrow> False" "digit (hd (show_word w @ x))" using c by (simp_all add: show_word_def)
qed

lemma bracket_first: "CHR '']'' # x = show_word w @ y \<longleftrightarrow> False" "show_word w @ y = CHR '']'' # x \<longleftrightarrow> False"
  using show_word_digit(2) [of w y] digit_chars(3) by (metis list.sel(1))+

lemma show_list_sep:
  fixes as bs :: "byte list"
  shows "show_list (map show_word as) @ CHR '']'' # x = show_list (map show_word bs) @ CHR '']'' # y \<longleftrightarrow> as = bs \<and> x = y"
proof (induction as arbitrary: bs rule: induct_list012)
  case 1
  show ?case
    by (cases "map show_word bs" rule: show_list.cases) (auto simp: bracket_first)
next
  case (2 a)
  show ?case
    by (cases "map show_word bs" rule: show_list.cases) (auto simp: bracket_first number_ends Cons_eq_map_conv map_eq_Cons_conv)
next
  case (3 a a' as)
  show ?case
  proof (cases bs rule: remdups_adj.cases)
    case (3 b b' bs')
    then show ?thesis using "3.IH"(2) [of "b' # bs'"] by (auto simp: number_ends)
  qed (auto simp: bracket_first number_ends)
qed

lemma debug_uint256_sep: "debug_uint256 h @ x = debug_uint256 h' @ y \<longleftrightarrow> h = h' \<and> x = y"
proof
  assume "debug_uint256 h @ x = debug_uint256 h' @ y"
  then have e: "encode h = encode h'" and xy: "x = y"
    by (simp_all add: debug_uint256_def debug_array_def show_list_sep)
  have "(from_be (encode h) :: 256 word) = from_be (encode h')" by (simp only: e)
  then show "h = h' \<and> x = y" using xy by simp
qed simp

lemma debug_uint256_inj: "debug_uint256 h = debug_uint256 h' \<longleftrightarrow> h = h'"
  using debug_uint256_sep [of h "[]" h' "[]"] by simp

lemma debug_uint256_first: "debug_uint256 h @ x = c # y \<Longrightarrow> c = CHR ''U''"
  by (simp add: debug_uint256_def)

lemma sync_text_inj: "sync_text e = sync_text e' \<longleftrightarrow> e = e'"
  by (cases e; cases e')
    (auto simp: debug_uint256_sep debug_uint256_inj blocks_text_inj dest: debug_uint256_first debug_uint256_first [OF sym])

end
