(* ===== verification/Client_Tools.thy ===== *)
theory Client_Tools
  imports Error_Texts Elections
begin

text \<open>
  \<open>crates/tooling/onx-cli\<close> and \<open>contracts/system/src\<close>: the wallet, the payloads and the commands of the
  command line client, and the system contracts with their default parameters. The mnemonic codes,
  the JSON writer, the hexadecimal writer, the debug form of a string, the parser of the command
  line and the file system are parameters; their errors are texts.
\<close>

section \<open>The wallet\<close>

record wallet_create_response =
  wallet :: string
  mnemonic :: "string list"
  public_key_hex :: string

record 'm cli_env =
  generate_12 :: "string + string list"
  parse_phrase :: "string \<Rightarrow> string + 'm"
  to_seed :: "'m \<Rightarrow> bytes"
  hex_encode :: "bytes \<Rightarrow> string"
  debug_string :: "string \<Rightarrow> string"
  json_pretty :: "wallet_create_response \<Rightarrow> string + string"
  fs_create_dir_all :: "string \<Rightarrow> string + unit"
  fs_write :: "string \<Rightarrow> string \<Rightarrow> string + unit"

fun join_words :: "string list \<Rightarrow> string" where
  "join_words [] = []"
| "join_words [w] = w"
| "join_words (w # ws) = w @ '' '' @ join_words ws"

definition mnemonic_words :: "'m cli_env \<Rightarrow> string + string list" where
  "mnemonic_words E = generate_12 E"

text \<open>The seed of a mnemonic has 64 bytes, of which the first 32 are the key.\<close>

definition derive_ed25519_key_from_mnemonic :: "'m cli_env \<Rightarrow> string list \<Rightarrow> string + 256 word" where
  "derive_ed25519_key_from_mnemonic E words =
     bindR (parse_phrase E (join_words words)) (\<lambda>m.
     map_err primitive_text (sk_from_seed (take 32 (to_seed E m))))"

text \<open>The files written, at most one, and the result. The file holds what the response holds.\<close>

definition wallet_create ::
  "crypto \<Rightarrow> 'm cli_env \<Rightarrow> string \<Rightarrow> (string \<times> string) list \<times> (string + wallet_create_response)" where
  "wallet_create cr E out_dir =
     (let r = bindR (mnemonic_words E) (\<lambda>words.
            bindR (derive_ed25519_key_from_mnemonic E words) (\<lambda>secret.
            let res = \<lparr>wallet = ''wallet-000'', mnemonic = words, public_key_hex = hex_encode E (encode (sk_public_key cr secret))\<rparr> in
            bindR (fs_create_dir_all E out_dir) (\<lambda>_.
            bindR (json_pretty E res) (\<lambda>json. Inr (res, json)))));
          path = out_dir @ ''/wallet.json''
      in case r of
           Inl e \<Rightarrow> ([], Inl e)
         | Inr (res, json) \<Rightarrow>
             (case fs_write E path json of
                Inl e \<Rightarrow> ([], Inl e)
              | Inr _ \<Rightarrow> ([(path, json)], Inr res)))"

definition balance_query :: "string \<Rightarrow> string" where
  "balance_query addr = ''balance_for:'' @ addr"

section \<open>Payloads\<close>

text \<open>\<open>str::as_bytes\<close>, the UTF-8 code of characters below 256.\<close>

definition utf8_char :: "char \<Rightarrow> bytes" where
  "utf8_char c =
     (let n = of_char c :: nat in
      if n < 128 then [word_of_nat n] else [word_of_nat (192 + n div 64), word_of_nat (128 + n mod 64)])"

definition as_bytes :: "string \<Rightarrow> bytes" where
  "as_bytes s = concat (map utf8_char s)"

definition serialize_boc_transfer :: "string \<Rightarrow> string \<Rightarrow> u64 \<Rightarrow> bytes" where
  "serialize_boc_transfer src dst amount =
     ascii ''ONX_BOC_TRANSFER'' @ as_bytes src @ [0] @ as_bytes dst @ [0] @ rev (to_be amount)"

definition deploy_contract_boc :: "string \<Rightarrow> string \<Rightarrow> bytes" where
  "deploy_contract_boc src code = ascii ''ONX_BOC_DEPLOY'' @ as_bytes src @ [0] @ as_bytes code @ [0]"

section \<open>Commands\<close>

datatype wallet_command = Create | Balance string

datatype command =
    Wallet wallet_command
  | Transfer string string u64 "string option"
  | DeployContract string string "string option"

text \<open>What the process prints on its two streams, and its exit code.\<close>

record process_end =
  printed :: string
  complained :: string
  exit_code :: nat

definition exit_ok :: "string \<Rightarrow> process_end" where
  "exit_ok msg = \<lparr>printed = msg @ [newline], complained = [], exit_code = 0\<rparr>"

definition exit_failed :: "string \<Rightarrow> process_end" where
  "exit_failed msg = \<lparr>printed = [], complained = msg @ [newline], exit_code = 1\<rparr>"

text \<open>\<open>{:?}\<close> of a list of strings and of a byte string, and the suffix that repeats the \<open>--rpc\<close> option.\<close>

definition debug_words :: "'m cli_env \<Rightarrow> string list \<Rightarrow> string" where
  "debug_words E words = ''['' @ show_list (map (debug_string E) words) @ '']''"

definition debug_bytes :: "bytes \<Rightarrow> string" where
  "debug_bytes bs = ''['' @ show_list (map show_word bs) @ '']''"

definition boc_line :: "bytes \<Rightarrow> string option \<Rightarrow> string" where
  "boc_line boc rpc = ''boc='' @ debug_bytes boc @ (case rpc of None \<Rightarrow> [] | Some r \<Rightarrow> '' rpc='' @ r)"

fun cli_main :: "crypto \<Rightarrow> 'm cli_env \<Rightarrow> command \<Rightarrow> (string \<times> string) list \<times> process_end" where
  "cli_main cr E (Wallet Create) =
     (case wallet_create cr E ''target/onx-cli-wallet'' of
        (written, Inr resp) \<Rightarrow>
          (written, exit_ok (''wallet='' @ wallet resp @ '' mnemonic='' @ debug_words E (mnemonic resp) @
             '' public_key='' @ public_key_hex resp))
      | (written, Inl e) \<Rightarrow> (written, exit_failed (''wallet create failed: '' @ e)))"
| "cli_main cr E (Wallet (Balance address)) = ([], exit_ok (balance_query address))"
| "cli_main cr E (Transfer src dst amount rpc) = ([], exit_ok (boc_line (serialize_boc_transfer src dst amount) rpc))"
| "cli_main cr E (DeployContract src code rpc) = ([], exit_ok (boc_line (deploy_contract_boc src code) rpc))"

section \<open>System contracts\<close>

record config_parameters =
  gas_per_cell :: u64
  consensus_timeout_ms :: u64
  param_validator_cap :: nat

definition config_parameters_default :: config_parameters where
  "config_parameters_default = \<lparr>gas_per_cell = 1000, consensus_timeout_ms = 1000, param_validator_cap = 100\<rparr>"

record storage_root_config =
  workchain_id :: "32 word"
  shard_prefix :: string
  gas_rate :: u64

definition storage_root_config_default :: storage_root_config where
  "storage_root_config_default = \<lparr>workchain_id = 0, shard_prefix = ''0x8000_0000_0000_0000'', gas_rate = 1000\<rparr>"

record validator_set_entry_stub =
  stub_validator_id :: u32
  stub_public_key_hex :: string
  stub_actual_stake :: u64

definition run_elector_contract ::
  "(bytes \<Rightarrow> string) \<Rightarrow> candidate_validator_spec list \<Rightarrow> consensus_error + validator_set_entry_stub list" where
  "run_elector_contract hexed candidates =
     bindR (run_election candidates election_config_default) (\<lambda>result.
     Inr (map (\<lambda>v. \<lparr>stub_validator_id = validator_id v, stub_public_key_hex = hexed (encode (v_public_key v)),
        stub_actual_stake = actual_stake v\<rparr>) (r_validators result)))"

section \<open>The payloads determine what they carry\<close>

lemma of_char_256: "(of_char c :: nat) < 256"
proof -
  have "(char_of (of_char c :: nat) :: char) = c" by simp
  have "(of_char c :: nat) = of_char c mod 256" using of_char_mod_256 [of c, where ?'a = nat] by simp
  then show ?thesis by (metis mod_less_divisor zero_less_numeral)
qed

lemma utf8_units:
  "map unat (utf8_char c) =
     (if (of_char c :: nat) < 128 then [of_char c] else [192 + of_char c div 64, 128 + of_char c mod 64])"
proof -
  have w: "unat (word_of_nat m :: byte) = m" if "m < 256" for m using that by (simp add: unsigned_of_nat take_bit_eq_mod)
  have "192 + of_char c div 64 < (256 :: nat)" "128 + of_char c mod 64 < (256 :: nat)" using of_char_256 [of c] by linarith simp
  then show ?thesis using w [of "of_char c"] w [of "192 + of_char c div 64"] w [of "128 + of_char c mod 64"]
    by (simp add: utf8_char_def Let_def)
qed

lemma unit_cases:
  assumes "(if m < 128 then [m] else [192 + m div 64, 128 + m mod 64]) @ s = (if n < 128 then [n] else [192 + n div 64, 128 + n mod 64]) @ t"
  shows "m = n \<and> s = (t :: nat list)"
proof -
  have same: "m = n" if "m div 64 = n div 64" "m mod 64 = n mod 64" using that by (metis div_mult_mod_eq)
  show ?thesis
  proof (cases "m < 128"; cases "n < 128")
    assume "\<not> m < 128" "\<not> n < 128"
    then have "m div 64 = n div 64" "m mod 64 = n mod 64" "s = t" using assms by simp_all
    then show ?thesis using same by blast
  qed (use assms in simp_all)
qed

lemma map_unat_inj: "map unat bs = map unat cs \<longleftrightarrow> bs = (cs :: byte list)"
  by (rule inj_map_eq_map) (auto intro!: injI simp: word_unat_eq_iff)

lemma utf8_char_inj: "utf8_char c @ s = utf8_char d @ t \<Longrightarrow> c = d \<and> s = t"
proof -
  assume "utf8_char c @ s = utf8_char d @ t"
  then have "map unat (utf8_char c) @ map unat s = map unat (utf8_char d) @ map unat t" by (metis map_append)
  from unit_cases [OF this [unfolded utf8_units]] show ?thesis by (simp add: map_unat_inj)
qed

lemma zero_byte: "0 \<in> set (as_bytes s) \<longleftrightarrow> CHR 0x00 \<in> set s"
proof -
  have "0 \<in> set (utf8_char c) \<longleftrightarrow> c = CHR 0x00" for c
  proof -
    have "0 \<in> set (utf8_char c) \<longleftrightarrow> (0 :: nat) \<in> set (map unat (utf8_char c))" by (auto simp: image_iff unat_eq_0)
    also have "\<dots> \<longleftrightarrow> (of_char c :: nat) = of_char (CHR 0x00)" unfolding utf8_units by auto
    finally show ?thesis by (simp only: of_char_eq_iff)
  qed
  then show ?thesis by (auto simp: as_bytes_def)
qed

lemma as_bytes_inj: "as_bytes s = as_bytes t \<Longrightarrow> s = t"
proof (induction s arbitrary: t)
  case Nil
  then show ?case by (cases t) (auto simp: as_bytes_def utf8_char_def Let_def split: if_splits)
next
  case (Cons c s)
  then obtain d u where t: "t = d # u" by (cases t) (auto simp: as_bytes_def utf8_char_def Let_def split: if_splits)
  have "utf8_char c @ as_bytes s = utf8_char d @ as_bytes u" using Cons.prems by (simp add: t as_bytes_def)
  from utf8_char_inj [OF this] Cons.IH show ?case by (auto simp: t)
qed

lemma zero_ended: "0 \<notin> set a \<Longrightarrow> 0 \<notin> set b \<Longrightarrow> a @ 0 # s = b @ 0 # t \<Longrightarrow> a = b \<and> s = (t :: byte list)"
proof (induction a arbitrary: b)
  case Nil
  then show ?case by (cases b) auto
next
  case (Cons x a)
  then show ?case by (cases b) auto
qed

text \<open>
  A transfer payload determines its sender, its recipient and its amount, as long as no name
  contains the character that ends a name.
\<close>

lemma transfer_payload_determines:
  assumes "serialize_boc_transfer a b n = serialize_boc_transfer a' b' n'"
    and "CHR 0x00 \<notin> set (a @ b @ a' @ b')"
  shows "a = a' \<and> b = b' \<and> n = n'"
proof -
  have z: "0 \<notin> set (as_bytes a)" "0 \<notin> set (as_bytes b)" "0 \<notin> set (as_bytes a')" "0 \<notin> set (as_bytes b')"
    using assms(2) by (simp_all add: zero_byte)
  have "as_bytes a @ 0 # as_bytes b @ 0 # rev (to_be n) = as_bytes a' @ 0 # as_bytes b' @ 0 # rev (to_be n')"
    using assms(1) by (simp add: serialize_boc_transfer_def)
  from zero_ended [OF z(1,3) this]
  have a: "as_bytes a = as_bytes a'" and "as_bytes b @ 0 # rev (to_be n) = as_bytes b' @ 0 # rev (to_be n')" by simp_all
  from zero_ended [OF z(2,4) this(2)]
  have b: "as_bytes b = as_bytes b'" and n: "to_be n = to_be n'" by simp_all
  have "n = n'" using arg_cong [OF n, of "from_be :: bytes \<Rightarrow> u64"] by (simp add: from_be_to_be)
  then show ?thesis using as_bytes_inj [OF a] as_bytes_inj [OF b] by simp
qed

text \<open>With it, different deployments have the same payload.\<close>

lemma deploy_payload_ambiguous:
  "deploy_contract_boc (a @ [CHR 0x00] @ b) c = deploy_contract_boc a (b @ [CHR 0x00] @ c)"
  by (simp add: deploy_contract_boc_def as_bytes_def utf8_char_def)

text \<open>
  What the transfer command prints determines the transfer: its names, as long as they do not contain
  the character zero, its amount and the \<open>--rpc\<close> option, which is only printed. The command
  takes no key, so nothing is signed.
\<close>

lemma debug_bytes_sep: "debug_bytes b @ x = debug_bytes b' @ y \<longleftrightarrow> b = b' \<and> x = y"
  by (simp add: debug_bytes_def show_list_sep)

lemma transfer_output_determines:
  assumes "cli_main cr E (Transfer a b n rpc) = cli_main cr E (Transfer a' b' n' rpc')"
    and "CHR 0x00 \<notin> set (a @ b @ a' @ b')"
  shows "a = a' \<and> b = b' \<and> n = n' \<and> rpc = rpc'"
proof -
  have "debug_bytes (serialize_boc_transfer a b n) @ (case rpc of None \<Rightarrow> [] | Some r \<Rightarrow> '' rpc='' @ r) =
      debug_bytes (serialize_boc_transfer a' b' n') @ (case rpc' of None \<Rightarrow> [] | Some r \<Rightarrow> '' rpc='' @ r)"
    using assms(1) by (simp add: exit_ok_def boc_line_def)
  then have boc: "serialize_boc_transfer a b n = serialize_boc_transfer a' b' n'" and rpc: "rpc = rpc'"
    unfolding debug_bytes_sep by (auto split: option.splits)
  show ?thesis using transfer_payload_determines [OF boc assms(2)] rpc by simp
qed

text \<open>A wallet is printed exactly if its file was written, and then the words are in both.\<close>

lemma wallet_create_written:
  "wallet_create cr E dir = (written, r) \<Longrightarrow>
     (case r of Inl _ \<Rightarrow> written = []
      | Inr res \<Rightarrow> \<exists>json. json_pretty E res = Inr json \<and> written = [(dir @ ''/wallet.json'', json)] \<and> generate_12 E = Inr (mnemonic res))"
  by (auto simp: wallet_create_def mnemonic_words_def bindR_Inr Let_def split: sum.splits)

end
