(* ===== verification/Fuzz_Targets.thy ===== *)
theory Fuzz_Targets
  imports Vm_Safety Boc Block_Headers Blocks Consensus
begin

text \<open>
  \<open>fuzz/fuzz_targets\<close>: the three harnesses that feed arbitrary bytes to the decoder of bags of cells, to the
  decoder of block headers with the counting of votes, and to the virtual machine. A harness drops
  what it computes; here it is the result, so that a panic shows in it. The first two only call
  functions without a panic; the last one finds the panic of \<open>SUBBYTES\<close>.
\<close>

section \<open>The harnesses\<close>

definition fuzz_boc_parser :: "crypto \<Rightarrow> bytes \<Rightarrow> state_model_error + bag_of_cells \<times> nat" where
  "fuzz_boc_parser cr data = boc_from_bytes cr data"

text \<open>The flags of a header that decodes, and the vote with the verdict on the quorum where the bytes hold one.\<close>

definition fuzz_header_flags :: "bytes \<Rightarrow> (data_structure_error + blocks_error + unit)" where
  "fuzz_header_flags data = bindR (header_from_bytes data) (\<lambda>h. Inr (validate_flags (flags h)))"

definition fuzz_vote :: "crypto \<Rightarrow> bytes \<Rightarrow> ((consensus_error + unit) \<times> (consensus_error + unit)) option" where
  "fuzz_vote cr data =
     (if length data < 32 + 64 + 12 then None
      else case pk_decode_exact cr (take 32 data) of
        Inl _ \<Rightarrow> None
      | Inr public_key \<Rightarrow>
          (case sig_decode_exact (subslice 32 96 data) of
             Inl _ \<Rightarrow> None
           | Inr sg \<Rightarrow>
               (let vid = from_be (subslice 96 100 data);
                    stake = from_be (subslice 100 108 data);
                    v = \<lparr>validator_id = vid, v_public_key = public_key, actual_stake = stake\<rparr>;
                    vote = \<lparr>sig_validator_id = vid, sig_depth = 0, sig_signature = sg\<rparr>;
                    (t, added) = add_vote cr (quorum_new (shard_root BASIC) 0 stake) vote v
                in Some (added, verify_quorum t))))"

definition fuzz_block_header ::
  "crypto \<Rightarrow> bytes \<Rightarrow> (data_structure_error + blocks_error + unit) \<times> ((consensus_error + unit) \<times> (consensus_error + unit)) option" where
  "fuzz_block_header cr data = (fuzz_header_flags data, fuzz_vote cr data)"

definition fuzz_message :: message where
  "fuzz_message =
     (let address = FullAddress BASIC 0 in
      \<lparr>msg_type = Internal, src_address = address, dest_address = address, amount_nanos = 0,
       extra_currencies = [], created_lt = 0, body_cell_hash = 0\<rparr>)"

definition fuzz_context :: execution_context where
  "fuzz_context = \<lparr>ctx_gen_utime = 0, ctx_start_lt = 0, ctx_end_lt = 0, ctx_gas_limit = 1024\<rparr>"

text \<open>The first bytes of the input that fit a cell are the code.\<close>

definition fuzz_tvm_execution :: "crypto \<Rightarrow> profile \<Rightarrow> nat \<Rightarrow> bytes \<Rightarrow> run_outcome option" where
  "fuzz_tvm_execution cr p fuel data =
     (case cell_new (take (min (length data) MAX_CELL_DATA_BYTES) data) [] of
        Inl _ \<Rightarrow> Some Panicked
      | Inr code \<Rightarrow>
          (case cell_new [] [] of
             Inl _ \<Rightarrow> Some Panicked
           | Inr data_cell \<Rightarrow> execute cr p fuel code data_cell fuzz_message fuzz_context))"

section \<open>What they show\<close>

text \<open>On every input the machine returns within 1025 steps, and the cells of the harness are within their bounds.\<close>

theorem tvm_fuzz_returns: "\<exists>r. \<forall>fuel. fuzz_tvm_execution cr p (1025 + fuel) data = Some r"
proof -
  have "ctx_gas_limit fuzz_context \<noteq> - 1" by (simp add: fuzz_context_def)
  from new_run_returns [OF this, of cr p] show ?thesis
    by (simp add: fuzz_tvm_execution_def cell_new_def new_with_special_def MAX_CELL_DATA_BYTES_def execute_def fuzz_context_def)
qed

text \<open>Reading whole bytes at a byte boundary.\<close>

lemma read_aligned:
  assumes "pc_bits s = 8 * k" "k < length (data_bytes (current_code s))"
  shows "read_uint8 s = (Inr (data_bytes (current_code s) ! k), s\<lparr>pc_bits := 8 * Suc k\<rparr>)"
  using assms by (simp add: read_uint8_def code_bits_def Let_def)

lemma read_bytes_aligned:
  "pc_bits s = 8 * k \<Longrightarrow> k + n \<le> length (data_bytes (current_code s)) \<Longrightarrow>
     read_bytes_exact n s = (Inr (take n (drop k (data_bytes (current_code s)))), s\<lparr>pc_bits := 8 * (k + n)\<rparr>)"
proof (induction n arbitrary: s k)
  case (Suc n)
  then show ?case
    using Suc.IH [of "s\<lparr>pc_bits := 8 * Suc k\<rparr>" "Suc k"]
    by (simp add: bnd_def ret_def read_aligned [OF Suc.prems(1)] Cons_nth_drop_Suc [symmetric] del: mult_Suc_right)
qed (simp add: ret_def)

text \<open>
  An empty byte string, the offset -1 and the length 1: the end of the slice does not fit \<open>usize\<close>. A
  debug build panics on the sum; in a release build the sum is zero, passes the check, and the slice panics.
\<close>

definition subbytes_code :: bytes where
  "subbytes_code = [0x09, 0, 0] @ [0x08, 1] @ encode (- 1 :: u256) @ [0x08, 1] @ encode (1 :: u256) @ [0x32]"

lemma subbytes_code_at:
  "length subbytes_code = 72" "subbytes_code ! 0 = 0x09" "subbytes_code ! 1 = 0" "subbytes_code ! 2 = 0"
  "subbytes_code ! 3 = 0x08" "subbytes_code ! 4 = 1" "take 32 (drop 5 subbytes_code) = encode (- 1 :: u256)"
  "subbytes_code ! 37 = 0x08" "subbytes_code ! 38 = 1" "take 32 (drop 39 subbytes_code) = encode (1 :: u256)"
  "subbytes_code ! 71 = 0x32"
  by (simp_all add: subbytes_code_def nth_append length_encode)

lemma vm_step_aligned:
  assumes "pc_bits s = 8 * k" "k < length (data_bytes (current_code s))"
  shows "vm_step cr p s = exec_op cr p (data_bytes (current_code s) ! k) (s\<lparr>pc_bits := 8 * Suc k\<rparr>)"
  using assms by (simp add: vm_step_def bnd_def read_aligned [OF assms] code_bits_def)

lemmas vm_parts = bnd_def ret_def reads_def modifies_def raise_def panic_def lift_r_def vm_pop_def vm_push_def
  pop_integer_def pop_i128_def pop_bytes_def MAX_STACK_DEPTH_def Let_def

lemma paid: "unat (gas_used s) + unat g \<le> unat (gas_limit s) \<Longrightarrow> consume_gas g s = (Inr (), s\<lparr>gas_used := gas_used s + g\<rparr>)"
  using unsigned_less [of "gas_limit s", where ?'a = nat]
  by (simp add: consume_gas_def saturating_add_def Let_def word_less_nat_alt unat_add_no_overflow)

lemma pushint_step:
  assumes "pc_bits s = 8 * k" "k + 34 \<le> length (data_bytes (current_code s))" "data_bytes (current_code s) ! k = 0x08"
    and "take 32 (drop (k + 2) (data_bytes (current_code s))) = encode w"
    and "length (stack s) < 1023" "unat (gas_used s) + 1 \<le> unat (gas_limit s)"
  shows "vm_step cr p s = (Inr True, s\<lparr>pc_bits := 8 * (k + 34), stack := VInteger w # stack s, gas_used := gas_used s + 1\<rparr>)"
  using assms
  by (simp add: vm_step_aligned [where k = k] exec_op_def op_pushint_def vm_parts paid read_aligned [where k = "Suc k"]
      read_bytes_aligned [where k = "k + 2"] del: read_bytes_exact.simps)

theorem tvm_fuzz_panics: "fuzz_tvm_execution cr p (1025 + fuel) subbytes_code = Some Panicked"
proof -
  let ?s = "\<lambda>k st g. (interpreter_new (code_cell subbytes_code) (code_cell []) fuzz_message fuzz_context)
     \<lparr>pc_bits := 8 * k, stack := st, gas_used := g\<rparr>"
  note at = subbytes_code_at subbytes_code_at [unfolded One_nat_def]
  have s1: "vm_step cr p (?s 0 [] 0) = (Inr True, ?s 3 [VBytes []] 1)"
    by (simp add: vm_step_aligned [where k = 0] interpreter_new_def code_cell_def at exec_op_def op_pushbytes_def
       vm_parts paid read_uint16_def read_aligned [where k = 1] read_aligned [where k = 2] registers_default_def fuzz_context_def
       div_ceil_def gas_of_def)
  have s2: "vm_step cr p (?s 3 [VBytes []] 1) = (Inr True, ?s 37 [VInteger (- 1), VBytes []] 2)"
    by (subst pushint_step [where k = 3 and w = "- 1"])
      (simp_all add: interpreter_new_def code_cell_def at registers_default_def fuzz_context_def)
  have s3: "vm_step cr p (?s 37 [VInteger (- 1), VBytes []] 2) = (Inr True, ?s 71 [VInteger 1, VInteger (- 1), VBytes []] 3)"
    by (subst pushint_step [where k = 37 and w = 1])
      (simp_all add: interpreter_new_def code_cell_def at registers_default_def fuzz_context_def)
  have huge: "unat (ucast (ucast (- 1 :: u256) :: i128) :: u64) = 2 ^ 64 - 1"
  proof -
    have "ucast (- 1 :: u256) = (- 1 :: i128)" "ucast (- 1 :: i128) = (- 1 :: u64)"
      by (rule bit_word_eqI; simp add: bit_simps)+
    then show ?thesis by (simp add: unat_max_word)
  qed
  have s4: "\<exists>s. vm_step cr p (?s 71 [VInteger 1, VInteger (- 1), VBytes []] 3) = (Inl Panic, s)"
    by (simp add: vm_step_aligned [where k = 71] interpreter_new_def code_cell_def at exec_op_def op_subbytes_def
        vm_parts paid huge registers_default_def fuzz_context_def)
  have "run cr p (Suc (Suc (Suc (Suc (1021 + fuel))))) (?s 0 [] 0) = Some Panicked"
    using s4 by (elim exE) (simp only: run.simps s1 s2 s3 prod.case sum.case bool.case vm_error.case)
  then show ?thesis
    by (simp add: fuzz_tvm_execution_def execute_def cell_new_def new_with_special_def MAX_CELL_DATA_BYTES_def at
        code_cell_def interpreter_new_def eval_nat_numeral)
qed

text \<open>The quorum of a single vote is its own stake: it is reached if the signature is accepted, or if the stake is zero.\<close>

theorem fuzz_vote_quorum:
  "fuzz_vote cr data = Some (added, verdict) \<Longrightarrow>
     is_ok verdict \<longleftrightarrow> is_ok added \<or> (from_be (subslice 100 108 data) :: u64) = 0"
  using unsigned_less [where ?'a = nat and w = "from_be (subslice 100 108 data) :: u64"]
  by (auto simp: fuzz_vote_def add_vote_def quorum_new_def verify_quorum_def has_quorum_def two_thirds_nat saturating_add_def
      unat_eq_0 Let_def split: if_splits sum.splits)

end
