(* ===== verification/Spec2Isabelle.thy ===== *)
theory Spec2Isabelle
  imports State_Tree Messages Block_Headers Admission Output_Queue Router Blocks Sync Dictionary Vm_Ops Vm_Typing
    Consensus Elections Sharding Economics Payment_Channels
    Transfers Dht_Network Cell_Counts Genesis Daemon Gateway Client_Tools Fuzz_Targets
begin

text \<open>
  The ONX node: a verification development of the Rust workspace under \<open>src/\<close>.

  \<^bold>\<open>The program.\<close> ONX is a sharded proof-of-stake ledger. The protocol crates (\<open>src/crates/protocol\<close>) define
  its data and rules: primitive types and codecs, addresses, messages and block headers
  (onx-primitives, onx-data-structures); cells, bags of cells, account states, the Merkle trie of a shard
  and its durable store (onx-state-model); admission, output queues and routing of messages
  (onx-transactions); validity and synchronization of blocks (onx-blocks); the virtual machine
  (onx-execution); quorums, the consensus engine and elections (onx-consensus); splits and merges of
  shards (onx-sharding); fees, rewards and slashing (onx-economics); payment channels
  (onx-payment-channels). The node crates (\<open>src/crates/node\<close>) add the network (onx-networking: ADNL
  packets, RLDP transfers, the hash table), the gateway for clients (onx-rpc), metrics
  (onx-telemetry) and the daemon (onxd); the tools (\<open>src/crates/tooling\<close>) generate a genesis and build
  payloads; \<open>src/contracts/system\<close> holds the system contracts.

  \<^bold>\<open>Conventions.\<close> A fallible function returns \<open>'e + 'a\<close>, the error on the left, and \<open>?\<close> is \<^const>\<open>bindR\<close>. A struct
  is a record, an enum a datatype, an integer a word of its width; \<open>usize\<close> is a natural number,
  with its width written out where it overflows; arrays of 32 and 64 bytes are words of 256
  and 512 bits. A \<open>BTreeMap\<close> is an association list with increasing keys (theory Ordered_Maps), a \<open>HashMap\<close> a
  function to options, and the order in which it is iterated an argument where it matters.
  Where a plain operator can overflow, the build profile is an argument: a debug build panics and
  a release build wraps; panics are values (\<open>None\<close>, or a constructor of their own). Hashing,
  signatures, curve operations, ciphers, sockets, clocks and other code that is not
  under \<open>src/\<close> are arguments (\<open>crypto\<close>, \<open>cipher\<close>, \<open>transport\<close>, \<open>dht_env\<close>, \<open>json_ops\<close>, \<open>daemon_env\<close>); what a theorem needs
  of them is a hypothesis of that theorem.

  \<^bold>\<open>Theories.\<close>
    \<^item> Prelude, Codecs, Ordered_Maps, Machines, Texts: results and Rust's checked and saturating arithmetic; the locales
      \<open>fixed_codec\<close> and \<open>stream_codec\<close> for canonical encodings, \<open>map_ops\<close> for maps, \<open>component\<close> for stateful
      components (what one step keeps holds along every run) and \<open>journaled\<close> for transactions that
      a crash may interrupt; texts of the standard library. Each locale is interpreted
      by the components that provide it.
    \<^item> Primitives, Bits, Addresses, Messages, Block_Headers: onx-primitives and onx-data-structures; the encodings are
      canonical, and shards contain the accounts with their prefix.
    \<^item> Cells, Accounts, Boc, State_Tree: onx-state-model without the store; the lifecycle of accounts, the check of
      the cell graph, the root that commits to the accounts.
    \<^item> Journal, Storage, Storage_Commit, Cell_Counts: \<open>storage.rs\<close>. A directory is a map from paths to contents; a
      crash stops between two operations on files, where commits are atomic and durable, or within the write of one,
      where they are once the journal is complete and a torn journal is applied as far as it goes; a committed block is
      read back, and the reference counts keep every cell that a root in use reaches.
    \<^item> Admission, Output_Queue, Router: onx-transactions; messages are admitted once, lanes are FIFO, routes are shortest.
    \<^item> Blocks, Sync: onx-blocks; the index of headers holds descendants of its anchors only.
    \<^item> Dictionary, Vm_Types, Interpreter, Vm_Safety, Vm_Typing, Vm_Ops: onx-execution. The Patricia dictionaries
      implement finite maps; executions return within the gas they are given and are type sound (the
      states they go through are the step relation \<open>vm_next\<close>); arithmetic is exact in the range of \<open>i128\<close>, whatever
      width an instruction declares.
    \<^item> Consensus, Elections: onx-consensus; certificates, agreement unless a third of the stake signs twice in one round,
      progress with an honest quorum, conservation of stake.
    \<^item> Sharding, Economics, Payment_Channels: the crates of these names; splits partition a state and merges restore it,
      rewards are distributed to the last unit, channel states are backed by both signatures.
    \<^item> Networking, Adnl, Rldp, Rldp_Rounds, Transfers, Dht, Dht_Network: onx-networking; packets between peers, reassembly in any
      order, what an acknowledged transfer means, the frames a transfer transmits before it times out, a payload sent over the encrypted channel of
      two nodes (the locales \<open>datagram_inbox\<close> and \<open>datagram_outbox\<close>, interpreted on the ADNL node), the
      routing table and the record store, and a network of daemons in which every lookup finds what
      one of them published, as long as no other record is stored under its key. The loops that wait for datagrams are partial functions, or bounded
      by the rounds of the code.
    \<^item> Node_Config, Telemetry, Daemon: onxd and onx-telemetry; the command line over the configuration file, the start of the
      node and the ticks of its network task.
    \<^item> Gateway: onx-rpc. Genesis: onx-genesis, which directories and files a run leaves, also where it fails
      on the way, and the round trip from the generated configurations to
      the command line of onxd. Client_Tools: onx-cli and the system contracts.
    \<^item> Error_Texts: the texts of the errors of every crate; a text determines its error. Fuzz_Targets: the harnesses
      under \<open>fuzz\<close>; the one for the machine finds a panic.
    \<^item> This theory: the properties that span crates.

  \<^bold>\<open>Bounds and fuel.\<close> Only the run of the interpreter has fuel: \<open>run\<close>, \<open>execute\<close> and what calls them (the proof
  check of the payment channels, the fuzz harness) take a number of steps, and \<open>None\<close>
  is a run that needs more of them. \<open>execute\<close> installs no exception handler, so every step that goes on costs gas and
  the gas limit plus one is enough, which \<open>execute_terminates\<close> states together with the independence of the
  result from the fuel beyond; with a handler installed a run may not end (\<open>concat_handler_diverges\<close>).
  Elsewhere recursion that is not structural has a termination proof: the
  depth of the trie is 256 bits, the search of a cell graph and the adjustment of reference counts
  visit each hash once, a lookup asks each contact once. The waiting loops of RLDP are partial
  functions to options, where \<open>None\<close> is a loop that does not end.

  \<^bold>\<open>What the theorems do not say.\<close> The findings of the manifest list where the code differs from what its comments and
  specifications promise; the lemmas they name show it on the model, among them the acknowledgements no
  peer can decode, packets with forged senders, the reference counts that
  never reach zero, the missing lock across rounds, and the idle daemon.

  \<^bold>\<open>Not modelled.\<close> The web server that runs the routes of onx-rpc, the sockets and the encoder of the
  metrics, and other third-party code, which are parameters; the parser of the command line of onx-cli;
  failures of the store's file system other than a crash, with their texts, and its lock; the structures
  \<open>OverlayAnnouncement\<close> and \<open>RldpChunk\<close> and the request types of onx-rpc, which nothing uses. No code of the repository
  casts votes or drives an engine from the network, so a run of several engines has no model
  beyond the votes they are fed; the hash table has no transport in the repository besides the
  simulated one of its tests, which Dht_Network models, and that of the daemon, which answers every call alike.
\<close>

section \<open>Elections and consensus\<close>

text \<open>
  C4. What an election locks secures what the elected finalize. The validators an election returns
  start a consensus engine, provided there are at most as many as identifiers and some stake is
  locked; each has the key of a candidate and locks at most what that candidate proposed. Whatever
  the engine then receives, a block it finalizes has a valid commit signature of validators that
  hold two thirds of the stake the election locked, capped where the code saturates the sum.
\<close>

theorem elected_stake_secures_finality:
  assumes "run_election candidates cfg = Inr r" "validator_cap cfg \<le> 2 ^ 32" "stake_sum (r_validators r) \<noteq> 0"
  shows "(\<exists>e. engine_new sh h (r_validators r) now ts = Inr e \<and>
      (\<forall>qs f. e_finalized (fst (run_ops (engine_step cr) e qs)) = Some f \<longrightarrow>
         2 * min (stake_sum (r_validators r)) (2 ^ 64 - 1) \<le>
           3 * stake_sum (filter (\<lambda>w. \<exists>sg. commit_signed cr sh h f w sg) (r_validators r)))) \<and>
    (\<forall>w \<in> set (r_validators r). \<exists>c \<in> set candidates. v_public_key w = c_public_key c \<and> actual_stake w \<le> proposed_stake c)"
proof -
  obtain e where e: "engine_new sh h (r_validators r) now ts = Inr e"
    using engine_new_starts [OF elected_ids [OF assms(1,2)] assms(3)] by blast
  have "2 * min (stake_sum (r_validators r)) (2 ^ 64 - 1) \<le>
      3 * stake_sum (filter (\<lambda>w. \<exists>sg. commit_signed cr sh h f w sg) (r_validators r))"
    if f: "e_finalized (fst (run_ops (engine_step cr) e qs)) = Some f" for qs f
  proof -
    note run = run_finalized [OF e refl f]
    have "\<exists>sg. commit_signed cr sh h f w sg"
      if "w \<in> set (r_validators r)" "validator_id w \<in> voter_id ` set (commit_votes f)" for w
      using run(3,5) that by (metis imageE inj_onD)
    then have "stake_sum (filter (\<lambda>w. validator_id w \<in> voter_id ` set (commit_votes f)) (r_validators r)) \<le>
        stake_sum (filter (\<lambda>w. \<exists>sg. commit_signed cr sh h f w sg) (r_validators r))"
      by (intro stake_sum_filter_mono) blast
    then show ?thesis using run(4) by linarith
  qed
  then show ?thesis using e elected_from_candidates [OF assms(1)] by blast
qed

theorem elected_stake_secures_finality_witness:
  "\<exists>e. engine_new (shard_root 0) 5 (r_validators sample_election) 0 timeouts_default = Inr e"
proof -
  have "stake_sum (r_validators sample_election) \<noteq> 0" by (simp add: sample_election_def stake_sum_def)
  from elected_stake_secures_finality [OF sample_election_run _ this, of "shard_root 0" 5 0 timeouts_default toy_crypto]
  show ?thesis by auto
qed

section \<open>From the genesis to the running nodes\<close>

text \<open>
  C39. The network the genesis generator sets up runs, and its nodes stay alone. The files are those of
  the generator: a run of it that succeeds has written exactly them. Where they are in place and the
  directories, the metrics, the address, the socket and the signal handler of a node are available, and
  the path of the output directory is not empty, has no line break and does not begin with a quotation
  mark, the process started with the configuration of one of the four nodes runs
  until it is ended and exits with code zero, however long and at whatever times its task is woken.
  But it finalizes no block and reports the height zero, its rounds only time out, at most one for each
  time, it has no contacts and no sessions, while it reports one connected peer.
\<close>

theorem generated_node_runs_alone:
  fixes env :: "('r, 'f, 'a) daemon_env"
  assumes "newline \<notin> set dir" "dir \<noteq> []" "hd dir \<noteq> CHR 0x22" "idx < 4"
    and "\<forall>path. env_read env path = map_option as_bytes (map_of (genesis_files config dir) path)"
    and "env_create_dir env (''target/onxd-node-'' @ show_nat idx)"
    and "is_ok (snd (open_store (env_storage env (''target/onxd-node-'' @ show_nat idx))))"
    and "is_ok (snd (telemetry_new (env_register env) (env_as_f64 env) (env_registry env)))"
    and "env_parse_addr env (''127.0.0.1:'' @ show_nat (10000 + idx * 1000)) = Some addr" "env_bind env addr" "env_sigterm env"
  shows "(\<exists>t n. onxd_main cr env (map_of (genesis_files config dir))
      [''onxd'', ''--config'', dir @ ''/node-'' @ show_nat idx @ ''.toml''] nows = (0, Inr (Inr (Ran t n))) \<and>
    e_finalized (net_engine n) = None \<and> block_height t = env_as_f64 env 0 \<and>
    unat (e_round (net_engine n)) \<le> length nows \<and>
    concat (buckets (net_dht n)) = [] \<and> sessions (net_adnl n) = Map.empty \<and>
    connected_peer_count t = env_as_f64 env 1) \<and>
    (\<forall>io path dirs files. generate_genesis io config path = (dirs, files, Inr ()) \<longrightarrow> files = genesis_files config (path_text path))"
proof -
  let ?cfg = "boot_node (dir @ ''/genesis.boc'') idx"
  have "as_bytes (genesis_text config) \<noteq> []" using genesis_file as_bytes_inj [of "genesis_text config" "[]"] by (auto simp: as_bytes_def)
  then have "check_genesis env (bootstrap_genesis ?cfg) = Inr ()"
    using assms(5) genesis_file by (simp add: check_genesis_def boot_node_def)
  then have "\<exists>out. run_daemon cr env ?cfg nows = Inr out"
    using assms(6-11) by (simp add: run_daemon_def boot_node_def start_network_result is_ok_iff Let_def) auto
  then obtain out where out: "run_daemon cr env ?cfg nows = Inr out" by blast
  have "network_enabled ?cfg" "length (peers ?cfg) = 1" by (simp_all add: boot_node_def)
  then have "\<exists>t n. onxd_main cr env (map_of (genesis_files config dir))
      [''onxd'', ''--config'', dir @ ''/node-'' @ show_nat idx @ ''.toml''] nows = (0, Inr (Inr (Ran t n))) \<and>
    e_finalized (net_engine n) = None \<and> block_height t = env_as_f64 env 0 \<and>
    unat (e_round (net_engine n)) \<le> length nows \<and>
    concat (buckets (net_dht n)) = [] \<and> sessions (net_adnl n) = Map.empty \<and>
    connected_peer_count t = env_as_f64 env 1"
    using daemon_runs_alone [OF _ out] out generated_config [OF assms(1-4)] by (auto simp: onxd_main_def)
  moreover have "\<forall>io path dirs files. generate_genesis io config path = (dirs, files, Inr ()) \<longrightarrow> files = genesis_files config (path_text path)"
    using generate_genesis_files(2) by blast
  ultimately show ?thesis by blast
qed

definition boot_env :: "(string list, 64 word, string) daemon_env" where
  "boot_env = sample_env\<lparr>env_read := \<lambda>path. map_option as_bytes (map_of (genesis_files genesis_config_default ''/g'') path)\<rparr>"

theorem generated_node_runs_alone_witness:
  "\<exists>t n. onxd_main toy_crypto boot_env (map_of (genesis_files genesis_config_default ''/g''))
      [''onxd'', ''--config'', ''/g/node-2.toml''] [1, 5, 9] = (0, Inr (Inr (Ran t n))) \<and>
    e_finalized (net_engine n) = None \<and> connected_peer_count t = 1 \<and> sessions (net_adnl n) = Map.empty"
proof -
  have two: "show_nat 2 = ''2''" by (simp add: show_nat.simps digit_char_def char_of_def bit_0)
  have store: "is_ok (snd (open_store (env_storage boot_env p)))" for p
    by (simp add: boot_env_def sample_env_def open_store_def recover_def is_ok_def)
  have metrics: "is_ok (snd (telemetry_new (env_register boot_env) (env_as_f64 boot_env) (env_registry boot_env)))"
    by (simp add: boot_env_def sample_env_def telemetry_new_def METRIC_NAMES_def is_ok_def)
  from generated_node_runs_alone [OF _ _ _ _ _ _ store metrics, of "''/g''" 2 genesis_config_default
      "''127.0.0.1:'' @ show_nat (10000 + 2 * 1000)" toy_crypto "[1, 5, 9]"]
  show ?thesis by (auto simp: boot_env_def sample_env_def two)
qed

end
